(* ===== verification/Prelude.thy ===== *)
theory Prelude
  imports Main "HOL-Library.Word" "HOL-Library.Monad_Syntax"
begin

text \<open>
  Shared vocabulary of the development.

  Rust code is modelled by functions into \<open>'a option\<close>: \<^term>\<open>None\<close> is a panic (a failed
  \<^verbatim>\<open>assert!\<close>, an \<^verbatim>\<open>unwrap\<close> of \<^verbatim>\<open>None\<close>, an index out of range) or, where the text says so, a spin
  lock that is never released.  A Rust \<^verbatim>\<open>Option\<close> result is an inner option.  State is passed
  explicitly, and the \<open>do\<close> notation of \<^verbatim>\<open>Monad_Syntax\<close> keeps the order of the source.

  Integers.  The kernels and the packer are built with \<^verbatim>\<open>--release\<close> (overflow checks off), so
  arithmetic wraps.  Address arithmetic uses \<open>64 word\<close>; the file system's \<^verbatim>\<open>u32\<close> values are
  naturals with the reduction modulo \<open>2 ^ 32\<close> written out at every cast and operation that can
  leave the range.

  The theory also fixes the byte order: \<open>le_bytes\<close> and \<open>un_le\<close> are the little-endian encoding
  that the target's reinterpreting pointer casts rely on, \<open>get_le\<close> and \<open>set_le\<close> are reads and
  writes of the \<open>i\<close>-th \<open>k\<close>-byte element of a byte array.
\<close>

type_synonym u8 = "8 word"
type_synonym u64 = "64 word"

text \<open>Wrapping \<^verbatim>\<open>u32\<close> addition and subtraction.\<close>

definition add32 :: "nat \<Rightarrow> nat \<Rightarrow> nat" where
  "add32 a b = (a + b) mod 2 ^ 32"

definition sub32 :: "nat \<Rightarrow> nat \<Rightarrow> nat" where
  "sub32 a b = (a + 2 ^ 32 - b) mod 2 ^ 32"

lemma sub32_le: "b \<le> a \<Longrightarrow> a < 2 ^ 32 \<Longrightarrow> sub32 a b = a - b"
  by (simp add: sub32_def mod_if)

lemma add32_lt: "a + b < 2 ^ 32 \<Longrightarrow> add32 a b = a + b"
  by (simp add: add32_def)

lemma ceil_div: "0 < n \<Longrightarrow> (k + n - 1) div n = k div n + (if k mod n = 0 then 0 else 1)" for k n :: nat
proof -
  assume n: "0 < n"
  define q r where "q = k div n" and "r = k mod n"
  have k: "k = q * n + r" and r: "r < n" using n by (auto simp: q_def r_def)
  have "k + n - 1 = (r + n - 1) + q * n" using n k by simp
  then have "(k + n - 1) div n = q + (r + n - 1) div n" using n by (simp only: div_mult_self1)
  moreover have "(r + n - 1) div n = (if r = 0 then 0 else 1)"
  proof (cases "r = 0")
    case False
    then obtain j where "r = Suc j" by (cases r) auto
    then show ?thesis using r n by (simp add: div_add_self2)
  qed (use n in simp)
  ultimately show ?thesis by (simp add: q_def r_def)
qed

named_theorems panic_simps \<open>when a fallible primitive of the model returns\<close>
named_theorems bytes_simps \<open>laws of little-endian element access\<close>

subsection \<open>Fallible primitives\<close>

definition rassert :: "bool \<Rightarrow> unit option" where
  "rassert b = (if b then Some () else None)"

definition index :: "'a list \<Rightarrow> nat \<Rightarrow> 'a option" where
  "index xs i = (if i < length xs then Some (xs ! i) else None)"

definition index_set :: "'a list \<Rightarrow> nat \<Rightarrow> 'a \<Rightarrow> 'a list option" where
  "index_set xs i v = (if i < length xs then Some (xs[i := v]) else None)"

definition slice :: "'a list \<Rightarrow> nat \<Rightarrow> nat \<Rightarrow> 'a list option" where
  "slice xs a b = (if a \<le> b \<and> b \<le> length xs then Some (take (b - a) (drop a xs)) else None)"

definition splice_at :: "'a list \<Rightarrow> nat \<Rightarrow> 'a list \<Rightarrow> 'a list" where
  "splice_at xs a ys = take a xs @ ys @ drop (a + length ys) xs"

definition slice_copy :: "'a list \<Rightarrow> nat \<Rightarrow> nat \<Rightarrow> 'a list \<Rightarrow> 'a list option" where
  "slice_copy xs a b ys =
     (if a \<le> b \<and> b \<le> length xs \<and> length ys = b - a then Some (splice_at xs a ys) else None)"

fun find_idx :: "('a \<Rightarrow> bool) \<Rightarrow> 'a list \<Rightarrow> nat option" where
  "find_idx p [] = None"
| "find_idx p (x # xs) = (if p x then Some 0 else map_option Suc (find_idx p xs))"

lemma assert_bind [panic_simps]: "(rassert b \<bind> f = Some r) \<longleftrightarrow> b \<and> f () = Some r"
  by (simp add: rassert_def)

lemma assert_True [simp]: "rassert True = Some ()"
  by (simp add: rassert_def)

lemma assert_False [simp]: "rassert False = None"
  by (simp add: rassert_def)

lemma index_Some [panic_simps]: "index xs i = Some v \<longleftrightarrow> i < length xs \<and> v = xs ! i"
  by (auto simp: index_def)

lemma index_eq [simp]: "i < length xs \<Longrightarrow> index xs i = Some (xs ! i)"
  by (simp add: index_def)

lemma index_set_Some [panic_simps]: "index_set xs i v = Some ys \<longleftrightarrow> i < length xs \<and> ys = xs[i := v]"
  by (auto simp: index_set_def)

lemma index_set_eq [simp]: "i < length xs \<Longrightarrow> index_set xs i v = Some (xs[i := v])"
  by (simp add: index_set_def)

lemma slice_Some [panic_simps]:
  "slice xs a b = Some ys \<longleftrightarrow> a \<le> b \<and> b \<le> length xs \<and> ys = take (b - a) (drop a xs)"
  by (auto simp: slice_def)

lemma slice_copy_Some [panic_simps]:
  "slice_copy xs a b ys = Some zs \<longleftrightarrow>
     a \<le> b \<and> b \<le> length xs \<and> length ys = b - a \<and> zs = splice_at xs a ys"
  by (auto simp: slice_copy_def)

lemma length_splice_at [simp]: "a + length ys \<le> length xs \<Longrightarrow> length (splice_at xs a ys) = length xs"
  by (simp add: splice_at_def)

lemma splice_at_Nil [simp]: "splice_at xs a [] = xs"
  by (simp add: splice_at_def)

lemma nth_splice_at:
  assumes "a + length ys \<le> length xs" and "i < length xs"
  shows "splice_at xs a ys ! i = (if a \<le> i \<and> i < a + length ys then ys ! (i - a) else xs ! i)"
  using assms by (auto simp: splice_at_def nth_append min_def)

lemma take_drop_splice_same:
  "a + length ys \<le> length xs \<Longrightarrow> take (length ys) (drop a (splice_at xs a ys)) = ys"
  by (simp add: splice_at_def)

lemma take_drop_splice_other:
  assumes "a + length ys \<le> length xs" and "b + n \<le> length xs" and "b + n \<le> a \<or> a + length ys \<le> b"
  shows "take n (drop b (splice_at xs a ys)) = take n (drop b xs)"
  using assms by (intro nth_equalityI) (auto simp: nth_splice_at)

lemma splice_splice_same:
  "a + length ys \<le> length xs \<Longrightarrow> length zs = length ys \<Longrightarrow> splice_at (splice_at xs a ys) a zs = splice_at xs a zs"
  by (simp add: splice_at_def)

lemma splice_id: "a + n \<le> length xs \<Longrightarrow> splice_at xs a (take n (drop a xs)) = xs"
  by (rule nth_equalityI) (auto simp: nth_splice_at)

lemma splice_splice_append:
  assumes "a + length ys + length zs \<le> length xs"
  shows "splice_at (splice_at xs a ys) (a + length ys) zs = splice_at xs a (ys @ zs)"
  using assms by (intro nth_equalityI) (auto simp: nth_splice_at nth_append)

subsection \<open>First index that satisfies a predicate\<close>

lemma find_idx_None: "find_idx p xs = None \<longleftrightarrow> (\<forall>x \<in> set xs. \<not> p x)"
  by (induction xs) auto

lemma find_idx_Some:
  "find_idx p xs = Some i \<longleftrightarrow> i < length xs \<and> p (xs ! i) \<and> (\<forall>j < i. \<not> p (xs ! j))"
proof (induction xs arbitrary: i)
  case Nil
  then show ?case by simp
next
  case (Cons x xs)
  then show ?case by (cases i) (auto simp: All_less_Suc2)
qed

lemma find_idx_SomeD:
  assumes "find_idx p xs = Some i"
  shows "i < length xs" and "p (xs ! i)" and "\<And>j. j < i \<Longrightarrow> \<not> p (xs ! j)"
  using assms by (auto simp: find_idx_Some)

subsection \<open>Little-endian bytes\<close>

fun le_bytes :: "nat \<Rightarrow> nat \<Rightarrow> u8 list" where
  "le_bytes 0 v = []"
| "le_bytes (Suc n) v = word_of_nat v # le_bytes n (v div 256)"

fun un_le :: "u8 list \<Rightarrow> nat" where
  "un_le [] = 0"
| "un_le (b # bs) = unat b + 256 * un_le bs"

definition get_le :: "nat \<Rightarrow> u8 list \<Rightarrow> nat \<Rightarrow> nat" where
  "get_le k bs i = un_le (take k (drop (k * i) bs))"

definition set_le :: "nat \<Rightarrow> u8 list \<Rightarrow> nat \<Rightarrow> nat \<Rightarrow> u8 list" where
  "set_le k bs i v = splice_at bs (k * i) (le_bytes k v)"

lemma length_le_bytes [simp]: "length (le_bytes n v) = n"
  by (induction n arbitrary: v) auto

lemma unat_u8_lt: "unat (b :: u8) < 256"
  using unsigned_less [of b] by simp

lemma un_le_bound: "un_le bs < 256 ^ length bs"
proof (induction bs)
  case Nil
  then show ?case by simp
next
  case (Cons b bs)
  have "unat b < 256" by (rule unat_u8_lt)
  with Cons show ?case by simp
qed

lemma un_le_le_bytes: "un_le (le_bytes n v) = v mod 256 ^ n"
proof (induction n arbitrary: v)
  case 0
  then show ?case by simp
next
  case (Suc n)
  have "v mod 256 ^ Suc n = v mod 256 + 256 * (v div 256 mod 256 ^ n)"
    by (simp add: mod_mult2_eq)
  with Suc show ?case by (simp add: unat_of_nat)
qed

lemma le_bytes_un_le: "length bs = n \<Longrightarrow> le_bytes n (un_le bs) = bs"
proof (induction bs arbitrary: n)
  case Nil
  then show ?case by simp
next
  case (Cons b bs)
  have *: "unat b < 256" by (rule unat_u8_lt)
  have "(256 :: u8) = 0" by simp
  then have "256 * (word_of_nat (un_le bs) :: u8) = 0" by (metis mult_zero_left)
  with * Cons show ?case by auto
qed

lemma un_le_zeros [simp]: "un_le (replicate n 0) = 0"
  by (induction n) auto

lemma un_le_inj: "un_le xs = un_le ys \<Longrightarrow> length xs = length ys \<Longrightarrow> xs = ys"
  by (metis le_bytes_un_le)

lemma length_set_le [simp, bytes_simps]:
  "k * i + k \<le> length bs \<Longrightarrow> length (set_le k bs i v) = length bs"
  by (simp add: set_le_def)

lemma get_le_bound: "k * i + k \<le> length bs \<Longrightarrow> get_le k bs i < 256 ^ k"
  using un_le_bound [of "take k (drop (k * i) bs)"] by (simp add: get_le_def)

lemma get_set_le_same [bytes_simps]:
  "k * i + k \<le> length bs \<Longrightarrow> get_le k (set_le k bs i v) i = v mod 256 ^ k"
  using take_drop_splice_same [of "k * i" "le_bytes k v" bs]
  by (simp add: get_le_def set_le_def un_le_le_bytes)

lemma elem_offsets_disjoint: "(i :: nat) \<noteq> j \<Longrightarrow> k * j + k \<le> k * i \<or> k * i + k \<le> k * j"
proof -
  assume "i \<noteq> j"
  then consider "Suc j \<le> i" | "Suc i \<le> j" by linarith
  then show ?thesis
  proof cases
    case 1
    then have "k * Suc j \<le> k * i" by (rule mult_le_mono2)
    then show ?thesis by simp
  next
    case 2
    then have "k * Suc i \<le> k * j" by (rule mult_le_mono2)
    then show ?thesis by simp
  qed
qed

lemma get_set_le_other [bytes_simps]:
  assumes "k * i + k \<le> length bs" and "k * j + k \<le> length bs" and "i \<noteq> j"
  shows "get_le k (set_le k bs i v) j = get_le k bs j"
  using assms elem_offsets_disjoint [of i j k]
  by (simp add: get_le_def set_le_def take_drop_splice_other)

end
