(* ===== verification/Address.thy ===== *)
theory Address
  imports Prelude
begin

text \<open>
  Physical and virtual addresses and page numbers (os8-ref/src/mm/address.rs) and the constants of
  os8-ref/src/config.rs.  The four one-field structs of the source are all \<open>64 word\<close>: arithmetic
  wraps as \<^verbatim>\<open>usize\<close> arithmetic does in a release build, and the \<^verbatim>\<open>From\<close> conversions between a struct
  and its \<^verbatim>\<open>usize\<close> are identities.

  The lemmas relate the word operations to division with remainder, show that the three indexes of
  a virtual page number determine its low 27 bits, and that iterating over a page range ends and
  yields every page of the range once, in order.
\<close>

unbundle bit_operations_syntax

type_synonym usize = u64
type_synonym PhysAddr = usize
type_synonym VirtAddr = usize
type_synonym PhysPageNum = usize
type_synonym VirtPageNum = usize

definition USER_STACK_SIZE :: usize where "USER_STACK_SIZE = 4096 * 2"
definition KERNEL_STACK_SIZE :: usize where "KERNEL_STACK_SIZE = 4096 * 20"
definition MEMORY_END :: usize where "MEMORY_END = 0x88000000"
definition PAGE_SIZE :: usize where "PAGE_SIZE = 0x1000"
definition PAGE_SIZE_BITS :: nat where "PAGE_SIZE_BITS = 0xc"
definition TRAMPOLINE :: usize where "TRAMPOLINE = - 1 - PAGE_SIZE + 1"
definition TRAP_CONTEXT :: usize where "TRAP_CONTEXT = TRAMPOLINE - PAGE_SIZE"
definition CLOCK_FREQ :: usize where "CLOCK_FREQ = 12500000"
definition MMIO :: "(usize \<times> usize) list" where "MMIO = [(0x10001000, 0x1000)]"

lemmas mm_consts = USER_STACK_SIZE_def KERNEL_STACK_SIZE_def MEMORY_END_def PAGE_SIZE_def PAGE_SIZE_BITS_def
  TRAMPOLINE_def TRAP_CONTEXT_def CLOCK_FREQ_def MMIO_def

subsection \<open>Virtual addresses\<close>

definition va_floor :: "VirtAddr \<Rightarrow> VirtPageNum" where
  "va_floor v = v div PAGE_SIZE"

definition va_ceil :: "VirtAddr \<Rightarrow> VirtPageNum" where
  "va_ceil v = (v - 1 + PAGE_SIZE) div PAGE_SIZE"

definition va_page_offset :: "VirtAddr \<Rightarrow> usize" where
  "va_page_offset v = v AND (PAGE_SIZE - 1)"

definition va_aligned :: "VirtAddr \<Rightarrow> bool" where
  "va_aligned v \<longleftrightarrow> va_page_offset v = 0"

definition vpn_of_va :: "VirtAddr \<Rightarrow> VirtPageNum option" where
  "vpn_of_va v = do { rassert (va_page_offset v = 0); Some (va_floor v) }"

definition va_of_vpn :: "VirtPageNum \<Rightarrow> VirtAddr" where
  "va_of_vpn v = push_bit PAGE_SIZE_BITS v"

subsection \<open>Physical addresses\<close>

definition pa_floor :: "PhysAddr \<Rightarrow> PhysPageNum" where
  "pa_floor v = v div PAGE_SIZE"

definition pa_ceil :: "PhysAddr \<Rightarrow> PhysPageNum" where
  "pa_ceil v = (v - 1 + PAGE_SIZE) div PAGE_SIZE"

definition pa_page_offset :: "PhysAddr \<Rightarrow> usize" where
  "pa_page_offset v = v AND (PAGE_SIZE - 1)"

definition pa_aligned :: "PhysAddr \<Rightarrow> bool" where
  "pa_aligned v \<longleftrightarrow> pa_page_offset v = 0"

definition ppn_of_pa :: "PhysAddr \<Rightarrow> PhysPageNum option" where
  "ppn_of_pa v = do { rassert (pa_page_offset v = 0); Some (pa_floor v) }"

definition pa_of_ppn :: "PhysPageNum \<Rightarrow> PhysAddr" where
  "pa_of_ppn v = push_bit PAGE_SIZE_BITS v"

subsection \<open>Indexes of a virtual page number\<close>

text \<open>The loop runs over \<open>i = 2, 1, 0\<close>.\<close>

fun indexes_loop :: "nat list \<Rightarrow> usize \<Rightarrow> usize list \<Rightarrow> usize list" where
  "indexes_loop [] vpn idx = idx"
| "indexes_loop (i # is) vpn idx = indexes_loop is (drop_bit 9 vpn) (idx[i := vpn AND 511])"

definition indexes :: "VirtPageNum \<Rightarrow> usize list" where
  "indexes v = indexes_loop (rev [0..<3]) v (replicate 3 0)"

subsection \<open>Ranges of page numbers\<close>

definition vpn_step :: "VirtPageNum \<Rightarrow> VirtPageNum" where
  "vpn_step v = v + 1"

record SimpleRange =
  range_l :: usize
  range_r :: usize

record SimpleRangeIterator =
  it_current :: usize
  it_end :: usize

definition range_new :: "usize \<Rightarrow> usize \<Rightarrow> SimpleRange option" where
  "range_new s e = do { rassert (s \<le> e); Some \<lparr>range_l = s, range_r = e\<rparr> }"

definition range_into_iter :: "SimpleRange \<Rightarrow> SimpleRangeIterator" where
  "range_into_iter r = \<lparr>it_current = range_l r, it_end = range_r r\<rparr>"

definition range_next :: "SimpleRangeIterator \<Rightarrow> usize option \<times> SimpleRangeIterator" where
  "range_next it =
     (if it_current it = it_end it then (None, it)
      else (Some (it_current it), it\<lparr>it_current := vpn_step (it_current it)\<rparr>))"

text \<open>A \<^verbatim>\<open>for\<close> loop over a range takes the items of \<^verbatim>\<open>next\<close> until \<^verbatim>\<open>None\<close>.\<close>

lemma word_dist_less: "(x :: u64) \<noteq> y \<Longrightarrow> unat (y - (x + 1)) < unat (y - x)"
proof -
  assume "x \<noteq> y"
  then have "y - x \<noteq> 0" by simp
  then have "unat (y - x - 1) = unat (y - x) - 1" "0 < unat (y - x)"
    by (simp_all add: unat_minus_one unat_gt_0)
  then show ?thesis by (simp add: algebra_simps)
qed

function range_items :: "SimpleRangeIterator \<Rightarrow> usize list" where
  "range_items it =
     (case range_next it of
        (None, _) \<Rightarrow> []
      | (Some v, it') \<Rightarrow> v # range_items it')"
  by pat_completeness auto
termination
  by (relation "measure (\<lambda>it. unat (it_end it - it_current it))")
    (auto simp: range_next_def vpn_step_def word_dist_less split: if_splits)

declare range_items.simps [simp del]

definition range_list :: "SimpleRange \<Rightarrow> usize list" where
  "range_list r = range_items (range_into_iter r)"

subsection \<open>Words and natural numbers\<close>

lemma va_floor_drop: "va_floor v = drop_bit 12 v"
  by (simp add: va_floor_def PAGE_SIZE_def drop_bit_eq_div)

lemma va_offset_take: "va_page_offset v = take_bit 12 v"
  by (simp add: va_page_offset_def PAGE_SIZE_def take_bit_eq_mask mask_eq_exp_minus_1)

lemma unat_va_floor: "unat (va_floor v) = unat v div 4096"
  by (simp add: va_floor_def PAGE_SIZE_def unat_div)

lemma unat_va_offset: "unat (va_page_offset v) = unat v mod 4096"
  unfolding va_offset_take by (simp add: take_bit_eq_mod unat_mod)

lemma va_offset_less: "va_page_offset v < 4096"
  using unat_va_offset [of v] by (simp add: word_less_nat_alt)

lemma unat_va_ceil: "unat v \<le> 2 ^ 64 - 4096 \<Longrightarrow> unat (va_ceil v) = (unat v + 4095) div 4096"
proof -
  assume "unat v \<le> 2 ^ 64 - 4096"
  then have "unat (v + 4095) = unat v + 4095" by (subst unat_add_lem [THEN iffD1]) auto
  moreover have "v - 1 + PAGE_SIZE = v + 4095" by (simp add: PAGE_SIZE_def)
  ultimately show ?thesis unfolding va_ceil_def by (simp only: PAGE_SIZE_def unat_div) simp
qed

lemma page_number_bound: "va_floor v < 2 ^ 52"
proof -
  have "unat v < 2 ^ 64" using unsigned_less [of v] by simp
  then have "unat (va_floor v) < 2 ^ 52" unfolding unat_va_floor by simp
  then show ?thesis by (simp add: word_less_nat_alt)
qed

lemma va_of_vpn_bits: "bit (va_of_vpn p) n \<longleftrightarrow> 12 \<le> n \<and> n < 64 \<and> bit p (n - 12)"
  by (auto simp: va_of_vpn_def PAGE_SIZE_BITS_def bit_push_bit_iff)

lemma va_floor_of_vpn: "va_floor (va_of_vpn p) = take_bit 52 p"
  unfolding va_floor_drop by (rule bit_eqI) (auto simp: bit_drop_bit_eq va_of_vpn_bits bit_take_bit_iff)

lemma va_offset_of_vpn: "va_page_offset (va_of_vpn p) = 0"
  unfolding va_offset_take by (rule bit_eqI) (auto simp: va_of_vpn_bits bit_take_bit_iff)

lemma unat_exp: "n < 64 \<Longrightarrow> unat (2 ^ n :: u64) = 2 ^ n"
proof -
  assume "n < 64"
  then have "(2 :: nat) ^ n < 2 ^ 64" by (intro power_strict_increasing) auto
  then have "2 ^ n mod 2 ^ 64 = (2 :: nat) ^ n" by simp
  moreover have "(2 ^ n :: u64) = of_nat (2 ^ n)" by simp
  ultimately show ?thesis by (simp only: unat_of_nat) simp
qed

lemma take_bit_small: "p < 2 ^ n \<Longrightarrow> n < 64 \<Longrightarrow> take_bit n p = p" for p :: u64
proof -
  assume p: "p < 2 ^ n" and n: "n < 64"
  have "unat p < 2 ^ n" using p n by (simp add: word_less_nat_alt unat_exp)
  then have "unat (p mod 2 ^ n) = unat p" using n by (simp add: unat_mod unat_exp)
  then have "p mod 2 ^ n = p" by (simp only: word_unat_eq_iff)
  then show ?thesis by (simp add: take_bit_eq_mod)
qed

lemma pa_of_ppn_inj:
  assumes "p < 2 ^ 52" and "q < 2 ^ 52"
  shows "pa_of_ppn p = pa_of_ppn q \<longleftrightarrow> p = q"
proof
  assume "pa_of_ppn p = pa_of_ppn q"
  then have "va_floor (va_of_vpn p) = va_floor (va_of_vpn q)" by (simp add: pa_of_ppn_def va_of_vpn_def)
  then show "p = q" using assms unfolding va_floor_of_vpn by (simp add: take_bit_small)
qed simp

text \<open>
  C39 (roundtrip).  An address is its page number shifted back plus its page offset; the offset is
  below the page size; converting an address to a page number succeeds exactly for aligned
  addresses, and converting back gives the same address.
\<close>

theorem address_split:
  "va_of_vpn (va_floor v) + va_page_offset v = v \<and> va_page_offset v < PAGE_SIZE \<and>
   map_option va_of_vpn (vpn_of_va v) = (if va_aligned v then Some v else None)"
proof -
  have disj: "va_of_vpn (va_floor v) AND va_page_offset v = 0"
    by (rule bit_eqI) (auto simp: bit_and_iff va_of_vpn_bits va_offset_take bit_take_bit_iff)
  have "va_of_vpn (va_floor v) + va_page_offset v = va_of_vpn (va_floor v) OR va_page_offset v"
    using word_plus_and_or [of "va_of_vpn (va_floor v)" "va_page_offset v"] disj by simp
  also have "\<dots> = v"
    unfolding va_floor_drop va_offset_take
    by (rule bit_eqI) (auto simp: bit_or_iff va_of_vpn_bits bit_drop_bit_eq bit_take_bit_iff)
  finally have *: "va_of_vpn (va_floor v) + va_page_offset v = v" .
  then have "va_page_offset v = 0 \<Longrightarrow> va_of_vpn (va_floor v) = v" by simp
  with * va_offset_less [of v] show ?thesis
    by (simp add: vpn_of_va_def va_aligned_def PAGE_SIZE_def rassert_def)
qed

subsection \<open>Index arithmetic\<close>

lemma indexes_eq: "indexes v = [drop_bit 18 v AND 511, drop_bit 9 v AND 511, v AND 511]"
  by (simp add: indexes_def numeral_3_eq_3 list_update_def drop_bit_drop_bit)

lemma and_511: "(v :: u64) AND 511 = take_bit 9 v"
  by (simp add: take_bit_eq_mask mask_eq_exp_minus_1)

lemma index_less: "unat ((v :: u64) AND 511) < 512"
proof -
  have "unat (take_bit 9 v) = unat v mod 512" by (simp add: take_bit_eq_mod unat_mod)
  then show ?thesis unfolding and_511 by simp
qed

lemma indexes_take:
  "indexes v = indexes w \<longleftrightarrow> take_bit 27 v = take_bit 27 w"
proof
  assume "indexes v = indexes w"
  then have e: "take_bit 9 (drop_bit 18 v) = take_bit 9 (drop_bit 18 w)" "take_bit 9 (drop_bit 9 v) = take_bit 9 (drop_bit 9 w)"
    "take_bit 9 v = take_bit 9 w" by (simp_all add: indexes_eq and_511)
  have b: "bit v n = bit w n" if "n < 27" for n
  proof -
    consider "n < 9" | "9 \<le> n" "n < 18" | "18 \<le> n" using that by linarith
    then show ?thesis
    proof cases
      case 1
      then show ?thesis using e(3) [THEN arg_cong, of "\<lambda>x. bit x n"] by (simp add: bit_take_bit_iff)
    next
      case 2
      then have "n - 9 < 9" by arith
      then show ?thesis using 2 e(2) [THEN arg_cong, of "\<lambda>x. bit x (n - 9)"] by (simp add: bit_take_bit_iff bit_drop_bit_eq)
    next
      case 3
      then have "n - 18 < 9" using that by arith
      then show ?thesis using 3 e(1) [THEN arg_cong, of "\<lambda>x. bit x (n - 18)"] by (simp add: bit_take_bit_iff bit_drop_bit_eq)
    qed
  qed
  then show "take_bit 27 v = take_bit 27 w" by (intro bit_eqI) (auto simp: bit_take_bit_iff)
next
  assume t: "take_bit 27 v = take_bit 27 w"
  have b: "bit v n = bit w n" if "n < 27" for n
    using t [THEN arg_cong, of "\<lambda>x. bit x n"] that by (simp add: bit_take_bit_iff)
  have "take_bit 9 (drop_bit k v) = take_bit 9 (drop_bit k w)" if "k \<le> 18" for k
    using that by (intro bit_eqI) (auto simp: bit_take_bit_iff bit_drop_bit_eq b)
  from this [of 18] this [of 9] this [of 0] show "indexes v = indexes w" by (simp add: indexes_eq and_511)
qed

subsection \<open>Iterating over a range\<close>

lemma range_items_spec:
  "it_current it \<le> it_end it \<Longrightarrow> range_items it = map word_of_nat [unat (it_current it)..<unat (it_end it)]"
proof (induction it rule: range_items.induct)
  case (1 it)
  let ?l = "it_current it" and ?r = "it_end it"
  show ?case
  proof (cases "?l = ?r")
    case True
    then show ?thesis by (simp add: range_items.simps [of it] range_next_def)
  next
    case False
    with 1(2) have lt: "unat ?l < unat ?r" by (simp add: word_le_nat_alt word_unat_eq_iff)
    have r: "unat ?r < 2 ^ 64" using unsigned_less [of ?r] by simp
    with lt have "unat (?l + 1) = Suc (unat ?l)" using r by (simp add: unat_word_ariths(1))
    then have "?l + 1 \<le> ?r" "[unat ?l..<unat ?r] = unat ?l # [unat (?l + 1)..<unat ?r]"
      using lt by (simp_all add: word_le_nat_alt upt_conv_Cons)
    moreover have "range_next it = (Some ?l, it\<lparr>it_current := ?l + 1\<rparr>)" using False by (simp add: range_next_def vpn_step_def)
    ultimately show ?thesis using 1(1) by (simp add: range_items.simps [of it])
  qed
qed

lemma range_list_ok:
  assumes "range_new l r = Some rg"
  shows "range_list rg = map word_of_nat [unat l..<unat r] \<and> distinct (range_list rg) \<and> (v \<in> set (range_list rg) \<longleftrightarrow> l \<le> v \<and> v < r)"
proof -
  have le: "l \<le> r" and rg: "rg = \<lparr>range_l = l, range_r = r\<rparr>" using assms by (auto simp: range_new_def rassert_def split: if_splits)
  have b: "unat r < 2 ^ 64" using unsigned_less [of r] by simp
  have l: "range_list rg = map word_of_nat [unat l..<unat r]"
    using le range_items_spec [of "range_into_iter rg"] by (simp add: range_list_def rg range_into_iter_def)
  have inj: "inj_on (word_of_nat :: nat \<Rightarrow> u64) {unat l..<unat r}"
    by (rule inj_on_inverseI [of _ unat]) (use b in \<open>auto simp: unat_of_nat\<close>)
  have "v \<in> word_of_nat ` {unat l..<unat r} \<longleftrightarrow> l \<le> v \<and> v < r"
  proof
    assume "v \<in> word_of_nat ` {unat l..<unat r}"
    then obtain n where "v = word_of_nat n" "unat l \<le> n" "n < unat r" by auto
    then show "l \<le> v \<and> v < r" using b by (simp add: word_le_nat_alt word_less_nat_alt unat_of_nat)
  next
    assume "l \<le> v \<and> v < r"
    then have "unat v \<in> {unat l..<unat r}" by (simp add: word_le_nat_alt word_less_nat_alt)
    then have "word_of_nat (unat v) \<in> (word_of_nat :: nat \<Rightarrow> u64) ` {unat l..<unat r}" by (rule imageI)
    then show "v \<in> word_of_nat ` {unat l..<unat r}" by simp
  qed
  then show ?thesis unfolding l using inj by (simp add: distinct_map)
qed

text \<open>
  C40 (termination).  Iterating over a range that \<^verbatim>\<open>SimpleRange::new\<close> accepts ends, after yielding the
  page numbers from its start up to its end, each once and in order.
\<close>

theorem range_iteration:
  assumes "range_new l r = Some rg"
  shows "range_list rg = map word_of_nat [unat l..<unat r] \<and> distinct (range_list rg) \<and> (v \<in> set (range_list rg) \<longleftrightarrow> l \<le> v \<and> v < r)"
  using assms by (rule range_list_ok)

theorem range_iteration_witness:
  "range_new 5 8 = Some \<lparr>range_l = 5, range_r = 8\<rparr> \<and> range_list \<lparr>range_l = 5, range_r = 8\<rparr> = [5, 6, 7]"
proof -
  have r: "range_new 5 8 = Some \<lparr>range_l = 5, range_r = 8\<rparr>" by (simp add: range_new_def)
  with range_iteration [OF r, of 5] show ?thesis by (simp add: upt_rec)
qed

end
