(* ===== verification/Allocators.thy ===== *)
theory Allocators
  imports Prelude
begin

text \<open>
  The identifier allocators of the kernel: \<^verbatim>\<open>RecycleAllocator\<close> (os8-ref/src/task/id.rs: pids,
  kernel stacks, thread ids) and \<^verbatim>\<open>StackFrameAllocator\<close> (os8-ref/src/mm/frame_allocator.rs:
  physical frames).  Both promise the same contract, the locale \<open>id_allocator\<close>: an identifier is
  handed out only while it is not in use, a used identifier can be given back exactly once, and
  giving back anything else panics.  The counter of a \<^verbatim>\<open>RecycleAllocator\<close> is a \<^verbatim>\<open>usize\<close> that wraps, so
  its contract holds for a limited number of allocations; \<open>safe n\<close> says that \<open>n\<close> more of them are
  within the limit.  The locale proves, for any sequence of requests within the limit, that the
  identifiers that are live at the same time are pairwise distinct.
\<close>

subsection \<open>The contract\<close>

datatype alloc_req = AllocId | DeallocId nat

fun serve :: "('s \<Rightarrow> (nat \<times> 's) option) \<Rightarrow> ('s \<Rightarrow> nat \<Rightarrow> 's option) \<Rightarrow>
    's \<Rightarrow> nat list \<Rightarrow> alloc_req list \<Rightarrow> (nat list \<times> 's) option" where
  "serve alloc dealloc s live [] = Some (live, s)"
| "serve alloc dealloc s live (AllocId # rs) =
     do { (i, s') \<leftarrow> alloc s; serve alloc dealloc s' (live @ [i]) rs }"
| "serve alloc dealloc s live (DeallocId i # rs) =
     do { s' \<leftarrow> dealloc s i; serve alloc dealloc s' (remove1 i live) rs }"

definition allocs :: "alloc_req list \<Rightarrow> nat" where
  "allocs rs = length (filter (\<lambda>r. r = AllocId) rs)"

lemma allocs_simps [simp]: "allocs [] = 0" "allocs (AllocId # rs) = Suc (allocs rs)" "allocs (DeallocId i # rs) = allocs rs"
  by (simp_all add: allocs_def)

locale id_allocator =
  fixes inv :: "'s \<Rightarrow> bool"
    and safe :: "nat \<Rightarrow> 's \<Rightarrow> bool"
    and ids :: "nat set"
    and used :: "'s \<Rightarrow> nat set"
    and alloc :: "'s \<Rightarrow> (nat \<times> 's) option"
    and dealloc :: "'s \<Rightarrow> nat \<Rightarrow> 's option"
  assumes alloc_fresh: "inv s \<Longrightarrow> safe (Suc n) s \<Longrightarrow> alloc s = Some (i, s') \<Longrightarrow> i \<in> ids - used s"
    and alloc_used: "inv s \<Longrightarrow> safe (Suc n) s \<Longrightarrow> alloc s = Some (i, s') \<Longrightarrow> used s' = insert i (used s)"
    and alloc_inv: "inv s \<Longrightarrow> safe (Suc n) s \<Longrightarrow> alloc s = Some (i, s') \<Longrightarrow> inv s'"
    and alloc_safe: "inv s \<Longrightarrow> safe (Suc n) s \<Longrightarrow> alloc s = Some (i, s') \<Longrightarrow> safe n s'"
    and dealloc_iff: "inv s \<Longrightarrow> i \<in> ids \<Longrightarrow> (\<exists>s'. dealloc s i = Some s') \<longleftrightarrow> i \<in> used s"
    and dealloc_used: "inv s \<Longrightarrow> i \<in> ids \<Longrightarrow> dealloc s i = Some s' \<Longrightarrow> used s' = used s - {i}"
    and dealloc_inv: "inv s \<Longrightarrow> i \<in> ids \<Longrightarrow> dealloc s i = Some s' \<Longrightarrow> inv s'"
    and dealloc_safe: "inv s \<Longrightarrow> i \<in> ids \<Longrightarrow> safe n s \<Longrightarrow> dealloc s i = Some s' \<Longrightarrow> safe n s'"
begin

lemma serve_live:
  assumes "inv s" and "distinct live" and "set live = used s" and "\<forall>i. DeallocId i \<in> set rs \<longrightarrow> i \<in> ids"
    and "safe (allocs rs) s" and "serve alloc dealloc s live rs = Some (live', s')"
  shows "distinct live' \<and> set live' = used s' \<and> inv s'"
  using assms
proof (induction rs arbitrary: s live)
  case Nil
  then show ?case by simp
next
  case (Cons r rs)
  show ?case
  proof (cases r)
    case AllocId
    with Cons.prems obtain i s1 where a: "alloc s = Some (i, s1)" and safe: "safe (Suc (allocs rs)) s"
      and run: "serve alloc dealloc s1 (live @ [i]) rs = Some (live', s')"
      by (auto split: bind_splits)
    note law = alloc_fresh alloc_used alloc_inv alloc_safe
    note law = law [OF Cons.prems(1) safe a]
    have "distinct (live @ [i])" and "set (live @ [i]) = used s1"
      using Cons.prems(2,3) law(1,2) by auto
    with Cons.IH [OF law(3) _ _ _ law(4) run] Cons.prems(4) show ?thesis by simp
  next
    case (DeallocId i)
    with Cons.prems obtain s1 where d: "dealloc s i = Some s1" and i: "i \<in> ids" and safe: "safe (allocs rs) s"
      and run: "serve alloc dealloc s1 (remove1 i live) rs = Some (live', s')"
      by (auto split: bind_splits)
    have "distinct (remove1 i live)" and "set (remove1 i live) = used s1"
      using Cons.prems(2,3) dealloc_used [OF Cons.prems(1) i d] by auto
    with Cons.IH [OF dealloc_inv [OF Cons.prems(1) i d] _ _ _ dealloc_safe [OF Cons.prems(1) i safe d] run] Cons.prems(4)
    show ?thesis by simp
  qed
qed

lemma dealloc_twice_panics: "inv s \<Longrightarrow> i \<in> ids \<Longrightarrow> dealloc s i = Some s' \<Longrightarrow> dealloc s' i = None"
  using dealloc_iff [of s' i] dealloc_used [of s i s'] dealloc_inv [of s i s'] by auto

lemma alloc_then_dealloc:
  assumes "inv s" and "safe (Suc n) s" and "alloc s = Some (i, s')"
  shows "\<exists>s''. dealloc s' i = Some s'' \<and> used s'' = used s \<and> inv s''"
proof -
  have s': "inv s'" "used s' = insert i (used s)" "i \<notin> used s" "i \<in> ids"
    using alloc_inv [OF assms] alloc_fresh [OF assms] alloc_used [OF assms] by auto
  then obtain s'' where "dealloc s' i = Some s''" using dealloc_iff [of s' i] by auto
  with s' show ?thesis using dealloc_used [of s' i s''] dealloc_inv [of s' i s''] by auto
qed

end

subsection \<open>RecycleAllocator\<close>

record RecycleAllocator =
  current :: nat
  recycled :: "nat list"

definition RecycleAllocator_new :: RecycleAllocator where
  "RecycleAllocator_new = \<lparr>current = 0, recycled = []\<rparr>"

text \<open>
  \<^verbatim>\<open>Vec::pop\<close> takes the last element; the model's list is in the vector's order.  Both the increment of
  \<^verbatim>\<open>current\<close> and the decrement of the returned value wrap.
\<close>

definition ra_alloc :: "RecycleAllocator \<Rightarrow> nat \<times> RecycleAllocator" where
  "ra_alloc a =
     (if recycled a \<noteq> [] then (last (recycled a), a\<lparr>recycled := butlast (recycled a)\<rparr>)
      else let c = (current a + 1) mod 2 ^ 64 in ((c + 2 ^ 64 - 1) mod 2 ^ 64, a\<lparr>current := c\<rparr>))"

definition ra_dealloc :: "RecycleAllocator \<Rightarrow> nat \<Rightarrow> RecycleAllocator option" where
  "ra_dealloc a i =
     do { rassert (i < current a);
          rassert (\<not> list_ex (\<lambda>j. j = i) (recycled a));
          Some (a\<lparr>recycled := recycled a @ [i]\<rparr>) }"

definition ra_inv :: "RecycleAllocator \<Rightarrow> bool" where
  "ra_inv a \<longleftrightarrow> distinct (recycled a) \<and> (\<forall>i \<in> set (recycled a). i < current a)"

text \<open>\<open>n\<close> more allocations do not make the counter wrap.\<close>

definition ra_safe :: "nat \<Rightarrow> RecycleAllocator \<Rightarrow> bool" where
  "ra_safe n a \<longleftrightarrow> current a + n < 2 ^ 64"

definition ra_used :: "RecycleAllocator \<Rightarrow> nat set" where
  "ra_used a = {..<current a} - set (recycled a)"

lemma last_butlast_set: "xs \<noteq> [] \<Longrightarrow> set xs = insert (last xs) (set (butlast xs))"
  by (induction xs rule: rev_induct) auto

lemma distinct_last_butlast: "xs \<noteq> [] \<Longrightarrow> distinct xs \<Longrightarrow> last xs \<notin> set (butlast xs)"
  by (induction xs rule: rev_induct) auto

lemma ra_dealloc_Some:
  "ra_dealloc a i = Some a' \<longleftrightarrow> i < current a \<and> i \<notin> set (recycled a) \<and> a' = a\<lparr>recycled := recycled a @ [i]\<rparr>"
  by (auto simp: ra_dealloc_def rassert_def list_ex_iff split: if_splits)

lemma ra_alloc_safe:
  "ra_safe (Suc n) a \<Longrightarrow> ra_alloc a =
     (if recycled a \<noteq> [] then (last (recycled a), a\<lparr>recycled := butlast (recycled a)\<rparr>)
      else (current a, a\<lparr>current := current a + 1\<rparr>))"
  by (simp add: ra_alloc_def ra_safe_def Let_def)

text \<open>Beyond the limit the counter starts again and hands out identifiers that are in use.\<close>

lemma ra_alloc_wraps:
  "ra_alloc \<lparr>current = 2 ^ 64 - 1, recycled = []\<rparr> = (2 ^ 64 - 1, RecycleAllocator_new)"
  "fst (ra_alloc RecycleAllocator_new) = 0"
  by (simp_all add: ra_alloc_def RecycleAllocator_new_def)

interpretation recycle: id_allocator ra_inv ra_safe UNIV ra_used "\<lambda>a. Some (ra_alloc a)" ra_dealloc
proof
  fix s s' i n
  assume inv: "ra_inv s"
  {
    assume safe: "ra_safe (Suc n) s" and "Some (ra_alloc s) = Some (i, s')"
    then have a: "(if recycled s \<noteq> [] then (last (recycled s), s\<lparr>recycled := butlast (recycled s)\<rparr>)
      else (current s, s\<lparr>current := current s + 1\<rparr>)) = (i, s')" by (simp add: ra_alloc_safe)
    show "i \<in> UNIV - ra_used s"
      using inv a by (auto simp: ra_used_def split: if_splits)
    show "ra_used s' = insert i (ra_used s)"
      using inv a last_butlast_set [of "recycled s"] distinct_last_butlast [of "recycled s"]
      by (auto simp: ra_used_def ra_inv_def split: if_splits)
    show "ra_inv s'"
      using inv a by (auto simp: ra_inv_def distinct_butlast dest!: in_set_butlastD split: if_splits)
    show "ra_safe n s'" using a safe by (auto simp: ra_safe_def split: if_splits)
  }
  show "(\<exists>s'. ra_dealloc s i = Some s') \<longleftrightarrow> i \<in> ra_used s"
    by (auto simp: ra_dealloc_Some ra_used_def)
  {
    assume d: "ra_dealloc s i = Some s'"
    show "ra_used s' = ra_used s - {i}"
      using d by (auto simp: ra_dealloc_Some ra_used_def)
    show "ra_inv s'"
      using inv d by (auto simp: ra_dealloc_Some ra_inv_def)
    show "ra_safe n s \<Longrightarrow> ra_safe n s'"
      using d by (auto simp: ra_dealloc_Some ra_safe_def)
  }
qed

lemma ra_new_inv [simp]: "ra_inv RecycleAllocator_new"
  by (simp add: ra_inv_def RecycleAllocator_new_def)

lemma ra_new_used [simp]: "ra_used RecycleAllocator_new = {}"
  by (simp add: ra_used_def RecycleAllocator_new_def)

text \<open>
  C3 (invariant).  Whatever sequence of \<^verbatim>\<open>alloc\<close> and \<^verbatim>\<open>dealloc\<close> calls, with fewer than \<open>2 ^ 64\<close> allocations,
  a fresh \<^verbatim>\<open>RecycleAllocator\<close> serves without a panic, the identifiers handed out and not yet given back
  are pairwise distinct, and they are exactly the ones the allocator's state counts as in use.
\<close>

theorem recycle_live_ids_distinct:
  assumes "allocs rs < 2 ^ 64"
    and "serve (\<lambda>a. Some (ra_alloc a)) ra_dealloc RecycleAllocator_new [] rs = Some (live, a)"
  shows "distinct live \<and> set live = {..<current a} - set (recycled a)"
proof -
  have "ra_safe (allocs rs) RecycleAllocator_new" using assms(1) by (simp add: ra_safe_def RecycleAllocator_new_def)
  from recycle.serve_live [OF ra_new_inv _ _ _ this assms(2)] show ?thesis unfolding ra_new_used by (simp add: ra_used_def)
qed

theorem recycle_live_ids_distinct_witness:
  "serve (\<lambda>a. Some (ra_alloc a)) ra_dealloc RecycleAllocator_new []
     [AllocId, AllocId, AllocId, DeallocId 1, AllocId, AllocId]
     = Some ([0, 2, 1, 3], \<lparr>current = 4, recycled = []\<rparr>) \<and> distinct [0, 2, 1, 3 :: nat]"
proof -
  have run: "serve (\<lambda>a. Some (ra_alloc a)) ra_dealloc RecycleAllocator_new []
     [AllocId, AllocId, AllocId, DeallocId 1, AllocId, AllocId]
     = Some ([0, 2, 1, 3], \<lparr>current = 4, recycled = []\<rparr>)"
    by (simp add: RecycleAllocator_new_def ra_alloc_def ra_dealloc_def)
  have "allocs [AllocId, AllocId, AllocId, DeallocId 1, AllocId, AllocId] < 2 ^ 64" by simp
  from run recycle_live_ids_distinct [OF this run] show ?thesis by simp
qed

subsection \<open>StackFrameAllocator\<close>

record StackFrameAllocator =
  fcurrent :: nat
  fend :: nat
  frecycled :: "nat list"

definition fa_new :: StackFrameAllocator where
  "fa_new = \<lparr>fcurrent = 0, fend = 0, frecycled = []\<rparr>"

definition fa_init :: "StackFrameAllocator \<Rightarrow> nat \<Rightarrow> nat \<Rightarrow> StackFrameAllocator" where
  "fa_init a l r = a\<lparr>fcurrent := l, fend := r\<rparr>"

definition fa_alloc :: "StackFrameAllocator \<Rightarrow> (nat \<times> StackFrameAllocator) option" where
  "fa_alloc a =
     (if frecycled a \<noteq> [] then Some (last (frecycled a), a\<lparr>frecycled := butlast (frecycled a)\<rparr>)
      else if fcurrent a = fend a then None
      else Some (fcurrent a, a\<lparr>fcurrent := fcurrent a + 1\<rparr>))"

definition fa_dealloc :: "StackFrameAllocator \<Rightarrow> nat \<Rightarrow> StackFrameAllocator option" where
  "fa_dealloc a ppn =
     (if fcurrent a \<le> ppn \<or> list_ex (\<lambda>v. v = ppn) (frecycled a) then None
      else Some (a\<lparr>frecycled := frecycled a @ [ppn]\<rparr>))"

text \<open>
  The allocator does not remember the first frame it manages, so \<open>fa_used\<close> counts the frames
  below it (the kernel image) as in use.  \<open>fa_inv l\<close> says that only managed frames are free.
\<close>

definition fa_inv :: "nat \<Rightarrow> StackFrameAllocator \<Rightarrow> bool" where
  "fa_inv l a \<longleftrightarrow> l \<le> fcurrent a \<and> fcurrent a \<le> fend a \<and> distinct (frecycled a) \<and>
     (\<forall>i \<in> set (frecycled a). l \<le> i \<and> i < fcurrent a)"

definition fa_used :: "StackFrameAllocator \<Rightarrow> nat set" where
  "fa_used a = {..<fcurrent a} - set (frecycled a)"

definition fa_free :: "StackFrameAllocator \<Rightarrow> nat set" where
  "fa_free a = {fcurrent a..<fend a} \<union> set (frecycled a)"

lemma fa_dealloc_Some:
  "fa_dealloc a i = Some a' \<longleftrightarrow> i < fcurrent a \<and> i \<notin> set (frecycled a) \<and> a' = a\<lparr>frecycled := frecycled a @ [i]\<rparr>"
  by (auto simp: fa_dealloc_def list_ex_iff split: if_splits)

lemma fa_init_inv: "l \<le> r \<Longrightarrow> fa_inv l (fa_init fa_new l r)"
  by (simp add: fa_inv_def fa_init_def fa_new_def)

interpretation frames: id_allocator "fa_inv 0" "\<lambda>_ _. True" UNIV fa_used fa_alloc fa_dealloc
proof
  fix s s' i
  assume inv: "fa_inv 0 s"
  {
    assume a: "fa_alloc s = Some (i, s')"
    show "i \<in> UNIV - fa_used s"
      using inv a by (auto simp: fa_alloc_def fa_used_def split: if_splits)
    show "fa_used s' = insert i (fa_used s)"
      using inv a last_butlast_set [of "frecycled s"] distinct_last_butlast [of "frecycled s"]
      by (auto simp: fa_alloc_def fa_used_def fa_inv_def split: if_splits)
    show "fa_inv 0 s'"
      using inv a by (auto simp: fa_alloc_def fa_inv_def distinct_butlast dest!: in_set_butlastD split: if_splits)
  }
  show "(\<exists>s'. fa_dealloc s i = Some s') \<longleftrightarrow> i \<in> fa_used s"
    by (auto simp: fa_dealloc_Some fa_used_def)
  {
    assume d: "fa_dealloc s i = Some s'"
    show "fa_used s' = fa_used s - {i}"
      using d by (auto simp: fa_dealloc_Some fa_used_def)
    show "fa_inv 0 s'"
      using inv d by (auto simp: fa_dealloc_Some fa_inv_def)
  }
qed simp_all

lemma fa_inv_0: "fa_inv l a \<Longrightarrow> fa_inv 0 a"
  by (auto simp: fa_inv_def)

lemma fa_alloc_inv:
  "fa_inv l a \<Longrightarrow> fa_alloc a = Some (i, a') \<Longrightarrow> fa_inv l a'"
  by (auto simp: fa_alloc_def fa_inv_def distinct_butlast dest!: in_set_butlastD split: if_splits)

lemma fa_dealloc_inv:
  "fa_inv l a \<Longrightarrow> l \<le> i \<Longrightarrow> fa_dealloc a i = Some a' \<Longrightarrow> fa_inv l a'"
  by (auto simp: fa_dealloc_Some fa_inv_def)

text \<open>
  C27 (functional).  In a well-formed allocator over the frames \<open>[l, end)\<close>, \<^verbatim>\<open>alloc\<close> fails exactly
  when no frame is free; otherwise it returns a free frame of the managed range and removes that
  frame, and no other, from the free ones.
\<close>

theorem fa_alloc_spec:
  assumes "fa_inv l a"
  shows "(case fa_alloc a of
            None \<Rightarrow> fa_free a = {}
          | Some (i, a') \<Rightarrow> i \<in> fa_free a \<and> l \<le> i \<and> i < fend a \<and> fa_free a' = fa_free a - {i} \<and>
              fend a' = fend a \<and> fa_inv l a')"
proof (cases "frecycled a = []")
  case True
  then show ?thesis using assms by (auto simp: fa_alloc_def fa_free_def fa_inv_def)
next
  case False
  then show ?thesis
    using assms last_butlast_set [of "frecycled a"] distinct_last_butlast [of "frecycled a"]
    by (auto simp: fa_alloc_def fa_free_def fa_inv_def distinct_butlast dest!: in_set_butlastD)
qed

theorem fa_alloc_spec_witness:
  "fa_inv 3 \<lparr>fcurrent = 5, fend = 8, frecycled = [3]\<rparr> \<and>
   fa_alloc \<lparr>fcurrent = 5, fend = 8, frecycled = [3]\<rparr> = Some (3, \<lparr>fcurrent = 5, fend = 8, frecycled = []\<rparr>) \<and>
   fa_free \<lparr>fcurrent = 5, fend = 8, frecycled = []\<rparr> = fa_free \<lparr>fcurrent = 5, fend = 8, frecycled = [3]\<rparr> - {3}"
proof -
  have i: "fa_inv 3 \<lparr>fcurrent = 5, fend = 8, frecycled = [3]\<rparr>"
    by (simp add: fa_inv_def)
  have a: "fa_alloc \<lparr>fcurrent = 5, fend = 8, frecycled = [3]\<rparr> = Some (3, \<lparr>fcurrent = 5, fend = 8, frecycled = []\<rparr>)"
    by (simp add: fa_alloc_def)
  from fa_alloc_spec [OF i] i a show ?thesis by simp
qed

end
