(* ===== verification/Phys_Memory.thy ===== *)
theory Phys_Memory
  imports Address Allocators
begin

text \<open>
  Physical memory and frames (os8-ref/src/mm/frame_allocator.rs and the raw-memory accessors of
  os8-ref/src/mm/address.rs).  The kernel reaches physical memory through an identity mapping, so
  its \<^verbatim>\<open>unsafe\<close> casts of a physical address are reads and writes of \<open>pages\<close>: the 4096 bytes at each
  page-aligned physical address.  A \<^verbatim>\<open>FrameTracker\<close> is its page number; dropping it calls
  \<open>frame_dealloc\<close>, and the operations that drop trackers do so explicitly.
\<close>

record mm =
  pages :: "PhysAddr \<Rightarrow> u8 list"
  falloc :: StackFrameAllocator

subsection \<open>Access to physical memory\<close>

definition get_bytes_array :: "mm \<Rightarrow> PhysPageNum \<Rightarrow> u8 list" where
  "get_bytes_array s ppn = pages s (pa_of_ppn ppn)"

definition set_bytes_array :: "mm \<Rightarrow> PhysPageNum \<Rightarrow> u8 list \<Rightarrow> mm" where
  "set_bytes_array s ppn bs = s\<lparr>pages := (pages s)(pa_of_ppn ppn := bs)\<rparr>"

definition get_pte :: "mm \<Rightarrow> PhysPageNum \<Rightarrow> nat \<Rightarrow> usize" where
  "get_pte s ppn i = word_of_nat (get_le 8 (get_bytes_array s ppn) i)"

definition set_pte :: "mm \<Rightarrow> PhysPageNum \<Rightarrow> nat \<Rightarrow> usize \<Rightarrow> mm" where
  "set_pte s ppn i e = set_bytes_array s ppn (set_le 8 (get_bytes_array s ppn) i (unat e))"

definition phys_byte :: "mm \<Rightarrow> PhysAddr \<Rightarrow> u8" where
  "phys_byte s pa = pages s (pa - pa_page_offset pa) ! unat (pa_page_offset pa)"

definition phys_byte_set :: "mm \<Rightarrow> PhysAddr \<Rightarrow> u8 \<Rightarrow> mm" where
  "phys_byte_set s pa b =
     (let base = pa - pa_page_offset pa
      in s\<lparr>pages := (pages s)(base := (pages s base)[unat (pa_page_offset pa) := b])\<rparr>)"

text \<open>Reading and writing \<open>n\<close> bytes through a reference; a null address panics (\<^verbatim>\<open>as_ref().unwrap()\<close>).\<close>

definition read_phys :: "mm \<Rightarrow> PhysAddr \<Rightarrow> nat \<Rightarrow> u8 list" where
  "read_phys s pa n = map (\<lambda>k. phys_byte s (pa + word_of_nat k)) [0..<n]"

fun write_phys :: "mm \<Rightarrow> PhysAddr \<Rightarrow> u8 list \<Rightarrow> mm" where
  "write_phys s pa [] = s"
| "write_phys s pa (b # bs) = write_phys (phys_byte_set s pa b) (pa + 1) bs"

definition get_ref :: "mm \<Rightarrow> PhysAddr \<Rightarrow> nat \<Rightarrow> u8 list option" where
  "get_ref s pa n = do { rassert (pa \<noteq> 0); Some (read_phys s pa n) }"

definition get_mut :: "mm \<Rightarrow> PhysAddr \<Rightarrow> u8 list \<Rightarrow> mm option" where
  "get_mut s pa bs = do { rassert (pa \<noteq> 0); Some (write_phys s pa bs) }"

subsection \<open>Frames\<close>

definition FrameTracker_new :: "mm \<Rightarrow> PhysPageNum \<Rightarrow> mm" where
  "FrameTracker_new s ppn = set_bytes_array s ppn (map (\<lambda>_. 0) (get_bytes_array s ppn))"

definition init_frame_allocator :: "usize \<Rightarrow> mm \<Rightarrow> mm" where
  "init_frame_allocator ekernel s =
     s\<lparr>falloc := fa_init (falloc s) (unat (pa_ceil ekernel)) (unat (pa_floor MEMORY_END))\<rparr>"

definition frame_alloc :: "mm \<Rightarrow> (PhysPageNum \<times> mm) option" where
  "frame_alloc s =
     (case fa_alloc (falloc s) of
        None \<Rightarrow> None
      | Some (i, a) \<Rightarrow> Some (word_of_nat i, FrameTracker_new (s\<lparr>falloc := a\<rparr>) (word_of_nat i)))"

definition frame_dealloc :: "mm \<Rightarrow> PhysPageNum \<Rightarrow> mm option" where
  "frame_dealloc s ppn = do { a \<leftarrow> fa_dealloc (falloc s) (unat ppn); Some (s\<lparr>falloc := a\<rparr>) }"

text \<open>Dropping a sequence of trackers, in order.\<close>

fun drop_frames :: "mm \<Rightarrow> PhysPageNum list \<Rightarrow> mm option" where
  "drop_frames s [] = Some s"
| "drop_frames s (f # fs) = do { s \<leftarrow> frame_dealloc s f; drop_frames s fs }"

fun alloc_frames :: "mm \<Rightarrow> nat \<Rightarrow> (PhysPageNum list \<times> mm) option" where
  "alloc_frames s 0 = Some ([], s)"
| "alloc_frames s (Suc n) = do { (f, s) \<leftarrow> frame_alloc s; (fs, s) \<leftarrow> alloc_frames s n; Some (f # fs, s) }"

definition frame_allocator_test :: "mm \<Rightarrow> mm option" where
  "frame_allocator_test s =
     do { (v, s) \<leftarrow> alloc_frames s 5;
          s \<leftarrow> drop_frames s v;
          (v, s) \<leftarrow> alloc_frames s 5;
          drop_frames s v }"

subsection \<open>Invariant of memory and frames\<close>

text \<open>
  Pages have 4096 bytes; the allocator manages frames from \<open>l\<close> up, all of them with a page number
  that a page table entry can hold.
\<close>

definition mm_ok :: "nat \<Rightarrow> mm \<Rightarrow> bool" where
  "mm_ok l s \<longleftrightarrow> (\<forall>a. length (pages s a) = 4096) \<and> fa_inv l (falloc s) \<and> fend (falloc s) \<le> 2 ^ 44 \<and> 0 < l"

definition frames_free :: "mm \<Rightarrow> PhysPageNum set" where
  "frames_free s = word_of_nat ` fa_free (falloc s)"

definition frames_used :: "nat \<Rightarrow> mm \<Rightarrow> PhysPageNum set" where
  "frames_used l s = word_of_nat ` (fa_used (falloc s) \<inter> {l..})"

lemma fa_bounds:
  assumes "fa_inv l a" and "fend a \<le> 2 ^ 44"
  shows "i \<in> fa_free a \<Longrightarrow> l \<le> i \<and> i < 2 ^ 44" and "i \<in> fa_used a \<Longrightarrow> i < 2 ^ 44"
  using assms by (auto simp: fa_inv_def fa_free_def fa_used_def)

lemma word_nat_44: "i < 2 ^ 44 \<Longrightarrow> unat (word_of_nat i :: usize) = i"
  by (simp add: unat_of_nat)

lemma word_nat_inj: "i < 2 ^ 44 \<Longrightarrow> j < 2 ^ 44 \<Longrightarrow> (word_of_nat i :: usize) = word_of_nat j \<longleftrightarrow> i = j"
  by (metis word_nat_44)

lemma frames_free_disjoint: "mm_ok l s \<Longrightarrow> frames_free s \<inter> frames_used l s = {}"
proof -
  assume ok: "mm_ok l s"
  then have inv: "fa_inv l (falloc s)" "fend (falloc s) \<le> 2 ^ 44" by (auto simp: mm_ok_def)
  have "fa_free (falloc s) \<inter> fa_used (falloc s) = {}" by (auto simp: fa_free_def fa_used_def)
  then have "word_of_nat i \<noteq> (word_of_nat j :: usize)" if "i \<in> fa_free (falloc s)" "j \<in> fa_used (falloc s)" for i j
    using that fa_bounds [OF inv] word_nat_inj [of i j] by auto
  then show ?thesis by (auto simp: frames_free_def frames_used_def)
qed

lemma frames_bounds:
  assumes "mm_ok l s"
  shows "f \<in> frames_free s \<Longrightarrow> l \<le> unat f \<and> unat f < 2 ^ 44" and "f \<in> frames_used l s \<Longrightarrow> l \<le> unat f \<and> unat f < 2 ^ 44"
proof -
  have inv: "fa_inv l (falloc s)" "fend (falloc s) \<le> 2 ^ 44" using assms by (auto simp: mm_ok_def)
  show "f \<in> frames_free s \<Longrightarrow> l \<le> unat f \<and> unat f < 2 ^ 44"
    using fa_bounds(1) [OF inv] word_nat_44 by (auto simp: frames_free_def)
  show "f \<in> frames_used l s \<Longrightarrow> l \<le> unat f \<and> unat f < 2 ^ 44"
    using fa_bounds(2) [OF inv] word_nat_44 by (auto simp: frames_used_def)
qed

lemma ppn_small: "unat f < 2 ^ 44 \<Longrightarrow> f < 2 ^ 52" for f :: usize
  by (simp add: word_less_nat_alt unat_exp [of 52, simplified])

lemma finite_frames_free [simp]: "finite (frames_free s)"
  by (simp add: frames_free_def fa_free_def)

lemma fa_alloc_cases:
  assumes inv: "fa_inv l a" and r: "fa_alloc a = Some (i, a')"
  shows "i \<in> fa_free a" and "fa_free a' = fa_free a - {i}" and "fa_used a' = insert i (fa_used a)" and "fa_inv l a'" and "fend a' = fend a"
proof -
  show "fa_used a' = insert i (fa_used a)" using frames.alloc_used [OF fa_inv_0 [OF inv] TrueI r] .
  show "fa_inv l a'" using fa_alloc_inv [OF inv r] .
  show "i \<in> fa_free a" "fa_free a' = fa_free a - {i}" "fend a' = fend a"
    using inv r last_butlast_set [of "frecycled a"] distinct_last_butlast [of "frecycled a"]
    by (auto simp: fa_alloc_def fa_free_def fa_inv_def split: if_splits)
qed

lemma frame_alloc_None: "mm_ok l s \<Longrightarrow> frame_alloc s = None \<longleftrightarrow> frames_free s = {}"
proof -
  assume "mm_ok l s"
  then have "fcurrent (falloc s) \<le> fend (falloc s)" by (simp add: mm_ok_def fa_inv_def)
  then show ?thesis
    by (auto simp: frame_alloc_def fa_alloc_def frames_free_def fa_free_def split: option.splits if_splits)
qed

lemma frame_alloc_Some:
  assumes ok: "mm_ok l s" and r: "frame_alloc s = Some (f, s')"
  shows "f \<in> frames_free s" and "frames_free s' = frames_free s - {f}" and "frames_used l s' = insert f (frames_used l s)"
    and "mm_ok l s'" and "get_bytes_array s' f = replicate 4096 0" and "p \<noteq> f \<Longrightarrow> p < 2 ^ 52 \<Longrightarrow> get_bytes_array s' p = get_bytes_array s p"
proof -
  have inv: "fa_inv l (falloc s)" "fend (falloc s) \<le> 2 ^ 44" and len: "\<And>a. length (pages s a) = 4096" using ok by (auto simp: mm_ok_def)
  obtain i a where i: "fa_alloc (falloc s) = Some (i, a)" "f = word_of_nat i" "s' = FrameTracker_new (s\<lparr>falloc := a\<rparr>) f"
    using r by (auto simp: frame_alloc_def split: option.splits)
  note al = fa_alloc_cases [OF inv(1) i(1)]
  have b: "l \<le> i" "i < 2 ^ 44" using fa_bounds(1) [OF inv al(1)] by auto
  have fa: "falloc s' = a" by (simp add: i(3) FrameTracker_new_def set_bytes_array_def)
  show f: "f \<in> frames_free s" using al(1) i(2) by (simp add: frames_free_def)
  have "word_of_nat ` (fa_free (falloc s) - {i}) = (word_of_nat ` fa_free (falloc s) - {f} :: usize set)"
    using fa_bounds(1) [OF inv] b(2) word_nat_inj i(2) by blast
  then show "frames_free s' = frames_free s - {f}" using al(2) by (simp add: frames_free_def fa)
  have "fa_used a \<inter> {l..} = insert i (fa_used (falloc s) \<inter> {l..})" using al(3) b(1) by auto
  then show "frames_used l s' = insert f (frames_used l s)" by (simp add: frames_used_def fa i(2))
  show "mm_ok l s'" using al(4,5) ok fa by (auto simp: mm_ok_def i(3) FrameTracker_new_def set_bytes_array_def get_bytes_array_def)
  show "get_bytes_array s' f = replicate 4096 0"
    using len by (simp add: i(3) FrameTracker_new_def set_bytes_array_def get_bytes_array_def map_replicate_const)
  have "f < 2 ^ 52" using frames_bounds(1) [OF ok f] by (intro ppn_small) simp
  then show "p \<noteq> f \<Longrightarrow> p < 2 ^ 52 \<Longrightarrow> get_bytes_array s' p = get_bytes_array s p"
    using pa_of_ppn_inj [of p f] by (simp add: i(3) FrameTracker_new_def set_bytes_array_def get_bytes_array_def)
qed

lemma frame_dealloc_ok:
  assumes ok: "mm_ok l s" and f: "f \<in> frames_used l s"
  shows "\<exists>s'. frame_dealloc s f = Some s' \<and> pages s' = pages s \<and> mm_ok l s' \<and>
    frames_free s' = insert f (frames_free s) \<and> frames_used l s' = frames_used l s - {f}"
proof -
  have inv: "fa_inv l (falloc s)" "fend (falloc s) \<le> 2 ^ 44" using ok by (auto simp: mm_ok_def)
  obtain i where i: "i \<in> fa_used (falloc s)" "l \<le> i" "f = word_of_nat i" using f by (auto simp: frames_used_def)
  have b: "unat f = i" "i < 2 ^ 44" using fa_bounds(2) [OF inv i(1)] word_nat_44 i(3) by auto
  let ?a = "falloc s\<lparr>frecycled := frecycled (falloc s) @ [i]\<rparr>"
  have d: "fa_dealloc (falloc s) i = Some ?a" using i(1) by (auto simp: fa_dealloc_Some fa_used_def)
  have r: "frame_dealloc s f = Some (s\<lparr>falloc := ?a\<rparr>)" using d b(1) by (simp add: frame_dealloc_def)
  have ok': "mm_ok l (s\<lparr>falloc := ?a\<rparr>)" using fa_dealloc_inv [OF inv(1) i(2) d] ok by (simp add: mm_ok_def)
  have fr: "frames_free (s\<lparr>falloc := ?a\<rparr>) = insert f (frames_free s)" by (auto simp: frames_free_def fa_free_def i(3))
  have "inj_on (word_of_nat :: nat \<Rightarrow> usize) (fa_used (falloc s))"
    using fa_bounds(2) [OF inv] word_nat_inj by (auto intro!: inj_onI)
  then have "word_of_nat ` (fa_used (falloc s) \<inter> {l..} - {i}) = (word_of_nat ` (fa_used (falloc s) \<inter> {l..}) - {f} :: usize set)"
    using i(1,3) by (subst inj_on_image_set_diff) auto
  moreover have "fa_used ?a \<inter> {l..} = fa_used (falloc s) \<inter> {l..} - {i}" by (auto simp: fa_used_def)
  ultimately have "frames_used l (s\<lparr>falloc := ?a\<rparr>) = frames_used l s - {f}" by (simp add: frames_used_def)
  with r ok' fr show ?thesis by auto
qed

lemma drop_frames_ok:
  "mm_ok l s \<Longrightarrow> distinct fs \<Longrightarrow> set fs \<subseteq> frames_used l s \<Longrightarrow>
    \<exists>s'. drop_frames s fs = Some s' \<and> pages s' = pages s \<and> mm_ok l s' \<and>
      frames_free s' = frames_free s \<union> set fs \<and> frames_used l s' = frames_used l s - set fs"
proof (induction fs arbitrary: s)
  case Nil
  then show ?case by simp
next
  case (Cons f fs)
  have f: "f \<in> frames_used l s" using Cons.prems by simp
  obtain s1 where s1: "frame_dealloc s f = Some s1" "pages s1 = pages s" "mm_ok l s1"
    "frames_free s1 = insert f (frames_free s)" "frames_used l s1 = frames_used l s - {f}"
    using frame_dealloc_ok [OF Cons.prems(1) f] by blast
  have "set fs \<subseteq> frames_used l s1" using Cons.prems s1(5) by auto
  from Cons.IH [OF s1(3) _ this] Cons.prems(2) obtain s' where
    "drop_frames s1 fs = Some s'" "pages s' = pages s1" "mm_ok l s'" "frames_free s' = frames_free s1 \<union> set fs"
    "frames_used l s' = frames_used l s1 - set fs" by auto
  then show ?case using s1 by (auto simp: Diff_insert2 [symmetric])
qed

lemma alloc_frames_ok:
  "mm_ok l s \<Longrightarrow> n \<le> card (frames_free s) \<Longrightarrow>
    \<exists>fs s'. alloc_frames s n = Some (fs, s') \<and> length fs = n \<and> distinct fs \<and> set fs \<subseteq> frames_free s \<and> mm_ok l s' \<and>
      frames_free s' = frames_free s - set fs \<and> frames_used l s' = frames_used l s \<union> set fs"
proof (induction n arbitrary: s)
  case 0
  then show ?case by simp
next
  case (Suc n)
  have "frames_free s \<noteq> {}" using Suc.prems(2) by auto
  then obtain f s1 where r: "frame_alloc s = Some (f, s1)" using frame_alloc_None [OF Suc.prems(1)] by auto
  note a = frame_alloc_Some [OF Suc.prems(1) r]
  have "n \<le> card (frames_free s1)" using Suc.prems(2) a(1,2) by simp
  from Suc.IH [OF a(4) this] obtain fs s' where "alloc_frames s1 n = Some (fs, s')" "length fs = n" "distinct fs"
    "set fs \<subseteq> frames_free s1" "mm_ok l s'" "frames_free s' = frames_free s1 - set fs"
    "frames_used l s' = frames_used l s1 \<union> set fs" by blast
  then show ?case using r a by (intro exI [of _ "f # fs"] exI [of _ s']) auto
qed

text \<open>
  The frame allocator's self test returns on every well-formed memory with at least five
  free frames, and afterwards exactly the same frames are free and used.
\<close>

theorem frame_test_neutral:
  assumes ok: "mm_ok l s" and five: "5 \<le> card (frames_free s)"
  shows "\<exists>s'. frame_allocator_test s = Some s' \<and> mm_ok l s' \<and> frames_free s' = frames_free s \<and> frames_used l s' = frames_used l s"
proof -
  have round: "\<exists>fs s1 s2. alloc_frames s 5 = Some (fs, s1) \<and> drop_frames s1 fs = Some s2 \<and> mm_ok l s2 \<and>
      frames_free s2 = frames_free s \<and> frames_used l s2 = frames_used l s" if ok: "mm_ok l s" and five: "5 \<le> card (frames_free s)" for s
  proof -
    obtain fs s1 where a: "alloc_frames s 5 = Some (fs, s1)" "distinct fs" "set fs \<subseteq> frames_free s" "mm_ok l s1"
      "frames_free s1 = frames_free s - set fs" "frames_used l s1 = frames_used l s \<union> set fs"
      using alloc_frames_ok [OF ok five] by blast
    obtain s2 where d: "drop_frames s1 fs = Some s2" "mm_ok l s2" "frames_free s2 = frames_free s1 \<union> set fs"
      "frames_used l s2 = frames_used l s1 - set fs" using drop_frames_ok [OF a(4,2)] a(6) by auto
    have "frames_free s2 = frames_free s" "frames_used l s2 = frames_used l s"
      using a(3,5,6) d(3,4) frames_free_disjoint [OF ok] by auto
    with a(1) d(1,2) show ?thesis by blast
  qed
  obtain fs s1 s2 where 1: "alloc_frames s 5 = Some (fs, s1)" "drop_frames s1 fs = Some s2" "mm_ok l s2"
    "frames_free s2 = frames_free s" "frames_used l s2 = frames_used l s" using round [OF ok five] by blast
  with five have "5 \<le> card (frames_free s2)" by simp
  from round [OF 1(3) this] 1 show ?thesis by (auto simp: frame_allocator_test_def)
qed

theorem frame_test_neutral_witness:
  "mm_ok 2 \<lparr>pages = \<lambda>_. replicate 4096 0, falloc = \<lparr>fcurrent = 2, fend = 8, frecycled = []\<rparr>\<rparr> \<and>
   (\<exists>s'. frame_allocator_test \<lparr>pages = \<lambda>_. replicate 4096 0, falloc = \<lparr>fcurrent = 2, fend = 8, frecycled = []\<rparr>\<rparr> = Some s')"
proof -
  let ?s = "\<lparr>pages = \<lambda>_. replicate 4096 0, falloc = \<lparr>fcurrent = 2, fend = 8, frecycled = []\<rparr>\<rparr>"
  have ok: "mm_ok 2 ?s" by (simp add: mm_ok_def fa_inv_def)
  have "inj_on (word_of_nat :: nat \<Rightarrow> usize) {2..<8}" by (rule inj_on_inverseI [of _ unat]) (auto simp: unat_of_nat)
  then have "5 \<le> card (frames_free ?s)" by (simp add: frames_free_def fa_free_def card_image)
  from frame_test_neutral [OF ok this] ok show ?thesis by blast
qed

end
