(* ===== verification/Page_Table.thy ===== *)
theory Page_Table
  imports Phys_Memory
begin

text \<open>
  Page tables (os8-ref/src/mm/page_table.rs): entries, the three-level walk that creates missing
  tables and the one that does not, mapping, unmapping and translation, the access to user memory
  through a token, and user buffers with their iterator.

  A \<^verbatim>\<open>PageTable\<close> is the page number of its root and the frames of its tables; the tables themselves
  live in physical memory.  \<open>pt_ok\<close> says that the tables form a tree with pairwise distinct nodes, all
  of them owned by the page table.  The main theorem refines a page table to a finite map:
  \<open>lookup\<close> is the abstraction, mapping is an update, unmapping a deletion.
\<close>

subsection \<open>Entries\<close>

definition PTE_V :: u8 where "PTE_V = push_bit 0 1"
definition PTE_R :: u8 where "PTE_R = push_bit 1 1"
definition PTE_W :: u8 where "PTE_W = push_bit 2 1"
definition PTE_X :: u8 where "PTE_X = push_bit 3 1"
definition PTE_U :: u8 where "PTE_U = push_bit 4 1"
definition PTE_G :: u8 where "PTE_G = push_bit 5 1"
definition PTE_A :: u8 where "PTE_A = push_bit 6 1"
definition PTE_D :: u8 where "PTE_D = push_bit 7 1"

type_synonym PageTableEntry = usize

definition pte_new :: "PhysPageNum \<Rightarrow> u8 \<Rightarrow> PageTableEntry" where
  "pte_new ppn flags = push_bit 10 ppn OR ucast flags"

definition pte_empty :: PageTableEntry where
  "pte_empty = 0"

definition pte_ppn :: "PageTableEntry \<Rightarrow> PhysPageNum" where
  "pte_ppn e = drop_bit 10 e AND (push_bit 44 1 - 1)"

text \<open>All eight bits are flags, so \<^verbatim>\<open>from_bits\<close> of the low byte never fails.\<close>

definition pte_flags :: "PageTableEntry \<Rightarrow> u8" where
  "pte_flags e = ucast e"

definition pte_is_valid :: "PageTableEntry \<Rightarrow> bool" where
  "pte_is_valid e \<longleftrightarrow> pte_flags e AND PTE_V \<noteq> 0"

definition pte_readable :: "PageTableEntry \<Rightarrow> bool" where
  "pte_readable e \<longleftrightarrow> pte_flags e AND PTE_R \<noteq> 0"

definition pte_writable :: "PageTableEntry \<Rightarrow> bool" where
  "pte_writable e \<longleftrightarrow> pte_flags e AND PTE_W \<noteq> 0"

definition pte_executable :: "PageTableEntry \<Rightarrow> bool" where
  "pte_executable e \<longleftrightarrow> pte_flags e AND PTE_X \<noteq> 0"

subsection \<open>Page tables\<close>

record PageTable =
  root_ppn :: PhysPageNum
  pt_frames :: "PhysPageNum list"

definition pt_new :: "mm \<Rightarrow> (PageTable \<times> mm) option" where
  "pt_new s = do { (f, s) \<leftarrow> frame_alloc s; Some (\<lparr>root_ppn = f, pt_frames = [f]\<rparr>, s) }"

definition pt_from_token :: "usize \<Rightarrow> PageTable" where
  "pt_from_token satp = \<lparr>root_ppn = satp AND (push_bit 44 1 - 1), pt_frames = []\<rparr>"

text \<open>
  The walks return the position of an entry: the page number of its table and its index.  The
  index of the loop is the level; \<^verbatim>\<open>result\<close> stays \<^verbatim>\<open>None\<close> when the loop ends without a break.
\<close>

fun find_pte_create_loop :: "nat \<Rightarrow> usize list \<Rightarrow> PhysPageNum \<Rightarrow> mm \<Rightarrow> PageTable \<Rightarrow>
    ((PhysPageNum \<times> nat) option \<times> mm \<times> PageTable) option" where
  "find_pte_create_loop i [] ppn s pt = Some (None, s, pt)"
| "find_pte_create_loop i (idx # idxs) ppn s pt =
     (if i = 2 then Some (Some (ppn, unat idx), s, pt)
      else if \<not> pte_is_valid (get_pte s ppn (unat idx)) then
        do { (f, s) \<leftarrow> frame_alloc s;
             let s = set_pte s ppn (unat idx) (pte_new f PTE_V);
             find_pte_create_loop (i + 1) idxs (pte_ppn (get_pte s ppn (unat idx))) s (pt\<lparr>pt_frames := pt_frames pt @ [f]\<rparr>) }
      else find_pte_create_loop (i + 1) idxs (pte_ppn (get_pte s ppn (unat idx))) s pt)"

definition find_pte_create :: "PageTable \<Rightarrow> mm \<Rightarrow> VirtPageNum \<Rightarrow> ((PhysPageNum \<times> nat) option \<times> mm \<times> PageTable) option" where
  "find_pte_create pt s vpn = find_pte_create_loop 0 (indexes vpn) (root_ppn pt) s pt"

fun find_pte_loop :: "nat \<Rightarrow> usize list \<Rightarrow> PhysPageNum \<Rightarrow> mm \<Rightarrow> (PhysPageNum \<times> nat) option" where
  "find_pte_loop i [] ppn s = None"
| "find_pte_loop i (idx # idxs) ppn s =
     (if i = 2 then Some (ppn, unat idx)
      else if \<not> pte_is_valid (get_pte s ppn (unat idx)) then None
      else find_pte_loop (i + 1) idxs (pte_ppn (get_pte s ppn (unat idx))) s)"

definition find_pte :: "PageTable \<Rightarrow> mm \<Rightarrow> VirtPageNum \<Rightarrow> (PhysPageNum \<times> nat) option" where
  "find_pte pt s vpn = find_pte_loop 0 (indexes vpn) (root_ppn pt) s"

definition pt_map :: "PageTable \<Rightarrow> mm \<Rightarrow> VirtPageNum \<Rightarrow> PhysPageNum \<Rightarrow> u8 \<Rightarrow> (PageTable \<times> mm) option" where
  "pt_map pt s vpn ppn flags =
     do { (r, s, pt) \<leftarrow> find_pte_create pt s vpn;
          (p, i) \<leftarrow> r;
          rassert (\<not> pte_is_valid (get_pte s p i));
          Some (pt, set_pte s p i (pte_new ppn (flags OR PTE_V))) }"

definition pt_unmap :: "PageTable \<Rightarrow> mm \<Rightarrow> VirtPageNum \<Rightarrow> (PageTable \<times> mm) option" where
  "pt_unmap pt s vpn =
     do { (r, s, pt) \<leftarrow> find_pte_create pt s vpn;
          (p, i) \<leftarrow> r;
          rassert (pte_is_valid (get_pte s p i));
          Some (pt, set_pte s p i pte_empty) }"

definition pt_translate :: "PageTable \<Rightarrow> mm \<Rightarrow> VirtPageNum \<Rightarrow> PageTableEntry option" where
  "pt_translate pt s vpn = map_option (\<lambda>(p, i). get_pte s p i) (find_pte pt s vpn)"

definition pt_translate_va :: "PageTable \<Rightarrow> mm \<Rightarrow> VirtAddr \<Rightarrow> PhysAddr option" where
  "pt_translate_va pt s va =
     map_option (\<lambda>(p, i). pa_of_ppn (pte_ppn (get_pte s p i)) + va_page_offset va) (find_pte pt s (va_floor va))"

definition pt_token :: "PageTable \<Rightarrow> usize" where
  "pt_token pt = push_bit 60 8 OR root_ppn pt"

subsection \<open>User memory\<close>

text \<open>A byte slice of physical memory: its address and its length.\<close>

type_synonym mslice = "PhysAddr \<times> nat"

definition page_slice :: "PhysPageNum \<Rightarrow> usize \<Rightarrow> nat \<Rightarrow> mslice option" where
  "page_slice ppn a b = do { rassert (unat a \<le> b \<and> b \<le> 4096); Some (pa_of_ppn ppn + a, b - unat a) }"

text \<open>The loop need not end when the range touches the last page of the address space: there the next page is page 0.\<close>

partial_function (option) tbb_loop :: "mm \<Rightarrow> PageTable \<Rightarrow> usize \<Rightarrow> usize \<Rightarrow> mslice list option" where
  "tbb_loop s pt start fin =
     (if start < fin then
        do { pte \<leftarrow> pt_translate pt s (va_floor start);
             let end_va = min (va_of_vpn (vpn_step (va_floor start))) fin;
             sl \<leftarrow> page_slice (pte_ppn pte) (va_page_offset start)
                     (if va_page_offset end_va = 0 then 4096 else unat (va_page_offset end_va));
             v \<leftarrow> tbb_loop s pt end_va fin;
             Some (sl # v) }
      else Some [])"

definition translated_byte_buffer :: "mm \<Rightarrow> usize \<Rightarrow> VirtAddr \<Rightarrow> usize \<Rightarrow> mslice list option" where
  "translated_byte_buffer s token ptr len = tbb_loop s (pt_from_token token) ptr (ptr + len)"

partial_function (option) tstr_loop :: "mm \<Rightarrow> PageTable \<Rightarrow> usize \<Rightarrow> u8 list option" where
  "tstr_loop s pt va =
     do { pa \<leftarrow> pt_translate_va pt s va;
          bs \<leftarrow> get_ref s pa 1;
          if hd bs = 0 then Some []
          else do { r \<leftarrow> tstr_loop s pt (va + 1); Some (hd bs # r) } }"

text \<open>The characters of the resulting string, each the code point of a byte.\<close>

definition translated_str :: "mm \<Rightarrow> usize \<Rightarrow> VirtAddr \<Rightarrow> u8 list option" where
  "translated_str s token ptr = tstr_loop s (pt_from_token token) ptr"

definition translated_ref :: "mm \<Rightarrow> usize \<Rightarrow> VirtAddr \<Rightarrow> nat \<Rightarrow> u8 list option" where
  "translated_ref s token ptr n = do { pa \<leftarrow> pt_translate_va (pt_from_token token) s ptr; get_ref s pa n }"

definition translated_refmut :: "mm \<Rightarrow> usize \<Rightarrow> VirtAddr \<Rightarrow> u8 list \<Rightarrow> mm option" where
  "translated_refmut s token ptr bs = do { pa \<leftarrow> pt_translate_va (pt_from_token token) s ptr; get_mut s pa bs }"

type_synonym UserBuffer = "mslice list"

fun ub_len_loop :: "usize \<Rightarrow> mslice list \<Rightarrow> usize" where
  "ub_len_loop acc [] = acc"
| "ub_len_loop acc (b # bs) = ub_len_loop (acc + word_of_nat (snd b)) bs"

definition ub_len :: "UserBuffer \<Rightarrow> usize" where
  "ub_len ub = ub_len_loop 0 ub"

record UserBufferIterator =
  ubi_buffers :: "mslice list"
  ubi_buffer :: nat
  ubi_idx :: nat

definition ub_into_iter :: "UserBuffer \<Rightarrow> UserBufferIterator" where
  "ub_into_iter ub = \<lparr>ubi_buffers = ub, ubi_buffer = 0, ubi_idx = 0\<rparr>"

text \<open>Indexing an empty slice panics.\<close>

definition ubi_next :: "UserBufferIterator \<Rightarrow> (PhysAddr option \<times> UserBufferIterator) option" where
  "ubi_next it =
     (if length (ubi_buffers it) \<le> ubi_buffer it then Some (None, it)
      else let (a, n) = ubi_buffers it ! ubi_buffer it in
        if \<not> ubi_idx it < n then None
        else Some (Some (a + word_of_nat (ubi_idx it)),
               if ubi_idx it + 1 = n then it\<lparr>ubi_idx := 0, ubi_buffer := ubi_buffer it + 1\<rparr>
               else it\<lparr>ubi_idx := ubi_idx it + 1\<rparr>))"

subsection \<open>Laws of entries\<close>

lemma pte_bit_V: "pte_is_valid e \<longleftrightarrow> bit e 0"
proof -
  have "pte_flags e AND PTE_V = (if bit e 0 then 1 else 0)"
    by (rule bit_eqI) (auto simp: pte_flags_def PTE_V_def bit_and_iff bit_unsigned_iff bit_1_iff intro!: gr0I)
  then show ?thesis by (simp add: pte_is_valid_def)
qed

lemma pte_flags_new: "pte_flags (pte_new ppn fl) = fl"
  by (rule bit_eqI) (auto simp: pte_flags_def pte_new_def bit_unsigned_iff bit_or_iff bit_push_bit_iff)

lemma pte_valid_new: "pte_is_valid (pte_new ppn (fl OR PTE_V))"
  by (simp add: pte_bit_V pte_new_def bit_or_iff bit_unsigned_iff PTE_V_def bit_push_bit_iff)

lemma pte_valid_dir: "pte_is_valid (pte_new ppn PTE_V)"
  using pte_valid_new [of ppn 0] by simp

lemma pte_ppn_take: "pte_ppn e = take_bit 44 (drop_bit 10 e)"
  by (simp add: pte_ppn_def take_bit_eq_mask mask_eq_exp_minus_1)

lemma pte_ppn_new: "unat ppn < 2 ^ 44 \<Longrightarrow> pte_ppn (pte_new ppn fl) = ppn"
proof -
  assume "unat ppn < 2 ^ 44"
  then have p: "take_bit 44 ppn = ppn" by (intro take_bit_small) (simp_all add: word_less_nat_alt unat_exp [of 44, simplified])
  have b: "\<not> bit ppn n" if "44 \<le> n" for n
    using p [THEN arg_cong, of "\<lambda>x. bit x n"] that by (simp add: bit_take_bit_iff)
  have "take_bit 44 (drop_bit 10 (pte_new ppn fl)) = take_bit 44 ppn"
    using b by (intro bit_eqI) (auto simp: pte_new_def bit_take_bit_iff bit_drop_bit_eq bit_or_iff bit_push_bit_iff bit_unsigned_iff dest: bit_imp_le_length)
  then show ?thesis using p by (simp add: pte_ppn_take)
qed

lemma pte_ppn_bound: "unat (pte_ppn e) < 2 ^ 44"
  unfolding pte_ppn_take by (simp add: take_bit_eq_mod unat_mod)

lemma pte_empty_invalid [simp]: "\<not> pte_is_valid 0" "\<not> pte_is_valid pte_empty"
  by (simp_all add: pte_bit_V pte_empty_def)

lemma unat_lt_256_8: "unat (e :: usize) < 256 ^ 8"
  using unsigned_less [of e] by simp

lemma get_set_pte:
  assumes len: "\<And>a. length (pages s a) = 4096" and i: "i < 512" and j: "j < 512" and p: "p < 2 ^ 52" and q: "q < 2 ^ 52"
  shows "get_pte (set_pte s p i e) q j = (if p = q \<and> i = j then e else get_pte s q j)"
proof (cases "p = q")
  case True
  have l: "8 * i + 8 \<le> length (pages s (pa_of_ppn q))" "8 * j + 8 \<le> length (pages s (pa_of_ppn q))" using i j len by auto
  show ?thesis
  proof (cases "i = j")
    case True
    with \<open>p = q\<close> show ?thesis using get_set_le_same [OF l(1), of "unat e"] unat_lt_256_8 [of e]
      by (simp add: get_pte_def set_pte_def set_bytes_array_def get_bytes_array_def)
  next
    case False
    then have "get_le 8 (set_le 8 (pages s (pa_of_ppn q)) i (unat e)) j = get_le 8 (pages s (pa_of_ppn q)) j"
      using l by (intro get_set_le_other) auto
    with \<open>p = q\<close> False show ?thesis by (simp add: get_pte_def set_pte_def set_bytes_array_def get_bytes_array_def)
  qed
next
  case False
  then show ?thesis using pa_of_ppn_inj [OF p q] by (simp add: get_pte_def set_pte_def set_bytes_array_def get_bytes_array_def)
qed

lemma set_pte_props:
  assumes ok: "mm_ok l s" and i: "i < 512"
  shows "mm_ok l (set_pte s p i e)" and "frames_free (set_pte s p i e) = frames_free s" and "frames_used l (set_pte s p i e) = frames_used l s"
    and "p < 2 ^ 52 \<Longrightarrow> q < 2 ^ 52 \<Longrightarrow> q \<noteq> p \<Longrightarrow> get_bytes_array (set_pte s p i e) q = get_bytes_array s q"
proof -
  show "mm_ok l (set_pte s p i e)" using ok i by (auto simp: mm_ok_def set_pte_def set_bytes_array_def get_bytes_array_def)
  show "frames_free (set_pte s p i e) = frames_free s" "frames_used l (set_pte s p i e) = frames_used l s"
    by (simp_all add: frames_free_def frames_used_def set_pte_def set_bytes_array_def)
  show "p < 2 ^ 52 \<Longrightarrow> q < 2 ^ 52 \<Longrightarrow> q \<noteq> p \<Longrightarrow> get_bytes_array (set_pte s p i e) q = get_bytes_array s q"
    using pa_of_ppn_inj [of q p] by (simp add: set_pte_def set_bytes_array_def get_bytes_array_def)
qed

lemma get_pte_cong: "get_bytes_array s' p = get_bytes_array s p \<Longrightarrow> get_pte s' p i = get_pte s p i"
  by (simp add: get_pte_def)

lemma get_pte_zero: "get_bytes_array s p = replicate 4096 0 \<Longrightarrow> get_pte s p i = 0"
proof -
  assume *: "get_bytes_array s p = replicate 4096 0"
  have "take 8 (drop (8 * i) (replicate 4096 (0 :: u8))) = replicate (min 8 (4096 - 8 * i)) 0" by simp
  then show ?thesis using * by (simp add: get_pte_def get_le_def del: take_replicate drop_replicate)
qed

subsection \<open>Walks\<close>

text \<open>The table reached along a path of indexes.\<close>

fun walk :: "mm \<Rightarrow> PhysPageNum \<Rightarrow> nat list \<Rightarrow> PhysPageNum option" where
  "walk s p [] = Some p"
| "walk s p (i # is) = (if pte_is_valid (get_pte s p i) then walk s (pte_ppn (get_pte s p i)) is else None)"

lemma walk_append: "walk s p (a @ b) = (case walk s p a of None \<Rightarrow> None | Some x \<Rightarrow> walk s x b)"
  by (induction a arbitrary: p) auto

lemma walk_cong:
  "(\<And>a i b x. path = a @ i # b \<Longrightarrow> walk s p a = Some x \<Longrightarrow> get_pte s' x i = get_pte s x i) \<Longrightarrow> walk s' p path = walk s p path"
proof (induction path arbitrary: p)
  case Nil
  then show ?case by simp
next
  case (Cons j path)
  have e: "get_pte s' p j = get_pte s p j" using Cons.prems [of "[]" j path p] by simp
  show ?case
  proof (cases "pte_is_valid (get_pte s p j)")
    case True
    have "walk s' (pte_ppn (get_pte s p j)) path = walk s (pte_ppn (get_pte s p j)) path"
    proof (rule Cons.IH)
      fix a i b x
      assume "path = a @ i # b" "walk s (pte_ppn (get_pte s p j)) a = Some x"
      then show "get_pte s' x i = get_pte s x i" using Cons.prems [of "j # a" i b x] True by simp
    qed
    then show ?thesis using e by simp
  qed (use e in simp)
qed

definition path_ok :: "nat list \<Rightarrow> bool" where
  "path_ok path \<longleftrightarrow> length path \<le> 2 \<and> (\<forall>i \<in> set path. i < 512)"

definition pt_ok :: "nat \<Rightarrow> mm \<Rightarrow> PageTable \<Rightarrow> bool" where
  "pt_ok l s pt \<longleftrightarrow> mm_ok l s \<and> distinct (pt_frames pt) \<and> root_ppn pt \<in> set (pt_frames pt) \<and> set (pt_frames pt) \<subseteq> frames_used l s \<and>
     (\<forall>path x. path_ok path \<longrightarrow> walk s (root_ppn pt) path = Some x \<longrightarrow> x \<in> set (pt_frames pt)) \<and>
     (\<forall>path path' x. path_ok path \<longrightarrow> path_ok path' \<longrightarrow> walk s (root_ppn pt) path = Some x \<longrightarrow>
        walk s (root_ppn pt) path' = Some x \<longrightarrow> path = path')"

definition lookup :: "mm \<Rightarrow> PageTable \<Rightarrow> VirtPageNum \<Rightarrow> PageTableEntry option" where
  "lookup s pt vpn = (case pt_translate pt s vpn of None \<Rightarrow> None | Some e \<Rightarrow> if pte_is_valid e then Some e else None)"

definition i0 :: "usize \<Rightarrow> nat" where "i0 v = unat (drop_bit 18 v AND 511)"
definition i1 :: "usize \<Rightarrow> nat" where "i1 v = unat (drop_bit 9 v AND 511)"
definition i2 :: "usize \<Rightarrow> nat" where "i2 v = unat (v AND 511)"

lemma idx_less [simp]: "i0 v < 512" "i1 v < 512" "i2 v < 512"
  by (simp_all only: i0_def i1_def i2_def index_less)

lemma idx_eq: "i0 v = i0 w \<and> i1 v = i1 w \<and> i2 v = i2 w \<longleftrightarrow> take_bit 27 v = take_bit 27 w"
  unfolding indexes_take [symmetric] indexes_eq i0_def i1_def i2_def by (simp add: word_unat_eq_iff)

lemma find_pte_eq: "find_pte pt s v = map_option (\<lambda>x. (x, i2 v)) (walk s (root_ppn pt) [i0 v, i1 v])"
  by (simp add: find_pte_def indexes_eq i0_def i1_def i2_def)

lemma lookup_eq:
  "lookup s pt v = (case walk s (root_ppn pt) [i0 v, i1 v] of None \<Rightarrow> None
     | Some x \<Rightarrow> if pte_is_valid (get_pte s x (i2 v)) then Some (get_pte s x (i2 v)) else None)"
  unfolding lookup_def pt_translate_def find_pte_eq by (simp split: option.split)

lemma path2_ok [simp]: "path_ok [i0 v, i1 v]" "path_ok []" "path_ok [i0 v]"
  by (simp_all add: path_ok_def)

lemma path_ok_prefix: "path_ok (a @ b) \<Longrightarrow> path_ok a"
  by (simp add: path_ok_def)

lemma pt_table:
  assumes "pt_ok l s pt" and "path_ok path" and "walk s (root_ppn pt) path = Some x"
  shows "x \<in> set (pt_frames pt)"
  using assms unfolding pt_ok_def by blast

lemma pt_table_inj:
  assumes "pt_ok l s pt" and "path_ok path" and "path_ok path'" and "walk s (root_ppn pt) path = Some x"
    and "walk s (root_ppn pt) path' = Some x"
  shows "path = path'"
  using assms unfolding pt_ok_def by blast

lemma pt_frames_used:
  assumes "pt_ok l s pt" and "x \<in> set (pt_frames pt)"
  shows "x \<in> frames_used l s" and "unat x < 2 ^ 44" and "x < 2 ^ 52"
proof -
  show x: "x \<in> frames_used l s" using assms by (auto simp: pt_ok_def)
  have "mm_ok l s" using assms(1) by (simp add: pt_ok_def)
  from frames_bounds(2) [OF this x] show "unat x < 2 ^ 44" by simp
  then show "x < 2 ^ 52" by (rule ppn_small)
qed

text \<open>Growing: only new tables are added, nothing becomes mapped or unmapped.\<close>

definition pt_grow :: "nat \<Rightarrow> mm \<Rightarrow> PageTable \<Rightarrow> mm \<Rightarrow> PageTable \<Rightarrow> PhysPageNum list \<Rightarrow> bool" where
  "pt_grow l s pt s' pt' fs \<longleftrightarrow> pt_ok l s' pt' \<and> root_ppn pt' = root_ppn pt \<and> pt_frames pt' = pt_frames pt @ fs \<and>
     distinct fs \<and> set fs \<subseteq> frames_free s \<and> frames_free s' = frames_free s - set fs \<and> frames_used l s' = frames_used l s \<union> set fs \<and>
     lookup s' pt' = lookup s pt \<and>
     (\<forall>x < 2 ^ 52. x \<notin> set (pt_frames pt') \<longrightarrow> get_bytes_array s' x = get_bytes_array s x)"

lemma pt_grow_refl: "pt_ok l s pt \<Longrightarrow> pt_grow l s pt s pt []"
  by (simp add: pt_grow_def)

lemma pt_grow_trans:
  assumes "pt_grow l s pt s1 pt1 fs" and "pt_grow l s1 pt1 s2 pt2 gs"
  shows "pt_grow l s pt s2 pt2 (fs @ gs)"
  using assms unfolding pt_grow_def by (auto simp: pt_ok_def)

lemma new_table_walk:
  assumes ok: "pt_ok l s pt" and q: "walk s (root_ppn pt) q = Some p" "path_ok q" and i: "i < 512"
    and f: "f \<notin> set (pt_frames pt)"
    and e: "pte_is_valid (get_pte s' p i)" "pte_ppn (get_pte s' p i) = f"
    and same: "\<And>x j. x \<in> set (pt_frames pt) \<Longrightarrow> j < 512 \<Longrightarrow> (x, j) \<noteq> (p, i) \<Longrightarrow> get_pte s' x j = get_pte s x j"
    and zero: "\<And>j. get_pte s' f j = 0"
    and path: "path_ok path"
  shows "walk s' (root_ppn pt) path =
    (if take (Suc (length q)) path = q @ [i] then (if path = q @ [i] then Some f else None) else walk s (root_ppn pt) path)"
proof -
  have keep: "walk s' (root_ppn pt) path = walk s (root_ppn pt) path" if "take (Suc (length q)) path \<noteq> q @ [i]" "path_ok path" for path
  proof (rule walk_cong)
    fix a j b x
    assume p: "path = a @ j # b" and w: "walk s (root_ppn pt) a = Some x"
    have a: "path_ok a" using that(2) unfolding p by (rule path_ok_prefix)
    have "j < 512" using that(2) by (simp add: p path_ok_def)
    moreover have "x \<in> set (pt_frames pt)" using pt_table [OF ok a w] .
    moreover have "(x, j) \<noteq> (p, i)"
    proof
      assume "(x, j) = (p, i)"
      then have "a = q" "j = i" using pt_table_inj [OF ok a q(2) w] q(1) by auto
      then show False using that(1) by (simp add: p)
    qed
    ultimately show "get_pte s' x j = get_pte s x j" using same by blast
  qed
  show ?thesis
  proof (cases "take (Suc (length q)) path = q @ [i]")
    case True
    define r where "r = drop (Suc (length q)) path"
    have p: "path = (q @ [i]) @ r" unfolding r_def using True append_take_drop_id [of "Suc (length q)" path] by simp
    have "walk s' (root_ppn pt) q = Some p" using keep [of q] q by simp
    then have "walk s' (root_ppn pt) (q @ [i]) = Some f" using e by (simp add: walk_append)
    then have "walk s' (root_ppn pt) path = walk s' f r" unfolding p by (simp add: walk_append del: append_assoc)
    also have "\<dots> = (if r = [] then Some f else None)" using zero by (cases r) auto
    finally show ?thesis using True p by simp
  qed (use keep path in simp)
qed

text \<open>
  What a new table at the end of \<open>qi\<close> changes: its walk.  \<open>s'\<close> walks like \<open>s\<close> except that \<open>qi\<close> leads
  to the new table \<open>f\<close>.
\<close>

definition walks_to :: "mm \<Rightarrow> PhysPageNum \<Rightarrow> mm \<Rightarrow> nat list \<Rightarrow> PhysPageNum \<Rightarrow> bool" where
  "walks_to s r s' qi f \<longleftrightarrow> (\<forall>path x. path_ok path \<longrightarrow>
     (walk s' r path = Some x \<longleftrightarrow> (path = qi \<and> x = f) \<or> walk s r path = Some x))"

lemma walks_toD: "walks_to s r s' qi f \<Longrightarrow> path_ok path \<Longrightarrow> walk s' r path = Some x \<longleftrightarrow> (path = qi \<and> x = f) \<or> walk s r path = Some x"
  by (simp add: walks_to_def)

lemma walk_below_invalid:
  assumes "walk s r q = Some p" and "\<not> pte_is_valid (get_pte s p i)" and "take (Suc (length q)) path = q @ [i]"
  shows "walk s r path = None"
proof -
  have "path = (q @ [i]) @ drop (Suc (length q)) path" using assms(3) append_take_drop_id [of "Suc (length q)" path] by simp
  moreover have "walk s r (q @ [i]) = None" using assms(1,2) by (simp add: walk_append)
  ultimately show ?thesis using walk_append [of s r "q @ [i]" "drop (Suc (length q)) path"] by simp
qed

lemma new_table_pt_ok:
  assumes ok: "pt_ok l s pt" and f: "f \<notin> set (pt_frames pt)" and mm: "mm_ok l s'" and u: "frames_used l s' = insert f (frames_used l s)"
    and w: "walks_to s (root_ppn pt) s' qi f"
  shows "pt_ok l s' (pt\<lparr>pt_frames := pt_frames pt @ [f]\<rparr>)" (is "pt_ok l s' ?pt")
  unfolding pt_ok_def
proof (intro conjI allI impI)
  show "mm_ok l s'" "distinct (pt_frames ?pt)" "root_ppn ?pt \<in> set (pt_frames ?pt)" "set (pt_frames ?pt) \<subseteq> frames_used l s'"
    using mm ok f u by (auto simp: pt_ok_def)
  fix path x assume path: "path_ok path" "walk s' (root_ppn ?pt) path = Some x"
  then have px: "(path = qi \<and> x = f) \<or> walk s (root_ppn pt) path = Some x" using walks_toD [OF w path(1)] by simp
  then show "x \<in> set (pt_frames ?pt)" using pt_table [OF ok path(1)] by auto
  fix path' assume path': "path_ok path'" "walk s' (root_ppn ?pt) path' = Some x"
  then have px': "(path' = qi \<and> x = f) \<or> walk s (root_ppn pt) path' = Some x" using walks_toD [OF w path'(1)] by simp
  show "path = path'"
  proof (cases "x = f")
    case True
    then have "walk s (root_ppn pt) path \<noteq> Some x" "walk s (root_ppn pt) path' \<noteq> Some x"
      using pt_table [OF ok path(1)] pt_table [OF ok path'(1)] f by blast+
    then show ?thesis using px px' by simp
  next
    case False
    then show ?thesis using px px' pt_table_inj [OF ok path(1) path'(1)] by simp
  qed
qed

lemma new_table_lookup:
  assumes ok: "pt_ok l s pt" and q: "walk s (root_ppn pt) q = Some p" "path_ok q" "length q < 2"
    and w: "walks_to s (root_ppn pt) s' qi f" and zero: "\<And>j. get_pte s' f j = 0"
    and same: "\<And>x j. x \<in> set (pt_frames pt) \<Longrightarrow> j < 512 \<Longrightarrow> (x, j) \<noteq> (p, i) \<Longrightarrow> get_pte s' x j = get_pte s x j"
  shows "lookup s' (pt\<lparr>pt_frames := fs\<rparr>) v = lookup s pt v"
proof (cases "walk s (root_ppn pt) [i0 v, i1 v]")
  case None
  then have "walk s' (root_ppn pt) [i0 v, i1 v] = None \<or> walk s' (root_ppn pt) [i0 v, i1 v] = Some f"
    using walks_toD [OF w path2_ok(1), of v] by (metis not_None_eq option.distinct(1))
  then show ?thesis using None zero by (auto simp: lookup_eq simp del: walk.simps)
next
  case (Some x)
  then have "walk s' (root_ppn pt) [i0 v, i1 v] = Some x" using walks_toD [OF w path2_ok(1)] by blast
  moreover have "get_pte s' x (i2 v) = get_pte s x (i2 v)"
  proof (rule same)
    show "x \<in> set (pt_frames pt)" using pt_table [OF ok path2_ok(1) Some] .
    have "[i0 v, i1 v] \<noteq> q" using q(3) by auto
    then show "(x, i2 v) \<noteq> (p, i)" using pt_table_inj [OF ok path2_ok(1) q(2) Some] q(1) by auto
  qed simp
  ultimately show ?thesis using Some by (simp add: lookup_eq)
qed

lemma new_table:
  assumes ok: "pt_ok l s pt" and q: "walk s (root_ppn pt) q = Some p" "path_ok q" "length q < 2" and i: "i < 512"
    and inv: "\<not> pte_is_valid (get_pte s p i)" and al: "frame_alloc s = Some (f, s1)"
  defines "s2 \<equiv> set_pte s1 p i (pte_new f PTE_V)" and "pt2 \<equiv> pt\<lparr>pt_frames := pt_frames pt @ [f]\<rparr>"
  shows "pt_grow l s pt s2 pt2 [f]" and "walk s2 (root_ppn pt) (q @ [i]) = Some f" and "pte_ppn (get_pte s2 p i) = f"
proof -
  have mm: "mm_ok l s" using ok by (simp add: pt_ok_def)
  note a = frame_alloc_Some [OF mm al]
  have fn: "f \<notin> set (pt_frames pt)" using a(1) frames_free_disjoint [OF mm] ok by (auto simp: pt_ok_def)
  have fb: "unat f < 2 ^ 44" using frames_bounds(1) [OF mm a(1)] by simp
  have p: "p \<in> set (pt_frames pt)" using pt_table [OF ok q(2,1)] .
  note p52 = pt_frames_used(3) [OF ok p]
  have len: "\<And>x. length (pages s1 x) = 4096" using a(4) by (simp add: mm_ok_def)
  have s2: "get_pte s2 x j = (if p = x \<and> i = j then pte_new f PTE_V else get_pte s1 x j)" if "x < 2 ^ 52" "j < 512" for x j
    unfolding s2_def using that by (intro get_set_pte [OF len i _ p52])
  note sp = set_pte_props [OF a(4) i, where p = p and e = "pte_new f PTE_V", folded s2_def]
  have e: "pte_is_valid (get_pte s2 p i)" "pte_ppn (get_pte s2 p i) = f"
    using s2 [OF p52 i] pte_valid_dir pte_ppn_new [OF fb] by simp_all
  then show "pte_ppn (get_pte s2 p i) = f" by simp
  have same: "get_pte s2 x j = get_pte s x j" if "x \<in> set (pt_frames pt)" "j < 512" "(x, j) \<noteq> (p, i)" for x j
  proof -
    have x: "x \<noteq> f" "x < 2 ^ 52" using that(1) fn pt_frames_used(3) [OF ok] by auto
    then have "get_pte s1 x j = get_pte s x j" using a(6) by (intro get_pte_cong) auto
    then show ?thesis using s2 [OF x(2) that(2)] that(3) by auto
  qed
  have "get_bytes_array s2 f = replicate 4096 0" using sp(4) [OF p52 ppn_small [OF fb]] p fn a(5) by auto
  then have zero: "get_pte s2 f j = 0" for j by (rule get_pte_zero)
  have w: "walk s2 (root_ppn pt) path =
      (if take (Suc (length q)) path = q @ [i] then (if path = q @ [i] then Some f else None) else walk s (root_ppn pt) path)"
    if "path_ok path" for path
    by (rule new_table_walk [OF ok q(1,2) i fn e same zero that])
  have "path_ok (q @ [i])" using q(2,3) i by (simp add: path_ok_def)
  from w [OF this] show qi: "walk s2 (root_ppn pt) (q @ [i]) = Some f" by simp
  have wt: "walks_to s (root_ppn pt) s2 (q @ [i]) f"
    unfolding walks_to_def using w walk_below_invalid [OF q(1) inv] by auto
  have "pt_ok l s2 pt2" unfolding pt2_def using sp(1,3) a(3) by (intro new_table_pt_ok [OF ok fn _ _ wt]) auto
  moreover have "lookup s2 pt2 = lookup s pt"
    unfolding pt2_def using new_table_lookup [OF ok q wt zero] same by blast
  moreover have "get_bytes_array s2 x = get_bytes_array s x" if "x < 2 ^ 52" "x \<notin> set (pt_frames pt2)" for x
    using sp(4) [OF p52 that(1)] a(6) that p by (auto simp: pt2_def)
  ultimately show "pt_grow l s pt s2 pt2 [f]"
    using a(1-3) sp(2,3) fn by (auto simp: pt_grow_def pt2_def)
qed

text \<open>One level of the creating walk.\<close>

lemma create_level:
  assumes ok: "pt_ok l s pt" and q: "walk s (root_ppn pt) q = Some p" "path_ok q" "length q < 2" and i: "unat idx < 512"
    and room: "frames_free s \<noteq> {}" and lev: "n \<noteq> 2"
  shows "\<exists>s' pt' p' fs. find_pte_create_loop n (idx # idxs) p s pt = find_pte_create_loop (n + 1) idxs p' s' pt' \<and>
    pt_grow l s pt s' pt' fs \<and> length fs \<le> 1 \<and> walk s' (root_ppn pt') (q @ [unat idx]) = Some p'"
proof (cases "pte_is_valid (get_pte s p (unat idx))")
  case True
  then have "walk s (root_ppn pt) (q @ [unat idx]) = Some (pte_ppn (get_pte s p (unat idx)))" using q(1) by (simp add: walk_append)
  then show ?thesis using True lev pt_grow_refl [OF ok]
    by (intro exI [of _ s] exI [of _ pt] exI [of _ "pte_ppn (get_pte s p (unat idx))"] exI [of _ "[]"]) simp
next
  case False
  have mm: "mm_ok l s" using ok by (simp add: pt_ok_def)
  obtain f s1 where al: "frame_alloc s = Some (f, s1)" using frame_alloc_None [OF mm] room by auto
  note t = new_table [OF ok q i False al]
  show ?thesis using False lev al t
    by (intro exI [of _ "set_pte s1 p (unat idx) (pte_new f PTE_V)"] exI [of _ "pt\<lparr>pt_frames := pt_frames pt @ [f]\<rparr>"] exI [of _ f] exI [of _ "[f]"])
      (simp add: Let_def)
qed

lemma pt_grow_card: "pt_grow l s pt s' pt' fs \<Longrightarrow> card (frames_free s) = card (frames_free s') + length fs"
proof -
  assume "pt_grow l s pt s' pt' fs"
  then have g: "frames_free s' = frames_free s - set fs" "set fs \<subseteq> frames_free s" "distinct fs" by (auto simp: pt_grow_def)
  have "card (frames_free s') = card (frames_free s) - card (set fs)" unfolding g(1) using g(2) by (intro card_Diff_subset) auto
  moreover have "card (set fs) \<le> card (frames_free s)" using g(2) by (intro card_mono) auto
  ultimately show ?thesis using g(3) by (simp add: distinct_card)
qed

lemma find_pte_create_ok:
  assumes ok: "pt_ok l s pt" and room: "2 \<le> card (frames_free s)"
  shows "\<exists>s' pt' p fs. find_pte_create pt s v = Some (Some (p, i2 v), s', pt') \<and> pt_grow l s pt s' pt' fs \<and> length fs \<le> 2 \<and>
    walk s' (root_ppn pt') [i0 v, i1 v] = Some p"
proof -
  have r1: "frames_free s \<noteq> {}" using room by auto
  obtain s1 pt1 p1 fs1 where l1: "find_pte_create pt s v =
      find_pte_create_loop 1 [drop_bit 9 v AND 511, v AND 511] p1 s1 pt1" "pt_grow l s pt s1 pt1 fs1" "length fs1 \<le> 1"
    "walk s1 (root_ppn pt1) [i0 v] = Some p1"
    using create_level [OF ok walk.simps(1) path2_ok(2) _ index_less [of "drop_bit 18 v"] r1, where n = 0 and idxs = "[drop_bit 9 v AND 511, v AND 511]"]
    unfolding find_pte_create_def indexes_eq i0_def by (auto simp del: find_pte_create_loop.simps walk.simps)
  have ok1: "pt_ok l s1 pt1" using l1(2) by (simp add: pt_grow_def)
  have r2: "frames_free s1 \<noteq> {}" using pt_grow_card [OF l1(2)] l1(3) room by auto
  obtain s2 pt2 p2 fs2 where l2: "find_pte_create_loop 1 [drop_bit 9 v AND 511, v AND 511] p1 s1 pt1 =
      find_pte_create_loop 2 [v AND 511] p2 s2 pt2" "pt_grow l s1 pt1 s2 pt2 fs2" "length fs2 \<le> 1"
    "walk s2 (root_ppn pt2) [i0 v, i1 v] = Some p2"
    using create_level [OF ok1 l1(4) path2_ok(3) _ index_less [of "drop_bit 9 v"] r2, where n = 1 and idxs = "[v AND 511]"]
    unfolding i1_def by (auto simp: numeral_2_eq_2 simp del: find_pte_create_loop.simps walk.simps)
  have "find_pte_create pt s v = Some (Some (p2, i2 v), s2, pt2)" using l1(1) l2(1) by (simp add: i2_def)
  moreover note pt_grow_trans [OF l1(2) l2(2)]
  ultimately show ?thesis using l2(4) l1(3) l2(3) by (intro exI [of _ s2] exI [of _ pt2] exI [of _ p2] exI [of _ "fs1 @ fs2"]) simp
qed

subsection \<open>Mapping and unmapping\<close>

lemma leaf_write:
  fixes e :: PageTableEntry
  assumes ok: "pt_ok l s pt" and w: "walk s (root_ppn pt) [i0 v, i1 v] = Some p"
  defines "s' \<equiv> set_pte s p (i2 v) e"
  shows "pt_ok l s' pt"
    and "lookup s' pt u = (if take_bit 27 u = take_bit 27 v then if pte_is_valid e then Some e else None else lookup s pt u)"
    and "frames_free s' = frames_free s" and "frames_used l s' = frames_used l s"
    and "x < 2 ^ 52 \<Longrightarrow> x \<noteq> p \<Longrightarrow> get_bytes_array s' x = get_bytes_array s x"
proof -
  have mm: "mm_ok l s" using ok by (simp add: pt_ok_def)
  have len: "\<And>x. length (pages s x) = 4096" using mm by (simp add: mm_ok_def)
  have p: "p \<in> set (pt_frames pt)" using pt_table [OF ok path2_ok(1) w] .
  note p52 = pt_frames_used(3) [OF ok p]
  note sp = set_pte_props [OF mm idx_less(3) [of v], where p = p and e = e, folded s'_def]
  show "frames_free s' = frames_free s" "frames_used l s' = frames_used l s" by (fact sp)+
  show "x < 2 ^ 52 \<Longrightarrow> x \<noteq> p \<Longrightarrow> get_bytes_array s' x = get_bytes_array s x" using sp(4) [OF p52] by simp
  have gp: "get_pte s' x j = (if p = x \<and> i2 v = j then e else get_pte s x j)" if "x < 2 ^ 52" "j < 512" for x j
    unfolding s'_def using that by (intro get_set_pte [OF len _ _ p52]) simp_all
  have keep: "walk s' (root_ppn pt) path = walk s (root_ppn pt) path" if "path_ok path" for path
  proof (rule walk_cong)
    fix a j b x
    assume path: "path = a @ j # b" and wa: "walk s (root_ppn pt) a = Some x"
    have a: "path_ok a" using that unfolding path by (rule path_ok_prefix)
    have "a \<noteq> [i0 v, i1 v]" using that path by (auto simp: path_ok_def)
    then have "x \<noteq> p" using pt_table_inj [OF ok a path2_ok(1) wa] w by blast
    moreover have "j < 512" using that path by (simp add: path_ok_def)
    ultimately show "get_pte s' x j = get_pte s x j" using gp pt_frames_used(3) [OF ok pt_table [OF ok a wa]] by simp
  qed
  show "pt_ok l s' pt" using ok sp(1,3) keep unfolding pt_ok_def by simp
  show "lookup s' pt u = (if take_bit 27 u = take_bit 27 v then if pte_is_valid e then Some e else None else lookup s pt u)"
  proof (cases "walk s (root_ppn pt) [i0 u, i1 u]")
    case None
    then have "take_bit 27 u \<noteq> take_bit 27 v" using w idx_eq [of u v] by (metis option.distinct(1))
    then show ?thesis unfolding lookup_eq keep [OF path2_ok(1)] None by simp
  next
    case (Some x)
    have "p = x \<longleftrightarrow> [i0 u, i1 u] = [i0 v, i1 v]"
      using pt_table_inj [OF ok path2_ok(1) path2_ok(1)] Some w by (metis option.inject)
    then have "p = x \<and> i2 v = i2 u \<longleftrightarrow> take_bit 27 u = take_bit 27 v" using idx_eq [of u v] by auto
    moreover have "get_pte s' x (i2 u) = (if p = x \<and> i2 v = i2 u then e else get_pte s x (i2 u))"
      using gp pt_frames_used(3) [OF ok pt_table [OF ok path2_ok(1) Some]] by simp
    ultimately show ?thesis unfolding lookup_eq keep [OF path2_ok(1)] Some by simp
  qed
qed

text \<open>The effect of an operation on the page table: new tables \<open>fs\<close>, and the entry of page \<open>v\<close> becomes \<open>r\<close>.\<close>

definition pt_upd :: "nat \<Rightarrow> mm \<Rightarrow> PageTable \<Rightarrow> mm \<Rightarrow> PageTable \<Rightarrow> PhysPageNum list \<Rightarrow> VirtPageNum \<Rightarrow> PageTableEntry option \<Rightarrow> bool" where
  "pt_upd l s pt s' pt' fs v r \<longleftrightarrow> pt_ok l s' pt' \<and> root_ppn pt' = root_ppn pt \<and> pt_frames pt' = pt_frames pt @ fs \<and>
     distinct fs \<and> set fs \<subseteq> frames_free s \<and> frames_free s' = frames_free s - set fs \<and> frames_used l s' = frames_used l s \<union> set fs \<and>
     lookup s' pt' = (\<lambda>u. if take_bit 27 u = take_bit 27 v then r else lookup s pt u) \<and>
     (\<forall>x < 2 ^ 52. x \<notin> set (pt_frames pt') \<longrightarrow> get_bytes_array s' x = get_bytes_array s x)"

lemma pt_upd_leaf:
  assumes g: "pt_grow l s pt s1 pt1 fs" and w: "walk s1 (root_ppn pt1) [i0 v, i1 v] = Some p"
  shows "pt_upd l s pt (set_pte s1 p (i2 v) e) pt1 fs v (if pte_is_valid e then Some e else None)"
proof -
  have ok: "pt_ok l s1 pt1" using g by (simp add: pt_grow_def)
  note lf = leaf_write [OF ok w, where e = e]
  have p: "p \<in> set (pt_frames pt1)" using pt_table [OF ok path2_ok(1) w] .
  have "get_bytes_array (set_pte s1 p (i2 v) e) x = get_bytes_array s x" if "x < 2 ^ 52" "x \<notin> set (pt_frames pt1)" for x
  proof -
    have "x \<noteq> p" using that(2) p by auto
    then show ?thesis using lf(5) that g by (simp add: pt_grow_def)
  qed
  then show ?thesis using g lf(1,3,4) unfolding pt_upd_def pt_grow_def by (simp add: fun_eq_iff lf(2))
qed

lemma lookup_walk: "walk s (root_ppn pt) [i0 v, i1 v] = Some p \<Longrightarrow> pte_is_valid (get_pte s p (i2 v)) \<longleftrightarrow> lookup s pt v \<noteq> None"
  by (simp add: lookup_eq del: walk.simps)

lemma pt_map_ok:
  assumes ok: "pt_ok l s pt" and room: "2 \<le> card (frames_free s)"
  shows "lookup s pt v = None \<Longrightarrow> \<exists>pt' s' fs. pt_map pt s v ppn fl = Some (pt', s') \<and> length fs \<le> 2 \<and>
      pt_upd l s pt s' pt' fs v (Some (pte_new ppn (fl OR PTE_V)))"
    and "lookup s pt v \<noteq> None \<Longrightarrow> pt_map pt s v ppn fl = None"
proof -
  obtain s1 pt1 p fs where c: "find_pte_create pt s v = Some (Some (p, i2 v), s1, pt1)" "pt_grow l s pt s1 pt1 fs" "length fs \<le> 2"
    "walk s1 (root_ppn pt1) [i0 v, i1 v] = Some p" using find_pte_create_ok [OF ok room] by blast
  have lk: "lookup s1 pt1 = lookup s pt" using c(2) by (simp add: pt_grow_def)
  note valid = lookup_walk [OF c(4), unfolded lk]
  show "\<exists>pt' s' fs. pt_map pt s v ppn fl = Some (pt', s') \<and> length fs \<le> 2 \<and> pt_upd l s pt s' pt' fs v (Some (pte_new ppn (fl OR PTE_V)))"
    if "lookup s pt v = None"
    using pt_upd_leaf [OF c(2,4), of "pte_new ppn (fl OR PTE_V)"] that valid c(1,3)
    by (intro exI [of _ pt1] exI [of _ "set_pte s1 p (i2 v) (pte_new ppn (fl OR PTE_V))"] exI [of _ fs]) (simp add: pt_map_def pte_valid_new)
  show "pt_map pt s v ppn fl = None" if "lookup s pt v \<noteq> None" using that valid c(1) by (simp add: pt_map_def)
qed

lemma find_pte_create_existing:
  "walk s (root_ppn pt) [i0 v, i1 v] = Some p \<Longrightarrow> find_pte_create pt s v = Some (Some (p, i2 v), s, pt)"
  by (simp add: find_pte_create_def indexes_eq i0_def i1_def i2_def split: if_splits)

lemma pt_unmap_ok:
  assumes ok: "pt_ok l s pt" and m: "lookup s pt v \<noteq> None"
  shows "\<exists>s'. pt_unmap pt s v = Some (pt, s') \<and> pt_upd l s pt s' pt [] v None"
proof -
  obtain p where w: "walk s (root_ppn pt) [i0 v, i1 v] = Some p" using m by (auto simp: lookup_eq simp del: walk.simps split: option.splits)
  have "pt_unmap pt s v = Some (pt, set_pte s p (i2 v) pte_empty)"
    unfolding pt_unmap_def find_pte_create_existing [OF w] using lookup_walk [OF w] m by simp
  then show ?thesis using pt_upd_leaf [OF pt_grow_refl [OF ok] w, of pte_empty] by simp
qed

lemma pt_unmap_panics:
  assumes ok: "pt_ok l s pt" and room: "2 \<le> card (frames_free s)" and m: "lookup s pt v = None"
  shows "pt_unmap pt s v = None"
proof -
  obtain s1 pt1 p fs where c: "find_pte_create pt s v = Some (Some (p, i2 v), s1, pt1)" "pt_grow l s pt s1 pt1 fs"
    "walk s1 (root_ppn pt1) [i0 v, i1 v] = Some p" using find_pte_create_ok [OF ok room] by blast
  have "lookup s1 pt1 = lookup s pt" using c(2) by (simp add: pt_grow_def)
  then show ?thesis using lookup_walk [OF c(3)] m c(1) by (simp add: pt_unmap_def)
qed

lemma lookup_key: "take_bit 27 v = take_bit 27 u \<Longrightarrow> lookup s pt v = lookup s pt u"
proof -
  assume "take_bit 27 v = take_bit 27 u"
  then have "i0 v = i0 u" "i1 v = i1 u" "i2 v = i2 u" using idx_eq [of v u] by auto
  then show ?thesis unfolding lookup_eq by presburger
qed

subsection \<open>The interface of an address space\<close>

text \<open>
  What the memory-set layer relies on: a partial map from pages to entries that mapping and
  unmapping update at one page, and that panics when a page is mapped twice or unmapped twice.
\<close>

locale addr_space =
  fixes inv :: "'s \<Rightarrow> bool" and room :: "'s \<Rightarrow> bool" and view :: "'s \<Rightarrow> usize \<Rightarrow> usize option" and key :: "usize \<Rightarrow> usize"
    and mapf :: "'s \<Rightarrow> usize \<Rightarrow> usize \<Rightarrow> u8 \<Rightarrow> 's option" and unmapf :: "'s \<Rightarrow> usize \<Rightarrow> 's option" and ent :: "usize \<Rightarrow> u8 \<Rightarrow> usize"
  assumes map_new: "inv s \<Longrightarrow> room s \<Longrightarrow> view s v = None \<Longrightarrow>
      \<exists>s'. mapf s v p f = Some s' \<and> inv s' \<and> view s' = (\<lambda>u. if key u = key v then Some (ent p f) else view s u)"
    and map_twice: "inv s \<Longrightarrow> room s \<Longrightarrow> view s v \<noteq> None \<Longrightarrow> mapf s v p f = None"
    and unmap_mapped: "inv s \<Longrightarrow> view s v \<noteq> None \<Longrightarrow>
      \<exists>s'. unmapf s v = Some s' \<and> inv s' \<and> view s' = (\<lambda>u. if key u = key v then None else view s u)"
    and unmap_twice: "inv s \<Longrightarrow> room s \<Longrightarrow> view s v = None \<Longrightarrow> unmapf s v = None"
    and view_key: "key u = key v \<Longrightarrow> view s u = view s v"
begin

lemma map_then_unmap:
  assumes "inv s" and "room s" and "view s v = None"
  shows "\<exists>s' s''. mapf s v p f = Some s' \<and> unmapf s' v = Some s'' \<and> inv s'' \<and> view s'' = view s"
proof -
  obtain s' where s': "mapf s v p f = Some s'" "inv s'" "view s' = (\<lambda>u. if key u = key v then Some (ent p f) else view s u)"
    using map_new [OF assms] by blast
  have "view s' v \<noteq> None" using s'(3) by simp
  from unmap_mapped [OF s'(2) this] obtain s'' where s'': "unmapf s' v = Some s''" "inv s''"
    "view s'' = (\<lambda>u. if key u = key v then None else view s' u)" by blast
  have "view s'' u = view s u" for u
    using assms(3) view_key [of u v s] unfolding s''(3) s'(3) by auto
  then have "view s'' = view s" by (rule ext)
  with s' s'' show ?thesis by blast
qed

lemma map_same_page_panics:
  assumes "inv s" and "room s" and "view s v = None" and "mapf s v p f = Some s'" and "room s'" and "key u = key v"
  shows "mapf s' u p' f' = None"
proof -
  have s': "inv s'" "view s' = (\<lambda>u. if key u = key v then Some (ent p f) else view s u)"
    using map_new [OF assms(1-3), of p f] assms(4) by auto
  then show ?thesis using map_twice [OF s'(1) assms(5)] assms(6) by simp
qed

end

interpretation ptspace: addr_space "\<lambda>(pt, s). pt_ok l s pt" "\<lambda>(pt, s). 2 \<le> card (frames_free s)" "\<lambda>(pt, s). lookup s pt" "take_bit 27"
  "\<lambda>(pt, s) v ppn fl. pt_map pt s v ppn fl" "\<lambda>(pt, s) v. pt_unmap pt s v" "\<lambda>ppn fl. pte_new ppn (fl OR PTE_V)" for l
proof (unfold_locales; clarsimp)
  fix pt s v p f
  assume ok: "pt_ok l s pt" and room: "2 \<le> card (frames_free s)"
  show "\<exists>a b. pt_map pt s v p f = Some (a, b) \<and> pt_ok l b a \<and>
      lookup b a = (\<lambda>u. if take_bit 27 u = take_bit 27 v then Some (pte_new p (f OR PTE_V)) else lookup s pt u)"
    if "lookup s pt v = None"
    using pt_map_ok(1) [OF ok room that] unfolding pt_upd_def by blast
  show "pt_map pt s v p f = None" if "lookup s pt v = Some y" for y using pt_map_ok(2) [OF ok room] that by simp
  show "pt_unmap pt s v = None" if "lookup s pt v = None" using pt_unmap_panics [OF ok room that] .
next
  fix pt s v y
  assume ok: "pt_ok l s pt" and m: "lookup s pt v = Some y"
  show "\<exists>a b. pt_unmap pt s v = Some (a, b) \<and> pt_ok l b a \<and>
      lookup b a = (\<lambda>u. if take_bit 27 u = take_bit 27 v then None else lookup s pt u)"
    using pt_unmap_ok [OF ok, of v] m unfolding pt_upd_def by blast
qed (rule lookup_key)

text \<open>
  C4 (refinement).  A page table implements a partial map from 27-bit page numbers to entries.  With two
  free frames, mapping an unmapped page sets exactly its entry and unmapping a mapped page clears
  exactly its entry; mapping a mapped page and unmapping an unmapped page panic.  Only page-table
  frames are written.
\<close>

theorem pt_refines_map:
  assumes ok: "pt_ok l s pt" and room: "2 \<le> card (frames_free s)"
  shows "case lookup s pt v of
    None \<Rightarrow> pt_unmap pt s v = None \<and>
      (\<exists>pt' s'. pt_map pt s v ppn fl = Some (pt', s') \<and> pt_ok l s' pt' \<and>
         lookup s' pt' = (\<lambda>u. if take_bit 27 u = take_bit 27 v then Some (pte_new ppn (fl OR PTE_V)) else lookup s pt u) \<and>
         (\<forall>x < 2 ^ 52. x \<notin> set (pt_frames pt') \<longrightarrow> get_bytes_array s' x = get_bytes_array s x))
  | Some e \<Rightarrow> pt_map pt s v ppn fl = None \<and>
      (\<exists>s'. pt_unmap pt s v = Some (pt, s') \<and> pt_ok l s' pt \<and>
         lookup s' pt = (\<lambda>u. if take_bit 27 u = take_bit 27 v then None else lookup s pt u) \<and>
         (\<forall>x < 2 ^ 52. x \<notin> set (pt_frames pt) \<longrightarrow> get_bytes_array s' x = get_bytes_array s x))"
proof (cases "lookup s pt v")
  case None
  show ?thesis using pt_map_ok(1) [OF ok room None, of ppn fl] pt_unmap_panics [OF ok room None] None unfolding pt_upd_def by auto
next
  case (Some e)
  then show ?thesis using pt_map_ok(2) [OF ok room, of v ppn fl] pt_unmap_ok [OF ok, of v] unfolding pt_upd_def by auto
qed

subsection \<open>A fresh page table\<close>

lemma pt_new_ok:
  assumes mm: "mm_ok l s" and room: "frames_free s \<noteq> {}"
  shows "\<exists>pt s' f. pt_new s = Some (pt, s') \<and> pt_ok l s' pt \<and> lookup s' pt = Map.empty \<and> pt_frames pt = [f] \<and> f \<in> frames_free s \<and>
    frames_free s' = frames_free s - {f} \<and> frames_used l s' = insert f (frames_used l s) \<and>
    (\<forall>x < 2 ^ 52. x \<noteq> f \<longrightarrow> get_bytes_array s' x = get_bytes_array s x)"
proof -
  obtain f s' where al: "frame_alloc s = Some (f, s')" using frame_alloc_None [OF mm] room by auto
  note a = frame_alloc_Some [OF mm al]
  let ?pt = "\<lparr>root_ppn = f, pt_frames = [f]\<rparr>"
  have "get_pte s' f j = 0" for j using get_pte_zero [OF a(5)] .
  then have w: "walk s' f path = (if path = [] then Some f else None)" for path by (cases path) auto
  have "pt_ok l s' ?pt" using a(3,4) by (simp add: pt_ok_def w)
  moreover have "lookup s' ?pt = Map.empty" by (rule ext) (simp add: lookup_eq w del: walk.simps)
  ultimately show ?thesis using al a(1-3,6) by (simp add: pt_new_def)
qed

definition example_mm :: mm where
  "example_mm = \<lparr>pages = \<lambda>_. replicate 4096 0, falloc = \<lparr>fcurrent = 2, fend = 40, frecycled = []\<rparr>\<rparr>"

lemma example_mm_ok: "mm_ok 2 example_mm" "card (frames_free example_mm) = 38" "frames_used 2 example_mm = {}"
proof -
  show "mm_ok 2 example_mm" by (simp add: mm_ok_def fa_inv_def example_mm_def)
  have "inj_on (word_of_nat :: nat \<Rightarrow> usize) {2..<40}" by (rule inj_on_inverseI [of _ unat]) (auto simp: unat_of_nat)
  then show "card (frames_free example_mm) = 38" by (simp add: frames_free_def fa_free_def card_image example_mm_def)
  show "frames_used 2 example_mm = {}" by (auto simp: frames_used_def fa_used_def example_mm_def)
qed

lemma example_pt: "\<exists>pt s. pt_new example_mm = Some (pt, s) \<and> pt_ok 2 s pt \<and> lookup s pt = Map.empty \<and> card (frames_free s) = 37"
proof -
  have "frames_free example_mm \<noteq> {}" using example_mm_ok(2) by auto
  from pt_new_ok [OF example_mm_ok(1) this] show ?thesis using example_mm_ok(2) by force
qed

theorem pt_refines_map_witness:
  "\<exists>pt s pt' s'. pt_ok 2 s pt \<and> lookup s pt 7 = None \<and> pt_map pt s 7 99 PTE_R = Some (pt', s') \<and>
     lookup s' pt' 7 = Some (pte_new 99 (PTE_R OR PTE_V)) \<and> lookup s' pt' 8 = None"
proof -
  obtain pt s where pt: "pt_ok 2 s pt" "lookup s pt = Map.empty" "card (frames_free s) = 37" using example_pt by blast
  have "2 \<le> card (frames_free s)" using pt(3) by simp
  from pt_refines_map [OF pt(1) this, of 7 99 PTE_R] pt(2) obtain pt' s' where
    "pt_map pt s 7 99 PTE_R = Some (pt', s')"
    "lookup s' pt' = (\<lambda>u. if take_bit 27 u = take_bit 27 7 then Some (pte_new 99 (PTE_R OR PTE_V)) else lookup s pt u)" by auto
  with pt show ?thesis by (intro exI [of _ pt] exI [of _ s] exI [of _ pt'] exI [of _ s']) simp
qed

subsection \<open>User buffers\<close>

definition slice_addrs :: "mslice \<Rightarrow> PhysAddr list" where
  "slice_addrs sl = map (\<lambda>k. fst sl + word_of_nat k) [0..<snd sl]"

definition ub_addrs :: "UserBuffer \<Rightarrow> PhysAddr list" where
  "ub_addrs ub = concat (map slice_addrs ub)"

lemma length_slice_addrs [simp]: "length (slice_addrs sl) = snd sl"
  by (simp add: slice_addrs_def)

lemma ub_len_addrs: "ub_len ub = word_of_nat (length (ub_addrs ub))"
proof -
  have "ub_len_loop acc ub = acc + word_of_nat (length (ub_addrs ub))" for acc
    by (induction ub arbitrary: acc) (auto simp: ub_addrs_def)
  then show ?thesis by (simp add: ub_len_def)
qed

text \<open>What an iterator has still to yield.\<close>

definition ubi_ok :: "UserBufferIterator \<Rightarrow> bool" where
  "ubi_ok it \<longleftrightarrow> (\<forall>sl \<in> set (ubi_buffers it). 0 < snd sl) \<and>
     (if ubi_buffer it < length (ubi_buffers it) then ubi_idx it < snd (ubi_buffers it ! ubi_buffer it) else ubi_idx it = 0)"

definition ubi_rest :: "UserBufferIterator \<Rightarrow> PhysAddr list" where
  "ubi_rest it = drop (ubi_idx it) (ub_addrs (drop (ubi_buffer it) (ubi_buffers it)))"

lemma ub_into_iter_ok: "\<forall>sl \<in> set ub. 0 < snd sl \<Longrightarrow> ubi_ok (ub_into_iter ub) \<and> ubi_rest (ub_into_iter ub) = ub_addrs ub"
  by (auto simp: ubi_ok_def ubi_rest_def ub_into_iter_def)

lemma ubi_next_ok:
  assumes "ubi_ok it"
  shows "\<exists>it'. ubi_next it = Some (if ubi_rest it = [] then None else Some (hd (ubi_rest it)), it') \<and> ubi_ok it' \<and> ubi_rest it' = tl (ubi_rest it)"
proof (cases "ubi_buffer it < length (ubi_buffers it)")
  case False
  then show ?thesis using assms by (auto simp: ubi_next_def ubi_rest_def ub_addrs_def)
next
  case True
  let ?b = "ubi_buffer it" and ?i = "ubi_idx it"
  obtain a n where an: "ubi_buffers it ! ?b = (a, n)" by force
  have i: "?i < n" using assms True an by (simp add: ubi_ok_def)
  have d: "drop ?b (ubi_buffers it) = (a, n) # drop (Suc ?b) (ubi_buffers it)" using True an by (metis Cons_nth_drop_Suc)
  have sl: "drop ?i (slice_addrs (a, n)) = (a + word_of_nat ?i) # drop (Suc ?i) (slice_addrs (a, n))"
    using i Cons_nth_drop_Suc [of ?i "slice_addrs (a, n)"] by (simp add: slice_addrs_def)
  have rest: "ubi_rest it = (a + word_of_nat ?i) # drop (Suc ?i) (slice_addrs (a, n)) @ ub_addrs (drop (Suc ?b) (ubi_buffers it))"
    using i sl unfolding ubi_rest_def d by (simp add: ub_addrs_def)
  show ?thesis
  proof (cases "Suc ?i = n")
    case True
    have "\<forall>sl \<in> set (ubi_buffers it). 0 < snd sl" using assms by (simp add: ubi_ok_def)
    then have "Suc ?b < length (ubi_buffers it) \<Longrightarrow> 0 < snd (ubi_buffers it ! Suc ?b)" using nth_mem by blast
    then show ?thesis using True \<open>?b < length (ubi_buffers it)\<close> assms an i rest
      by (simp add: ubi_next_def Let_def ubi_ok_def ubi_rest_def)
  next
    case False
    then have "Suc ?i < n" using i by simp
    then show ?thesis using False \<open>?b < length (ubi_buffers it)\<close> assms an i rest
      by (simp add: ubi_next_def Let_def ubi_ok_def ubi_rest_def d ub_addrs_def)
  qed
qed

subsection \<open>Translating a range of user memory\<close>

lemma unat_add_small: "unat (a :: usize) + k < 2 ^ 64 \<Longrightarrow> unat (a + word_of_nat k) = unat a + k"
  by (simp add: unat_word_ariths unat_of_nat)

lemma same_page:
  assumes "unat a mod 4096 + k < 4096"
  shows "va_floor (a + word_of_nat k) = va_floor a" and "va_page_offset (a + word_of_nat k) = va_page_offset a + word_of_nat k"
proof -
  have "unat a = 4096 * (unat a div 4096) + unat a mod 4096" by simp
  moreover have "unat a < 2 ^ 64" using unsigned_less [of a] by simp
  then have "unat a div 4096 < 2 ^ 52" by (simp add: less_mult_imp_div_less)
  then have "4096 * (unat a div 4096) + 4096 \<le> 2 ^ 64" by simp
  ultimately have lt: "unat a + k < 2 ^ 64" using assms by linarith
  have u: "unat (a + word_of_nat k) = unat a + k" using lt by (rule unat_add_small)
  have "unat a + k = (unat a mod 4096 + k) + 4096 * (unat a div 4096)" by simp
  then have "(unat a + k) div 4096 = unat a div 4096" "(unat a + k) mod 4096 = unat a mod 4096 + k"
    using assms by (simp_all only: div_mult_self2 mod_mult_self2 div_less mod_less)
  then show "va_floor (a + word_of_nat k) = va_floor a"
    and "va_page_offset (a + word_of_nat k) = va_page_offset a + word_of_nat k"
    using assms by (simp_all add: word_unat_eq_iff unat_va_floor unat_va_offset u unat_add_small [of "va_page_offset a" k, unfolded unat_va_offset])
qed

lemma next_page:
  assumes "unat a < 2 ^ 64 - 4096"
  shows "unat (va_of_vpn (vpn_step (va_floor a))) = unat a - unat a mod 4096 + 4096"
proof -
  have f: "unat (va_floor a + 1) = unat a div 4096 + 1"
    using assms unat_add_small [of "va_floor a" 1] by (simp add: unat_va_floor)
  have "va_of_vpn (va_floor a + 1) = (va_floor a + 1) * 4096" by (simp add: va_of_vpn_def PAGE_SIZE_BITS_def push_bit_eq_mult)
  then have "unat (va_of_vpn (va_floor a + 1)) = (unat a div 4096 + 1) * 4096 mod 2 ^ 64"
    by (simp only: unat_word_ariths(2) f) simp
  moreover have "(unat a div 4096 + 1) * 4096 < 2 ^ 64" using assms by (simp add: algebra_simps)
  ultimately have "unat (va_of_vpn (va_floor a + 1)) = (unat a div 4096 + 1) * 4096" by simp
  also have "\<dots> = unat a - unat a mod 4096 + 4096" by (simp add: minus_mod_eq_div_mult)
  finally show ?thesis by (simp add: vpn_step_def)
qed

text \<open>One round of the loop covers the part of the range that lies in the page of \<open>start\<close>.\<close>

lemma tbb_round:
  assumes lt: "start < fin" and fin: "unat fin \<le> 2 ^ 64 - 4096"
  defines "e \<equiv> min (va_of_vpn (vpn_step (va_floor start))) fin"
  shows "start < e" and "e \<le> fin" and "unat start mod 4096 + (unat e - unat start) \<le> 4096"
    and "(if va_page_offset e = 0 then 4096 else unat (va_page_offset e)) = unat start mod 4096 + (unat e - unat start)"
proof -
  let ?s = "unat start" and ?f = "unat fin"
  have lt': "?s < ?f" using lt by (simp add: word_less_nat_alt)
  then have s: "?s < 2 ^ 64 - 4096" using fin by linarith
  define m where "m = ?s mod 4096"
  define q where "q = ?s div 4096"
  have sq: "?s = 4096 * q + m" "m < 4096" by (simp_all add: q_def m_def)
  have nx: "unat (va_of_vpn (vpn_step (va_floor start))) = 4096 * q + 4096" using next_page [OF s] sq(1) unfolding m_def [symmetric] by simp
  then have ue: "unat e = min (4096 * q + 4096) ?f" by (simp add: e_def min_def word_le_nat_alt)
  show "start < e" "e \<le> fin" using ue lt' sq by (simp_all add: word_less_nat_alt word_le_nat_alt)
  show "unat start mod 4096 + (unat e - unat start) \<le> 4096" using ue sq lt' unfolding m_def [symmetric] by linarith
  show "(if va_page_offset e = 0 then 4096 else unat (va_page_offset e)) = unat start mod 4096 + (unat e - unat start)"
  proof (cases "4096 * q + 4096 \<le> ?f")
    case True
    then have "unat e = 4096 * (q + 1)" using ue by simp
    then have "unat (va_page_offset e) = 0" unfolding unat_va_offset by simp
    then show ?thesis using True ue sq by (simp add: unat_eq_0 m_def [symmetric])
  next
    case False
    then have e: "unat e = ?f" using ue by simp
    define r where "r = ?f - 4096 * q"
    have r: "?f = 4096 * q + r" "r < 4096" "0 < r" using False lt' sq by (simp_all add: r_def)
    then have "unat (va_page_offset e) = r" unfolding unat_va_offset e r(1) by simp
    moreover then have "va_page_offset e \<noteq> 0" using r(3) by auto
    ultimately show ?thesis using e r sq lt' by (simp add: m_def [symmetric])
  qed
qed

lemma tbb_loop_spec:
  assumes fin: "unat fin \<le> 2 ^ 64 - 4096"
  shows "start \<le> fin \<Longrightarrow> \<forall>a. start \<le> a \<and> a < fin \<longrightarrow> pt_translate pt s (va_floor a) \<noteq> None \<Longrightarrow>
    \<exists>v. tbb_loop s pt start fin = Some v \<and> (\<forall>sl \<in> set v. 0 < snd sl) \<and>
      ub_addrs v = map (\<lambda>k. the (pt_translate_va pt s (start + word_of_nat k))) [0..<unat fin - unat start]"
proof (induction "unat fin - unat start" arbitrary: start rule: less_induct)
  case less
  show ?case
  proof (cases "start < fin")
    case False
    then have "start = fin" using less.prems(1) by simp
    then show ?thesis by (simp add: tbb_loop.simps [of s pt fin fin] ub_addrs_def)
  next
    case True
    let ?s = "unat start" and ?f = "unat fin"
    define e where "e = min (va_of_vpn (vpn_step (va_floor start))) fin"
    note r = tbb_round [OF True fin, folded e_def]
    define n where "n = unat e - ?s"
    have ord: "?s < unat e" "unat e \<le> ?f" using r(1,2) by (simp_all add: word_less_nat_alt word_le_nat_alt)
    have n: "0 < n" "unat e = ?s + n" using ord by (simp_all add: n_def)
    have ew: "e = start + word_of_nat n" using n(2) ord fin by (simp add: word_unat_eq_iff unat_add_small)
    obtain pte where pte: "pt_translate pt s (va_floor start) = Some pte" using less.prems(2) True by auto
    have sl: "page_slice (pte_ppn pte) (va_page_offset start) (if va_page_offset e = 0 then 4096 else unat (va_page_offset e)) =
        Some (pa_of_ppn (pte_ppn pte) + va_page_offset start, n)"
      unfolding r(4) using r(3) by (simp add: page_slice_def unat_va_offset n_def)
    have lt3: "?f - unat e < ?f - ?s" using ord by linarith
    have tr: "\<forall>a. e \<le> a \<and> a < fin \<longrightarrow> pt_translate pt s (va_floor a) \<noteq> None"
      using less.prems(2) r(1) by (meson order.strict_implies_order order.trans)
    obtain v where v: "tbb_loop s pt e fin = Some v" "\<forall>sl \<in> set v. 0 < snd sl"
      "ub_addrs v = map (\<lambda>k. the (pt_translate_va pt s (e + word_of_nat k))) [0..<?f - unat e]"
      using less.hyps [OF lt3 r(2) tr] by blast
    have "tbb_loop s pt start fin = Some ((pa_of_ppn (pte_ppn pte) + va_page_offset start, n) # v)"
      unfolding tbb_loop.simps [of s pt start fin] using True pte sl v(1) by (simp add: e_def [symmetric] Let_def)
    moreover have "slice_addrs (pa_of_ppn (pte_ppn pte) + va_page_offset start, n) =
        map (\<lambda>k. the (pt_translate_va pt s (start + word_of_nat k))) [0..<n]"
      unfolding slice_addrs_def
    proof (rule map_cong)
      fix k assume "k \<in> set [0..<n]"
      then have "?s mod 4096 + k < 4096" using r(3) by (simp add: n_def)
      note sp = same_page [OF this]
      obtain pi where "find_pte pt s (va_floor start) = Some pi" "(case pi of (p, i) \<Rightarrow> get_pte s p i) = pte" using pte by (auto simp: pt_translate_def)
      then show "fst (pa_of_ppn (pte_ppn pte) + va_page_offset start, n) + word_of_nat k = the (pt_translate_va pt s (start + word_of_nat k))"
        unfolding pt_translate_va_def sp by (auto split: prod.splits simp: add.assoc)
    qed simp
    moreover have "map (\<lambda>k. the (pt_translate_va pt s (start + word_of_nat k))) [0..<?f - ?s] =
        map (\<lambda>k. the (pt_translate_va pt s (start + word_of_nat k))) [0..<n] @
        map (\<lambda>k. the (pt_translate_va pt s (e + word_of_nat k))) [0..<?f - unat e]"
    proof -
      have "?f - ?s = n + (?f - unat e)" using ord by (simp add: n_def)
      then have "[0..<?f - ?s] = [0..<n] @ map (\<lambda>k. n + k) [0..<?f - unat e]"
        using upt_add_eq_append [of 0 n "?f - unat e"] by (simp add: map_add_upt add.commute)
      then show ?thesis by (simp add: ew add.assoc)
    qed
    ultimately show ?thesis using n(1) v(2,3) by (intro exI [of _ "(pa_of_ppn (pte_ppn pte) + va_page_offset start, n) # v"]) (simp add: ub_addrs_def)
  qed
qed

text \<open>
  C18 (functional).  When the range lies below the last page of the address space and all its pages are
  translated, \<^verbatim>\<open>translated_byte_buffer\<close> returns, and the bytes of its slices, in order, are the
  translations of the addresses of the range, one by one; no slice is empty.
\<close>

theorem byte_buffer_spec:
  assumes "unat ptr + unat len \<le> 2 ^ 64 - 4096"
    and "\<forall>a. ptr \<le> a \<and> a < ptr + len \<longrightarrow> pt_translate (pt_from_token token) s (va_floor a) \<noteq> None"
  shows "\<exists>v. translated_byte_buffer s token ptr len = Some v \<and> (\<forall>sl \<in> set v. 0 < snd sl) \<and>
    ub_addrs v = map (\<lambda>k. the (pt_translate_va (pt_from_token token) s (ptr + word_of_nat k))) [0..<unat len]"
proof -
  have u: "unat (ptr + len) = unat ptr + unat len" using assms(1) unat_add_small [of ptr "unat len"] by simp
  have "ptr \<le> ptr + len" "unat (ptr + len) \<le> 2 ^ 64 - 4096" using u assms(1) by (simp_all add: word_le_nat_alt)
  from tbb_loop_spec [OF this(2,1) assms(2)] show ?thesis by (simp add: translated_byte_buffer_def u)
qed

lemma from_token: "unat (root_ppn pt) < 2 ^ 44 \<Longrightarrow> root_ppn (pt_from_token (pt_token pt)) = root_ppn pt"
proof -
  assume "unat (root_ppn pt) < 2 ^ 44"
  then have r: "take_bit 44 (root_ppn pt) = root_ppn pt"
    by (intro take_bit_small) (simp_all add: word_less_nat_alt unat_exp [of 44, simplified])
  have "take_bit 44 (push_bit 60 8 OR root_ppn pt) = take_bit 44 (root_ppn pt)"
    by (rule bit_eqI) (auto simp: bit_take_bit_iff bit_or_iff bit_push_bit_iff)
  with r show ?thesis by (simp add: pt_from_token_def pt_token_def take_bit_eq_mask mask_eq_exp_minus_1)
qed

lemma translate_root: "root_ppn pt = root_ppn pt' \<Longrightarrow> pt_translate pt s v = pt_translate pt' s v \<and> pt_translate_va pt s a = pt_translate_va pt' s a"
  by (simp add: pt_translate_def pt_translate_va_def find_pte_def)

lemma lookup_translate: "lookup s pt v = Some e \<Longrightarrow> pt_translate pt s v = Some e"
  by (auto simp: lookup_def split: option.splits if_splits)

lemma example_mapped: "\<exists>pt s. pt_ok 2 s pt \<and> lookup s pt 7 = Some (pte_new 99 (PTE_R OR PTE_V))"
proof -
  obtain pt s where pt: "pt_ok 2 s pt" "lookup s pt = Map.empty" "card (frames_free s) = 37" using example_pt by blast
  have "2 \<le> card (frames_free s)" "lookup s pt 7 = None" using pt by simp_all
  from pt_map_ok(1) [OF pt(1) this] obtain pt' s' fs where "pt_upd 2 s pt s' pt' fs 7 (Some (pte_new 99 (PTE_R OR PTE_V)))" by blast
  then show ?thesis by (intro exI [of _ pt'] exI [of _ s']) (simp add: pt_upd_def)
qed

theorem byte_buffer_spec_witness:
  "\<exists>s token v. translated_byte_buffer s token 0x7010 16 = Some v \<and> length (ub_addrs v) = 16 \<and> hd (ub_addrs v) = 0x63010"
proof -
  obtain pt s where pt: "pt_ok 2 s pt" "lookup s pt 7 = Some (pte_new 99 (PTE_R OR PTE_V))" using example_mapped by blast
  have "root_ppn pt \<in> set (pt_frames pt)" using pt(1) by (simp add: pt_ok_def)
  then have "unat (root_ppn pt) < 2 ^ 44" using pt_frames_used(2) [OF pt(1)] by blast
  then have root: "root_ppn (pt_from_token (pt_token pt)) = root_ppn pt" by (rule from_token)
  let ?t = "pt_from_token (pt_token pt)"
  have tr: "pt_translate ?t s 7 = Some (pte_new 99 (PTE_R OR PTE_V))"
    using translate_root [OF root] lookup_translate [OF pt(2)] by simp
  have fl: "va_floor a = 7" if "0x7010 \<le> a" "a < 0x7020" for a
    using that by (simp add: word_unat_eq_iff unat_va_floor word_le_nat_alt word_less_nat_alt)
  have cond: "\<forall>a. 0x7010 \<le> a \<and> a < 0x7010 + 16 \<longrightarrow> pt_translate ?t s (va_floor a) \<noteq> None" using fl tr by auto
  obtain v where v: "translated_byte_buffer s (pt_token pt) 0x7010 16 = Some v"
    "ub_addrs v = map (\<lambda>k. the (pt_translate_va ?t s (0x7010 + word_of_nat k))) [0..<unat (16 :: usize)]"
    using byte_buffer_spec [OF _ cond] by auto
  have "pt_translate_va ?t s 0x7010 = Some 0x63010"
    using tr fl [of "0x7010"] pte_ppn_new [of 99 "PTE_R OR PTE_V"]
    by (auto simp: pt_translate_va_def pt_translate_def pa_of_ppn_def PAGE_SIZE_BITS_def va_page_offset_def PAGE_SIZE_def)
  then have "hd (ub_addrs v) = 0x63010" "length (ub_addrs v) = 16" unfolding v(2) by (simp_all add: hd_map)
  with v(1) show ?thesis by blast
qed

lemma translated_str_ok:
  assumes "\<And>k. k \<le> length bs \<Longrightarrow> \<exists>pa. pt_translate_va (pt_from_token token) s (ptr + word_of_nat k) = Some pa \<and> pa \<noteq> 0 \<and>
      phys_byte s pa = (bs @ [0]) ! k" and "0 \<notin> set bs"
  shows "translated_str s token ptr = Some bs"
proof -
  have "tstr_loop s pt va = Some bs" if "\<And>k. k \<le> length bs \<Longrightarrow> \<exists>pa. pt_translate_va pt s (va + word_of_nat k) = Some pa \<and> pa \<noteq> 0 \<and>
      phys_byte s pa = (bs @ [0]) ! k" and "0 \<notin> set bs" for pt va
    using that
  proof (induction bs arbitrary: va)
    case Nil
    from Nil(1) [of 0] show ?case by (auto simp: tstr_loop.simps [of s pt va] get_ref_def read_phys_def)
  next
    case (Cons b bs)
    have "tstr_loop s pt (va + 1) = Some bs"
    proof (rule Cons.IH)
      fix k assume "k \<le> length bs"
      with Cons.prems(1) [of "Suc k"] show "\<exists>pa. pt_translate_va pt s (va + 1 + word_of_nat k) = Some pa \<and> pa \<noteq> 0 \<and> phys_byte s pa = (bs @ [0]) ! k"
        by (simp add: add.assoc)
    qed (use Cons.prems(2) in simp)
    then show ?case using Cons.prems(1) [of 0] Cons.prems(2) by (auto simp: tstr_loop.simps [of s pt va] get_ref_def read_phys_def)
  qed
  then show ?thesis using assms by (simp add: translated_str_def)
qed

end
