(* ===== verification/Memory_Set.thy ===== *)
theory Memory_Set
  imports Page_Table
begin

text \<open>
  Address spaces (os8-ref/src/mm/memory_set.rs): a page table and the list of areas mapped in it.
  A framed area owns one frame for each of its pages; an identical area maps pages to the frames
  with the same number.  The ELF reader is a third-party crate: \<open>from_elf\<close> takes the function
  that parses the data, and the values that its accessors return, as a parameter.

  The theorems state what mapping and removing an area do to the map of the address space and to
  the frames, and that a forked address space has the same pages with the same contents in frames
  of its own.
\<close>

datatype MapType = Identical | Framed

definition MP_R :: u8 where "MP_R = push_bit 1 1"
definition MP_W :: u8 where "MP_W = push_bit 2 1"
definition MP_X :: u8 where "MP_X = push_bit 3 1"
definition MP_U :: u8 where "MP_U = push_bit 4 1"

record MapArea =
  vpn_range :: SimpleRange
  data_frames :: "(VirtPageNum \<times> PhysPageNum) list"
  map_type :: MapType
  map_perm :: u8

record MemorySet =
  page_table :: PageTable
  areas :: "MapArea list"

subsection \<open>Areas\<close>

text \<open>\<^verbatim>\<open>data_frames\<close> is a \<^verbatim>\<open>BTreeMap\<close>: an association list in key order.  Insertion returns the value it replaces.\<close>

fun btree_insert :: "'k :: linorder \<Rightarrow> 'v \<Rightarrow> ('k \<times> 'v) list \<Rightarrow> 'v option \<times> ('k \<times> 'v) list" where
  "btree_insert k v [] = (None, [(k, v)])"
| "btree_insert k v ((k', v') # m) =
     (if k < k' then (None, (k, v) # (k', v') # m)
      else if k = k' then (Some v', (k, v) # m)
      else let (old, m') = btree_insert k v m in (old, (k', v') # m'))"

fun btree_remove :: "'k :: linorder \<Rightarrow> ('k \<times> 'v) list \<Rightarrow> 'v option \<times> ('k \<times> 'v) list" where
  "btree_remove k [] = (None, [])"
| "btree_remove k ((k', v') # m) =
     (if k = k' then (Some v', m) else let (old, m') = btree_remove k m in (old, (k', v') # m'))"

definition drop_opt :: "mm \<Rightarrow> PhysPageNum option \<Rightarrow> mm option" where
  "drop_opt s f = (case f of None \<Rightarrow> Some s | Some f \<Rightarrow> frame_dealloc s f)"

definition area_new :: "VirtAddr \<Rightarrow> VirtAddr \<Rightarrow> MapType \<Rightarrow> u8 \<Rightarrow> MapArea option" where
  "area_new start_va end_va ty perm =
     do { r \<leftarrow> range_new (va_floor start_va) (va_ceil end_va);
          Some \<lparr>vpn_range = r, data_frames = [], map_type = ty, map_perm = perm\<rparr> }"

definition area_from_another :: "MapArea \<Rightarrow> MapArea option" where
  "area_from_another a =
     do { r \<leftarrow> range_new (range_l (vpn_range a)) (range_r (vpn_range a));
          Some \<lparr>vpn_range = r, data_frames = [], map_type = map_type a, map_perm = map_perm a\<rparr> }"

definition map_one :: "MapArea \<Rightarrow> PageTable \<Rightarrow> mm \<Rightarrow> VirtPageNum \<Rightarrow> (MapArea \<times> PageTable \<times> mm) option" where
  "map_one a pt s vpn =
     do { (ppn, a, s) \<leftarrow> (case map_type a of
              Identical \<Rightarrow> Some (vpn, a, s)
            | Framed \<Rightarrow> do { (f, s) \<leftarrow> frame_alloc s;
                             let (old, df) = btree_insert vpn f (data_frames a);
                             s \<leftarrow> drop_opt s old;
                             Some (f, a\<lparr>data_frames := df\<rparr>, s) });
          (pt, s) \<leftarrow> pt_map pt s vpn ppn (map_perm a);
          Some (a, pt, s) }"

definition unmap_one :: "MapArea \<Rightarrow> PageTable \<Rightarrow> mm \<Rightarrow> VirtPageNum \<Rightarrow> (MapArea \<times> PageTable \<times> mm) option" where
  "unmap_one a pt s vpn =
     do { (a, s) \<leftarrow> (case map_type a of
              Framed \<Rightarrow> do { let (old, df) = btree_remove vpn (data_frames a);
                             s \<leftarrow> drop_opt s old;
                             Some (a\<lparr>data_frames := df\<rparr>, s) }
            | Identical \<Rightarrow> Some (a, s));
          (pt, s) \<leftarrow> pt_unmap pt s vpn;
          Some (a, pt, s) }"

fun map_loop :: "MapArea \<Rightarrow> PageTable \<Rightarrow> mm \<Rightarrow> VirtPageNum list \<Rightarrow> (MapArea \<times> PageTable \<times> mm) option" where
  "map_loop a pt s [] = Some (a, pt, s)"
| "map_loop a pt s (v # vs) = do { (a, pt, s) \<leftarrow> map_one a pt s v; map_loop a pt s vs }"

definition area_map :: "MapArea \<Rightarrow> PageTable \<Rightarrow> mm \<Rightarrow> (MapArea \<times> PageTable \<times> mm) option" where
  "area_map a pt s = map_loop a pt s (range_list (vpn_range a))"

fun unmap_loop :: "MapArea \<Rightarrow> PageTable \<Rightarrow> mm \<Rightarrow> VirtPageNum list \<Rightarrow> (MapArea \<times> PageTable \<times> mm) option" where
  "unmap_loop a pt s [] = Some (a, pt, s)"
| "unmap_loop a pt s (v # vs) = do { (a, pt, s) \<leftarrow> unmap_one a pt s v; unmap_loop a pt s vs }"

definition area_unmap :: "MapArea \<Rightarrow> PageTable \<Rightarrow> mm \<Rightarrow> (MapArea \<times> PageTable \<times> mm) option" where
  "area_unmap a pt s = unmap_loop a pt s (range_list (vpn_range a))"

text \<open>\<open>dst[..src.len()].copy_from_slice(src)\<close> on the frame of a page.\<close>

definition copy_to_page :: "PageTable \<Rightarrow> mm \<Rightarrow> VirtPageNum \<Rightarrow> u8 list \<Rightarrow> mm option" where
  "copy_to_page pt s vpn src =
     do { pte \<leftarrow> pt_translate pt s vpn;
          bs \<leftarrow> slice_copy (get_bytes_array s (pte_ppn pte)) 0 (length src) src;
          Some (set_bytes_array s (pte_ppn pte) bs) }"

function copy_loop :: "PageTable \<Rightarrow> mm \<Rightarrow> u8 list \<Rightarrow> nat \<Rightarrow> VirtPageNum \<Rightarrow> mm option" where
  "copy_loop pt s data start vpn =
     do { src \<leftarrow> slice data start (min (length data) (start + 4096));
          s \<leftarrow> copy_to_page pt s vpn src;
          if length data \<le> start + 4096 then Some s
          else copy_loop pt s data (start + 4096) (vpn_step vpn) }"
  by pat_completeness auto
termination
  by (relation "measure (\<lambda>(pt, s, data, start, vpn). length data - start)") auto

declare copy_loop.simps [simp del]

definition copy_data :: "MapArea \<Rightarrow> PageTable \<Rightarrow> mm \<Rightarrow> u8 list \<Rightarrow> mm option" where
  "copy_data a pt s data =
     do { rassert (map_type a = Framed);
          copy_loop pt s data 0 (range_l (vpn_range a)) }"

text \<open>Dropping areas gives back their frames, in key order.\<close>

definition area_drop :: "mm \<Rightarrow> MapArea \<Rightarrow> mm option" where
  "area_drop s a = drop_frames s (map snd (data_frames a))"

fun areas_drop :: "mm \<Rightarrow> MapArea list \<Rightarrow> mm option" where
  "areas_drop s [] = Some s"
| "areas_drop s (a # as) = do { s \<leftarrow> area_drop s a; areas_drop s as }"

subsection \<open>Memory sets\<close>

definition new_bare :: "mm \<Rightarrow> (MemorySet \<times> mm) option" where
  "new_bare s = do { (pt, s) \<leftarrow> pt_new s; Some (\<lparr>page_table = pt, areas = []\<rparr>, s) }"

definition ms_token :: "MemorySet \<Rightarrow> usize" where
  "ms_token ms = pt_token (page_table ms)"

definition ms_push :: "MemorySet \<Rightarrow> mm \<Rightarrow> MapArea \<Rightarrow> u8 list option \<Rightarrow> (MemorySet \<times> mm) option" where
  "ms_push ms s a data =
     do { (a, pt, s) \<leftarrow> area_map a (page_table ms) s;
          s \<leftarrow> (case data of None \<Rightarrow> Some s | Some data \<Rightarrow> copy_data a pt s data);
          Some (\<lparr>page_table = pt, areas = areas ms @ [a]\<rparr>, s) }"

definition insert_framed_area :: "MemorySet \<Rightarrow> mm \<Rightarrow> VirtAddr \<Rightarrow> VirtAddr \<Rightarrow> u8 \<Rightarrow> (MemorySet \<times> mm) option" where
  "insert_framed_area ms s start_va end_va perm =
     do { a \<leftarrow> area_new start_va end_va Framed perm; ms_push ms s a None }"

text \<open>The removed area is dropped after it has been unmapped.\<close>

definition remove_area_with_start_vpn :: "MemorySet \<Rightarrow> mm \<Rightarrow> VirtPageNum \<Rightarrow> (MemorySet \<times> mm) option" where
  "remove_area_with_start_vpn ms s start_vpn =
     (case find_idx (\<lambda>a. range_l (vpn_range a) = start_vpn) (areas ms) of
        None \<Rightarrow> Some (ms, s)
      | Some i \<Rightarrow>
          do { (a, pt, s) \<leftarrow> area_unmap (areas ms ! i) (page_table ms) s;
               s \<leftarrow> area_drop s a;
               Some (\<lparr>page_table = pt, areas = take i (areas ms) @ drop (Suc i) (areas ms)\<rparr>, s) })"

definition map_trampoline :: "usize \<Rightarrow> MemorySet \<Rightarrow> mm \<Rightarrow> (MemorySet \<times> mm) option" where
  "map_trampoline tramp ms s =
     do { vpn \<leftarrow> vpn_of_va TRAMPOLINE;
          ppn \<leftarrow> ppn_of_pa tramp;
          (pt, s) \<leftarrow> pt_map (page_table ms) s vpn ppn (PTE_R OR PTE_X);
          Some (ms\<lparr>page_table := pt\<rparr>, s) }"

text \<open>The addresses that the linker script defines.\<close>

record linker =
  stext :: usize
  etext :: usize
  srodata :: usize
  erodata :: usize
  sdata :: usize
  edata :: usize
  sbss_with_stack :: usize
  ebss :: usize
  ekernel :: usize
  strampoline :: usize

definition push_identical :: "MemorySet \<Rightarrow> mm \<Rightarrow> usize \<Rightarrow> usize \<Rightarrow> u8 \<Rightarrow> (MemorySet \<times> mm) option" where
  "push_identical ms s a b perm = do { area \<leftarrow> area_new a b Identical perm; ms_push ms s area None }"

fun push_mmio :: "MemorySet \<Rightarrow> mm \<Rightarrow> (usize \<times> usize) list \<Rightarrow> (MemorySet \<times> mm) option" where
  "push_mmio ms s [] = Some (ms, s)"
| "push_mmio ms s ((a, n) # rs) = do { (ms, s) \<leftarrow> push_identical ms s a (a + n) (MP_R OR MP_W); push_mmio ms s rs }"

definition new_kernel :: "linker \<Rightarrow> mm \<Rightarrow> (MemorySet \<times> mm) option" where
  "new_kernel ld s =
     do { (ms, s) \<leftarrow> new_bare s;
          (ms, s) \<leftarrow> map_trampoline (strampoline ld) ms s;
          (ms, s) \<leftarrow> push_identical ms s (stext ld) (etext ld) (MP_R OR MP_X);
          (ms, s) \<leftarrow> push_identical ms s (srodata ld) (erodata ld) MP_R;
          (ms, s) \<leftarrow> push_identical ms s (sdata ld) (edata ld) (MP_R OR MP_W);
          (ms, s) \<leftarrow> push_identical ms s (sbss_with_stack ld) (ebss ld) (MP_R OR MP_W);
          (ms, s) \<leftarrow> push_identical ms s (ekernel ld) MEMORY_END (MP_R OR MP_W);
          push_mmio ms s MMIO }"

text \<open>What the ELF crate reports about a file; \<^verbatim>\<open>None\<close> is a header or a type that it rejects.\<close>

record ProgramHeader =
  ph_load :: bool
  ph_virtual_addr :: usize
  ph_mem_size :: usize
  ph_read :: bool
  ph_write :: bool
  ph_execute :: bool
  ph_offset :: usize
  ph_file_size :: usize

record ElfFile =
  elf_input :: "u8 list"
  elf_magic :: "u8 list"
  elf_headers :: "ProgramHeader option list"
  elf_entry :: usize

definition ph_perm :: "ProgramHeader \<Rightarrow> u8" where
  "ph_perm ph =
     (let p = MP_U;
          p = (if ph_read ph then p OR MP_R else p);
          p = (if ph_write ph then p OR MP_W else p);
          p = (if ph_execute ph then p OR MP_X else p)
      in p)"

fun elf_loop :: "u8 list \<Rightarrow> MemorySet \<Rightarrow> mm \<Rightarrow> VirtPageNum \<Rightarrow> ProgramHeader option list \<Rightarrow> (MemorySet \<times> mm \<times> VirtPageNum) option" where
  "elf_loop inp ms s max_end_vpn [] = Some (ms, s, max_end_vpn)"
| "elf_loop inp ms s max_end_vpn (ph # phs) =
     do { ph \<leftarrow> ph;
          if ph_load ph then
            do { a \<leftarrow> area_new (ph_virtual_addr ph) (ph_virtual_addr ph + ph_mem_size ph) Framed (ph_perm ph);
                 let max_end_vpn = range_r (vpn_range a);
                 data \<leftarrow> slice inp (unat (ph_offset ph)) (unat (ph_offset ph + ph_file_size ph));
                 (ms, s) \<leftarrow> ms_push ms s a (Some data);
                 elf_loop inp ms s max_end_vpn phs }
          else elf_loop inp ms s max_end_vpn phs }"

definition from_elf :: "(u8 list \<Rightarrow> ElfFile option) \<Rightarrow> usize \<Rightarrow> mm \<Rightarrow> u8 list \<Rightarrow> (MemorySet \<times> mm \<times> usize \<times> usize) option" where
  "from_elf parse tramp s elf_data =
     do { (ms, s) \<leftarrow> new_bare s;
          (ms, s) \<leftarrow> map_trampoline tramp ms s;
          elf \<leftarrow> parse elf_data;
          rassert (elf_magic elf = [0x7f, 0x45, 0x4c, 0x46]);
          (ms, s, max_end_vpn) \<leftarrow> elf_loop (elf_input elf) ms s 0 (elf_headers elf);
          let user_stack_top = va_of_vpn max_end_vpn + PAGE_SIZE;
          Some (ms, s, user_stack_top, elf_entry elf) }"

fun copy_pages :: "MemorySet \<Rightarrow> MemorySet \<Rightarrow> mm \<Rightarrow> VirtPageNum list \<Rightarrow> mm option" where
  "copy_pages user_space ms s [] = Some s"
| "copy_pages user_space ms s (v # vs) =
     do { src \<leftarrow> pt_translate (page_table user_space) s v;
          dst \<leftarrow> pt_translate (page_table ms) s v;
          copy_pages user_space ms (set_bytes_array s (pte_ppn dst) (get_bytes_array s (pte_ppn src))) vs }"

fun copy_areas :: "MemorySet \<Rightarrow> MemorySet \<Rightarrow> mm \<Rightarrow> MapArea list \<Rightarrow> (MemorySet \<times> mm) option" where
  "copy_areas user_space ms s [] = Some (ms, s)"
| "copy_areas user_space ms s (a # as) =
     do { a' \<leftarrow> area_from_another a;
          (ms, s) \<leftarrow> ms_push ms s a' None;
          s \<leftarrow> copy_pages user_space ms s (range_list (vpn_range a));
          copy_areas user_space ms s as }"

definition from_existed_user :: "usize \<Rightarrow> MemorySet \<Rightarrow> mm \<Rightarrow> (MemorySet \<times> mm) option" where
  "from_existed_user tramp user_space s =
     do { (ms, s) \<leftarrow> new_bare s;
          (ms, s) \<leftarrow> map_trampoline tramp ms s;
          copy_areas user_space ms s (areas user_space) }"

definition ms_translate :: "MemorySet \<Rightarrow> mm \<Rightarrow> VirtPageNum \<Rightarrow> PageTableEntry option" where
  "ms_translate ms s vpn = pt_translate (page_table ms) s vpn"

definition recycle_data_pages :: "MemorySet \<Rightarrow> mm \<Rightarrow> (MemorySet \<times> mm) option" where
  "recycle_data_pages ms s = do { s \<leftarrow> areas_drop s (areas ms); Some (ms\<lparr>areas := []\<rparr>, s) }"

text \<open>Cloning an area clones its frame trackers.\<close>

definition kernel_copy :: "MemorySet \<Rightarrow> MemorySet" where
  "kernel_copy kernel_space = \<lparr>page_table = pt_from_token (ms_token kernel_space), areas = areas kernel_space\<rparr>"

text \<open>Dropping a memory set drops its page table, then its areas.\<close>

definition ms_drop :: "MemorySet \<Rightarrow> mm \<Rightarrow> mm option" where
  "ms_drop ms s = do { s \<leftarrow> drop_frames s (pt_frames (page_table ms)); areas_drop s (areas ms) }"

definition remap_test :: "linker \<Rightarrow> MemorySet \<Rightarrow> mm \<Rightarrow> unit option" where
  "remap_test ld kernel_space s =
     do { let mid_text = (stext ld + etext ld) div 2;
          let mid_rodata = (srodata ld + erodata ld) div 2;
          let mid_data = (sdata ld + edata ld) div 2;
          e1 \<leftarrow> pt_translate (page_table kernel_space) s (va_floor mid_text);
          rassert (\<not> pte_writable e1);
          e2 \<leftarrow> pt_translate (page_table kernel_space) s (va_floor mid_rodata);
          rassert (\<not> pte_writable e2);
          e3 \<leftarrow> pt_translate (page_table kernel_space) s (va_floor mid_data);
          rassert (\<not> pte_executable e3) }"

subsection \<open>Frame conditions\<close>

lemma btree_insert_last: "\<forall>k' \<in> fst ` set m. k' < k \<Longrightarrow> btree_insert k v m = (None, m @ [(k, v)])"
  by (induction m) auto

lemma pt_ok_cong:
  assumes ok: "pt_ok l s pt" and mm: "mm_ok l s'" and used: "set (pt_frames pt) \<subseteq> frames_used l s'"
    and same: "\<And>x. x \<in> set (pt_frames pt) \<Longrightarrow> get_bytes_array s' x = get_bytes_array s x"
  shows "pt_ok l s' pt" and "lookup s' pt = lookup s pt"
proof -
  have w: "walk s' (root_ppn pt) path = walk s (root_ppn pt) path" if "path_ok path" for path
  proof (rule walk_cong)
    fix a i b x assume path: "path = a @ i # b" and x: "walk s (root_ppn pt) a = Some x"
    have "path_ok a" using that unfolding path by (rule path_ok_prefix)
    from pt_table [OF ok this x] show "get_pte s' x i = get_pte s x i" by (intro get_pte_cong same)
  qed
  show "pt_ok l s' pt" using ok mm used w unfolding pt_ok_def by simp
  show "lookup s' pt = lookup s pt"
  proof (rule ext)
    fix v
    show "lookup s' pt v = lookup s pt v"
    proof (cases "walk s (root_ppn pt) [i0 v, i1 v]")
      case None
      then show ?thesis unfolding lookup_eq w [OF path2_ok(1)] by simp
    next
      case (Some x)
      have "get_pte s' x (i2 v) = get_pte s x (i2 v)" using same [OF pt_table [OF ok path2_ok(1) Some]] by (rule get_pte_cong)
      then show ?thesis unfolding lookup_eq w [OF path2_ok(1)] Some by simp
    qed
  qed
qed

text \<open>
  The effect of an operation on an address space: new page tables \<open>ts\<close>, new zeroed data frames \<open>ds\<close>,
  and the map overridden by \<open>m\<close> (on the 27 significant bits of the page number).
\<close>

definition space_upd :: "nat \<Rightarrow> mm \<Rightarrow> PageTable \<Rightarrow> mm \<Rightarrow> PageTable \<Rightarrow> PhysPageNum list \<Rightarrow> PhysPageNum list \<Rightarrow>
    (usize \<Rightarrow> PageTableEntry option) \<Rightarrow> bool" where
  "space_upd l s pt s' pt' ts ds m \<longleftrightarrow> pt_ok l s' pt' \<and> pt_frames pt' = pt_frames pt @ ts \<and>
     distinct (ts @ ds) \<and> set (ts @ ds) \<subseteq> frames_free s \<and> frames_free s' = frames_free s - set (ts @ ds) \<and>
     frames_used l s' = frames_used l s \<union> set (ts @ ds) \<and>
     lookup s' pt' = (\<lambda>u. case m (take_bit 27 u) of None \<Rightarrow> lookup s pt u | Some e \<Rightarrow> Some e) \<and>
     (\<forall>x \<in> set ds. get_bytes_array s' x = replicate 4096 0) \<and>
     (\<forall>x < 2 ^ 52. x \<notin> set (pt_frames pt') \<union> set ds \<longrightarrow> get_bytes_array s' x = get_bytes_array s x)"

lemma space_upd_refl: "pt_ok l s pt \<Longrightarrow> space_upd l s pt s pt [] [] Map.empty"
  by (simp add: space_upd_def)

lemma space_upd_card: "space_upd l s pt s' pt' ts ds m \<Longrightarrow> card (frames_free s) = card (frames_free s') + length ts + length ds"
proof -
  assume "space_upd l s pt s' pt' ts ds m"
  then have g: "frames_free s' = frames_free s - set (ts @ ds)" "set (ts @ ds) \<subseteq> frames_free s" "distinct (ts @ ds)" by (auto simp: space_upd_def)
  have "card (frames_free s') = card (frames_free s) - card (set (ts @ ds))" unfolding g(1) using g(2) by (intro card_Diff_subset) auto
  moreover have "card (set (ts @ ds)) \<le> card (frames_free s)" using g(2) by (intro card_mono) auto
  moreover have "card (set (ts @ ds)) = length ts + length ds" using distinct_card [OF g(3)] by simp
  ultimately show ?thesis by linarith
qed

lemma space_upd_bytes_ds:
  assumes "pt_ok l s pt" and "space_upd l s pt s' pt' ts ds m" and "x \<in> set ds"
  shows "x \<notin> set (pt_frames pt')" and "x < 2 ^ 52" and "x \<notin> frames_used l s"
proof -
  have mm: "mm_ok l s" using assms(1) by (simp add: pt_ok_def)
  have x: "x \<in> frames_free s" using assms(2,3) by (auto simp: space_upd_def)
  show u: "x \<notin> frames_used l s" using x frames_free_disjoint [OF mm] by auto
  have "x \<notin> set ts" using assms(2,3) by (auto simp: space_upd_def)
  then show "x \<notin> set (pt_frames pt')" using u assms(1,2) by (auto simp: space_upd_def pt_ok_def)
  show "x < 2 ^ 52" using frames_bounds(1) [OF mm x] by (intro ppn_small) simp
qed

lemma space_upd_trans:
  assumes ok: "pt_ok l s pt" and a: "space_upd l s pt s1 pt1 ts ds m" and b: "space_upd l s1 pt1 s2 pt2 ts' ds' m'"
  shows "space_upd l s pt s2 pt2 (ts @ ts') (ds @ ds') (\<lambda>k. case m' k of None \<Rightarrow> m k | Some e \<Rightarrow> Some e)"
proof -
  have ok1: "pt_ok l s1 pt1" using a by (simp add: space_upd_def)
  have sets: "set (ts @ ds) \<subseteq> frames_free s" "set (ts' @ ds') \<subseteq> frames_free s - set (ts @ ds)" "distinct (ts @ ds)" "distinct (ts' @ ds')"
    "frames_free s2 = frames_free s - set (ts @ ds) - set (ts' @ ds')" "frames_used l s2 = frames_used l s \<union> set (ts @ ds) \<union> set (ts' @ ds')"
    using a b by (auto simp: space_upd_def)
  have "get_bytes_array s2 x = replicate 4096 0" if "x \<in> set (ds @ ds')" for x
  proof (cases "x \<in> set ds'")
    case False
    then have x: "x \<in> set ds" using that by simp
    have "x \<notin> set ts'" using sets(2) x by auto
    then have "x \<notin> set (pt_frames pt2) \<union> set ds'" using False space_upd_bytes_ds(1) [OF ok a x] b by (auto simp: space_upd_def)
    then show ?thesis using a b x space_upd_bytes_ds(2) [OF ok a x] by (simp add: space_upd_def)
  qed (use b in \<open>simp add: space_upd_def\<close>)
  moreover have "get_bytes_array s2 x = get_bytes_array s x" if "x < 2 ^ 52" "x \<notin> set (pt_frames pt2) \<union> set (ds @ ds')" for x
    using that a b by (auto simp: space_upd_def)
  moreover have "lookup s2 pt2 = (\<lambda>u. case (case m' (take_bit 27 u) of None \<Rightarrow> m (take_bit 27 u) | Some e \<Rightarrow> Some e) of
      None \<Rightarrow> lookup s pt u | Some e \<Rightarrow> Some e)"
    using a b by (auto simp: space_upd_def fun_eq_iff split: option.splits)
  moreover have "distinct ((ts @ ts') @ ds @ ds')" using sets(2-4) by auto
  moreover have "pt_ok l s2 pt2" "pt_frames pt2 = pt_frames pt @ ts @ ts'" using a b by (auto simp: space_upd_def)
  ultimately show ?thesis unfolding space_upd_def using sets by auto
qed

lemma pt_upd_space:
  assumes "pt_upd l s pt s' pt' fs v (Some e)"
  shows "space_upd l s pt s' pt' fs [] [take_bit 27 v \<mapsto> e]"
  using assms unfolding pt_upd_def space_upd_def by (auto simp: fun_eq_iff)

lemma map_one_identical:
  assumes ok: "pt_ok l s pt" and room: "2 \<le> card (frames_free s)" and v: "lookup s pt v = None" and ty: "map_type a = Identical"
  shows "\<exists>pt' s' ts. map_one a pt s v = Some (a, pt', s') \<and> length ts \<le> 2 \<and>
    space_upd l s pt s' pt' ts [] [take_bit 27 v \<mapsto> pte_new v (map_perm a OR PTE_V)]"
proof -
  obtain pt' s' fs where m: "pt_map pt s v v (map_perm a) = Some (pt', s')" "length fs \<le> 2"
    "pt_upd l s pt s' pt' fs v (Some (pte_new v (map_perm a OR PTE_V)))" using pt_map_ok(1) [OF ok room v] by blast
  then show ?thesis using pt_upd_space [OF m(3)] ty by (auto simp: map_one_def)
qed

lemma frame_alloc_space:
  assumes ok: "pt_ok l s pt" and r: "frame_alloc s = Some (f, s')"
  shows "space_upd l s pt s' pt [] [f] Map.empty"
proof -
  have mm: "mm_ok l s" using ok by (simp add: pt_ok_def)
  note a = frame_alloc_Some [OF mm r]
  have f: "f \<notin> set (pt_frames pt)" using a(1) frames_free_disjoint [OF mm] ok by (auto simp: pt_ok_def)
  have same: "get_bytes_array s' x = get_bytes_array s x" if "x \<in> set (pt_frames pt)" for x
    using that f pt_frames_used(3) [OF ok that] by (intro a(6)) auto
  have "set (pt_frames pt) \<subseteq> frames_used l s'" using ok a(3) by (auto simp: pt_ok_def)
  from pt_ok_cong [OF ok a(4) this same] show ?thesis using a by (auto simp: space_upd_def)
qed

lemma map_one_framed:
  assumes ok: "pt_ok l s pt" and room: "3 \<le> card (frames_free s)" and v: "lookup s pt v = None" and ty: "map_type a = Framed"
    and keys: "\<forall>k \<in> fst ` set (data_frames a). k < v"
  shows "\<exists>pt' s' ts f. map_one a pt s v = Some (a\<lparr>data_frames := data_frames a @ [(v, f)]\<rparr>, pt', s') \<and> length ts \<le> 2 \<and>
    space_upd l s pt s' pt' ts [f] [take_bit 27 v \<mapsto> pte_new f (map_perm a OR PTE_V)]"
proof -
  have mm: "mm_ok l s" using ok by (simp add: pt_ok_def)
  have "frames_free s \<noteq> {}" using room by auto
  then obtain f s1 where al: "frame_alloc s = Some (f, s1)" using frame_alloc_None [OF mm] by auto
  note u = frame_alloc_space [OF ok al]
  have ok1: "pt_ok l s1 pt" and lk: "lookup s1 pt v = None" using u v by (auto simp: space_upd_def)
  have "2 \<le> card (frames_free s1)" using space_upd_card [OF u] room by simp
  from pt_map_ok(1) [OF ok1 this lk] obtain pt' s' fs where m: "pt_map pt s1 v f (map_perm a) = Some (pt', s')" "length fs \<le> 2"
    "pt_upd l s1 pt s' pt' fs v (Some (pte_new f (map_perm a OR PTE_V)))" by blast
  have "map_one a pt s v = Some (a\<lparr>data_frames := data_frames a @ [(v, f)]\<rparr>, pt', s')"
    using ty al m(1) by (simp add: map_one_def btree_insert_last [OF keys] drop_opt_def)
  moreover have "space_upd l s pt s' pt' fs [f] [take_bit 27 v \<mapsto> pte_new f (map_perm a OR PTE_V)]"
  proof -
    have "(\<lambda>k. case [take_bit 27 v \<mapsto> pte_new f (map_perm a OR PTE_V)] k of None \<Rightarrow> Map.empty k | Some e \<Rightarrow> Some e) =
        [take_bit 27 v \<mapsto> pte_new f (map_perm a OR PTE_V)]" by (auto simp: fun_eq_iff)
    with space_upd_trans [OF ok u pt_upd_space [OF m(3)]] show ?thesis by simp
  qed
  ultimately show ?thesis using m(2) by blast
qed

subsection \<open>Mapping an area\<close>

definition leaf_map :: "VirtPageNum list \<Rightarrow> PhysPageNum list \<Rightarrow> u8 \<Rightarrow> usize \<Rightarrow> PageTableEntry option" where
  "leaf_map vs fs fl = map_of (zip (map (take_bit 27) vs) (map (\<lambda>f. pte_new f (fl OR PTE_V)) fs))"

lemma leaf_map_Nil [simp]: "leaf_map [] fs fl = Map.empty"
  by (simp add: leaf_map_def)

lemma leaf_map_notin: "k \<notin> take_bit 27 ` set vs \<Longrightarrow> leaf_map vs fs fl k = None"
proof -
  assume *: "k \<notin> take_bit 27 ` set vs"
  have "fst ` set (zip xs ys) \<subseteq> set xs" for xs :: "usize list" and ys :: "usize list" by (auto dest: set_zip_leftD)
  from this [of "map (take_bit 27) vs"] * show ?thesis by (auto simp: leaf_map_def map_of_eq_None_iff)
qed

lemma leaf_map_Cons:
  assumes "take_bit 27 v \<notin> take_bit 27 ` set vs"
  shows "(\<lambda>k. case leaf_map vs fs fl k of None \<Rightarrow> [take_bit 27 v \<mapsto> pte_new f (fl OR PTE_V)] k | Some e \<Rightarrow> Some e) = leaf_map (v # vs) (f # fs) fl"
  using leaf_map_notin [OF assms, of fs fl] by (auto simp: leaf_map_def fun_eq_iff split: option.splits)

lemma leaf_map_nth:
  assumes "distinct (map (take_bit 27) vs)" and "length fs = length vs" and "i < length vs"
  shows "leaf_map vs fs fl (take_bit 27 (vs ! i)) = Some (pte_new (fs ! i) (fl OR PTE_V))"
  using map_of_zip_nth [of "map (take_bit 27) vs" "map (\<lambda>f. pte_new f (fl OR PTE_V)) fs" i] assms by (simp add: leaf_map_def)

lemma map_loop_framed:
  "pt_ok l s pt \<Longrightarrow> 3 * length vs \<le> card (frames_free s) \<Longrightarrow> distinct (map (take_bit 27) vs) \<Longrightarrow> \<forall>v \<in> set vs. lookup s pt v = None \<Longrightarrow>
    map_type a = Framed \<Longrightarrow> sorted_wrt (<) (map fst (data_frames a) @ vs) \<Longrightarrow>
    \<exists>pt' s' ts ds. map_loop a pt s vs = Some (a\<lparr>data_frames := data_frames a @ zip vs ds\<rparr>, pt', s') \<and> length ds = length vs \<and>
      length ts \<le> 2 * length vs \<and> space_upd l s pt s' pt' ts ds (leaf_map vs ds (map_perm a))"
proof (induction vs arbitrary: a pt s)
  case Nil
  then show ?case using space_upd_refl [OF Nil(1)] by (intro exI [of _ pt] exI [of _ s] exI [of _ "[]"]) simp
next
  case (Cons v vs)
  have keys: "\<forall>k \<in> fst ` set (data_frames a). k < v" using Cons.prems(6) by (auto simp: sorted_wrt_append)
  have room: "3 \<le> card (frames_free s)" and lk: "lookup s pt v = None" using Cons.prems(2,4) by auto
  obtain pt1 s1 ts f where o: "map_one a pt s v = Some (a\<lparr>data_frames := data_frames a @ [(v, f)]\<rparr>, pt1, s1)" "length ts \<le> 2"
    and u: "space_upd l s pt s1 pt1 ts [f] [take_bit 27 v \<mapsto> pte_new f (map_perm a OR PTE_V)]"
    using map_one_framed [OF Cons.prems(1) room lk Cons.prems(5) keys] by blast
  let ?a = "a\<lparr>data_frames := data_frames a @ [(v, f)]\<rparr>"
  have ok1: "pt_ok l s1 pt1" using u by (simp add: space_upd_def)
  have r1: "3 * length vs \<le> card (frames_free s1)" using space_upd_card [OF u] o(2) Cons.prems(2) by simp
  have nk: "take_bit 27 v \<notin> take_bit 27 ` set vs" using Cons.prems(3) by simp
  have l1: "\<forall>w \<in> set vs. lookup s1 pt1 w = None"
  proof
    fix w assume w: "w \<in> set vs"
    then have "take_bit 27 w \<noteq> take_bit 27 v" using nk w by (metis imageI)
    then show "lookup s1 pt1 w = None" using u w Cons.prems(4) by (simp add: space_upd_def)
  qed
  have "\<exists>pt' s' ts ds. map_loop ?a pt1 s1 vs = Some (?a\<lparr>data_frames := data_frames ?a @ zip vs ds\<rparr>, pt', s') \<and> length ds = length vs \<and>
      length ts \<le> 2 * length vs \<and> space_upd l s1 pt1 s' pt' ts ds (leaf_map vs ds (map_perm ?a))"
    using Cons.prems(3,5,6) by (intro Cons.IH ok1 r1 l1) auto
  then obtain pt' s' ts' ds where m: "map_loop ?a pt1 s1 vs = Some (?a\<lparr>data_frames := data_frames ?a @ zip vs ds\<rparr>, pt', s')"
    "length ds = length vs" "length ts' \<le> 2 * length vs" and u': "space_upd l s1 pt1 s' pt' ts' ds (leaf_map vs ds (map_perm a))" by auto
  have "space_upd l s pt s' pt' (ts @ ts') (f # ds) (leaf_map (v # vs) (f # ds) (map_perm a))"
    using space_upd_trans [OF Cons.prems(1) u u'] unfolding leaf_map_Cons [OF nk] by simp
  then show ?case using o m by (intro exI [of _ pt'] exI [of _ s'] exI [of _ "ts @ ts'"] exI [of _ "f # ds"]) simp
qed

lemma map_loop_identical:
  "pt_ok l s pt \<Longrightarrow> 2 * length vs \<le> card (frames_free s) \<Longrightarrow> distinct (map (take_bit 27) vs) \<Longrightarrow> \<forall>v \<in> set vs. lookup s pt v = None \<Longrightarrow>
    map_type a = Identical \<Longrightarrow>
    \<exists>pt' s' ts. map_loop a pt s vs = Some (a, pt', s') \<and> length ts \<le> 2 * length vs \<and> space_upd l s pt s' pt' ts [] (leaf_map vs vs (map_perm a))"
proof (induction vs arbitrary: pt s)
  case Nil
  then show ?case using space_upd_refl [OF Nil(1)] by (intro exI [of _ pt] exI [of _ s] exI [of _ "[]"]) simp
next
  case (Cons v vs)
  have room: "2 \<le> card (frames_free s)" and lk: "lookup s pt v = None" using Cons.prems(2,4) by auto
  obtain pt1 s1 ts where o: "map_one a pt s v = Some (a, pt1, s1)" "length ts \<le> 2"
    and u: "space_upd l s pt s1 pt1 ts [] [take_bit 27 v \<mapsto> pte_new v (map_perm a OR PTE_V)]"
    using map_one_identical [OF Cons.prems(1) room lk Cons.prems(5)] by blast
  have ok1: "pt_ok l s1 pt1" using u by (simp add: space_upd_def)
  have r1: "2 * length vs \<le> card (frames_free s1)" using space_upd_card [OF u] o(2) Cons.prems(2) by simp
  have nk: "take_bit 27 v \<notin> take_bit 27 ` set vs" using Cons.prems(3) by simp
  have l1: "\<forall>w \<in> set vs. lookup s1 pt1 w = None"
  proof
    fix w assume w: "w \<in> set vs"
    then have "take_bit 27 w \<noteq> take_bit 27 v" using nk w by (metis imageI)
    then show "lookup s1 pt1 w = None" using u w Cons.prems(4) by (simp add: space_upd_def)
  qed
  obtain pt' s' ts' where m: "map_loop a pt1 s1 vs = Some (a, pt', s')" "length ts' \<le> 2 * length vs"
    and u': "space_upd l s1 pt1 s' pt' ts' [] (leaf_map vs vs (map_perm a))"
    using Cons.IH [OF ok1 r1 _ l1 Cons.prems(5)] Cons.prems(3) by auto
  have "space_upd l s pt s' pt' (ts @ ts') [] (leaf_map (v # vs) (v # vs) (map_perm a))"
    using space_upd_trans [OF Cons.prems(1) u u'] unfolding leaf_map_Cons [OF nk] by simp
  then show ?case using o m by (intro exI [of _ pt'] exI [of _ s'] exI [of _ "ts @ ts'"]) simp
qed

subsection \<open>Well-formed memory sets\<close>

abbreviation area_pages :: "MapArea \<Rightarrow> VirtPageNum list" where
  "area_pages a \<equiv> range_list (vpn_range a)"

abbreviation area_frames :: "MapArea \<Rightarrow> PhysPageNum list" where
  "area_frames a \<equiv> map snd (data_frames a)"

definition own :: "MemorySet \<Rightarrow> PhysPageNum list" where
  "own ms = pt_frames (page_table ms) @ concat (map area_frames (areas ms))"

definition area_ok :: "mm \<Rightarrow> PageTable \<Rightarrow> MapArea \<Rightarrow> bool" where
  "area_ok s pt a \<longleftrightarrow> range_l (vpn_range a) \<le> range_r (vpn_range a) \<and>
     (case map_type a of
        Framed \<Rightarrow> map fst (data_frames a) = area_pages a \<and>
          (\<forall>(v, f) \<in> set (data_frames a). lookup s pt v = Some (pte_new f (map_perm a OR PTE_V)))
      | Identical \<Rightarrow> data_frames a = [] \<and> (\<forall>v \<in> set (area_pages a). lookup s pt v = Some (pte_new v (map_perm a OR PTE_V))))"

definition ms_ok :: "nat \<Rightarrow> mm \<Rightarrow> MemorySet \<Rightarrow> bool" where
  "ms_ok l s ms \<longleftrightarrow> pt_ok l s (page_table ms) \<and> (\<forall>a \<in> set (areas ms). area_ok s (page_table ms) a) \<and>
     distinct (own ms) \<and> set (own ms) \<subseteq> frames_used l s \<and>
     distinct (map (take_bit 27) (concat (map area_pages (areas ms))))"

abbreviation ms_lookup :: "mm \<Rightarrow> MemorySet \<Rightarrow> VirtPageNum \<Rightarrow> PageTableEntry option" where
  "ms_lookup s ms \<equiv> lookup s (page_table ms)"

lemma ms_ok_cong:
  assumes ok: "ms_ok l s ms" and mm: "mm_ok l s'" and used: "set (own ms) \<subseteq> frames_used l s'"
    and same: "\<And>x. x \<in> set (pt_frames (page_table ms)) \<Longrightarrow> get_bytes_array s' x = get_bytes_array s x"
  shows "ms_ok l s' ms" and "ms_lookup s' ms = ms_lookup s ms"
proof -
  have pt: "pt_ok l s (page_table ms)" "set (pt_frames (page_table ms)) \<subseteq> frames_used l s'"
    using ok used by (auto simp: ms_ok_def own_def)
  have c: "pt_ok l s' (page_table ms)" "ms_lookup s' ms = ms_lookup s ms" using pt_ok_cong [OF pt(1) mm pt(2)] same by blast+
  show "ms_lookup s' ms = ms_lookup s ms" by (rule c(2))
  have "area_ok s' (page_table ms) a = area_ok s (page_table ms) a" for a unfolding area_ok_def c(2) by simp
  then show "ms_ok l s' ms" using ok used c(1) by (simp add: ms_ok_def)
qed

lemma area_ok_pages:
  assumes "area_ok s pt a" and "v \<in> set (area_pages a)"
  shows "lookup s pt v \<noteq> None"
proof (cases "map_type a")
  case Framed
  then have "v \<in> fst ` set (data_frames a)" using assms by (auto simp: area_ok_def simp flip: set_map)
  then show ?thesis using assms(1) Framed by (auto simp: area_ok_def)
qed (use assms in \<open>auto simp: area_ok_def\<close>)

lemma word_upt_sorted: "b \<le> 2 ^ 64 \<Longrightarrow> sorted_wrt (<) (map word_of_nat [a..<b] :: usize list)"
proof -
  assume b: "b \<le> 2 ^ 64"
  have "(word_of_nat i :: usize) < word_of_nat j" if "i < j" "j < b" for i j
    using that b by (simp add: word_less_nat_alt unat_of_nat)
  then show ?thesis unfolding sorted_wrt_map by (intro sorted_wrt_mono_rel [OF _ sorted_wrt_upt]) auto
qed

lemma range_list_sorted: "range_l r \<le> range_r r \<Longrightarrow> sorted_wrt (<) (range_list r)"
proof -
  assume "range_l r \<le> range_r r"
  then have "range_new (range_l r) (range_r r) = Some r" by (simp add: range_new_def)
  then have "range_list r = map word_of_nat [unat (range_l r)..<unat (range_r r)]" using range_list_ok by blast
  moreover have "unat (range_r r) < 2 ^ 64" using unsigned_less [of "range_r r"] by simp
  then have "unat (range_r r) \<le> 2 ^ 64" by (rule order_less_imp_le)
  ultimately show ?thesis using word_upt_sorted by simp
qed

lemma keys_distinct: "distinct (map (take_bit 27) vs) \<Longrightarrow> distinct vs"
  by (rule distinct_map [THEN iffD1, THEN conjunct1])

lemma own_push: "set (own (ms\<lparr>page_table := pt\<rparr>)) = set (pt_frames pt) \<union> set (concat (map area_frames (areas ms)))"
  by (simp add: own_def)

lemma ms_ok_push_framed:
  assumes ok: "ms_ok l s ms" and a: "map_type a = Framed" "range_l (vpn_range a) \<le> range_r (vpn_range a)"
    and keys: "distinct (map (take_bit 27) (area_pages a))" and free: "\<forall>v \<in> set (area_pages a). ms_lookup s ms v = None"
    and u: "space_upd l s (page_table ms) s' pt' ts ds (leaf_map (area_pages a) ds (map_perm a))" and len: "length ds = length (area_pages a)"
  defines "a' \<equiv> a\<lparr>data_frames := zip (area_pages a) ds\<rparr>"
  defines "ms' \<equiv> \<lparr>page_table = pt', areas = areas ms @ [a']\<rparr>"
  shows "ms_ok l s' ms'"
proof -
  let ?vs = "area_pages a"
  have pt: "pt_ok l s (page_table ms)" and ar: "\<forall>b \<in> set (areas ms). area_ok s (page_table ms) b" and dist: "distinct (own ms)"
    and used: "set (own ms) \<subseteq> frames_used l s" and kd: "distinct (map (take_bit 27) (concat (map area_pages (areas ms))))"
    using ok by (auto simp: ms_ok_def)
  have mm: "mm_ok l s" using pt by (simp add: pt_ok_def)
  have fs: "area_frames a' = ds" using len by (simp add: a'_def)
  have lk: "lookup s' pt' v = (case leaf_map ?vs ds (map_perm a) (take_bit 27 v) of None \<Rightarrow> ms_lookup s ms v | Some e \<Rightarrow> Some e)" for v
    using u by (simp add: space_upd_def)
  have other: "take_bit 27 v \<notin> take_bit 27 ` set ?vs" if "ms_lookup s ms v \<noteq> None" for v
  proof
    assume "take_bit 27 v \<in> take_bit 27 ` set ?vs"
    then obtain w where "w \<in> set ?vs" "take_bit 27 v = take_bit 27 w" by auto
    then show False using free lookup_key [of v w] that by simp
  qed
  have old: "lookup s' pt' v = ms_lookup s ms v" if "ms_lookup s ms v \<noteq> None" for v
    unfolding lk leaf_map_notin [OF other [OF that]] by simp
  have olda: "area_ok s' pt' b" if "b \<in> set (areas ms)" for b
  proof -
    have b: "area_ok s (page_table ms) b" using ar that by blast
    show ?thesis
    proof (cases "map_type b")
      case Framed
      then show ?thesis using b old by (fastforce simp: area_ok_def)
    next
      case Identical
      then show ?thesis using b old by (simp add: area_ok_def)
    qed
  qed
  have "area_ok s' pt' a'"
  proof -
    have "lookup s' pt' v = Some (pte_new f (map_perm a OR PTE_V))" if vf: "(v, f) \<in> set (zip ?vs ds)" for v f
    proof -
      obtain i where i: "i < length ?vs" "v = ?vs ! i" "f = ds ! i" using vf len by (auto simp: in_set_zip)
      then show ?thesis unfolding lk using leaf_map_nth [OF keys len i(1)] by simp
    qed
    then show ?thesis using a len by (auto simp: area_ok_def a'_def)
  qed
  moreover have "pt_ok l s' pt'" using u by (simp add: space_upd_def)
  moreover have "set (own ms') = set (own ms) \<union> set (ts @ ds)" using u fs by (auto simp: own_def ms'_def space_upd_def)
  moreover have "distinct (own ms')"
  proof -
    have "set (ts @ ds) \<inter> set (own ms) = {}" "distinct (ts @ ds)" "pt_frames pt' = pt_frames (page_table ms) @ ts"
      using u used frames_free_disjoint [OF mm] by (auto simp: space_upd_def)
    moreover define B where "B = concat (map area_frames (areas ms))"
    ultimately have "own ms = pt_frames (page_table ms) @ B" "own ms' = (pt_frames (page_table ms) @ ts) @ B @ ds"
      and dj: "set (ts @ ds) \<inter> set (own ms) = {}" "distinct (ts @ ds)" using fs by (simp_all add: own_def ms'_def)
    then show ?thesis using dist by auto
  qed
  moreover have "distinct (map (take_bit 27) (concat (map area_pages (areas ms'))))"
  proof -
    have "take_bit 27 v \<notin> take_bit 27 ` set ?vs" if vin: "v \<in> set (concat (map area_pages (areas ms)))" for v
    proof (rule other)
      obtain b where "b \<in> set (areas ms)" "v \<in> set (area_pages b)" using vin by auto
      then show "ms_lookup s ms v \<noteq> None" using ar area_ok_pages by blast
    qed
    then have "take_bit 27 ` set (concat (map area_pages (areas ms))) \<inter> take_bit 27 ` set ?vs = {}" by blast
    then show ?thesis using kd keys by (simp add: ms'_def a'_def)
  qed
  ultimately show ?thesis using olda used u by (auto simp: ms_ok_def ms'_def space_upd_def)
qed

text \<open>
  Pushing a framed area without data, and with the effect on the address space spelled out.
\<close>

definition ms_room :: "mm \<Rightarrow> MemorySet \<Rightarrow> MapArea \<Rightarrow> bool" where
  "ms_room s ms a \<longleftrightarrow> distinct (map (take_bit 27) (area_pages a)) \<and> (\<forall>v \<in> set (area_pages a). ms_lookup s ms v = None) \<and>
     3 * length (area_pages a) \<le> card (frames_free s)"

lemma area_map_framed:
  assumes ok: "pt_ok l s (page_table ms)" and a: "map_type a = Framed" "range_l (vpn_range a) \<le> range_r (vpn_range a)" "data_frames a = []"
    and room: "ms_room s ms a"
  shows "\<exists>pt' s' ts ds. area_map a (page_table ms) s = Some (a\<lparr>data_frames := zip (area_pages a) ds\<rparr>, pt', s') \<and>
    length ds = length (area_pages a) \<and> length ts \<le> 2 * length (area_pages a) \<and>
    space_upd l s (page_table ms) s' pt' ts ds (leaf_map (area_pages a) ds (map_perm a))"
  using map_loop_framed [OF ok, of "area_pages a" a] room a range_list_sorted [OF a(2)]
  by (auto simp: area_map_def ms_room_def)

lemma insert_framed_ok:
  assumes ok: "ms_ok l s ms" and a: "area_new start_va end_va Framed perm = Some a" and room: "ms_room s ms a"
  shows "\<exists>pt' s' ts ds. insert_framed_area ms s start_va end_va perm =
      Some (\<lparr>page_table = pt', areas = areas ms @ [a\<lparr>data_frames := zip (area_pages a) ds\<rparr>]\<rparr>, s') \<and>
    ms_ok l s' \<lparr>page_table = pt', areas = areas ms @ [a\<lparr>data_frames := zip (area_pages a) ds\<rparr>]\<rparr> \<and>
    length ds = length (area_pages a) \<and> length ts \<le> 2 * length (area_pages a) \<and>
    space_upd l s (page_table ms) s' pt' ts ds (leaf_map (area_pages a) ds perm)"
proof -
  have ar: "map_type a = Framed" "range_l (vpn_range a) \<le> range_r (vpn_range a)" "data_frames a = []" "map_perm a = perm"
    using a by (auto simp: area_new_def range_new_def rassert_def split: if_splits)
  have pt: "pt_ok l s (page_table ms)" using ok by (simp add: ms_ok_def)
  obtain pt' s' ts ds where m: "area_map a (page_table ms) s = Some (a\<lparr>data_frames := zip (area_pages a) ds\<rparr>, pt', s')"
    "length ds = length (area_pages a)" "length ts \<le> 2 * length (area_pages a)"
    and u: "space_upd l s (page_table ms) s' pt' ts ds (leaf_map (area_pages a) ds (map_perm a))"
    using area_map_framed [OF pt ar(1-3) room] by blast
  have "ms_ok l s' \<lparr>page_table = pt', areas = areas ms @ [a\<lparr>data_frames := zip (area_pages a) ds\<rparr>]\<rparr>"
    using ms_ok_push_framed [OF ok ar(1,2) _ _ u m(2)] room by (simp add: ms_room_def)
  then show ?thesis using m a u ar(4) by (auto simp: insert_framed_area_def ms_push_def)
qed

subsection \<open>Removing an area\<close>

definition space_del :: "nat \<Rightarrow> mm \<Rightarrow> PageTable \<Rightarrow> mm \<Rightarrow> PhysPageNum set \<Rightarrow> usize set \<Rightarrow> bool" where
  "space_del l s pt s' fs ks \<longleftrightarrow> pt_ok l s' pt \<and> frames_free s' = frames_free s \<union> fs \<and> frames_used l s' = frames_used l s - fs \<and>
     lookup s' pt = (\<lambda>u. if take_bit 27 u \<in> ks then None else lookup s pt u) \<and>
     (\<forall>x < 2 ^ 52. x \<notin> set (pt_frames pt) \<longrightarrow> get_bytes_array s' x = get_bytes_array s x)"

lemma space_del_refl: "pt_ok l s pt \<Longrightarrow> space_del l s pt s {} {}"
  by (simp add: space_del_def)

lemma space_del_trans:
  "space_del l s pt s1 fs ks \<Longrightarrow> space_del l s1 pt s2 fs' ks' \<Longrightarrow> space_del l s pt s2 (fs \<union> fs') (ks \<union> ks')"
  by (auto simp: space_del_def fun_eq_iff)

lemma unmap_one_framed:
  assumes ok: "pt_ok l s pt" and ty: "map_type a = Framed" and df: "data_frames a = (v, f) # ps" and v: "lookup s pt v \<noteq> None"
    and f: "f \<in> frames_used l s" "f \<notin> set (pt_frames pt)"
  shows "\<exists>s'. unmap_one a pt s v = Some (a\<lparr>data_frames := ps\<rparr>, pt, s') \<and> space_del l s pt s' {f} {take_bit 27 v}"
proof -
  have mm: "mm_ok l s" using ok by (simp add: pt_ok_def)
  obtain s1 where s1: "frame_dealloc s f = Some s1" "pages s1 = pages s" "mm_ok l s1" "frames_free s1 = insert f (frames_free s)"
    "frames_used l s1 = frames_used l s - {f}" using frame_dealloc_ok [OF mm f(1)] by blast
  have b: "get_bytes_array s1 x = get_bytes_array s x" for x using s1(2) by (simp add: get_bytes_array_def)
  have "set (pt_frames pt) \<subseteq> frames_used l s1" using ok f(2) s1(5) by (auto simp: pt_ok_def)
  note c = pt_ok_cong [OF ok s1(3) this b]
  have "lookup s1 pt v \<noteq> None" using v c(2) by simp
  from pt_unmap_ok [OF c(1) this] obtain s' where s': "pt_unmap pt s1 v = Some (pt, s')" "pt_upd l s1 pt s' pt [] v None" by blast
  have "unmap_one a pt s v = Some (a\<lparr>data_frames := ps\<rparr>, pt, s')"
    using ty df s1(1) s'(1) by (simp add: unmap_one_def drop_opt_def)
  moreover have "space_del l s pt s' {f} {take_bit 27 v}"
    using s'(2) s1(4,5) c(2) b by (auto simp: pt_upd_def space_del_def fun_eq_iff)
  ultimately show ?thesis by blast
qed

lemma unmap_loop_framed:
  "pt_ok l s pt \<Longrightarrow> map_type a = Framed \<Longrightarrow> data_frames a = ps \<Longrightarrow> distinct (map (take_bit 27) (map fst ps)) \<Longrightarrow>
    \<forall>v \<in> fst ` set ps. lookup s pt v \<noteq> None \<Longrightarrow> distinct (map snd ps) \<Longrightarrow> snd ` set ps \<subseteq> frames_used l s - set (pt_frames pt) \<Longrightarrow>
    \<exists>s'. unmap_loop a pt s (map fst ps) = Some (a\<lparr>data_frames := []\<rparr>, pt, s') \<and>
      space_del l s pt s' (snd ` set ps) (take_bit 27 ` fst ` set ps)"
proof (induction ps arbitrary: a s)
  case Nil
  then show ?case using space_del_refl [OF Nil(1)] by simp
next
  case (Cons vf ps)
  obtain v f where vf: "vf = (v, f)" by force
  have df: "data_frames a = (v, f) # ps" and lk: "lookup s pt v \<noteq> None" and f: "f \<in> frames_used l s" "f \<notin> set (pt_frames pt)"
    using Cons.prems(3,5,7) vf by auto
  obtain s1 where o: "unmap_one a pt s v = Some (a\<lparr>data_frames := ps\<rparr>, pt, s1)" and d: "space_del l s pt s1 {f} {take_bit 27 v}"
    using unmap_one_framed [OF Cons.prems(1,2) df lk f] by blast
  have ok1: "pt_ok l s1 pt" using d by (simp add: space_del_def)
  have nk: "take_bit 27 v \<notin> take_bit 27 ` fst ` set ps" and nf: "f \<notin> snd ` set ps" using Cons.prems(4,6) vf by (auto simp: image_image)
  have l1: "\<forall>w \<in> fst ` set ps. lookup s1 pt w \<noteq> None"
  proof
    fix w assume w: "w \<in> fst ` set ps"
    then have "take_bit 27 w \<noteq> take_bit 27 v" using nk by (metis imageI)
    moreover have "lookup s pt w \<noteq> None" using Cons.prems(5) w by auto
    ultimately show "lookup s1 pt w \<noteq> None" using d by (simp add: space_del_def)
  qed
  have u1: "snd ` set ps \<subseteq> frames_used l s1 - set (pt_frames pt)" using Cons.prems(7) d nf by (auto simp: space_del_def vf)
  obtain s' where m: "unmap_loop (a\<lparr>data_frames := ps\<rparr>) pt s1 (map fst ps) = Some (a\<lparr>data_frames := []\<rparr>, pt, s')"
    and d': "space_del l s1 pt s' (snd ` set ps) (take_bit 27 ` fst ` set ps)"
    using Cons.IH [OF ok1, of "a\<lparr>data_frames := ps\<rparr>"] Cons.prems(2,4,6) l1 u1 by auto
  show ?case using o m space_del_trans [OF d d'] by (simp add: vf)
qed

text \<open>The state after the area at position \<open>i\<close> has been removed.\<close>

lemma remove_area_ok:
  assumes ok: "ms_ok l s ms" and i: "find_idx (\<lambda>a. range_l (vpn_range a) = start_vpn) (areas ms) = Some i"
    and ty: "map_type (areas ms ! i) = Framed"
  defines "a \<equiv> areas ms ! i" and "ms' \<equiv> ms\<lparr>areas := take i (areas ms) @ drop (Suc i) (areas ms)\<rparr>"
  shows "\<exists>s'. remove_area_with_start_vpn ms s start_vpn = Some (ms', s') \<and> ms_ok l s' ms' \<and>
    space_del l s (page_table ms) s' (set (area_frames a)) (take_bit 27 ` set (area_pages a))"
proof -
  let ?pt = "page_table ms"
  have il: "i < length (areas ms)" using find_idx_SomeD(1) [OF i] .
  have split: "areas ms = take i (areas ms) @ a # drop (Suc i) (areas ms)" unfolding a_def using il by (rule id_take_nth_drop)
  define A B where "A = take i (areas ms)" and "B = drop (Suc i) (areas ms)"
  have ar: "areas ms = A @ a # B" using split by (simp add: A_def B_def)
  have pt: "pt_ok l s ?pt" and aok: "area_ok s ?pt a" and dist: "distinct (own ms)" and used: "set (own ms) \<subseteq> frames_used l s"
    and kd: "distinct (map (take_bit 27) (concat (map area_pages (areas ms))))" and all: "\<forall>b \<in> set (areas ms). area_ok s ?pt b"
    using ok il by (auto simp: ms_ok_def a_def)
  have df: "map fst (data_frames a) = area_pages a" "\<forall>(v, f) \<in> set (data_frames a). lookup s ?pt v = Some (pte_new f (map_perm a OR PTE_V))"
    using aok ty by (auto simp: area_ok_def a_def)
  have own: "own ms = pt_frames ?pt @ concat (map area_frames A) @ area_frames a @ concat (map area_frames B)"
    by (simp add: own_def ar)
  have k1: "distinct (map (take_bit 27) (map fst (data_frames a)))" using kd df(1) unfolding ar by simp
  have f1: "distinct (area_frames a)" "snd ` set (data_frames a) \<subseteq> frames_used l s - set (pt_frames ?pt)"
    using dist used unfolding own by auto
  have l1: "\<forall>v \<in> fst ` set (data_frames a). lookup s ?pt v \<noteq> None" using df(2) by auto
  have ty': "map_type a = Framed" using ty by (simp add: a_def)
  have pages: "fst ` set (data_frames a) = set (area_pages a)" unfolding df(1) [symmetric] by simp
  obtain s1 where u: "area_unmap a ?pt s = Some (a\<lparr>data_frames := []\<rparr>, ?pt, s1)"
    and d: "space_del l s ?pt s1 (set (area_frames a)) (take_bit 27 ` set (area_pages a))"
    using unmap_loop_framed [OF pt ty' refl k1 l1 f1] unfolding area_unmap_def df(1) pages by auto
  have run: "remove_area_with_start_vpn ms s start_vpn = Some (ms', s1)"
    using i u by (simp add: remove_area_with_start_vpn_def a_def [symmetric] area_drop_def ms'_def)
  have lk: "lookup s1 ?pt v = lookup s ?pt v" if "take_bit 27 v \<notin> take_bit 27 ` set (area_pages a)" for v
    using d that by (simp add: space_del_def)
  have rest: "take_bit 27 ` set (area_pages b) \<inter> take_bit 27 ` set (area_pages a) = {}" if b: "b \<in> set A \<union> set B" for b
  proof -
    have "take_bit 27 ` set (concat (map area_pages A)) \<inter> take_bit 27 ` set (area_pages a) = {}"
      "take_bit 27 ` set (area_pages a) \<inter> take_bit 27 ` set (concat (map area_pages B)) = {}"
      using kd unfolding ar by (simp_all add: Int_Un_distrib)
    moreover have "set (area_pages b) \<subseteq> set (concat (map area_pages A)) \<or> set (area_pages b) \<subseteq> set (concat (map area_pages B))" using b by auto
    ultimately show ?thesis by blast
  qed
  have "area_ok s1 ?pt b" if b: "b \<in> set A \<union> set B" for b
  proof -
    have bok: "area_ok s ?pt b" using all b unfolding ar by auto
    have same: "lookup s1 ?pt v = lookup s ?pt v" if "v \<in> set (area_pages b)" for v using rest [OF b] that by (intro lk) blast
    show ?thesis
    proof (cases "map_type b")
      case Framed
      then have "\<forall>(v, f) \<in> set (data_frames b). v \<in> set (area_pages b)" using bok by (auto simp: area_ok_def simp flip: set_map) (metis fst_conv image_eqI list.set_map)
      then show ?thesis using bok Framed same by (fastforce simp: area_ok_def)
    qed (use bok same in \<open>auto simp: area_ok_def\<close>)
  qed
  moreover define FA FB where "FA = concat (map area_frames A)" and "FB = concat (map area_frames B)"
  have o: "own ms = pt_frames ?pt @ FA @ area_frames a @ FB" "own ms' = pt_frames ?pt @ FA @ FB"
    by (simp_all add: own FA_def FB_def) (simp add: own_def ms'_def A_def B_def)
  have u1: "frames_used l s1 = frames_used l s - set (area_frames a)" using d by (simp add: space_del_def)
  have "set (pt_frames ?pt @ FA @ FB) \<inter> set (area_frames a) = {}" "distinct (pt_frames ?pt @ FA @ FB)" using dist unfolding o(1) by auto
  moreover have "set (pt_frames ?pt @ FA @ FB) \<subseteq> frames_used l s" using used unfolding o(1) by auto
  ultimately have own': "distinct (own ms')" "set (own ms') \<subseteq> frames_used l s1" and "\<forall>b \<in> set A \<union> set B. area_ok s1 ?pt b"
    unfolding o(2) u1 by blast+
  moreover have "distinct (map (take_bit 27) (concat (map area_pages (areas ms'))))"
    using kd unfolding ar by (simp add: ms'_def A_def B_def Int_Un_distrib)
  moreover have "pt_ok l s1 ?pt" using d by (simp add: space_del_def)
  moreover have "set (areas ms') = set A \<union> set B" "page_table ms' = ?pt" by (simp_all add: ms'_def A_def B_def)
  ultimately have "ms_ok l s1 ms'" unfolding ms_ok_def by simp
  then show ?thesis using run d by blast
qed

text \<open>Frames in use keep their bytes while an area is inserted and removed.\<close>

lemma insert_remove_bytes:
  assumes ok: "ms_ok l s ms" and u: "space_upd l s (page_table ms) s1 pt' ts ds m" and d: "space_del l s1 pt' s2 (set ds) ks"
    and x: "x \<in> frames_used l s - set (pt_frames (page_table ms))"
  shows "get_bytes_array s1 x = get_bytes_array s x \<and> get_bytes_array s2 x = get_bytes_array s x"
proof -
  have mm: "mm_ok l s" using ok by (simp add: ms_ok_def pt_ok_def)
  have "x < 2 ^ 52" using x frames_bounds(2) [OF mm, of x] ppn_small by blast
  moreover have "x \<notin> set (pt_frames pt')" "x \<notin> set ds" using x u frames_free_disjoint [OF mm] by (auto simp: space_upd_def)
  ultimately show ?thesis using u d by (auto simp: space_upd_def space_del_def)
qed

text \<open>
  C17 (roundtrip).  Inserting a framed area into a well-formed address space maps each of its pages to a
  zeroed free frame of its own with the area's permissions and maps no other page differently.  Removing
  the area again restores the address space and gives back all its data frames; only the page tables
  that were needed on the way stay.  Neither step changes a byte of any frame that was in use before,
  other than the page tables of this address space.
\<close>

theorem area_insert_remove:
  assumes ok: "ms_ok l s ms" and a: "area_new start_va end_va Framed perm = Some a" and room: "ms_room s ms a"
    and new: "\<forall>b \<in> set (areas ms). range_l (vpn_range b) \<noteq> range_l (vpn_range a)"
  shows "\<exists>ms1 s1 ms2 s2 ts ds. insert_framed_area ms s start_va end_va perm = Some (ms1, s1) \<and> ms_ok l s1 ms1 \<and>
    length ds = length (area_pages a) \<and> distinct ds \<and> set ds \<subseteq> frames_free s \<and>
    ms_lookup s1 ms1 = (\<lambda>u. case leaf_map (area_pages a) ds perm (take_bit 27 u) of None \<Rightarrow> ms_lookup s ms u | Some e \<Rightarrow> Some e) \<and>
    (\<forall>f \<in> set ds. get_bytes_array s1 f = replicate 4096 0) \<and>
    remove_area_with_start_vpn ms1 s1 (range_l (vpn_range a)) = Some (ms2, s2) \<and> ms_ok l s2 ms2 \<and>
    areas ms2 = areas ms \<and> ms_lookup s2 ms2 = ms_lookup s ms \<and> frames_free s2 = frames_free s - set ts \<and>
    pt_frames (page_table ms2) = pt_frames (page_table ms) @ ts \<and>
    (\<forall>x \<in> frames_used l s - set (pt_frames (page_table ms)).
       get_bytes_array s1 x = get_bytes_array s x \<and> get_bytes_array s2 x = get_bytes_array s x)"
proof -
  obtain pt' s1 ts ds where ins: "insert_framed_area ms s start_va end_va perm =
      Some (\<lparr>page_table = pt', areas = areas ms @ [a\<lparr>data_frames := zip (area_pages a) ds\<rparr>]\<rparr>, s1)"
    and ok1: "ms_ok l s1 \<lparr>page_table = pt', areas = areas ms @ [a\<lparr>data_frames := zip (area_pages a) ds\<rparr>]\<rparr>"
    and len: "length ds = length (area_pages a)"
    and u: "space_upd l s (page_table ms) s1 pt' ts ds (leaf_map (area_pages a) ds perm)"
    using insert_framed_ok [OF ok a room] by blast
  let ?a = "a\<lparr>data_frames := zip (area_pages a) ds\<rparr>" and ?ms1 = "\<lparr>page_table = pt', areas = areas ms @ [a\<lparr>data_frames := zip (area_pages a) ds\<rparr>]\<rparr>"
  have i: "find_idx (\<lambda>b. range_l (vpn_range b) = range_l (vpn_range a)) (areas ?ms1) = Some (length (areas ms))"
    using new by (auto simp: find_idx_Some nth_append)
  have ty: "map_type (areas ?ms1 ! length (areas ms)) = Framed" using a by (auto simp: area_new_def split: bind_splits)
  obtain s2 where rem: "remove_area_with_start_vpn ?ms1 s1 (range_l (vpn_range a)) = Some (?ms1\<lparr>areas := areas ms\<rparr>, s2)"
    and ok2: "ms_ok l s2 (?ms1\<lparr>areas := areas ms\<rparr>)" and d: "space_del l s1 pt' s2 (set ds) (take_bit 27 ` set (area_pages a))"
    using remove_area_ok [OF ok1 i ty] len by (auto simp: nth_append)
  have lk1: "lookup s1 pt' = (\<lambda>u. case leaf_map (area_pages a) ds perm (take_bit 27 u) of None \<Rightarrow> ms_lookup s ms u | Some e \<Rightarrow> Some e)"
    using u by (simp add: space_upd_def)
  have "lookup s2 pt' v = ms_lookup s ms v" for v
  proof (cases "take_bit 27 v \<in> take_bit 27 ` set (area_pages a)")
    case True
    then obtain w where w: "w \<in> set (area_pages a)" "take_bit 27 v = take_bit 27 w" by auto
    then have "ms_lookup s ms v = None" using room lookup_key [of v w] by (simp add: ms_room_def)
    then show ?thesis using d True by (simp add: space_del_def)
  next
    case False
    then show ?thesis using d leaf_map_notin [OF False] by (simp add: space_del_def lk1)
  qed
  then have lk2: "lookup s2 pt' = ms_lookup s ms" by (rule ext)
  have "frames_free s2 = frames_free s - set ts" "pt_frames pt' = pt_frames (page_table ms) @ ts" "\<forall>f \<in> set ds. get_bytes_array s1 f = replicate 4096 0"
    "distinct ds" "set ds \<subseteq> frames_free s" using u d by (auto simp: space_upd_def space_del_def)
  moreover have "get_bytes_array s1 x = get_bytes_array s x \<and> get_bytes_array s2 x = get_bytes_array s x"
    if "x \<in> frames_used l s - set (pt_frames (page_table ms))" for x
    using insert_remove_bytes [OF ok u d that] .
  ultimately show ?thesis using ins ok1 len lk1 rem ok2 lk2
    by (intro exI [of _ ?ms1] exI [of _ s1] exI [of _ "?ms1\<lparr>areas := areas ms\<rparr>"] exI [of _ s2] exI [of _ ts] exI [of _ ds]) simp
qed

subsection \<open>Copying an address space\<close>

lemma pte_ppn_new_simp [simp]: "unat f < 2 ^ 44 \<Longrightarrow> pte_ppn (pte_new f fl) = f"
  by (rule pte_ppn_new)

lemma set_bytes_props:
  assumes "mm_ok l s" and "length bs = 4096"
  shows "mm_ok l (set_bytes_array s p bs)" and "frames_free (set_bytes_array s p bs) = frames_free s"
    and "frames_used l (set_bytes_array s p bs) = frames_used l s" and "get_bytes_array (set_bytes_array s p bs) p = bs"
    and "p < 2 ^ 52 \<Longrightarrow> x < 2 ^ 52 \<Longrightarrow> x \<noteq> p \<Longrightarrow> get_bytes_array (set_bytes_array s p bs) x = get_bytes_array s x"
  using assms pa_of_ppn_inj [of x p]
  by (auto simp: mm_ok_def set_bytes_array_def get_bytes_array_def frames_free_def frames_used_def)

lemma length_bytes: "mm_ok l s \<Longrightarrow> length (get_bytes_array s p) = 4096"
  by (simp add: mm_ok_def get_bytes_array_def)

lemma copy_pages_ok:
  assumes P: "pt_ok l s (page_table P)" and C: "pt_ok l s (page_table C)"
    and lp: "\<And>v. v \<in> set vs \<Longrightarrow> ms_lookup s P v = Some (pte_new (F v) fl) \<and> unat (F v) < 2 ^ 44"
    and lc: "\<And>v. v \<in> set vs \<Longrightarrow> ms_lookup s C v = Some (pte_new (G v) fl') \<and> unat (G v) < 2 ^ 44"
    and dist: "distinct (map G vs)"
    and sep: "\<And>v. v \<in> set vs \<Longrightarrow> G v \<notin> set (pt_frames (page_table P)) \<union> set (pt_frames (page_table C)) \<union> F ` set vs"
  shows "\<exists>s'. copy_pages P C s vs = Some s' \<and> mm_ok l s' \<and> frames_free s' = frames_free s \<and> frames_used l s' = frames_used l s \<and>
    (\<forall>v \<in> set vs. get_bytes_array s' (G v) = get_bytes_array s (F v)) \<and>
    (\<forall>x < 2 ^ 52. x \<notin> G ` set vs \<longrightarrow> get_bytes_array s' x = get_bytes_array s x)"
  using assms
proof (induction vs arbitrary: s)
  case Nil
  then show ?case by (simp add: pt_ok_def)
next
  case (Cons v vs)
  have mm: "mm_ok l s" using Cons.prems(1) by (simp add: pt_ok_def)
  have v: "ms_lookup s P v = Some (pte_new (F v) fl)" "unat (F v) < 2 ^ 44" "ms_lookup s C v = Some (pte_new (G v) fl')" "unat (G v) < 2 ^ 44"
    using Cons.prems(3,4) by auto
  note g52 = ppn_small [OF v(4)]
  let ?s = "set_bytes_array s (G v) (get_bytes_array s (F v))"
  note sb = set_bytes_props [OF mm length_bytes [OF mm, of "F v"], where p = "G v"]
  have gP: "G v \<notin> set (pt_frames (page_table P))" "G v \<notin> set (pt_frames (page_table C))" "G v \<notin> F ` set (v # vs)" using Cons.prems(6) [of v] by auto
  have sameP: "get_bytes_array ?s x = get_bytes_array s x" if "x \<in> set (pt_frames (page_table P))" for x
    using that gP(1) pt_frames_used(3) [OF Cons.prems(1) that] by (intro sb(5) g52) auto
  have sameC: "get_bytes_array ?s x = get_bytes_array s x" if "x \<in> set (pt_frames (page_table C))" for x
    using that gP(2) pt_frames_used(3) [OF Cons.prems(2) that] by (intro sb(5) g52) auto
  have uP: "set (pt_frames (page_table P)) \<subseteq> frames_used l ?s" and uC: "set (pt_frames (page_table C)) \<subseteq> frames_used l ?s"
    using Cons.prems(1,2) sb(3) by (auto simp: pt_ok_def)
  have P1: "pt_ok l ?s (page_table P)" "ms_lookup ?s P = ms_lookup s P" using pt_ok_cong [OF Cons.prems(1) sb(1) uP sameP] by auto
  have C1: "pt_ok l ?s (page_table C)" "ms_lookup ?s C = ms_lookup s C" using pt_ok_cong [OF Cons.prems(2) sb(1) uC sameC] by auto
  have "\<exists>s'. copy_pages P C ?s vs = Some s' \<and> mm_ok l s' \<and> frames_free s' = frames_free ?s \<and> frames_used l s' = frames_used l ?s \<and>
    (\<forall>w \<in> set vs. get_bytes_array s' (G w) = get_bytes_array ?s (F w)) \<and>
    (\<forall>x < 2 ^ 52. x \<notin> G ` set vs \<longrightarrow> get_bytes_array s' x = get_bytes_array ?s x)"
  proof (rule Cons.IH [OF P1(1) C1(1)])
    fix w assume w: "w \<in> set vs"
    then show "ms_lookup ?s P w = Some (pte_new (F w) fl) \<and> unat (F w) < 2 ^ 44" using Cons.prems(3) P1(2) by simp
    show "ms_lookup ?s C w = Some (pte_new (G w) fl') \<and> unat (G w) < 2 ^ 44" using w Cons.prems(4) C1(2) by simp
    show "G w \<notin> set (pt_frames (page_table P)) \<union> set (pt_frames (page_table C)) \<union> F ` set vs" using w Cons.prems(6) [of w] by auto
  qed (use Cons.prems(5) in simp)
  then obtain s' where s': "copy_pages P C ?s vs = Some s'" "mm_ok l s'" "frames_free s' = frames_free ?s" "frames_used l s' = frames_used l ?s"
    "\<forall>w \<in> set vs. get_bytes_array s' (G w) = get_bytes_array ?s (F w)"
    "\<forall>x < 2 ^ 52. x \<notin> G ` set vs \<longrightarrow> get_bytes_array s' x = get_bytes_array ?s x" by blast
  have run: "copy_pages P C s (v # vs) = Some s'"
    using s'(1) lookup_translate [OF v(1)] lookup_translate [OF v(3)] v(2,4) by simp
  have "G v \<notin> G ` set vs" using Cons.prems(5) by auto
  then have "get_bytes_array s' (G v) = get_bytes_array s (F v)" using s'(6) g52 sb(4) by simp
  moreover have "get_bytes_array s' (G w) = get_bytes_array s (F w)" if "w \<in> set vs" for w
  proof -
    have "F w \<noteq> G v" using gP(3) that by (metis imageI list.set_intros(2))
    moreover have "F w < 2 ^ 52" using Cons.prems(3) [of w] that by (intro ppn_small) simp
    ultimately show ?thesis using s'(5) that sb(5) [OF g52] by simp
  qed
  moreover have "get_bytes_array s' x = get_bytes_array s x" if "x < 2 ^ 52" "x \<notin> G ` set (v # vs)" for x
    using that s'(6) sb(5) [OF g52] by simp
  ultimately show ?case using run s'(2-4) sb(2,3) by auto
qed

lemma push_none: "ms_push ms s a None = (case area_map a (page_table ms) s of None \<Rightarrow> None
    | Some (a, pt, s) \<Rightarrow> Some (\<lparr>page_table = pt, areas = areas ms @ [a]\<rparr>, s))"
  by (simp add: ms_push_def split: option.splits)

lemma own_bound: "ms_ok l s ms \<Longrightarrow> x \<in> set (own ms) \<Longrightarrow> x < 2 ^ 52 \<and> unat x < 2 ^ 44 \<and> x \<in> frames_used l s"
proof -
  assume ok: "ms_ok l s ms" and x: "x \<in> set (own ms)"
  have mm: "mm_ok l s" using ok by (simp add: ms_ok_def pt_ok_def)
  have u: "x \<in> frames_used l s" using ok x by (auto simp: ms_ok_def)
  then show ?thesis using frames_bounds(2) [OF mm u] ppn_small by blast
qed

lemma area_frames_own: "a \<in> set (areas ms) \<Longrightarrow> set (area_frames a) \<subseteq> set (own ms)"
  by (auto simp: own_def)

text \<open>
  One area of a fork: push an empty copy of the area, then copy its pages.  \<open>fork_pushed\<close> says what has
  become of the child after the push and still holds after the copy: the new area with its frames \<open>ds\<close>
  and the new tables \<open>ts\<close>; nothing but the child's own tables was written.
\<close>

definition fork_pushed :: "nat \<Rightarrow> mm \<Rightarrow> MemorySet \<Rightarrow> MapArea \<Rightarrow> MemorySet \<Rightarrow> mm \<Rightarrow> PhysPageNum list \<Rightarrow> PhysPageNum list \<Rightarrow> bool" where
  "fork_pushed l s C a C' s' ts ds \<longleftrightarrow>
    areas C' = areas C @ [a\<lparr>data_frames := zip (area_pages a) ds\<rparr>] \<and> length ds = length (area_pages a) \<and> length ts \<le> 2 * length (area_pages a) \<and>
    ms_ok l s' C' \<and> set (own C') = set (own C) \<union> set (ts @ ds) \<and> set ds \<inter> set (pt_frames (page_table C')) = {} \<and>
    set (ts @ ds) \<subseteq> frames_free s \<and> distinct (ts @ ds) \<and> frames_free s' = frames_free s - set (ts @ ds) \<and> frames_used l s' = frames_used l s \<union> set (ts @ ds) \<and>
    ms_lookup s' C' = (\<lambda>u. case leaf_map (area_pages a) ds (map_perm a) (take_bit 27 u) of None \<Rightarrow> ms_lookup s C u | Some e \<Rightarrow> Some e) \<and>
    (\<forall>x \<in> frames_used l s - set (pt_frames (page_table C)). get_bytes_array s' x = get_bytes_array s x)"

lemma fork_push:
  assumes C: "ms_ok l s C" and a: "map_type a = Framed" "range_l (vpn_range a) \<le> range_r (vpn_range a)" and room: "ms_room s C a"
  shows "\<exists>C' s1 ts ds. ms_push C s (a\<lparr>data_frames := []\<rparr>) None = Some (C', s1) \<and> fork_pushed l s C a C' s1 ts ds"
proof -
  let ?vs = "area_pages a" and ?a = "a\<lparr>data_frames := []\<rparr>"
  have mm: "mm_ok l s" and ptC: "pt_ok l s (page_table C)" using C by (auto simp: ms_ok_def pt_ok_def)
  have "ms_room s C ?a" using room by (simp add: ms_room_def)
  then obtain pt' s1 ts ds where m: "area_map ?a (page_table C) s = Some (?a\<lparr>data_frames := zip ?vs ds\<rparr>, pt', s1)" "length ds = length ?vs"
    "length ts \<le> 2 * length ?vs" and u: "space_upd l s (page_table C) s1 pt' ts ds (leaf_map ?vs ds (map_perm a))"
    using area_map_framed [OF ptC, of ?a] a by auto
  define C' where "C' = \<lparr>page_table = pt', areas = areas C @ [a\<lparr>data_frames := zip ?vs ds\<rparr>]\<rparr>"
  have keys: "distinct (map (take_bit 27) ?vs)" and free: "\<forall>v \<in> set ?vs. ms_lookup s C v = None" using room by (auto simp: ms_room_def)
  have C1: "ms_ok l s1 C'" using ms_ok_push_framed [OF C a keys free u m(2)] by (simp add: C'_def)
  have new: "set (ts @ ds) \<subseteq> frames_free s" "distinct (ts @ ds)" "frames_free s1 = frames_free s - set (ts @ ds)"
    "frames_used l s1 = frames_used l s \<union> set (ts @ ds)" "pt_frames pt' = pt_frames (page_table C) @ ts"
    and lk: "lookup s1 pt' = (\<lambda>u. case leaf_map ?vs ds (map_perm a) (take_bit 27 u) of None \<Rightarrow> ms_lookup s C u | Some e \<Rightarrow> Some e)"
    and bytes: "\<forall>x < 2 ^ 52. x \<notin> set (pt_frames pt') \<union> set ds \<longrightarrow> get_bytes_array s1 x = get_bytes_array s x"
    using u by (auto simp: space_upd_def)
  have "get_bytes_array s1 x = get_bytes_array s x" if "x \<in> frames_used l s - set (pt_frames (page_table C))" for x
  proof -
    have "x \<notin> set (pt_frames pt') \<union> set ds" using that new(1,5) frames_free_disjoint [OF mm] by auto
    moreover have "x < 2 ^ 52" using frames_bounds(2) [OF mm] that ppn_small by blast
    ultimately show ?thesis using bytes by blast
  qed
  moreover have "set (own C') = set (own C) \<union> set (ts @ ds)" using new(5) m(2) by (auto simp: own_def C'_def)
  moreover have "set ds \<inter> set (pt_frames pt') = {}" using space_upd_bytes_ds(1) [OF ptC u] by blast
  ultimately show ?thesis using m C1 new(1-4) lk
    by (intro exI [of _ C'] exI [of _ s1] exI [of _ ts] exI [of _ ds]) (simp add: fork_pushed_def push_none C'_def)
qed

lemma fork_pushedD:
  assumes "fork_pushed l s C a C' s' ts ds"
  shows "areas C' = areas C @ [a\<lparr>data_frames := zip (area_pages a) ds\<rparr>]" and "length ds = length (area_pages a)" and "length ts \<le> 2 * length (area_pages a)"
    and "ms_ok l s' C'" and "set (own C') = set (own C) \<union> set (ts @ ds)" and "set ds \<inter> set (pt_frames (page_table C')) = {}"
    and "set (ts @ ds) \<subseteq> frames_free s" and "distinct (ts @ ds)" and "frames_free s' = frames_free s - set (ts @ ds)"
    and "frames_used l s' = frames_used l s \<union> set (ts @ ds)"
    and "ms_lookup s' C' = (\<lambda>u. case leaf_map (area_pages a) ds (map_perm a) (take_bit 27 u) of None \<Rightarrow> ms_lookup s C u | Some e \<Rightarrow> Some e)"
    and "x \<in> frames_used l s - set (pt_frames (page_table C)) \<Longrightarrow> get_bytes_array s' x = get_bytes_array s x"
  using assms by (simp_all add: fork_pushed_def)

text \<open>The parent is not affected by the push.\<close>

lemma fork_pushed_parent:
  assumes pu: "fork_pushed l s C a C' s1 ts ds" and P: "ms_ok l s P" and sep: "set (own P) \<inter> set (own C) = {}"
  shows "ms_ok l s1 P" and "ms_lookup s1 P = ms_lookup s P" and "set (own P) \<inter> set (own C') = {}"
    and "x \<in> set (own P) \<Longrightarrow> get_bytes_array s1 x = get_bytes_array s x"
proof -
  note pd = fork_pushedD [OF pu]
  have mm: "mm_ok l s" and uP: "set (own P) \<subseteq> frames_used l s" using P by (auto simp: ms_ok_def pt_ok_def)
  have mm1: "mm_ok l s1" using pd(4) by (simp add: ms_ok_def pt_ok_def)
  have "set (pt_frames (page_table C)) \<subseteq> set (own C)" by (auto simp: own_def)
  then have same: "get_bytes_array s1 x = get_bytes_array s x" if "x \<in> set (own P)" for x
    using that sep uP by (intro pd(12)) blast
  then show "x \<in> set (own P) \<Longrightarrow> get_bytes_array s1 x = get_bytes_array s x" .
  have u1: "set (own P) \<subseteq> frames_used l s1" using uP pd(10) by blast
  have "set (pt_frames (page_table P)) \<subseteq> set (own P)" by (auto simp: own_def)
  then have pt: "get_bytes_array s1 x = get_bytes_array s x" if "x \<in> set (pt_frames (page_table P))" for x using same that by blast
  show "ms_ok l s1 P" "ms_lookup s1 P = ms_lookup s P" by (rule ms_ok_cong [OF P mm1 u1 pt], assumption)+
  have "set (ts @ ds) \<inter> frames_used l s = {}" using pd(7) frames_free_disjoint [OF mm] by blast
  then show "set (own P) \<inter> set (own C') = {}" using pd(5) sep uP by blast
qed

lemma framed_area:
  assumes "ms_ok l s P" and "a \<in> set (areas P)" and "map_type a = Framed"
  shows "range_l (vpn_range a) \<le> range_r (vpn_range a)" and "map fst (data_frames a) = area_pages a" and "length (data_frames a) = length (area_pages a)"
    and "(v, f) \<in> set (data_frames a) \<Longrightarrow> ms_lookup s P v = Some (pte_new f (map_perm a OR PTE_V))"
proof -
  have "area_ok s (page_table P) a" using assms(1,2) by (simp add: ms_ok_def)
  then show "range_l (vpn_range a) \<le> range_r (vpn_range a)" and df: "map fst (data_frames a) = area_pages a"
    and "(v, f) \<in> set (data_frames a) \<Longrightarrow> ms_lookup s P v = Some (pte_new f (map_perm a OR PTE_V))"
    using assms(3) by (auto simp: area_ok_def)
  from df show "length (data_frames a) = length (area_pages a)" by (metis length_map)
qed

text \<open>The frame of the \<open>i\<close>-th page of a framed area.\<close>

lemma area_frame_nth:
  assumes P: "ms_ok l s P" and a: "a \<in> set (areas P)" "map_type a = Framed" and i: "i < length (area_pages a)"
  shows "ms_lookup s P (area_pages a ! i) = Some (pte_new (area_frames a ! i) (map_perm a OR PTE_V))"
    and "area_frames a ! i \<in> set (own P)" and "unat (area_frames a ! i) < 2 ^ 44"
proof -
  have il: "i < length (data_frames a)" using i framed_area(3) [OF P a] by simp
  have e: "area_pages a ! i = fst (data_frames a ! i)" unfolding framed_area(2) [OF P a, symmetric] using il by (rule nth_map)
  show "ms_lookup s P (area_pages a ! i) = Some (pte_new (area_frames a ! i) (map_perm a OR PTE_V))"
    unfolding e nth_map [OF il] using nth_mem [OF il] by (intro framed_area(4) [OF P a]) simp
  have "area_frames a ! i \<in> set (area_frames a)" using il by (intro nth_mem) simp
  then show own: "area_frames a ! i \<in> set (own P)" using area_frames_own [OF a(1)] by blast
  show "unat (area_frames a ! i) < 2 ^ 44" using own_bound [OF P own] by simp
qed

text \<open>Copying the pages of the area into the frames of the pushed one.\<close>

lemma fork_copy:
  assumes pu: "fork_pushed l s C a C' s1 ts ds" and mm: "mm_ok l s" and P: "ms_ok l s1 P" and sep: "set (own P) \<inter> set (own C') = {}"
    and a: "a \<in> set (areas P)" "map_type a = Framed" and keys: "distinct (map (take_bit 27) (area_pages a))"
  shows "\<exists>s'. copy_pages P C' s1 (area_pages a) = Some s' \<and> mm_ok l s' \<and> frames_free s' = frames_free s1 \<and> frames_used l s' = frames_used l s1 \<and>
    (\<forall>i < length ds. get_bytes_array s' (ds ! i) = get_bytes_array s1 (area_frames a ! i)) \<and>
    (\<forall>x < 2 ^ 52. x \<notin> set ds \<longrightarrow> get_bytes_array s' x = get_bytes_array s1 x)"
proof -
  let ?vs = "area_pages a"
  note pd = fork_pushedD [OF pu]
  note len = pd(2) and vd = keys_distinct [OF keys]
  have lf: "length (area_frames a) = length ?vs" using framed_area(3) [OF P a] by simp
  define F where "F = (\<lambda>v. the (map_of (zip ?vs (area_frames a)) v))"
  define G where "G = (\<lambda>v. the (map_of (zip ?vs ds) v))"
  have Fi: "F (?vs ! i) = area_frames a ! i" if "i < length ?vs" for i using map_of_zip_nth [OF lf [symmetric] vd] that lf by (simp add: F_def)
  have Gi: "G (?vs ! i) = ds ! i" if "i < length ?vs" for i using map_of_zip_nth [OF len [symmetric] vd] that len by (simp add: G_def)
  have mapG: "map G ?vs = ds" using Gi len by (intro nth_equalityI) auto
  have G44: "unat x < 2 ^ 44" if "x \<in> set ds" for x using frames_bounds(1) [OF mm, of x] pd(7) that by auto
  have "\<exists>s'. copy_pages P C' s1 ?vs = Some s' \<and> mm_ok l s' \<and> frames_free s' = frames_free s1 \<and> frames_used l s' = frames_used l s1 \<and>
    (\<forall>v \<in> set ?vs. get_bytes_array s' (G v) = get_bytes_array s1 (F v)) \<and>
    (\<forall>x < 2 ^ 52. x \<notin> G ` set ?vs \<longrightarrow> get_bytes_array s' x = get_bytes_array s1 x)"
  proof (rule copy_pages_ok)
    show "pt_ok l s1 (page_table P)" "pt_ok l s1 (page_table C')" "distinct (map G ?vs)" using P pd(4,8) mapG by (auto simp: ms_ok_def)
    fix v assume v: "v \<in> set ?vs"
    then obtain i where i: "i < length ?vs" "v = ?vs ! i" by (metis in_set_conv_nth)
    have d: "ds ! i \<in> set ds" using i len by simp
    show "ms_lookup s1 P v = Some (pte_new (F v) (map_perm a OR PTE_V)) \<and> unat (F v) < 2 ^ 44"
      using area_frame_nth [OF P a i(1)] Fi [OF i(1)] i(2) by simp
    have "ms_lookup s1 C' v = Some (pte_new (ds ! i) (map_perm a OR PTE_V))"
      using pd(11) leaf_map_nth [OF keys len i(1)] i(2) by simp
    then show "ms_lookup s1 C' v = Some (pte_new (G v) (map_perm a OR PTE_V)) \<and> unat (G v) < 2 ^ 44"
      using Gi [OF i(1)] G44 [OF d] i(2) by simp
    have "F ` set ?vs \<subseteq> set (own P)" using Fi area_frame_nth(2) [OF P a] by (metis (no_types, lifting) image_subsetI in_set_conv_nth)
    moreover have "ds ! i \<notin> set (own P)" "ds ! i \<notin> set (pt_frames (page_table C'))" using d pd(5,6) sep by auto
    moreover have "set (pt_frames (page_table P)) \<subseteq> set (own P)" by (auto simp: own_def)
    ultimately show "G v \<notin> set (pt_frames (page_table P)) \<union> set (pt_frames (page_table C')) \<union> F ` set ?vs"
      using Gi [OF i(1)] i(2) by auto
  qed
  moreover have "G ` set ?vs = set ds" unfolding mapG [symmetric] by simp
  ultimately show ?thesis using Fi Gi len nth_mem by metis
qed

lemma fork_area:
  assumes P: "ms_ok l s P" and C: "ms_ok l s C" and sep: "set (own P) \<inter> set (own C) = {}" and a: "a \<in> set (areas P)" "map_type a = Framed"
    and room: "ms_room s C a"
  shows "\<exists>C' s' ts ds. area_from_another a = Some (a\<lparr>data_frames := []\<rparr>) \<and>
    (do { (ms, s) \<leftarrow> ms_push C s (a\<lparr>data_frames := []\<rparr>) None; s \<leftarrow> copy_pages P ms s (area_pages a); Some (ms, s) }) = Some (C', s') \<and>
    fork_pushed l s C a C' s' ts ds \<and> ms_ok l s' P \<and> set (own P) \<inter> set (own C') = {} \<and>
    (\<forall>i < length ds. get_bytes_array s' (ds ! i) = get_bytes_array s (area_frames a ! i))"
proof -
  have mm: "mm_ok l s" using P by (simp add: ms_ok_def pt_ok_def)
  note rg = framed_area(1) [OF P a]
  have fa: "area_from_another a = Some (a\<lparr>data_frames := []\<rparr>)" using rg a(2) by (cases a) (simp add: area_from_another_def range_new_def)
  obtain C' s1 ts ds where push: "ms_push C s (a\<lparr>data_frames := []\<rparr>) None = Some (C', s1)" and pu: "fork_pushed l s C a C' s1 ts ds"
    using fork_push [OF C a(2) rg room] by blast
  note P1 = fork_pushed_parent [OF pu P sep] and pd = fork_pushedD [OF pu]
  have keys: "distinct (map (take_bit 27) (area_pages a))" using room by (simp add: ms_room_def)
  obtain s' where cp: "copy_pages P C' s1 (area_pages a) = Some s'" "mm_ok l s'" "frames_free s' = frames_free s1" "frames_used l s' = frames_used l s1"
    "\<forall>i < length ds. get_bytes_array s' (ds ! i) = get_bytes_array s1 (area_frames a ! i)"
    "\<forall>x < 2 ^ 52. x \<notin> set ds \<longrightarrow> get_bytes_array s' x = get_bytes_array s1 x"
    using fork_copy [OF pu mm P1(1,3) a keys] by blast
  have mm1: "mm_ok l s1" and oC: "set (own C') \<subseteq> frames_used l s'" and oP: "set (own P) \<subseteq> frames_used l s'"
    using pd(4) P1(1) cp(4) by (auto simp: ms_ok_def pt_ok_def)
  have keep: "get_bytes_array s' x = get_bytes_array s1 x" if "x \<in> frames_used l s'" "x \<notin> set ds" for x
    using cp(6) that frames_bounds(2) [OF mm1, of x] ppn_small unfolding cp(4) by blast
  have ptC: "get_bytes_array s' x = get_bytes_array s1 x" if "x \<in> set (pt_frames (page_table C'))" for x
    using that oC pd(6) by (intro keep) (auto simp: own_def)
  have ptP: "get_bytes_array s' x = get_bytes_array s1 x" if "x \<in> set (pt_frames (page_table P))" for x
  proof (rule keep)
    have x: "x \<in> set (own P)" using that by (simp add: own_def)
    then show "x \<in> frames_used l s'" "x \<notin> set ds" using oP P1(3) pd(5) by auto
  qed
  note C2 = ms_ok_cong [OF pd(4) cp(2) oC ptC] and P2 = ms_ok_cong(1) [OF P1(1) cp(2) oP ptP]
  have "get_bytes_array s' x = get_bytes_array s x" if "x \<in> frames_used l s - set (pt_frames (page_table C))" for x
  proof -
    have "x \<notin> set ds" "x \<in> frames_used l s'" using that pd(7,10) cp(4) frames_free_disjoint [OF mm] by auto
    then show ?thesis using keep pd(12) [OF that] by simp
  qed
  then have "fork_pushed l s C a C' s' ts ds" using pd(1-11) C2 cp(3,4) by (simp add: fork_pushed_def)
  moreover have "get_bytes_array s' (ds ! i) = get_bytes_array s (area_frames a ! i)" if "i < length ds" for i
    using cp(5) that P1(4) [OF area_frame_nth(2) [OF P a]] pd(2) by simp
  ultimately show ?thesis using fa push cp(1) P2 P1(3) by (intro exI [of _ C'] exI [of _ s'] exI [of _ ts] exI [of _ ds]) simp
qed

text \<open>An area and its copy: same pages and permissions, and the same bytes in every page.\<close>

definition copied :: "mm \<Rightarrow> MapArea \<Rightarrow> MapArea \<Rightarrow> bool" where
  "copied s a c \<longleftrightarrow> vpn_range c = vpn_range a \<and> map_perm c = map_perm a \<and> map_type c = map_type a \<and>
     map fst (data_frames c) = map fst (data_frames a) \<and>
     (\<forall>i < length (data_frames a). get_bytes_array s (area_frames c ! i) = get_bytes_array s (area_frames a ! i))"

lemma copied_cong:
  assumes "copied s a c" and "\<And>x. x \<in> set (area_frames a) \<union> set (area_frames c) \<Longrightarrow> get_bytes_array s' x = get_bytes_array s x"
  shows "copied s' a c"
proof -
  have len: "length (data_frames c) = length (data_frames a)" using assms(1) by (metis copied_def length_map)
  have "get_bytes_array s' (area_frames c ! i) = get_bytes_array s' (area_frames a ! i)" if "i < length (data_frames a)" for i
  proof -
    have "area_frames c ! i \<in> set (area_frames c)" "area_frames a ! i \<in> set (area_frames a)" using that len by (metis length_map nth_mem)+
    then show ?thesis using assms that by (simp add: copied_def del: nth_map)
  qed
  then show ?thesis using assms(1) by (simp add: copied_def)
qed

lemma copy_areas_Cons:
  assumes "area_from_another a = Some a0"
    and "(do { (ms, s) \<leftarrow> ms_push C s a0 None; s \<leftarrow> copy_pages P ms s (area_pages a); Some (ms, s) }) = Some (C', s')"
  shows "copy_areas P C s (a # as) = copy_areas P C' s' as"
  using assms by (auto split: bind_splits)

lemma fork_areas:
  "ms_ok l s P \<Longrightarrow> ms_ok l s C \<Longrightarrow> set (own P) \<inter> set (own C) = {} \<Longrightarrow> set as \<subseteq> set (areas P) \<Longrightarrow> \<forall>a \<in> set as. map_type a = Framed \<Longrightarrow>
    distinct (map (take_bit 27) (concat (map area_pages as))) \<Longrightarrow> \<forall>v \<in> set (concat (map area_pages as)). ms_lookup s C v = None \<Longrightarrow>
    3 * length (concat (map area_pages as)) \<le> card (frames_free s) \<Longrightarrow>
    \<exists>C' s' cs. copy_areas P C s as = Some (C', s') \<and> areas C' = areas C @ cs \<and> list_all2 (copied s') as cs \<and>
      ms_ok l s' C' \<and> ms_ok l s' P \<and> set (own P) \<inter> set (own C') = {} \<and> frames_used l s \<subseteq> frames_used l s' \<and>
      (\<forall>x \<in> frames_used l s - set (pt_frames (page_table C)). get_bytes_array s' x = get_bytes_array s x) \<and>
      (\<forall>u. take_bit 27 u \<notin> take_bit 27 ` set (concat (map area_pages as)) \<longrightarrow> ms_lookup s' C' u = ms_lookup s C u)"
proof (induction as arbitrary: C s)
  case Nil
  then show ?case by simp
next
  case (Cons a as)
  have a: "a \<in> set (areas P)" "map_type a = Framed" using Cons.prems(4,5) by auto
  have kd: "distinct (map (take_bit 27) (area_pages a))" "distinct (map (take_bit 27) (concat (map area_pages as)))"
    and kx: "take_bit 27 ` set (area_pages a) \<inter> take_bit 27 ` set (concat (map area_pages as)) = {}"
    using Cons.prems(6) by simp_all
  have room: "ms_room s C a" using kd(1) Cons.prems(7,8) by (simp add: ms_room_def)
  obtain C1 s1 ts ds where st: "area_from_another a = Some (a\<lparr>data_frames := []\<rparr>)"
    "(do { (ms, s) \<leftarrow> ms_push C s (a\<lparr>data_frames := []\<rparr>) None; s \<leftarrow> copy_pages P ms s (area_pages a); Some (ms, s) }) = Some (C1, s1)"
    and pu: "fork_pushed l s C a C1 s1 ts ds" and okP: "ms_ok l s1 P" and sep: "set (own P) \<inter> set (own C1) = {}"
    and cp: "\<forall>i < length ds. get_bytes_array s1 (ds ! i) = get_bytes_array s (area_frames a ! i)"
    using fork_area [OF Cons.prems(1-3) a room] by blast
  note pd = fork_pushedD [OF pu]
  note ar = pd(1) and len = pd(2) and ok = pd(4) okP and oC = pd(5) and fr = pd(9,3,7,8) and us = pd(10) and lk = pd(11)
  have by1: "\<forall>x \<in> frames_used l s - set (pt_frames (page_table C)). get_bytes_array s1 x = get_bytes_array s x" using pd(12) by blast
  let ?c = "a\<lparr>data_frames := zip (area_pages a) ds\<rparr>"
  have "card (frames_free s1) = card (frames_free s) - card (set (ts @ ds))" unfolding fr(1) using fr(3) by (intro card_Diff_subset) auto
  moreover have "card (set (ts @ ds)) = length ts + length ds" using distinct_card [OF fr(4)] by simp
  ultimately have r1: "3 * length (concat (map area_pages as)) \<le> card (frames_free s1)" using fr(2) len Cons.prems(8) by simp
  have keep: "ms_lookup s1 C1 u = ms_lookup s C u" if "take_bit 27 u \<notin> take_bit 27 ` set (area_pages a)" for u
    unfolding lk leaf_map_notin [OF that] by simp
  have l1: "\<forall>v \<in> set (concat (map area_pages as)). ms_lookup s1 C1 v = None"
  proof
    fix v assume v: "v \<in> set (concat (map area_pages as))"
    then have "take_bit 27 v \<notin> take_bit 27 ` set (area_pages a)" using kx by blast
    moreover have "ms_lookup s C v = None" using Cons.prems(7) v by simp
    ultimately show "ms_lookup s1 C1 v = None" using keep by simp
  qed
  have "set as \<subseteq> set (areas P)" "\<forall>a \<in> set as. map_type a = Framed" using Cons.prems(4,5) by auto
  from Cons.IH [OF ok(2,1) sep this kd(2) l1 r1] obtain C' s' cs where
    run: "copy_areas P C1 s1 as = Some (C', s')" and ar': "areas C' = areas C1 @ cs" and all: "list_all2 (copied s') as cs"
    and ok': "ms_ok l s' C'" "ms_ok l s' P" "set (own P) \<inter> set (own C') = {}" and us': "frames_used l s1 \<subseteq> frames_used l s'"
    and by2: "\<forall>x \<in> frames_used l s1 - set (pt_frames (page_table C1)). get_bytes_array s' x = get_bytes_array s1 x"
    and lk': "\<forall>u. take_bit 27 u \<notin> take_bit 27 ` set (concat (map area_pages as)) \<longrightarrow> ms_lookup s' C' u = ms_lookup s1 C1 u" by blast
  have ptC1: "set (pt_frames (page_table C1)) \<subseteq> set (own C1)" and dC1: "distinct (own C1)" and uC1: "set (own C1) \<subseteq> frames_used l s1"
    and uP1: "set (own P) \<subseteq> frames_used l s1" using ok by (auto simp: ms_ok_def own_def)
  have oe: "own C1 = pt_frames (page_table C1) @ concat (map area_frames (areas C)) @ ds" using len by (simp add: own_def ar)
  have dsC1: "set ds \<inter> set (pt_frames (page_table C1)) = {}"
    and dx: "set (concat (map area_frames (areas C))) \<inter> set (pt_frames (page_table C1)) = {}"
    using dC1 unfolding oe distinct_append set_append by blast+
  have aP: "set (area_frames a) \<subseteq> set (own P)" using area_frames_own [OF a(1)] .
  note aok = framed_area(2) [OF Cons.prems(1) a]
  have lda: "length (data_frames a) = length ds" using len framed_area(3) [OF Cons.prems(1) a] by simp
  have c1: "copied s1 a ?c"
  proof -
    have "get_bytes_array s1 (area_frames a ! i) = get_bytes_array s (area_frames a ! i)" if "i < length ds" for i
    proof -
      have "area_frames a ! i \<in> set (own P)" using that lda aP by (metis length_map nth_mem subsetD)
      moreover have "set (pt_frames (page_table C)) \<subseteq> set (own C)" by (auto simp: own_def)
      ultimately have "area_frames a ! i \<in> frames_used l s - set (pt_frames (page_table C))" using Cons.prems(1,3) by (auto simp: ms_ok_def)
      then show ?thesis using by1 by blast
    qed
    then show ?thesis using cp len aok lda by (simp add: copied_def del: nth_map)
  qed
  have "copied s' a ?c"
  proof (rule copied_cong [OF c1])
    fix x assume "x \<in> set (area_frames a) \<union> set (area_frames ?c)"
    then have "x \<in> set (own P) \<or> x \<in> set ds" using aP len by auto
    then have "x \<in> frames_used l s1 - set (pt_frames (page_table C1))"
      using uP1 sep ptC1 dsC1 us by auto
    then show "get_bytes_array s' x = get_bytes_array s1 x" using by2 by blast
  qed
  moreover have "get_bytes_array s' x = get_bytes_array s x" if x: "x \<in> frames_used l s - set (pt_frames (page_table C))" for x
  proof -
    have "x \<notin> set (pt_frames (page_table C1))"
    proof -
      have "mm_ok l s" using Cons.prems(1) by (simp add: ms_ok_def pt_ok_def)
      then have "x \<notin> set (ts @ ds)" using x fr(3) frames_free_disjoint by blast
      moreover have "set (own C) = set (pt_frames (page_table C)) \<union> set (concat (map area_frames (areas C)))" by (simp only: own_def set_append)
      ultimately show ?thesis using x oC ptC1 dx by blast
    qed
    then show ?thesis using x by1 by2 us by simp
  qed
  moreover have "ms_lookup s' C' u = ms_lookup s C u" if "take_bit 27 u \<notin> take_bit 27 ` set (concat (map area_pages (a # as)))" for u
    using that lk' keep by (simp add: image_Un)
  ultimately show ?case
    using copy_areas_Cons [OF st, of as] run ar ar' all ok' us us'
    by (intro exI [of _ C'] exI [of _ s'] exI [of _ "?c # cs"]) auto
qed

lemma trampoline_vpn: "vpn_of_va TRAMPOLINE = Some (va_floor TRAMPOLINE)"
  by (simp add: vpn_of_va_def va_page_offset_def mm_consts)

lemma new_bare_ok:
  assumes mm: "mm_ok l s" and room: "frames_free s \<noteq> {}"
  shows "\<exists>C s' f. new_bare s = Some (C, s') \<and> areas C = [] \<and> pt_frames (page_table C) = [f] \<and> ms_ok l s' C \<and> ms_lookup s' C = Map.empty \<and> f \<in> frames_free s \<and>
    frames_free s' = frames_free s - {f} \<and> frames_used l s' = insert f (frames_used l s) \<and>
    (\<forall>x < 2 ^ 52. x \<noteq> f \<longrightarrow> get_bytes_array s' x = get_bytes_array s x)"
proof -
  obtain pt s' f where n: "pt_new s = Some (pt, s')" "pt_ok l s' pt" "lookup s' pt = Map.empty" "pt_frames pt = [f]" "f \<in> frames_free s"
    "frames_free s' = frames_free s - {f}" "frames_used l s' = insert f (frames_used l s)"
    "\<forall>x < 2 ^ 52. x \<noteq> f \<longrightarrow> get_bytes_array s' x = get_bytes_array s x" using pt_new_ok [OF mm room] by blast
  then show ?thesis by (intro exI [of _ "\<lparr>page_table = pt, areas = []\<rparr>"] exI [of _ s'] exI [of _ f]) (simp add: new_bare_def ms_ok_def own_def)
qed

lemma map_trampoline_ok:
  assumes C: "ms_ok l s C" "areas C = []" and room: "2 \<le> card (frames_free s)" and al: "pa_page_offset tramp = 0"
    and free: "ms_lookup s C (va_floor TRAMPOLINE) = None"
  shows "\<exists>C' s' ts. map_trampoline tramp C s = Some (C', s') \<and> areas C' = [] \<and> ms_ok l s' C' \<and> length ts \<le> 2 \<and>
    pt_upd l s (page_table C) s' (page_table C') ts (va_floor TRAMPOLINE) (Some (pte_new (pa_floor tramp) (PTE_R OR PTE_X OR PTE_V)))"
proof -
  have pt: "pt_ok l s (page_table C)" using C(1) by (simp add: ms_ok_def)
  obtain pt' s' ts where m: "pt_map (page_table C) s (va_floor TRAMPOLINE) (pa_floor tramp) (PTE_R OR PTE_X) = Some (pt', s')" "length ts \<le> 2"
    "pt_upd l s (page_table C) s' pt' ts (va_floor TRAMPOLINE) (Some (pte_new (pa_floor tramp) ((PTE_R OR PTE_X) OR PTE_V)))"
    using pt_map_ok(1) [OF pt room free] by blast
  have "ms_ok l s' (C\<lparr>page_table := pt'\<rparr>)"
    using m(3) C(2) unfolding pt_upd_def by (simp add: ms_ok_def own_def) (auto simp: pt_ok_def)
  then show ?thesis using m C(2) al
    by (intro exI [of _ "C\<lparr>page_table := pt'\<rparr>"] exI [of _ s'] exI [of _ ts]) (simp add: map_trampoline_def trampoline_vpn ppn_of_pa_def or.assoc)
qed

text \<open>
  C5 (functional).  Forking a user address space whose areas are all framed, with enough free frames:
  the copy has the same areas with the same permissions and, page by page, the same bytes; it
  shares no frame with the original; both are well formed and no byte of the original changed.
\<close>

theorem fork_address_space:
  assumes P: "ms_ok l s P" and framed: "\<forall>a \<in> set (areas P). map_type a = Framed" and al: "pa_page_offset tramp = 0"
    and tr: "take_bit 27 (va_floor TRAMPOLINE) \<notin> take_bit 27 ` set (concat (map area_pages (areas P)))"
    and room: "3 + 3 * length (concat (map area_pages (areas P))) \<le> card (frames_free s)"
  shows "\<exists>C s'. from_existed_user tramp P s = Some (C, s') \<and> ms_ok l s' C \<and> ms_ok l s' P \<and> set (own P) \<inter> set (own C) = {} \<and>
    list_all2 (copied s') (areas P) (areas C) \<and> (\<forall>x \<in> set (own P). get_bytes_array s' x = get_bytes_array s x)"
proof -
  have mm: "mm_ok l s" and uP: "set (own P) \<subseteq> frames_used l s" and kd: "distinct (map (take_bit 27) (concat (map area_pages (areas P))))"
    using P by (auto simp: ms_ok_def pt_ok_def)
  have ptP: "set (pt_frames (page_table P)) \<subseteq> set (own P)" by (auto simp: own_def)
  have P52: "x < 2 ^ 52" if "x \<in> set (own P)" for x using own_bound [OF P that] by simp
  have "frames_free s \<noteq> {}" using room by auto
  from new_bare_ok [OF mm this] obtain C0 s0 f where b: "new_bare s = Some (C0, s0)" "areas C0 = []" "pt_frames (page_table C0) = [f]"
    "ms_ok l s0 C0" "ms_lookup s0 C0 = Map.empty" "f \<in> frames_free s" "frames_free s0 = frames_free s - {f}" "frames_used l s0 = insert f (frames_used l s)"
    "\<forall>x < 2 ^ 52. x \<noteq> f \<longrightarrow> get_bytes_array s0 x = get_bytes_array s x" by blast
  have fP: "f \<notin> frames_used l s" using b(6) frames_free_disjoint [OF mm] by blast
  have c0: "card (frames_free s0) = card (frames_free s) - 1" using b(6,7) by simp
  have "2 \<le> card (frames_free s0)" using c0 room by simp
  from map_trampoline_ok [OF b(4,2) this al] b(5) obtain C1 s1 ts where t: "map_trampoline tramp C0 s0 = Some (C1, s1)" "areas C1 = []" "ms_ok l s1 C1" "length ts \<le> 2"
    and u: "pt_upd l s0 (page_table C0) s1 (page_table C1) ts (va_floor TRAMPOLINE) (Some (pte_new (pa_floor tramp) (PTE_R OR PTE_X OR PTE_V)))" by auto
  have new: "pt_frames (page_table C1) = f # ts" "set ts \<subseteq> frames_free s0" "frames_free s1 = frames_free s0 - set ts" "distinct ts"
    "frames_used l s1 = insert f (frames_used l s) \<union> set ts"
    and by1: "\<forall>x < 2 ^ 52. x \<notin> set (pt_frames (page_table C1)) \<longrightarrow> get_bytes_array s1 x = get_bytes_array s0 x"
    and lk: "ms_lookup s1 C1 = (\<lambda>v. if take_bit 27 v = take_bit 27 (va_floor TRAMPOLINE) then Some (pte_new (pa_floor tramp) (PTE_R OR PTE_X OR PTE_V)) else None)"
    using u b(3,5,8) by (auto simp: pt_upd_def)
  have oC1: "set (own C1) = insert f (set ts)" using new(1) t(2) by (simp add: own_def)
  have fresh: "insert f (set ts) \<inter> frames_used l s = {}" using fP new(2) b(7) frames_free_disjoint [OF mm] by blast
  have sep: "set (own P) \<inter> set (own C1) = {}" using fresh uP oC1 by blast
  have same: "get_bytes_array s1 x = get_bytes_array s x" if "x \<in> set (own P)" for x
  proof -
    have "x \<noteq> f" "x \<notin> set (pt_frames (page_table C1))" using that fresh uP new(1) by auto
    then show ?thesis using P52 [OF that] by1 b(9) by simp
  qed
  have mm1: "mm_ok l s1" using t(3) by (simp add: ms_ok_def pt_ok_def)
  have "set (own P) \<subseteq> frames_used l s1" using uP new(5) by blast
  then have P1: "ms_ok l s1 P" using ms_ok_cong(1) [OF P mm1] same ptP by blast
  have free: "\<forall>v \<in> set (concat (map area_pages (areas P))). ms_lookup s1 C1 v = None"
  proof
    fix v assume "v \<in> set (concat (map area_pages (areas P)))"
    then have "take_bit 27 v \<in> take_bit 27 ` set (concat (map area_pages (areas P)))" by (rule imageI)
    then have "take_bit 27 v \<noteq> take_bit 27 (va_floor TRAMPOLINE)" using tr by metis
    then show "ms_lookup s1 C1 v = None" by (simp add: lk)
  qed
  have "card (frames_free s1) = card (frames_free s0) - card (set ts)" unfolding new(3) using new(2) by (intro card_Diff_subset) auto
  then have room1: "3 * length (concat (map area_pages (areas P))) \<le> card (frames_free s1)"
    using c0 room t(4) distinct_card [OF new(4)] by simp
  obtain C' s' cs where r: "copy_areas P C1 s1 (areas P) = Some (C', s')" "areas C' = areas C1 @ cs" "list_all2 (copied s') (areas P) cs"
    "ms_ok l s' C'" "ms_ok l s' P" "set (own P) \<inter> set (own C') = {}"
    "\<forall>x \<in> frames_used l s1 - set (pt_frames (page_table C1)). get_bytes_array s' x = get_bytes_array s1 x"
    using fork_areas [OF P1 t(3) sep subset_refl framed kd free room1] by blast
  have "get_bytes_array s' x = get_bytes_array s x" if "x \<in> set (own P)" for x
  proof -
    have "x \<in> frames_used l s1 - set (pt_frames (page_table C1))" using that uP new(5) sep oC1 new(1) by auto
    then show ?thesis using r(7) same [OF that] by simp
  qed
  moreover have "from_existed_user tramp P s = Some (C', s')" using b(1) t(1) r(1) by (simp add: from_existed_user_def)
  ultimately show ?thesis using r(2-6) t(2) by auto
qed

subsection \<open>Examples\<close>

definition example_area :: MapArea where
  "example_area = \<lparr>vpn_range = \<lparr>range_l = 1, range_r = 3\<rparr>, data_frames = [], map_type = Framed, map_perm = MP_R\<rparr>"

lemma example_area_new: "area_new 0x1000 0x3000 Framed MP_R = Some example_area" "area_pages example_area = [1, 2]"
proof -
  have "va_floor 0x1000 = 1" "va_ceil 0x3000 = 3" by (simp_all add: va_floor_def va_ceil_def PAGE_SIZE_def)
  then show "area_new 0x1000 0x3000 Framed MP_R = Some example_area" by (simp add: area_new_def range_new_def example_area_def)
  have r: "range_new 1 3 = Some \<lparr>range_l = 1, range_r = 3\<rparr>" by (simp add: range_new_def)
  show "area_pages example_area = [1, 2]" using range_list_ok [OF r, of 1] by (simp add: example_area_def upt_rec)
qed

lemma example_space:
  obtains ms s where "ms_ok 2 s ms" and "areas ms = []" and "ms_lookup s ms = Map.empty" and "card (frames_free s) = 37"
    and "ms_room s ms example_area"
proof -
  have "frames_free example_mm \<noteq> {}" using example_mm_ok(2) by auto
  from new_bare_ok [OF example_mm_ok(1) this] obtain ms s f where b: "areas ms = []" "ms_ok 2 s ms" "ms_lookup s ms = Map.empty" "f \<in> frames_free example_mm"
    "frames_free s = frames_free example_mm - {f}" by blast
  have c: "card (frames_free s) = 37" using b(4,5) example_mm_ok(2) by simp
  have "ms_room s ms example_area" using b(3) c by (simp add: ms_room_def example_area_new)
  with b c show thesis using that by blast
qed

theorem area_insert_remove_witness:
  "\<exists>ms s ms1 s1 ms2 s2. ms_ok 2 s ms \<and> insert_framed_area ms s 0x1000 0x3000 MP_R = Some (ms1, s1) \<and> ms_ok 2 s1 ms1 \<and>
     remove_area_with_start_vpn ms1 s1 1 = Some (ms2, s2) \<and> ms_lookup s2 ms2 = Map.empty"
proof -
  obtain ms s where e: "ms_ok 2 s ms" "areas ms = []" "ms_lookup s ms = Map.empty" "ms_room s ms example_area" by (rule example_space)
  have "\<forall>b \<in> set (areas ms). range_l (vpn_range b) \<noteq> range_l (vpn_range example_area)" using e(2) by simp
  from area_insert_remove [OF e(1) example_area_new(1) e(4) this] e(1,3) show ?thesis
    by (simp add: example_area_def) blast
qed

theorem fork_address_space_witness:
  "\<exists>P s C s'. ms_ok 2 s P \<and> length (areas P) = 1 \<and> from_existed_user 0x1000 P s = Some (C, s') \<and> list_all2 (copied s') (areas P) (areas C) \<and>
     set (own P) \<inter> set (own C) = {}"
proof -
  obtain ms s where e: "ms_ok 2 s ms" "areas ms = []" "ms_lookup s ms = Map.empty" "card (frames_free s) = 37" "ms_room s ms example_area" by (rule example_space)
  obtain pt s1 ts ds where i: "ms_ok 2 s1 \<lparr>page_table = pt, areas = areas ms @ [example_area\<lparr>data_frames := zip (area_pages example_area) ds\<rparr>]\<rparr>"
    "length ds = length (area_pages example_area)" "length ts \<le> 2 * length (area_pages example_area)"
    "space_upd 2 s (page_table ms) s1 pt ts ds (leaf_map (area_pages example_area) ds MP_R)"
    using insert_framed_ok [OF e(1) example_area_new(1) e(5)] by blast
  let ?P = "\<lparr>page_table = pt, areas = [example_area\<lparr>data_frames := zip [1, 2] ds\<rparr>]\<rparr>"
  have ok: "ms_ok 2 s1 ?P" using i(1) e(2) by (simp add: example_area_new(2))
  have pg: "concat (map area_pages (areas ?P)) = [1, 2]" using example_area_new(2) by (simp add: example_area_def)
  have "card (frames_free s1) \<ge> 31" using space_upd_card [OF i(4)] i(2,3) e(4) by (simp add: example_area_new(2))
  then have room: "3 + 3 * length (concat (map area_pages (areas ?P))) \<le> card (frames_free s1)" unfolding pg by simp
  have al: "pa_page_offset 0x1000 = 0" by (simp add: pa_page_offset_def PAGE_SIZE_def)
  have tr: "take_bit 27 (va_floor TRAMPOLINE) \<notin> take_bit 27 ` set (concat (map area_pages (areas ?P)))"
    unfolding pg by (simp add: va_floor_def mm_consts)
  have fr: "\<forall>a \<in> set (areas ?P). map_type a = Framed" by (simp add: example_area_def)
  have one: "length (areas ?P) = 1" by simp
  from fork_address_space [OF ok fr al tr room] obtain C s' where "from_existed_user 0x1000 ?P s1 = Some (C, s')"
    "list_all2 (copied s') (areas ?P) (areas C)" "set (own ?P) \<inter> set (own C) = {}" by blast
  with ok one show ?thesis by blast
qed

end
