(* ===== verification/Block_Cache.thy ===== *)
theory Block_Cache
  imports Prelude
begin

text \<open>
  The block cache of easy-fs (easy-fs/src/block_cache.rs) over a block device (block_dev.rs).

  The device is a \<open>disk\<close>: a function from block numbers to 512-byte blocks, which is what the
  \<^verbatim>\<open>BlockDevice\<close> trait promises (\<^verbatim>\<open>read_block\<close> returns what \<^verbatim>\<open>write_block\<close> last stored).  A queue entry
  keeps its block number, the cached block and the number of handles (\<^verbatim>\<open>Arc\<close> clones) that clients
  hold, so \<^verbatim>\<open>Arc::strong_count\<close> is one more than \<open>e_refs\<close>.

  \<open>view\<close> is the abstraction: what a client sees of every block, cached or not.  The locale
  \<open>block_store\<close> is the interface the file system relies on (a reader looks at part of a block, an access
  reads and rewrites it), its lemma says that every program of accesses returns the same values as on a plain
  disk, and the interpretation \<open>cached\<close> discharges it for the cache with its eviction and
  write-back.
\<close>

type_synonym disk = "nat \<Rightarrow> u8 list"

definition BLOCK_SZ :: nat where
  "BLOCK_SZ = 512"

definition wf_disk :: "disk \<Rightarrow> bool" where
  "wf_disk d \<longleftrightarrow> (\<forall>b. length (d b) = BLOCK_SZ)"

subsection \<open>One cached block\<close>

record BlockCache =
  cache :: "u8 list"
  block_id :: nat
  modified :: bool

definition bc_new :: "disk \<Rightarrow> nat \<Rightarrow> BlockCache" where
  "bc_new dev b = \<lparr>cache = dev b, block_id = b, modified = False\<rparr>"

text \<open>
  \<^verbatim>\<open>get_ref\<close> and \<^verbatim>\<open>get_mut\<close> reinterpret \<open>size_of::<T>()\<close> bytes at the offset as a \<^verbatim>\<open>T\<close>; the model passes
  the size and hands out those bytes.  \<^verbatim>\<open>addr_of_offset\<close> indexes the cache, so an offset past the
  end panics even for an empty \<^verbatim>\<open>T\<close>.
\<close>

definition bc_get_ref :: "BlockCache \<Rightarrow> nat \<Rightarrow> nat \<Rightarrow> u8 list option" where
  "bc_get_ref c offset type_size =
     do { rassert (offset + type_size \<le> BLOCK_SZ);
          rassert (offset < BLOCK_SZ);
          Some (take type_size (drop offset (cache c))) }"

definition bc_get_mut :: "BlockCache \<Rightarrow> nat \<Rightarrow> nat \<Rightarrow> (u8 list \<times> BlockCache) option" where
  "bc_get_mut c offset type_size =
     do { rassert (offset + type_size \<le> BLOCK_SZ);
          rassert (offset < BLOCK_SZ);
          Some (take type_size (drop offset (cache c)), c\<lparr>modified := True\<rparr>) }"

definition bc_read :: "BlockCache \<Rightarrow> nat \<Rightarrow> nat \<Rightarrow> (u8 list \<Rightarrow> 'v option) \<Rightarrow> 'v option" where
  "bc_read c offset type_size f = bc_get_ref c offset type_size \<bind> f"

definition bc_modify ::
    "BlockCache \<Rightarrow> nat \<Rightarrow> nat \<Rightarrow> (u8 list \<Rightarrow> ('v \<times> u8 list) option) \<Rightarrow> ('v \<times> BlockCache) option" where
  "bc_modify c offset type_size f =
     do { (t, c') \<leftarrow> bc_get_mut c offset type_size;
          (v, t') \<leftarrow> f t;
          Some (v, c'\<lparr>cache := splice_at (cache c') offset t'\<rparr>) }"

definition bc_sync :: "disk \<Rightarrow> BlockCache \<Rightarrow> disk \<times> BlockCache" where
  "bc_sync dev c =
     (if modified c then (dev(block_id c := cache c), c\<lparr>modified := False\<rparr>) else (dev, c))"

definition bc_drop :: "disk \<Rightarrow> BlockCache \<Rightarrow> disk" where
  "bc_drop dev c = fst (bc_sync dev c)"

subsection \<open>The cache manager\<close>

definition BLOCK_CACHE_SIZE :: nat where
  "BLOCK_CACHE_SIZE = 16"

record CacheEntry =
  e_id :: nat
  e_cache :: BlockCache
  e_refs :: nat

record BlockCacheManager =
  queue :: "CacheEntry list"
  device :: disk

definition cm_new :: "disk \<Rightarrow> BlockCacheManager" where
  "cm_new dev = \<lparr>queue = [], device = dev\<rparr>"

definition remove_nth :: "nat \<Rightarrow> 'a list \<Rightarrow> 'a list" where
  "remove_nth i xs = take i xs @ drop (Suc i) xs"

definition cm_substitute :: "BlockCacheManager \<Rightarrow> BlockCacheManager option" where
  "cm_substitute m =
     (if length (queue m) = BLOCK_CACHE_SIZE then
        (case find_idx (\<lambda>e. e_refs e = 0) (queue m) of
           Some i \<Rightarrow> Some (m\<lparr>queue := remove_nth i (queue m),
                            device := bc_drop (device m) (e_cache (queue m ! i))\<rparr>)
         | None \<Rightarrow> None)
      else Some m)"

definition cm_load :: "BlockCacheManager \<Rightarrow> nat \<Rightarrow> BlockCacheManager" where
  "cm_load m b = m\<lparr>queue := queue m @ [\<lparr>e_id = b, e_cache = bc_new (device m) b, e_refs = 1\<rparr>]\<rparr>"

definition get_block_cache :: "BlockCacheManager \<Rightarrow> nat \<Rightarrow> BlockCacheManager option" where
  "get_block_cache m b =
     (case find_idx (\<lambda>e. e_id e = b) (queue m) of
        Some i \<Rightarrow> Some (m\<lparr>queue := (queue m)[i := (queue m ! i)\<lparr>e_refs := e_refs (queue m ! i) + 1\<rparr>]\<rparr>)
      | None \<Rightarrow> map_option (\<lambda>m'. cm_load m' b) (cm_substitute m))"

text \<open>Dropping a handle, and an access to the cached block behind one.\<close>

definition drop_handle :: "BlockCacheManager \<Rightarrow> nat \<Rightarrow> BlockCacheManager" where
  "drop_handle m b =
     (case find_idx (\<lambda>e. e_id e = b) (queue m) of
        Some i \<Rightarrow> m\<lparr>queue := (queue m)[i := (queue m ! i)\<lparr>e_refs := e_refs (queue m ! i) - 1\<rparr>]\<rparr>
      | None \<Rightarrow> m)"

definition handle_modify :: "BlockCacheManager \<Rightarrow> nat \<Rightarrow> nat \<Rightarrow> nat \<Rightarrow>
    (u8 list \<Rightarrow> ('v \<times> u8 list) option) \<Rightarrow> ('v \<times> BlockCacheManager) option" where
  "handle_modify m b offset type_size f =
     do { i \<leftarrow> find_idx (\<lambda>e. e_id e = b) (queue m);
          (v, c) \<leftarrow> bc_modify (e_cache (queue m ! i)) offset type_size f;
          Some (v, m\<lparr>queue := (queue m)[i := (queue m ! i)\<lparr>e_cache := c\<rparr>]\<rparr>) }"

definition handle_read :: "BlockCacheManager \<Rightarrow> nat \<Rightarrow> nat \<Rightarrow> nat \<Rightarrow> (u8 list \<Rightarrow> 'v option) \<Rightarrow> 'v option" where
  "handle_read m b offset type_size f =
     do { i \<leftarrow> find_idx (\<lambda>e. e_id e = b) (queue m);
          bc_read (e_cache (queue m ! i)) offset type_size f }"

fun sync_entries :: "disk \<Rightarrow> CacheEntry list \<Rightarrow> disk \<times> CacheEntry list" where
  "sync_entries dev [] = (dev, [])"
| "sync_entries dev (e # es) =
     (let (dev', c) = bc_sync dev (e_cache e); (dev'', es') = sync_entries dev' es
      in (dev'', e\<lparr>e_cache := c\<rparr> # es'))"

definition block_cache_sync_all :: "BlockCacheManager \<Rightarrow> BlockCacheManager" where
  "block_cache_sync_all m =
     (let (dev, es) = sync_entries (device m) (queue m) in m\<lparr>queue := es, device := dev\<rparr>)"

text \<open>
  The access patterns of the file system: \<^verbatim>\<open>get_block_cache(b, dev).lock().modify(offset, f)\<close> and
  \<^verbatim>\<open>get_block_cache(b, dev).lock().read(offset, f)\<close>, whose handles are dropped at the end of the statement.
  Both return the bytes they found.
\<close>

definition cache_access :: "BlockCacheManager \<Rightarrow> nat \<Rightarrow> nat \<Rightarrow> nat \<Rightarrow>
    (u8 list \<Rightarrow> u8 list option) \<Rightarrow> (u8 list \<times> BlockCacheManager) option" where
  "cache_access m b offset type_size w =
     do { m1 \<leftarrow> get_block_cache m b;
          (v, m2) \<leftarrow> handle_modify m1 b offset type_size (\<lambda>t. map_option (\<lambda>t'. (t, t')) (w t));
          Some (v, drop_handle m2 b) }"

definition cache_read :: "BlockCacheManager \<Rightarrow> nat \<Rightarrow> nat \<Rightarrow> nat \<Rightarrow> (u8 list \<times> BlockCacheManager) option" where
  "cache_read m b offset type_size =
     do { m1 \<leftarrow> get_block_cache m b;
          v \<leftarrow> handle_read m1 b offset type_size Some;
          Some (v, drop_handle m1 b) }"

definition disk_read :: "disk \<Rightarrow> nat \<Rightarrow> nat \<Rightarrow> nat \<Rightarrow> (u8 list \<times> disk) option" where
  "disk_read d b offset type_size =
     do { rassert (offset + type_size \<le> BLOCK_SZ);
          rassert (offset < BLOCK_SZ);
          Some (take type_size (drop offset (d b)), d) }"

definition disk_access :: "disk \<Rightarrow> nat \<Rightarrow> nat \<Rightarrow> nat \<Rightarrow>
    (u8 list \<Rightarrow> u8 list option) \<Rightarrow> (u8 list \<times> disk) option" where
  "disk_access d b offset type_size w =
     do { rassert (offset + type_size \<le> BLOCK_SZ);
          rassert (offset < BLOCK_SZ);
          t' \<leftarrow> w (take type_size (drop offset (d b)));
          Some (take type_size (drop offset (d b)), d(b := splice_at (d b) offset t')) }"

subsection \<open>Programs of block accesses\<close>

text \<open>\<open>Panic\<close> is a closure that panics on what it read.\<close>

datatype 'a prog =
    Ret 'a
  | Panic
  | Get nat nat nat "u8 list \<Rightarrow> 'a prog"
  | Acc nat nat nat "u8 list \<Rightarrow> u8 list option" "u8 list \<Rightarrow> 'a prog"

primrec run :: "('s \<Rightarrow> nat \<Rightarrow> nat \<Rightarrow> nat \<Rightarrow> (u8 list \<times> 's) option) \<Rightarrow>
    ('s \<Rightarrow> nat \<Rightarrow> nat \<Rightarrow> nat \<Rightarrow> (u8 list \<Rightarrow> u8 list option) \<Rightarrow> (u8 list \<times> 's) option) \<Rightarrow>
    'a prog \<Rightarrow> 's \<Rightarrow> ('a \<times> 's) option" where
  "run reader access (Ret a) s = Some (a, s)"
| "run reader access Panic s = None"
| "run reader access (Get b off sz k) s =
     (case reader s b off sz of None \<Rightarrow> None | Some (t, s') \<Rightarrow> run reader access (k t) s')"
| "run reader access (Acc b off sz w k) s =
     (case access s b off sz w of None \<Rightarrow> None | Some (old, s') \<Rightarrow> run reader access (k old) s')"

text \<open>The writers of a program overwrite a value of type \<^verbatim>\<open>T\<close> by a value of the same size.\<close>

primrec sized :: "'a prog \<Rightarrow> bool" where
  "sized (Ret a) = True"
| "sized Panic = True"
| "sized (Get b off sz k) \<longleftrightarrow> (\<forall>t. sized (k t))"
| "sized (Acc b off sz w k) \<longleftrightarrow>
     (\<forall>t t'. w t = Some t' \<longrightarrow> length t = sz \<longrightarrow> length t' = sz) \<and> (\<forall>t. sized (k t))"

locale block_store =
  fixes inv :: "'s \<Rightarrow> bool"
    and view :: "'s \<Rightarrow> disk"
    and reader :: "'s \<Rightarrow> nat \<Rightarrow> nat \<Rightarrow> nat \<Rightarrow> (u8 list \<times> 's) option"
    and access :: "'s \<Rightarrow> nat \<Rightarrow> nat \<Rightarrow> nat \<Rightarrow> (u8 list \<Rightarrow> u8 list option) \<Rightarrow> (u8 list \<times> 's) option"
  assumes refines: "inv s \<Longrightarrow> (\<And>t t'. w t = Some t' \<Longrightarrow> length t = sz \<Longrightarrow> length t' = sz) \<Longrightarrow>
      map_option (map_prod id view) (access s b off sz w) = disk_access (view s) b off sz w"
    and keeps: "inv s \<Longrightarrow> (\<And>t t'. w t = Some t' \<Longrightarrow> length t = sz \<Longrightarrow> length t' = sz) \<Longrightarrow>
      access s b off sz w = Some (old, s') \<Longrightarrow> inv s'"
    and read_refines: "inv s \<Longrightarrow> map_option (map_prod id view) (reader s b off sz) = disk_read (view s) b off sz"
    and read_keeps: "inv s \<Longrightarrow> reader s b off sz = Some (t, s') \<Longrightarrow> inv s'"
begin

lemma run_refines:
  assumes "inv s" and "sized p"
  shows "map_option (map_prod id view) (run reader access p s) = run disk_read disk_access p (view s)"
  using assms
proof (induction p arbitrary: s)
  case (Get b off sz k)
  have ref: "map_option (map_prod id view) (reader s b off sz) = disk_read (view s) b off sz"
    using read_refines [OF Get.prems(1)] by blast
  show ?case
  proof (cases "reader s b off sz")
    case None
    with ref show ?thesis by (auto split: option.splits)
  next
    case (Some r)
    obtain t s' where r: "r = (t, s')" by (cases r)
    with Some read_keeps [OF Get.prems(1)] have "inv s'" by blast
    moreover have "sized (k t)" using Get.prems(2) by simp
    ultimately have "map_option (map_prod id view) (run reader access (k t) s') = run disk_read disk_access (k t) (view s')"
      using Get.IH by blast
    moreover from ref Some r have "disk_read (view s) b off sz = Some (t, view s')" by simp
    ultimately show ?thesis using Some r by (simp add: id_def)
  qed
next
  case (Acc b off sz w k)
  from Acc.prems have w: "\<And>t t'. w t = Some t' \<Longrightarrow> length t = sz \<Longrightarrow> length t' = sz"
    and k: "\<And>t. sized (k t)" by auto
  have ref: "map_option (map_prod id view) (access s b off sz w) = disk_access (view s) b off sz w"
    using refines [OF Acc.prems(1)] w by blast
  show ?case
  proof (cases "access s b off sz w")
    case None
    with ref show ?thesis by (auto split: option.splits)
  next
    case (Some r)
    obtain old s' where r: "r = (old, s')" by (cases r)
    with Some keeps [OF Acc.prems(1)] w have "inv s'" by blast
    with Acc.IH k have "map_option (map_prod id view) (run reader access (k old) s') = run disk_read disk_access (k old) (view s')"
      by blast
    moreover from ref Some r have "disk_access (view s) b off sz w = Some (old, view s')" by simp
    ultimately show ?thesis using Some r by (simp add: id_def)
  qed
qed simp_all

end

subsection \<open>What a client sees, and the invariant of the manager\<close>

definition view :: "BlockCacheManager \<Rightarrow> disk" where
  "view m b = (case map_of (map (\<lambda>e. (e_id e, cache (e_cache e))) (queue m)) b of
     Some c \<Rightarrow> c | None \<Rightarrow> device m b)"

definition entry_ok :: "disk \<Rightarrow> CacheEntry \<Rightarrow> bool" where
  "entry_ok dev e \<longleftrightarrow> block_id (e_cache e) = e_id e \<and> length (cache (e_cache e)) = BLOCK_SZ \<and>
     (\<not> modified (e_cache e) \<longrightarrow> cache (e_cache e) = dev (e_id e))"

definition cache_inv :: "BlockCacheManager \<Rightarrow> bool" where
  "cache_inv m \<longleftrightarrow> distinct (map e_id (queue m)) \<and> length (queue m) \<le> BLOCK_CACHE_SIZE \<and>
     wf_disk (device m) \<and> (\<forall>e \<in> set (queue m). entry_ok (device m) e)"

text \<open>A block can be loaded: the queue has room or holds a block that no client has a handle to.\<close>

definition evictable :: "BlockCacheManager \<Rightarrow> bool" where
  "evictable m \<longleftrightarrow> (length (queue m) = BLOCK_CACHE_SIZE \<longrightarrow> (\<exists>e \<in> set (queue m). e_refs e = 0))"

lemma wf_diskD [simp]: "wf_disk d \<Longrightarrow> length (d b) = BLOCK_SZ"
  by (simp add: wf_disk_def)

lemma view_in:
  "distinct (map e_id (queue m)) \<Longrightarrow> e \<in> set (queue m) \<Longrightarrow> view m (e_id e) = cache (e_cache e)"
proof -
  assume "distinct (map e_id (queue m))" and "e \<in> set (queue m)"
  then have "map_of (map (\<lambda>e. (e_id e, cache (e_cache e))) (queue m)) (e_id e) = Some (cache (e_cache e))"
    by (intro map_of_is_SomeI) (auto simp: comp_def)
  then show ?thesis by (simp add: view_def)
qed

lemma view_out: "b \<notin> e_id ` set (queue m) \<Longrightarrow> view m b = device m b"
  by (auto simp: view_def map_of_eq_None_iff [THEN iffD2] image_image split: option.splits dest!: map_of_SomeD)

lemma view_eqI:
  assumes "distinct (map e_id (queue m))" and "distinct (map e_id (queue m'))"
    and "\<And>e. e \<in> set (queue m') \<Longrightarrow> cache (e_cache e) = view m (e_id e)"
    and "\<And>b. b \<notin> e_id ` set (queue m') \<Longrightarrow> device m' b = view m b"
  shows "view m' = view m"
proof
  fix b
  show "view m' b = view m b"
  proof (cases "b \<in> e_id ` set (queue m')")
    case True
    then obtain e where "e \<in> set (queue m')" "b = e_id e" by auto
    with assms view_in [of m' e] show ?thesis by auto
  next
    case False
    with assms view_out [of b m'] show ?thesis by simp
  qed
qed

lemma wf_view: "cache_inv m \<Longrightarrow> wf_disk (view m)"
  unfolding wf_disk_def
proof
  fix b
  assume inv: "cache_inv m"
  show "length (view m b) = BLOCK_SZ"
  proof (cases "b \<in> e_id ` set (queue m)")
    case True
    then obtain e where "e \<in> set (queue m)" "b = e_id e" by auto
    with inv view_in [of m e] show ?thesis by (auto simp: cache_inv_def entry_ok_def)
  next
    case False
    with inv view_out [of b m] show ?thesis by (simp add: cache_inv_def)
  qed
qed

lemma find_entry:
  assumes "find_idx (\<lambda>e. e_id e = b) q = Some i"
  shows "i < length q" and "e_id (q ! i) = b" and "q ! i \<in> set q"
  using find_idx_SomeD [OF assms] by auto

lemma no_entry: "find_idx (\<lambda>e. e_id e = b) q = None \<Longrightarrow> b \<notin> e_id ` set q"
  by (auto simp: find_idx_None)

text \<open>Replacing an entry by one with the same block number.\<close>

lemma ids_update: "i < length q \<Longrightarrow> e_id e = e_id (q ! i) \<Longrightarrow> map e_id (q[i := e]) = map e_id q"
  by (metis list_update_id map_update nth_map)

lemma other_entries:
  assumes "distinct (map e_id q)" and "i < length q" and "e \<in> set (q[i := e'])"
  shows "e = e' \<or> e \<in> set q \<and> e_id e \<noteq> e_id (q ! i)"
proof -
  from assms(3) obtain j where j: "j < length q" "e = q[i := e'] ! j"
    by (auto simp: in_set_conv_nth)
  show ?thesis
  proof (cases "j = i")
    case True
    with j assms(2) show ?thesis by simp
  next
    case False
    with j assms(1,2) have "e_id (q ! j) \<noteq> e_id (q ! i)"
      by (simp add: distinct_conv_nth)
    with False j show ?thesis by simp
  qed
qed

lemma inv_update:
  assumes "cache_inv m" and "i < length (queue m)" and "e_id e = e_id (queue m ! i)"
    and "entry_ok (device m) e"
  shows "cache_inv (m\<lparr>queue := (queue m)[i := e]\<rparr>)"
  using assms other_entries [of "queue m" i _ e] by (auto simp: cache_inv_def ids_update)

lemma view_update:
  assumes "cache_inv m" and "i < length (queue m)" and "e_id e = e_id (queue m ! i)"
  shows "view (m\<lparr>queue := (queue m)[i := e]\<rparr>) = (view m)(e_id e := cache (e_cache e))"
proof
  fix b
  let ?m = "m\<lparr>queue := (queue m)[i := e]\<rparr>"
  have d: "distinct (map e_id (queue m))" and d': "distinct (map e_id (queue ?m))"
    using assms by (auto simp: cache_inv_def ids_update)
  have ids: "e_id ` set (queue ?m) = e_id ` set (queue m)"
    using ids_update [OF assms(2,3)] by (metis (no_types) list.set_map select_convs(1) surjective update_convs(1))
  show "view ?m b = ((view m)(e_id e := cache (e_cache e))) b"
  proof (cases "b \<in> e_id ` set (queue ?m)")
    case False
    moreover have "e_id e \<in> e_id ` set (queue ?m)" using assms(2) by (auto simp: set_update_memI)
    ultimately show ?thesis using view_out [of b ?m] view_out [of b m] ids by auto
  next
    case True
    then obtain x where x: "x \<in> set ((queue m)[i := e])" "b = e_id x" by auto
    from other_entries [OF d assms(2) x(1)] show ?thesis
    proof
      assume "x = e"
      with x view_in [OF d', of x] show ?thesis by simp
    next
      assume *: "x \<in> set (queue m) \<and> e_id x \<noteq> e_id (queue m ! i)"
      with x view_in [OF d', of x] view_in [OF d, of x] assms(3) show ?thesis by auto
    qed
  qed
qed

lemma set_remove_nth: "i < length xs \<Longrightarrow> set xs = insert (xs ! i) (set (remove_nth i xs))"
  by (subst id_take_nth_drop [of i xs]) (auto simp: remove_nth_def)

lemma distinct_remove_nth:
  "i < length xs \<Longrightarrow> distinct (map f xs) \<Longrightarrow>
     distinct (map f (remove_nth i xs)) \<and> f (xs ! i) \<notin> f ` set (remove_nth i xs)"
  by (subst (asm) id_take_nth_drop [of i xs]) (auto simp: remove_nth_def)

lemma length_remove_nth: "i < length xs \<Longrightarrow> length (remove_nth i xs) = length xs - 1"
  by (simp add: remove_nth_def)

lemma bc_drop_entry:
  "entry_ok dev e \<Longrightarrow> bc_drop dev (e_cache e) = dev(e_id e := cache (e_cache e))"
  by (auto simp: bc_drop_def bc_sync_def entry_ok_def fun_eq_iff)

lemma substitute_cases:
  assumes "cm_substitute m = Some m'"
  obtains "m' = m" and "length (queue m) \<noteq> BLOCK_CACHE_SIZE"
  | i where "i < length (queue m)" and "length (queue m) = BLOCK_CACHE_SIZE" and "e_refs (queue m ! i) = 0"
      and "m' = m\<lparr>queue := remove_nth i (queue m), device := bc_drop (device m) (e_cache (queue m ! i))\<rparr>"
  using assms by (auto simp: cm_substitute_def find_idx_Some split: if_splits option.splits)

lemma substitute_keeps:
  assumes inv: "cache_inv m" and sub: "cm_substitute m = Some m'"
  shows "cache_inv m' \<and> view m' = view m \<and> length (queue m') < BLOCK_CACHE_SIZE \<and>
    e_id ` set (queue m') \<subseteq> e_id ` set (queue m)"
  using sub
proof (cases rule: substitute_cases)
  case 1
  with inv show ?thesis by (auto simp: cache_inv_def)
next
  case (2 i)
  let ?e = "queue m ! i"
  have ok: "entry_ok (device m) ?e" and e: "?e \<in> set (queue m)"
    and d: "distinct (map e_id (queue m))"
    using inv 2(1) by (auto simp: cache_inv_def)
  note rm = distinct_remove_nth [OF 2(1) d] set_remove_nth [OF 2(1)]
  have q': "queue m' = remove_nth i (queue m)" and dev: "device m' = (device m)(e_id ?e := cache (e_cache ?e))"
    using 2(4) bc_drop_entry [OF ok] by auto
  have len: "length (queue m') < BLOCK_CACHE_SIZE"
    using 2 length_remove_nth [OF 2(1)] q' by (simp add: BLOCK_CACHE_SIZE_def)
  have "entry_ok (device m') x" if "x \<in> set (queue m')" for x
  proof -
    from that q' rm have "x \<in> set (queue m)" and "e_id x \<noteq> e_id ?e"
      by (auto simp: image_iff)
    with inv dev show ?thesis by (auto simp: cache_inv_def entry_ok_def)
  qed
  then have inv': "cache_inv m'"
    using inv q' dev rm len e by (auto simp: cache_inv_def wf_disk_def entry_ok_def)
  have "view m' = view m"
  proof (rule view_eqI)
    show "distinct (map e_id (queue m))" "distinct (map e_id (queue m'))" using d q' rm by auto
    show "cache (e_cache x) = view m (e_id x)" if "x \<in> set (queue m')" for x
      using that q' rm view_in [OF d, of x] by auto
    show "device m' b = view m b" if "b \<notin> e_id ` set (queue m')" for b
    proof (cases "b = e_id ?e")
      case True
      with dev view_in [OF d e] show ?thesis by simp
    next
      case False
      with that q' rm have "b \<notin> e_id ` set (queue m)" by auto
      with False dev view_out [of b m] show ?thesis by simp
    qed
  qed
  with inv' len q' rm show ?thesis by auto
qed

lemma load_keeps:
  assumes inv: "cache_inv m" and new: "b \<notin> e_id ` set (queue m)" and room: "length (queue m) < BLOCK_CACHE_SIZE"
  shows "cache_inv (cm_load m b) \<and> view (cm_load m b) = view m"
proof -
  have inv': "cache_inv (cm_load m b)"
    using assms by (auto simp: cache_inv_def cm_load_def bc_new_def entry_ok_def)
  have "view (cm_load m b) = view m"
  proof (rule view_eqI)
    show "distinct (map e_id (queue m))" "distinct (map e_id (queue (cm_load m b)))"
      using inv inv' by (auto simp: cache_inv_def)
    show "cache (e_cache x) = view m (e_id x)" if "x \<in> set (queue (cm_load m b))" for x
      using that inv new view_in [of m x] view_out [of b m]
      by (auto simp: cm_load_def bc_new_def cache_inv_def)
    show "device (cm_load m b) c = view m c" if "c \<notin> e_id ` set (queue (cm_load m b))" for c
      using that view_out [of c m] by (auto simp: cm_load_def)
  qed
  with inv' show ?thesis by simp
qed

text \<open>\<open>get_block_cache\<close> on a hit and on a miss.\<close>

lemma get_block_cache_hit:
  assumes "cache_inv m" and "find_idx (\<lambda>e. e_id e = b) (queue m) = Some i" and "get_block_cache m b = Some m'"
  shows "cache_inv m' \<and> view m' = view m"
proof -
  let ?e = "(queue m ! i)\<lparr>e_refs := e_refs (queue m ! i) + 1\<rparr>"
  note f = find_entry [OF assms(2)]
  have m': "m' = m\<lparr>queue := (queue m)[i := ?e]\<rparr>"
    using assms(2,3) by (simp add: get_block_cache_def)
  have ok: "entry_ok (device m) ?e" using assms(1) f by (auto simp: cache_inv_def entry_ok_def)
  have d: "distinct (map e_id (queue m))" using assms(1) by (simp add: cache_inv_def)
  have "cache (e_cache ?e) = view m (e_id ?e)" using view_in [OF d f(3)] by simp
  then have "view m' = view m" using view_update [OF assms(1) f(1), of ?e] m' by simp
  moreover have "cache_inv m'" using inv_update [OF assms(1) f(1) _ ok] m' by simp
  ultimately show ?thesis by simp
qed

lemma get_block_cache_keeps:
  assumes inv: "cache_inv m" and get: "get_block_cache m b = Some m'"
  shows "cache_inv m' \<and> view m' = view m \<and> b \<in> e_id ` set (queue m')"
proof (cases "find_idx (\<lambda>e. e_id e = b) (queue m)")
  case None
  with get obtain m1 where m1: "cm_substitute m = Some m1" "m' = cm_load m1 b"
    by (auto simp: get_block_cache_def)
  have s: "cache_inv m1" "view m1 = view m" "length (queue m1) < BLOCK_CACHE_SIZE" "b \<notin> e_id ` set (queue m1)"
    using substitute_keeps [OF inv m1(1)] no_entry [OF None] by auto
  with load_keeps [OF s(1,4,3)] m1 show ?thesis by (simp add: cm_load_def)
next
  case (Some i)
  have "map e_id (queue m') = map e_id (queue m)"
    using get Some find_entry [OF Some] by (auto simp: get_block_cache_def ids_update)
  then have "b \<in> e_id ` set (queue m')"
    using find_entry [OF Some] by (metis image_eqI list.set_map)
  with get_block_cache_hit [OF inv Some get] show ?thesis by simp
qed

text \<open>The only panic: a miss while every one of the sixteen cached blocks is held by a client.\<close>

lemma get_block_cache_None:
  "get_block_cache m b = None \<longleftrightarrow> b \<notin> e_id ` set (queue m) \<and>
     length (queue m) = BLOCK_CACHE_SIZE \<and> (\<forall>e \<in> set (queue m). 0 < e_refs e)"
  by (auto simp: get_block_cache_def cm_substitute_def find_idx_None find_idx_Some split: option.splits)

lemma get_block_cache_total: "evictable m \<Longrightarrow> \<exists>m'. get_block_cache m b = Some m'"
  using get_block_cache_None [of m b] by (cases "get_block_cache m b") (auto simp: evictable_def)

lemma handle_modify_step:
  assumes inv: "cache_inv m" and "b \<in> e_id ` set (queue m)"
    and f: "\<And>t v t'. f t = Some (v, t') \<Longrightarrow> length t = sz \<Longrightarrow> length t' = sz"
  shows "(case handle_modify m b off sz f of
      None \<Rightarrow> \<not> (off + sz \<le> BLOCK_SZ \<and> off < BLOCK_SZ) \<or> f (take sz (drop off (view m b))) = None
    | Some (v, m') \<Rightarrow> off + sz \<le> BLOCK_SZ \<and> off < BLOCK_SZ \<and> cache_inv m' \<and>
        (\<exists>t'. f (take sz (drop off (view m b))) = Some (v, t') \<and>
              view m' = (view m)(b := splice_at (view m b) off t')) \<and>
        map (\<lambda>e. (e_id e, e_refs e)) (queue m') = map (\<lambda>e. (e_id e, e_refs e)) (queue m))"
proof -
  from assms(2) obtain i where i: "find_idx (\<lambda>e. e_id e = b) (queue m) = Some i"
    using no_entry by (cases "find_idx (\<lambda>e. e_id e = b) (queue m)") auto
  note e = find_entry [OF i]
  let ?e = "queue m ! i"
  let ?t = "take sz (drop off (cache (e_cache ?e)))"
  have d: "distinct (map e_id (queue m))" using inv by (simp add: cache_inv_def)
  have v: "view m b = cache (e_cache ?e)" using view_in [OF d e(3)] e(2) by simp
  have ok: "entry_ok (device m) ?e" using inv e by (auto simp: cache_inv_def)
  show ?thesis
  proof (cases "off + sz \<le> BLOCK_SZ \<and> off < BLOCK_SZ")
    case False
    then show ?thesis using i
      by (auto simp: handle_modify_def bc_modify_def bc_get_mut_def rassert_def split: if_splits)
  next
    case off: True
    have lt: "length ?t = sz" using ok off by (auto simp: entry_ok_def)
    show ?thesis
    proof (cases "f ?t")
      case None
      then show ?thesis using i off v
        by (auto simp: handle_modify_def bc_modify_def bc_get_mut_def)
    next
      case (Some r)
      obtain w t' where r: "r = (w, t')" by (cases r)
      let ?c = "(e_cache ?e)\<lparr>modified := True, cache := splice_at (cache (e_cache ?e)) off t'\<rparr>"
      let ?m = "m\<lparr>queue := (queue m)[i := ?e\<lparr>e_cache := ?c\<rparr>]\<rparr>"
      have hm: "handle_modify m b off sz f = Some (w, ?m)"
        using i off Some r by (simp add: handle_modify_def bc_modify_def bc_get_mut_def)
      have len: "length t' = sz" using f Some r lt by blast
      have ok': "entry_ok (device m) (?e\<lparr>e_cache := ?c\<rparr>)"
        using ok off len by (auto simp: entry_ok_def)
      have "cache_inv ?m" using inv_update [OF inv e(1) _ ok'] by simp
      moreover have "view ?m = (view m)(b := splice_at (view m b) off t')"
        using view_update [OF inv e(1), of "?e\<lparr>e_cache := ?c\<rparr>"] e(2) v by simp
      moreover have "map (\<lambda>e. (e_id e, e_refs e)) (queue ?m) = map (\<lambda>e. (e_id e, e_refs e)) (queue m)"
        using e(1) by (intro nth_equalityI) (auto simp: nth_list_update)
      ultimately show ?thesis using hm Some r off v by auto
    qed
  qed
qed

lemma drop_handle_keeps:
  assumes inv: "cache_inv m"
  shows "cache_inv (drop_handle m b) \<and> view (drop_handle m b) = view m"
proof (cases "find_idx (\<lambda>e. e_id e = b) (queue m)")
  case None
  with inv show ?thesis by (simp add: drop_handle_def)
next
  case (Some i)
  note e = find_entry [OF Some]
  let ?e = "(queue m ! i)\<lparr>e_refs := e_refs (queue m ! i) - 1\<rparr>"
  have d: "distinct (map e_id (queue m))" using inv by (simp add: cache_inv_def)
  have m': "drop_handle m b = m\<lparr>queue := (queue m)[i := ?e]\<rparr>"
    using Some by (simp add: drop_handle_def)
  have ok: "entry_ok (device m) ?e" using inv e by (auto simp: cache_inv_def entry_ok_def)
  have "cache (e_cache ?e) = view m (e_id ?e)" using view_in [OF d e(3)] by simp
  then have "view (drop_handle m b) = view m" using view_update [OF inv e(1), of ?e] m' by simp
  moreover have "cache_inv (drop_handle m b)" using inv_update [OF inv e(1) _ ok] m' by simp
  ultimately show ?thesis by simp
qed

text \<open>The handle counts after an access: a hit restores them, a miss adds an entry with none.\<close>

definition refs_of :: "BlockCacheManager \<Rightarrow> (nat \<times> nat) list" where
  "refs_of m = map (\<lambda>e. (e_id e, e_refs e)) (queue m)"

lemma evictable_refs: "evictable m \<longleftrightarrow> (length (refs_of m) = BLOCK_CACHE_SIZE \<longrightarrow> (\<exists>p \<in> set (refs_of m). snd p = 0))"
  by (auto simp: evictable_def refs_of_def)

lemma find_idx_map: "find_idx p (map f xs) = find_idx (\<lambda>x. p (f x)) xs"
  by (induction xs) auto

lemma find_idx_snoc:
  "(\<forall>x \<in> set xs. \<not> p x) \<Longrightarrow> p y \<Longrightarrow> find_idx p (xs @ [y]) = Some (length xs)"
  by (induction xs) auto

lemma find_id_refs: "find_idx (\<lambda>e. e_id e = b) (queue m) = find_idx (\<lambda>p. fst p = b) (refs_of m)"
  by (simp add: refs_of_def find_idx_map)

lemma refs_of_drop:
  "find_idx (\<lambda>p. fst p = b) (refs_of m) = Some i \<Longrightarrow>
     refs_of (drop_handle m b) = (refs_of m)[i := (b, snd (refs_of m ! i) - 1)]"
  by (auto simp: drop_handle_def refs_of_def find_idx_map map_update find_entry)

lemma refs_of_get_hit:
  "find_idx (\<lambda>p. fst p = b) (refs_of m) = Some i \<Longrightarrow> get_block_cache m b = Some m' \<Longrightarrow>
     refs_of m' = (refs_of m)[i := (b, snd (refs_of m ! i) + 1)]"
  by (auto simp: get_block_cache_def refs_of_def find_idx_map map_update find_entry)

lemma access_evictable:
  assumes "evictable m" and inv: "cache_inv m" and get: "get_block_cache m b = Some m1" and "refs_of m2 = refs_of m1"
  shows "evictable (drop_handle m2 b)"
proof (cases "find_idx (\<lambda>p. fst p = b) (refs_of m)")
  case (Some i)
  note r1 = refs_of_get_hit [OF Some get]
  have i: "i < length (refs_of m)" "fst (refs_of m ! i) = b" "\<forall>j < i. fst (refs_of m ! j) \<noteq> b"
    using Some by (auto simp: find_idx_Some)
  then have "find_idx (\<lambda>p. fst p = b) (refs_of m2) = Some i"
    using assms(4) r1 by (auto simp: find_idx_Some nth_list_update)
  from refs_of_drop [OF this] assms(4) r1 i have "refs_of (drop_handle m2 b) = refs_of m"
    by (metis add_diff_cancel_right' list_update_id list_update_overwrite nth_list_update_eq prod.collapse snd_conv)
  with assms(1) show ?thesis by (simp add: evictable_refs)
next
  case None
  then have none: "find_idx (\<lambda>e. e_id e = b) (queue m) = None" by (simp add: find_id_refs)
  with get obtain m0 where m0: "cm_substitute m = Some m0" "m1 = cm_load m0 b"
    by (auto simp: get_block_cache_def)
  have new: "\<forall>p \<in> set (refs_of m0). fst p \<noteq> b"
    using substitute_keeps [OF inv m0(1)] no_entry [OF none] by (auto simp: refs_of_def)
  have r: "refs_of m2 = refs_of m0 @ [(b, 1)]"
    using assms(4) m0 by (simp add: refs_of_def cm_load_def)
  then have "find_idx (\<lambda>p. fst p = b) (refs_of m2) = Some (length (refs_of m0))"
    using new by (simp add: find_idx_snoc)
  from refs_of_drop [OF this] r have "(b, 0) \<in> set (refs_of (drop_handle m2 b))" by simp
  then show ?thesis by (force simp: evictable_refs)
qed

lemma cache_access_step:
  assumes inv: "cache_inv m" and ev: "evictable m"
    and w: "\<And>t t'. w t = Some t' \<Longrightarrow> length t = sz \<Longrightarrow> length t' = sz"
  shows "map_option (map_prod id view) (cache_access m b off sz w) = disk_access (view m) b off sz w"
    and "cache_access m b off sz w = Some (old, m') \<Longrightarrow> cache_inv m' \<and> evictable m'"
proof -
  obtain m1 where m1: "get_block_cache m b = Some m1" using get_block_cache_total [OF ev] by blast
  have k: "cache_inv m1" "view m1 = view m" "b \<in> e_id ` set (queue m1)"
    using get_block_cache_keeps [OF inv m1] by auto
  let ?f = "\<lambda>t. map_option (\<lambda>t'. (t, t')) (w t)"
  have f: "length t' = sz" if "?f t = Some (v, t')" and "length t = sz" for t v t'
    using that w by auto
  note step = handle_modify_step [where f = ?f and off = off, OF k(1,3) f]
  have "map_option (map_prod id view) (cache_access m b off sz w) = disk_access (view m) b off sz w \<and>
        (cache_access m b off sz w = Some (old, m') \<longrightarrow> cache_inv m' \<and> evictable m')"
  proof (cases "handle_modify m1 b off sz ?f")
    case None
    with step k m1 show ?thesis
      by (auto simp: cache_access_def disk_access_def rassert_def)
  next
    case (Some r)
    obtain v m2 where r: "r = (v, m2)" by (cases r)
    with Some step have m2: "cache_inv m2" "off + sz \<le> BLOCK_SZ" "off < BLOCK_SZ" "refs_of m2 = refs_of m1"
      and t: "\<exists>t'. ?f (take sz (drop off (view m b))) = Some (v, t') \<and> view m2 = (view m)(b := splice_at (view m b) off t')"
      using k by (auto simp: refs_of_def)
    have "view (drop_handle m2 b) = view m2" "cache_inv (drop_handle m2 b)"
      using drop_handle_keeps [OF m2(1)] by auto
    with t m1 Some r m2 access_evictable [OF ev inv m1 m2(4)] show ?thesis
      by (auto simp: cache_access_def disk_access_def)
  qed
  then show "map_option (map_prod id view) (cache_access m b off sz w) = disk_access (view m) b off sz w"
    and "cache_access m b off sz w = Some (old, m') \<Longrightarrow> cache_inv m' \<and> evictable m'" by auto
qed

text \<open>A reader leaves the cached block as it is, its dirty flag included.\<close>

lemma cache_read_step:
  assumes inv: "cache_inv m" and ev: "evictable m"
  shows "map_option (map_prod id view) (cache_read m b off sz) = disk_read (view m) b off sz"
    and "cache_read m b off sz = Some (t, m') \<Longrightarrow> cache_inv m' \<and> evictable m'"
proof -
  obtain m1 where m1: "get_block_cache m b = Some m1" using get_block_cache_total [OF ev] by blast
  have k: "cache_inv m1" "view m1 = view m" "b \<in> e_id ` set (queue m1)"
    using get_block_cache_keeps [OF inv m1] by auto
  then obtain i where i: "find_idx (\<lambda>e. e_id e = b) (queue m1) = Some i"
    using no_entry by (cases "find_idx (\<lambda>e. e_id e = b) (queue m1)") auto
  note e = find_entry [OF i]
  have d: "distinct (map e_id (queue m1))" using k(1) by (simp add: cache_inv_def)
  have v: "cache (e_cache (queue m1 ! i)) = view m b" using view_in [OF d e(3)] e(2) k(2) by simp
  have dh: "view (drop_handle m1 b) = view m" "cache_inv (drop_handle m1 b)" using drop_handle_keeps [OF k(1)] k(2) by auto
  have run: "cache_read m b off sz =
      do { rassert (off + sz \<le> BLOCK_SZ); rassert (off < BLOCK_SZ); Some (take sz (drop off (view m b)), drop_handle m1 b) }"
    using m1 i v by (simp add: cache_read_def handle_read_def bc_read_def bc_get_ref_def rassert_def)
  then show "map_option (map_prod id view) (cache_read m b off sz) = disk_read (view m) b off sz"
    using dh(1) by (simp add: disk_read_def rassert_def)
  show "cache_read m b off sz = Some (t, m') \<Longrightarrow> cache_inv m' \<and> evictable m'"
    using run dh(2) access_evictable [OF ev inv m1 refl] by (auto simp: rassert_def split: if_splits)
qed

interpretation cached: block_store "\<lambda>m. cache_inv m \<and> evictable m" view cache_read cache_access
proof (unfold_locales, goal_cases)
  case (1 s w sz b off)
  then show ?case using cache_access_step(1) [of s w sz] by blast
next
  case (2 s w sz b off old s')
  then show ?case using cache_access_step(2) [of s w sz] by blast
next
  case (3 s b off sz)
  then show ?case using cache_read_step(1) by blast
next
  case (4 s b off sz t s')
  then show ?case using cache_read_step(2) by blast
qed

text \<open>
  C1 (refinement).  Any program of block reads and modifications (each may depend on what the earlier ones
  read) that runs through the sixteen-block cache returns the same result, panics in the same cases and
  leaves the same visible blocks as the program on a plain disk, provided the cache has a block to
  evict when it starts.
\<close>

theorem cache_transparent:
  assumes "cache_inv m" and "evictable m" and "sized p"
  shows "map_option (map_prod id view) (run cache_read cache_access p m) = run disk_read disk_access p (view m)"
  using cached.run_refines assms by blast

theorem cache_transparent_witness:
  "cache_inv (cm_new (\<lambda>b. replicate 512 0)) \<and> evictable (cm_new (\<lambda>b. replicate 512 0)) \<and>
   map_option (map_prod id view)
     (run cache_read cache_access (Acc 7 0 1 (\<lambda>t. Some [5]) (\<lambda>_. Get 7 0 1 Ret)) (cm_new (\<lambda>b. replicate 512 0)))
   = Some ([5], (\<lambda>b. replicate 512 0)(7 := 5 # replicate 511 0))"
proof -
  have i: "cache_inv (cm_new (\<lambda>b. replicate 512 0))" and e: "evictable (cm_new (\<lambda>b. replicate 512 0))"
    by (simp_all add: cache_inv_def evictable_def cm_new_def wf_disk_def BLOCK_SZ_def BLOCK_CACHE_SIZE_def)
  let ?p = "Acc 7 0 1 (\<lambda>t. Some [5]) (\<lambda>_. Get 7 0 1 Ret)"
  have s: "sized ?p" by simp
  have v: "view (cm_new (\<lambda>b. replicate 512 0)) = (\<lambda>b. replicate 512 0)"
    by (simp add: view_def cm_new_def fun_eq_iff)
  have r: "drop (Suc 0) (replicate 512 (0 :: u8)) = replicate 511 0" by simp
  have "run disk_read disk_access ?p (\<lambda>b. replicate 512 0) = Some ([5], (\<lambda>b. replicate 512 0)(7 := 5 # replicate 511 0))"
    by (simp add: disk_access_def disk_read_def BLOCK_SZ_def splice_at_def r)
  with cache_transparent [OF i e s] v i e show ?thesis by simp
qed

subsection \<open>Write-back\<close>

lemma bc_sync_snd: "snd (bc_sync dev c) = c\<lparr>modified := False\<rparr>"
  by (simp add: bc_sync_def)

lemma bc_sync_fst: "entry_ok dev e \<Longrightarrow> fst (bc_sync dev (e_cache e)) = dev(e_id e := cache (e_cache e))"
  using bc_drop_entry by (simp add: bc_drop_def)

lemma sync_entries_snd:
  "snd (sync_entries dev es) = map (\<lambda>e. e\<lparr>e_cache := (e_cache e)\<lparr>modified := False\<rparr>\<rparr>) es"
  by (induction es arbitrary: dev) (auto simp: bc_sync_snd split: prod.splits dest: arg_cong [of _ _ snd])

lemma sync_entries_fst:
  assumes "distinct (map e_id es)" and "\<forall>e \<in> set es. entry_ok dev e"
  shows "fst (sync_entries dev es) =
    (\<lambda>b. case map_of (map (\<lambda>e. (e_id e, cache (e_cache e))) es) b of Some c \<Rightarrow> c | None \<Rightarrow> dev b)"
  using assms
proof (induction es arbitrary: dev)
  case Nil
  then show ?case by simp
next
  case (Cons e es)
  let ?dev = "dev(e_id e := cache (e_cache e))"
  have "\<forall>x \<in> set es. entry_ok ?dev x"
  proof
    fix x
    assume "x \<in> set es"
    with Cons.prems have "entry_ok dev x" and "e_id x \<noteq> e_id e" by (auto simp: image_iff)
    then show "entry_ok ?dev x" by (simp add: entry_ok_def)
  qed
  then have IH: "fst (sync_entries ?dev es) =
      (\<lambda>b. case map_of (map (\<lambda>e. (e_id e, cache (e_cache e))) es) b of Some c \<Rightarrow> c | None \<Rightarrow> ?dev b)"
    using Cons by simp
  have none: "map_of (map (\<lambda>e. (e_id e, cache (e_cache e))) es) (e_id e) = None"
    using Cons.prems(1) by (auto simp: map_of_eq_None_iff)
  have "fst (sync_entries dev (e # es)) = fst (sync_entries ?dev es)"
    using bc_sync_fst [of dev e] Cons.prems(2) by (simp add: split_def Let_def)
  with IH none show ?case by (auto simp: fun_eq_iff split: option.splits)
qed

text \<open>
  C2 (functional).  \<^verbatim>\<open>block_cache_sync_all\<close> writes every dirty block back: afterwards the device holds
  exactly what clients see, no cached block is dirty, the invariant still holds, and a cache
  started afresh on that device shows the same blocks.
\<close>

theorem sync_all_durable:
  assumes "cache_inv m"
  shows "device (block_cache_sync_all m) = view m \<and>
    view (block_cache_sync_all m) = view m \<and>
    (\<forall>e \<in> set (queue (block_cache_sync_all m)). \<not> modified (e_cache e)) \<and>
    cache_inv (block_cache_sync_all m) \<and>
    view (cm_new (device (block_cache_sync_all m))) = view m"
proof -
  let ?m = "block_cache_sync_all m"
  have d: "distinct (map e_id (queue m))" and ok: "\<forall>e \<in> set (queue m). entry_ok (device m) e"
    using assms by (auto simp: cache_inv_def)
  have q: "queue ?m = map (\<lambda>e. e\<lparr>e_cache := (e_cache e)\<lparr>modified := False\<rparr>\<rparr>) (queue m)"
    by (simp add: block_cache_sync_all_def split_def Let_def sync_entries_snd)
  have dev: "device ?m = view m"
    using sync_entries_fst [OF d ok] by (simp add: block_cache_sync_all_def split_def Let_def view_def fun_eq_iff)
  have v: "view ?m = view m"
  proof (rule view_eqI [OF d])
    show "distinct (map e_id (queue ?m))" using d q by (simp add: comp_def)
    show "cache (e_cache x) = view m (e_id x)" if "x \<in> set (queue ?m)" for x
      using that q view_in [OF d] by auto
    show "device ?m b = view m b" for b by (simp add: dev)
  qed
  have inv: "cache_inv ?m"
    using assms q dev wf_view [OF assms] view_in [OF d] by (auto simp: cache_inv_def comp_def entry_ok_def)
  have "view (cm_new (device ?m)) = view m"
    by (simp add: dev view_def cm_new_def fun_eq_iff)
  with dev v q inv show ?thesis by auto
qed

theorem sync_all_durable_witness:
  "cache_inv \<lparr>queue = [\<lparr>e_id = 3, e_cache = \<lparr>cache = replicate 512 9, block_id = 3, modified = True\<rparr>, e_refs = 0\<rparr>],
              device = (\<lambda>b. replicate 512 0)\<rparr> \<and>
   device (block_cache_sync_all
     \<lparr>queue = [\<lparr>e_id = 3, e_cache = \<lparr>cache = replicate 512 9, block_id = 3, modified = True\<rparr>, e_refs = 0\<rparr>],
      device = (\<lambda>b. replicate 512 0)\<rparr>) 3 = replicate 512 9"
proof -
  have i: "cache_inv \<lparr>queue = [\<lparr>e_id = 3, e_cache = \<lparr>cache = replicate 512 9, block_id = 3, modified = True\<rparr>, e_refs = 0\<rparr>],
              device = (\<lambda>b. replicate 512 0)\<rparr>"
    by (simp add: cache_inv_def entry_ok_def wf_disk_def BLOCK_SZ_def BLOCK_CACHE_SIZE_def)
  from sync_all_durable [OF i] i show ?thesis by (simp add: view_def)
qed

subsection \<open>Block access on the visible disk\<close>

text \<open>
  The layers above are written over the visible disk, which the refinement above justifies.  A
  \<^verbatim>\<open>modify\<close> or \<^verbatim>\<open>read\<close> runs its closure while the block's spin lock is held; a closure that takes the
  same lock again never returns.  \<open>with_block\<close> therefore carries the list of held blocks and gives
  \<^term>\<open>None\<close> on a second acquisition.
\<close>

definition with_block :: "nat list \<Rightarrow> disk \<Rightarrow> nat \<Rightarrow> nat \<Rightarrow> nat \<Rightarrow>
    (nat list \<Rightarrow> disk \<Rightarrow> u8 list \<Rightarrow> ('v \<times> disk \<times> u8 list) option) \<Rightarrow> ('v \<times> disk) option" where
  "with_block held d b offset type_size f =
     do { rassert (b \<notin> set held);
          rassert (offset + type_size \<le> BLOCK_SZ);
          rassert (offset < BLOCK_SZ);
          (v, d', t') \<leftarrow> f (b # held) d (take type_size (drop offset (d b)));
          Some (v, d'(b := splice_at (d' b) offset t')) }"

definition blk_modify :: "nat list \<Rightarrow> disk \<Rightarrow> nat \<Rightarrow> nat \<Rightarrow> nat \<Rightarrow>
    (u8 list \<Rightarrow> ('v \<times> u8 list) option) \<Rightarrow> ('v \<times> disk) option" where
  "blk_modify held d b offset type_size f =
     with_block held d b offset type_size (\<lambda>_ d t. map_option (\<lambda>(v, t'). (v, d, t')) (f t))"

definition blk_read :: "nat list \<Rightarrow> disk \<Rightarrow> nat \<Rightarrow> nat \<Rightarrow> nat \<Rightarrow> (u8 list \<Rightarrow> 'v option) \<Rightarrow> 'v option" where
  "blk_read held d b offset type_size f =
     do { rassert (b \<notin> set held);
          rassert (offset + type_size \<le> BLOCK_SZ);
          rassert (offset < BLOCK_SZ);
          f (take type_size (drop offset (d b))) }"

lemma blk_modify_access:
  "map_option snd (blk_modify [] d b off sz f) = map_option snd (disk_access d b off sz (\<lambda>t. map_option snd (f t)))"
  by (cases "f (take sz (drop off (d b)))") (auto simp: blk_modify_def with_block_def disk_access_def rassert_def)

lemma blk_modify_whole:
  assumes "wf_disk d" and "b \<notin> set held"
  shows "blk_modify held d b 0 BLOCK_SZ f =
    (case f (d b) of None \<Rightarrow> None | Some (v, t') \<Rightarrow> Some (v, d(b := t' @ drop (length t') (d b))))"
  using assms by (auto simp: blk_modify_def with_block_def BLOCK_SZ_def splice_at_def wf_disk_def split: option.splits)

lemma blk_read_whole:
  "wf_disk d \<Longrightarrow> b \<notin> set held \<Longrightarrow> blk_read held d b 0 BLOCK_SZ f = f (d b)"
  by (simp add: blk_read_def BLOCK_SZ_def wf_disk_def)

end
