(* ===== verification/Bitmap.thy ===== *)
theory Bitmap
  imports Block_Cache Allocators
begin

unbundle bit_operations_syntax

text \<open>
  The allocation bitmaps of easy-fs (easy-fs/src/bitmap.rs).  A bitmap occupies \<open>blocks\<close> blocks of
  the disk, each a \<^verbatim>\<open>[u64; 64]\<close>; bit \<open>n\<close> of the bitmap is bit \<open>n mod 64\<close> of one of these words.

  \<open>bm_alloc_spec\<close> and \<open>bm_dealloc_spec\<close> give the exact effect on the bits and the frame (no other
  block changes), and the interpretation \<open>bitmap\<close> shows that a bitmap on disk is an
  \<open>id_allocator\<close>.
\<close>

definition BLOCK_BITS :: nat where
  "BLOCK_BITS = BLOCK_SZ * 8"

record Bitmap =
  start_block_id :: nat
  blocks :: nat

definition decomposition :: "nat \<Rightarrow> nat \<times> nat \<times> nat" where
  "decomposition n = (let block_pos = n div BLOCK_BITS; n = n mod BLOCK_BITS in (block_pos, n div 64, n mod 64))"

definition bm_new :: "nat \<Rightarrow> nat \<Rightarrow> Bitmap" where
  "bm_new s n = \<lparr>start_block_id = s, blocks = n\<rparr>"

definition bm_maximum :: "Bitmap \<Rightarrow> nat" where
  "bm_maximum bm = blocks bm * BLOCK_BITS"

text \<open>The block as \<^verbatim>\<open>[u64; 64]\<close>: element access, and \<^verbatim>\<open>u64::trailing_ones\<close>.\<close>

definition get_u64 :: "u8 list \<Rightarrow> nat \<Rightarrow> u64" where
  "get_u64 t i = word_of_nat (get_le 8 t i)"

definition set_u64 :: "u8 list \<Rightarrow> nat \<Rightarrow> u64 \<Rightarrow> u8 list" where
  "set_u64 t i w = set_le 8 t i (unat w)"

definition trailing_ones :: "u64 \<Rightarrow> nat" where
  "trailing_ones w = length (takeWhile (bit w) [0..<64])"

definition bm_alloc_block :: "nat \<Rightarrow> u8 list \<Rightarrow> (nat option \<times> u8 list) option" where
  "bm_alloc_block bid t =
     (case find_idx (\<lambda>i. get_u64 t i \<noteq> - 1) [0..<64] of
        Some bits64_pos \<Rightarrow>
          (let inner_pos = trailing_ones (get_u64 t bits64_pos)
           in Some (Some (bid * BLOCK_BITS + bits64_pos * 64 + inner_pos),
                    set_u64 t bits64_pos (get_u64 t bits64_pos OR push_bit inner_pos 1)))
      | None \<Rightarrow> Some (None, t))"

fun bm_alloc_loop :: "nat list \<Rightarrow> disk \<Rightarrow> Bitmap \<Rightarrow> nat list \<Rightarrow> (nat option \<times> disk) option" where
  "bm_alloc_loop held d bm [] = Some (None, d)"
| "bm_alloc_loop held d bm (bid # rest) =
     do { (pos, d') \<leftarrow> blk_modify held d (bid + start_block_id bm) 0 BLOCK_SZ (bm_alloc_block bid);
          if pos \<noteq> None then Some (pos, d') else bm_alloc_loop held d' bm rest }"

definition bm_alloc :: "nat list \<Rightarrow> disk \<Rightarrow> Bitmap \<Rightarrow> (nat option \<times> disk) option" where
  "bm_alloc held d bm = bm_alloc_loop held d bm [0..<blocks bm]"

definition bm_dealloc_block :: "nat \<Rightarrow> nat \<Rightarrow> u8 list \<Rightarrow> (unit \<times> u8 list) option" where
  "bm_dealloc_block bits64_pos inner_pos t =
     do { rassert (get_u64 t bits64_pos AND push_bit inner_pos 1 > 0);
          Some ((), set_u64 t bits64_pos (get_u64 t bits64_pos - push_bit inner_pos 1)) }"

definition bm_dealloc :: "nat list \<Rightarrow> disk \<Rightarrow> Bitmap \<Rightarrow> nat \<Rightarrow> disk option" where
  "bm_dealloc held d bm n =
     (let (block_pos, bits64_pos, inner_pos) = decomposition n
      in map_option snd
           (blk_modify held d (block_pos + start_block_id bm) 0 BLOCK_SZ (bm_dealloc_block bits64_pos inner_pos)))"

subsection \<open>Bits of a block\<close>

definition blk_bit :: "u8 list \<Rightarrow> nat \<Rightarrow> bool" where
  "blk_bit t k = bit (get_u64 t (k div 64)) (k mod 64)"

definition bm_bit :: "disk \<Rightarrow> Bitmap \<Rightarrow> nat \<Rightarrow> bool" where
  "bm_bit d bm n = blk_bit (d (n div BLOCK_BITS + start_block_id bm)) (n mod BLOCK_BITS)"

definition bm_blocks :: "Bitmap \<Rightarrow> nat set" where
  "bm_blocks bm = {start_block_id bm..<start_block_id bm + blocks bm}"

lemma unat_u64_lt: "unat (w :: u64) < 256 ^ 8"
  using unsigned_less [of w] by simp

lemma length_set_u64 [simp]: "length t = BLOCK_SZ \<Longrightarrow> i < 64 \<Longrightarrow> length (set_u64 t i w) = BLOCK_SZ"
  by (simp add: set_u64_def BLOCK_SZ_def)

lemma get_set_u64_same: "length t = BLOCK_SZ \<Longrightarrow> i < 64 \<Longrightarrow> get_u64 (set_u64 t i w) i = w"
  using unat_u64_lt [of w] by (simp add: get_u64_def set_u64_def BLOCK_SZ_def get_set_le_same)

lemma get_set_u64_other:
  "length t = BLOCK_SZ \<Longrightarrow> i < 64 \<Longrightarrow> j < 64 \<Longrightarrow> i \<noteq> j \<Longrightarrow> get_u64 (set_u64 t i w) j = get_u64 t j"
  by (simp add: get_u64_def set_u64_def BLOCK_SZ_def get_set_le_other)

lemma takeWhile_upt:
  fixes n :: nat and P :: "nat \<Rightarrow> bool"
  defines "k \<equiv> length (takeWhile P [0..<n])"
  shows "k \<le> n" and "k < n \<Longrightarrow> \<not> P k" and "j < k \<Longrightarrow> P j"
proof -
  show n: "k \<le> n"
    using length_takeWhile_le [of P "[0..<n]"] by (simp add: k_def)
  show "\<not> P k" if "k < n"
    using that nth_length_takeWhile [of P "[0..<n]"] by (simp add: k_def)
  show "P j" if j: "j < k"
  proof -
    have "takeWhile P [0..<n] ! j = [0..<n] ! j"
      using j by (simp add: k_def takeWhile_nth)
    then have "j \<in> set (takeWhile P [0..<n])"
      using j n nth_mem [of j "takeWhile P [0..<n]"] by (simp add: k_def)
    then show ?thesis by (blast dest: set_takeWhileD)
  qed
qed

lemma trailing_ones_spec:
  assumes "w \<noteq> - 1"
  shows "trailing_ones w < 64" and "\<not> bit w (trailing_ones w)" and "j < trailing_ones w \<Longrightarrow> bit w j"
proof -
  obtain i where i: "i < 64" "\<not> bit w i"
    using assms bit_eqI [of w "- 1"] by (auto simp: bit_minus_1_iff)
  have le: "trailing_ones w \<le> 64"
    unfolding trailing_ones_def by (rule takeWhile_upt(1))
  have ones: "bit w j" if "j < trailing_ones w" for j
    using that unfolding trailing_ones_def by (rule takeWhile_upt(3))
  have stop: "\<not> bit w (trailing_ones w)" if "trailing_ones w < 64"
    using that unfolding trailing_ones_def by (rule takeWhile_upt(2))
  have "\<not> i < trailing_ones w" using ones i by blast
  with i show n: "trailing_ones w < 64" by linarith
  show "\<not> bit w (trailing_ones w)" using stop n by blast
  show "j < trailing_ones w \<Longrightarrow> bit w j" by (rule ones)
qed

lemma find_idx_upt:
  "find_idx p [0..<n] = Some i \<longleftrightarrow> i < n \<and> p i \<and> (\<forall>j < i. \<not> p j)"
  by (auto simp: find_idx_Some)

lemma find_idx_upt_None: "find_idx p [0..<n] = None \<longleftrightarrow> (\<forall>j < n. \<not> p j)"
  by (auto simp: find_idx_None)

lemma blk_bit_set:
  assumes "length t = BLOCK_SZ" and "i < 64" and "k < BLOCK_BITS"
  shows "blk_bit (set_u64 t i w) k = (if k div 64 = i then bit w (k mod 64) else blk_bit t k)"
proof -
  have "k div 64 < 64" using assms(3) by (simp add: BLOCK_BITS_def BLOCK_SZ_def)
  with assms show ?thesis by (auto simp: blk_bit_def get_set_u64_same get_set_u64_other)
qed

lemma bit_push_one: "bit (push_bit n 1 :: u64) j \<longleftrightarrow> j = n \<and> n < 64"
  by (auto simp: bit_exp_iff)

lemma bit_or_push: "n < 64 \<Longrightarrow> bit (w OR push_bit n 1 :: u64) j \<longleftrightarrow> j = n \<or> bit w j"
  unfolding bit_or_iff bit_push_one by auto

lemma bit_minus_push:
  assumes "bit w n"
  shows "bit (w - push_bit n 1 :: u64) j \<longleftrightarrow> j \<noteq> n \<and> bit w j"
proof -
  have "w - push_bit n 1 = unset_bit n w"
    using assms by (simp add: unset_bit_eq)
  then show ?thesis by (auto simp: bit_unset_bit_iff)
qed

lemma and_push_pos:
  assumes "n < 64"
  shows "(0 < (w AND push_bit n 1 :: u64)) \<longleftrightarrow> bit w n"
proof (cases "bit w n")
  case True
  have "bit (w AND push_bit n 1) n" unfolding bit_and_iff bit_push_one using True assms by blast
  then have "w AND push_bit n 1 \<noteq> 0" by (metis bit_0_eq bot_apply bot_bool_def)
  then show ?thesis using True by (simp only: word_gt_0 simp_thms)
next
  case False
  have "w AND push_bit n 1 = 0"
  proof (rule bit_eqI)
    fix j
    show "bit (w AND push_bit n 1) j = bit 0 j"
      unfolding bit_and_iff bit_push_one bit_0_eq bot_apply bot_bool_def using False by blast
  qed
  then show ?thesis using False by (simp only: word_gt_0 simp_thms)
qed

subsection \<open>Allocation and deallocation inside one block\<close>

lemma BLOCK_BITS_4096: "BLOCK_BITS = 4096"
  by (simp add: BLOCK_BITS_def BLOCK_SZ_def)

lemma word_full_iff: "get_u64 t i = - 1 \<longleftrightarrow> (\<forall>j < 64. blk_bit t (i * 64 + j))"
proof -
  have "get_u64 t i = - 1 \<longleftrightarrow> (\<forall>j < 64. bit (get_u64 t i) j)"
    using bit_eqI [of "get_u64 t i" "- 1"] by (auto simp: bit_minus_1_iff)
  then show ?thesis by (simp add: blk_bit_def)
qed

lemma alloc_block_full:
  assumes "\<forall>k < BLOCK_BITS. blk_bit t k"
  shows "bm_alloc_block b t = Some (None, t)"
proof -
  have "get_u64 t i = - 1" if "i < 64" for i
    using assms that by (auto simp: word_full_iff BLOCK_BITS_4096)
  then have "find_idx (\<lambda>i. get_u64 t i \<noteq> - 1) [0..<64] = None"
    unfolding find_idx_upt_None by blast
  then show ?thesis by (simp add: bm_alloc_block_def del: upt_Suc)
qed

lemma alloc_block_free:
  assumes len: "length t = BLOCK_SZ" and "\<exists>k < BLOCK_BITS. \<not> blk_bit t k"
  shows "\<exists>k t'. bm_alloc_block b t = Some (Some (b * BLOCK_BITS + k), t') \<and> k < BLOCK_BITS \<and> \<not> blk_bit t k \<and>
    (\<forall>j < k. blk_bit t j) \<and> length t' = BLOCK_SZ \<and> (\<forall>j < BLOCK_BITS. blk_bit t' j = (j = k \<or> blk_bit t j))"
proof -
  from assms(2) obtain m where m: "m < 4096" "\<not> blk_bit t m" by (auto simp: BLOCK_BITS_4096)
  have "\<not> (\<forall>j < 64. get_u64 t j = - 1)"
  proof
    assume "\<forall>j < 64. get_u64 t j = - 1"
    with m have "get_u64 t (m div 64) = - 1" by (simp add: less_mult_imp_div_less)
    with m show False by (auto simp: word_full_iff dest: spec [of _ "m mod 64"])
  qed
  then have "find_idx (\<lambda>i. get_u64 t i \<noteq> - 1) [0..<64] \<noteq> None"
    unfolding find_idx_upt_None by blast
  then obtain i where find: "find_idx (\<lambda>i. get_u64 t i \<noteq> - 1) [0..<64] = Some i" by blast
  then have i: "i < 64" "get_u64 t i \<noteq> - 1" "\<And>j. j < i \<Longrightarrow> get_u64 t j = - 1"
    unfolding find_idx_upt by auto
  define n where "n = trailing_ones (get_u64 t i)"
  note n = trailing_ones_spec [OF i(2), folded n_def]
  let ?w = "get_u64 t i OR push_bit n 1"
  let ?k = "i * 64 + n"
  have k: "?k < BLOCK_BITS" "?k div 64 = i" "?k mod 64 = n"
    using i n(1) by (auto simp: BLOCK_BITS_4096)
  have eq: "bm_alloc_block b t = Some (Some (b * BLOCK_BITS + ?k), set_u64 t i ?w)"
    using find by (simp add: bm_alloc_block_def n_def Let_def del: upt_Suc)
  have low: "blk_bit t j" if "j < ?k" for j
  proof (cases "j div 64 = i")
    case True
    have "j mod 64 < n" using that True by presburger
    with True show ?thesis using n(3) by (simp add: blk_bit_def)
  next
    case False
    have "j div 64 < i" using that False n(1) by auto
    then show ?thesis using i(3) [of "j div 64"] by (auto simp: word_full_iff dest: spec [of _ "j mod 64"])
  qed
  have "blk_bit (set_u64 t i ?w) j = (j = ?k \<or> blk_bit t j)" if j: "j < BLOCK_BITS" for j
  proof (cases "j div 64 = i")
    case True
    have "bit ?w (j mod 64) \<longleftrightarrow> j mod 64 = n \<or> bit (get_u64 t i) (j mod 64)"
      using n(1) by (rule bit_or_push)
    moreover have "j mod 64 = n \<longleftrightarrow> j = ?k" using True n(1) by (metis k(2,3) div_mult_mod_eq)
    ultimately show ?thesis using True blk_bit_set [OF len i(1) j] by (simp add: blk_bit_def)
  next
    case False
    then show ?thesis using blk_bit_set [OF len i(1) j] k by auto
  qed
  moreover have "\<not> blk_bit t ?k" using n(2) k by (simp add: blk_bit_def)
  ultimately show ?thesis using eq k(1) low len i(1) by (metis length_set_u64)
qed

lemma dealloc_block:
  assumes len: "length t = BLOCK_SZ" and k: "k < BLOCK_BITS"
  shows "(case bm_dealloc_block (k div 64) (k mod 64) t of
      None \<Rightarrow> \<not> blk_bit t k
    | Some (_, t') \<Rightarrow> blk_bit t k \<and> length t' = BLOCK_SZ \<and>
        (\<forall>j < BLOCK_BITS. blk_bit t' j = (j \<noteq> k \<and> blk_bit t j)))"
proof -
  have i: "k div 64 < 64" using k by (simp add: BLOCK_BITS_4096)
  have g: "(0 < get_u64 t (k div 64) AND push_bit (k mod 64) 1) = blk_bit t k"
    unfolding blk_bit_def by (rule and_push_pos) simp
  show ?thesis
  proof (cases "blk_bit t k")
    case False
    then show ?thesis unfolding bm_dealloc_block_def g by simp
  next
    case True
    let ?w = "get_u64 t (k div 64) - push_bit (k mod 64) 1"
    have "blk_bit (set_u64 t (k div 64) ?w) j = (j \<noteq> k \<and> blk_bit t j)" if j: "j < BLOCK_BITS" for j
    proof (cases "j div 64 = k div 64")
      case eq: True
      have "bit ?w (j mod 64) = (j mod 64 \<noteq> k mod 64 \<and> bit (get_u64 t (k div 64)) (j mod 64))"
        using True by (intro bit_minus_push) (simp add: blk_bit_def)
      moreover have "j mod 64 = k mod 64 \<longleftrightarrow> j = k" using eq by (metis div_mult_mod_eq)
      ultimately show ?thesis using eq blk_bit_set [OF len i j] by (simp add: blk_bit_def)
    next
      case False
      then show ?thesis using blk_bit_set [OF len i j] by auto
    qed
    with True len i show ?thesis unfolding bm_dealloc_block_def g by simp
  qed
qed

subsection \<open>The bitmap on disk\<close>

lemma blk_modify_block:
  assumes "wf_disk d" and "b \<notin> set held" and "f (d b) = Some (v, t')" and "length t' = BLOCK_SZ"
  shows "blk_modify held d b 0 BLOCK_SZ f = Some (v, d(b := t'))" and "wf_disk (d(b := t'))"
  using assms blk_modify_whole [OF assms(1,2), of f] by (auto simp: wf_disk_def)

lemma bm_bit_upd:
  assumes "j < bm_maximum bm" and "b < blocks bm"
  shows "bm_bit (d(b + start_block_id bm := t)) bm j =
    (if j div BLOCK_BITS = b then blk_bit t (j mod BLOCK_BITS) else bm_bit d bm j)"
  by (auto simp: bm_bit_def)

definition bm_alloc_ok :: "disk \<Rightarrow> Bitmap \<Rightarrow> nat option \<Rightarrow> disk \<Rightarrow> bool" where
  "bm_alloc_ok d bm r d' \<longleftrightarrow> (case r of
      None \<Rightarrow> d' = d \<and> (\<forall>j < bm_maximum bm. bm_bit d bm j)
    | Some n \<Rightarrow> n < bm_maximum bm \<and> \<not> bm_bit d bm n \<and> (\<forall>j < n. bm_bit d bm j) \<and>
        (\<forall>j < bm_maximum bm. bm_bit d' bm j = (j = n \<or> bm_bit d bm j)) \<and>
        (\<forall>b. b \<notin> bm_blocks bm \<longrightarrow> d' b = d b) \<and> wf_disk d')"

lemma bits_below:
  "(\<forall>j < a * BLOCK_BITS. bm_bit d bm j) \<Longrightarrow> (\<forall>k < BLOCK_BITS. blk_bit (d (a + start_block_id bm)) k) \<Longrightarrow>
     \<forall>j < Suc a * BLOCK_BITS. bm_bit d bm j"
proof (intro allI impI)
  fix j
  assume low: "\<forall>j < a * BLOCK_BITS. bm_bit d bm j"
    and blk: "\<forall>k < BLOCK_BITS. blk_bit (d (a + start_block_id bm)) k"
    and j: "j < Suc a * BLOCK_BITS"
  show "bm_bit d bm j"
  proof (cases "j < a * BLOCK_BITS")
    case True
    with low show ?thesis by blast
  next
    case False
    with j have "j div BLOCK_BITS = a" by (simp add: BLOCK_BITS_4096)
    with blk show ?thesis by (simp add: bm_bit_def BLOCK_BITS_4096)
  qed
qed

lemma bm_alloc_loop_spec:
  assumes wf: "wf_disk d" and free: "\<forall>b \<in> bm_blocks bm. b \<notin> set held" and "a \<le> blocks bm"
    and "\<forall>j < a * BLOCK_BITS. bm_bit d bm j"
  shows "\<exists>r d'. bm_alloc_loop held d bm [a..<blocks bm] = Some (r, d') \<and> bm_alloc_ok d bm r d'"
  using assms(3,4)
proof (induction "blocks bm - a" arbitrary: a)
  case 0
  then show ?case by (auto simp: bm_alloc_ok_def bm_maximum_def)
next
  case (Suc x)
  then have a: "a < blocks bm" and up: "[a..<blocks bm] = a # [Suc a..<blocks bm]"
    by (auto simp: upt_rec)
  let ?b = "a + start_block_id bm"
  have nh: "?b \<notin> set held" using free a by (auto simp: bm_blocks_def)
  have len: "length (d ?b) = BLOCK_SZ" using wf by simp
  show ?case
  proof (cases "\<forall>k < BLOCK_BITS. blk_bit (d ?b) k")
    case True
    have m: "blk_modify held d ?b 0 BLOCK_SZ (bm_alloc_block a) = Some (None, d)"
      using blk_modify_block [where f = "bm_alloc_block a", OF wf nh alloc_block_full [OF True] len] by simp
    have "\<exists>r d'. bm_alloc_loop held d bm [Suc a..<blocks bm] = Some (r, d') \<and> bm_alloc_ok d bm r d'"
      using Suc.hyps(1) [of "Suc a"] Suc.hyps(2) a bits_below [OF Suc.prems(2) True] by simp
    then show ?thesis using m up by simp
  next
    case False
    then obtain k t' where k: "bm_alloc_block a (d ?b) = Some (Some (a * BLOCK_BITS + k), t')" "k < BLOCK_BITS"
      "\<not> blk_bit (d ?b) k" "\<forall>j < k. blk_bit (d ?b) j" "length t' = BLOCK_SZ"
      "\<forall>j < BLOCK_BITS. blk_bit t' j = (j = k \<or> blk_bit (d ?b) j)"
      using alloc_block_free [OF len, of a] by blast
    let ?n = "a * BLOCK_BITS + k"
    have m: "blk_modify held d ?b 0 BLOCK_SZ (bm_alloc_block a) = Some (Some ?n, d(?b := t'))"
      and wf': "wf_disk (d(?b := t'))"
      using blk_modify_block [where f = "bm_alloc_block a", OF wf nh k(1,5)] by auto
    have n: "?n div BLOCK_BITS = a" "?n mod BLOCK_BITS = k" using k(2) by (auto simp: BLOCK_BITS_4096)
    have max: "?n < bm_maximum bm"
    proof -
      have "Suc a * BLOCK_BITS \<le> blocks bm * BLOCK_BITS" using a by (intro mult_le_mono1) simp
      with k(2) show ?thesis by (simp add: bm_maximum_def)
    qed
    have "bm_bit d bm j" if "j < ?n" for j
    proof (cases "j < a * BLOCK_BITS")
      case True
      with Suc.prems(2) show ?thesis by blast
    next
      case False
      then obtain i where i: "j = a * BLOCK_BITS + i" by (metis le_add_diff_inverse linorder_not_less)
      with that have "i < k" by simp
      with k(2,4) i show ?thesis by (simp add: bm_bit_def BLOCK_BITS_4096)
    qed
    moreover have "bm_bit (d(?b := t')) bm j = (j = ?n \<or> bm_bit d bm j)" if "j < bm_maximum bm" for j
    proof -
      have "j mod BLOCK_BITS = k \<and> j div BLOCK_BITS = a \<longleftrightarrow> j = ?n"
        using n by (metis div_mult_mod_eq mult.commute)
      then show ?thesis using k(6) bm_bit_upd [OF that a] by (auto simp: bm_bit_def BLOCK_BITS_4096)
    qed
    moreover have "\<not> bm_bit d bm ?n" using k(3) n by (simp add: bm_bit_def)
    moreover have "\<forall>b. b \<notin> bm_blocks bm \<longrightarrow> (d(?b := t')) b = d b"
      using a by (auto simp: bm_blocks_def)
    ultimately have "bm_alloc_ok d bm (Some ?n) (d(?b := t'))"
      using max wf' by (simp add: bm_alloc_ok_def)
    with m up show ?thesis by simp
  qed
qed

text \<open>
  C28 (functional).  \<^verbatim>\<open>Bitmap::alloc\<close> never panics on a well-formed disk whose bitmap blocks are not
  locked: it returns the least clear bit, sets exactly that bit and touches no block outside the
  bitmap; it returns \<^verbatim>\<open>None\<close>, and changes nothing, exactly when every bit is set.
\<close>

theorem bm_alloc_spec:
  assumes "wf_disk d" and "\<forall>b \<in> bm_blocks bm. b \<notin> set held"
  shows "\<exists>r d'. bm_alloc held d bm = Some (r, d') \<and>
    (case r of
      None \<Rightarrow> d' = d \<and> (\<forall>j < bm_maximum bm. bm_bit d bm j)
    | Some n \<Rightarrow> n < bm_maximum bm \<and> \<not> bm_bit d bm n \<and> (\<forall>j < n. bm_bit d bm j) \<and>
        (\<forall>j < bm_maximum bm. bm_bit d' bm j = (j = n \<or> bm_bit d bm j)) \<and>
        (\<forall>b. b \<notin> bm_blocks bm \<longrightarrow> d' b = d b) \<and> wf_disk d')"
  using bm_alloc_loop_spec [OF assms, of 0] unfolding bm_alloc_def bm_alloc_ok_def by simp

lemma zero_disk_bits: "\<not> bm_bit (\<lambda>b. replicate 512 0) bm n"
proof -
  have "get_u64 (replicate 512 0) i = 0" for i
    by (simp add: get_u64_def get_le_def)
  then show ?thesis by (simp add: bm_bit_def blk_bit_def)
qed

theorem bm_alloc_spec_witness:
  "wf_disk (\<lambda>b. replicate 512 0) \<and> bm_blocks \<lparr>start_block_id = 1, blocks = 2\<rparr> \<inter> set [5] = {} \<and>
   (\<exists>d'. bm_alloc [5] (\<lambda>b. replicate 512 0) \<lparr>start_block_id = 1, blocks = 2\<rparr> = Some (Some 0, d') \<and>
         bm_bit d' \<lparr>start_block_id = 1, blocks = 2\<rparr> 0 \<and> \<not> bm_bit d' \<lparr>start_block_id = 1, blocks = 2\<rparr> 1)"
proof -
  let ?d = "\<lambda>b :: nat. replicate 512 (0 :: u8)" and ?bm = "\<lparr>start_block_id = 1, blocks = 2\<rparr>"
  have wf: "wf_disk ?d" by (simp add: wf_disk_def BLOCK_SZ_def)
  have h: "\<forall>b \<in> bm_blocks ?bm. b \<notin> set [5]" by (auto simp: bm_blocks_def)
  have m: "bm_maximum ?bm = 8192" by (simp add: bm_maximum_def BLOCK_BITS_4096)
  obtain r d' where r: "bm_alloc [5] ?d ?bm = Some (r, d')"
    "case r of None \<Rightarrow> d' = ?d \<and> (\<forall>j < bm_maximum ?bm. bm_bit ?d ?bm j)
     | Some n \<Rightarrow> n < bm_maximum ?bm \<and> \<not> bm_bit ?d ?bm n \<and> (\<forall>j < n. bm_bit ?d ?bm j) \<and>
        (\<forall>j < bm_maximum ?bm. bm_bit d' ?bm j = (j = n \<or> bm_bit ?d ?bm j)) \<and>
        (\<forall>b. b \<notin> bm_blocks ?bm \<longrightarrow> d' b = ?d b) \<and> wf_disk d'"
    using bm_alloc_spec [OF wf h] by blast
  have "r = Some 0" using r(2) m by (auto simp: zero_disk_bits split: option.splits dest: spec [of _ 0])
  with r wf m show ?thesis by (auto simp: zero_disk_bits bm_blocks_def)
qed

lemma bm_dealloc_step:
  assumes wf: "wf_disk d" and "\<forall>b \<in> bm_blocks bm. b \<notin> set held" and n: "n < bm_maximum bm"
  shows "(case bm_dealloc held d bm n of
      None \<Rightarrow> \<not> bm_bit d bm n
    | Some d' \<Rightarrow> bm_bit d bm n \<and> wf_disk d' \<and> (\<forall>b. b \<notin> bm_blocks bm \<longrightarrow> d' b = d b) \<and>
        (\<forall>j < bm_maximum bm. bm_bit d' bm j = (j \<noteq> n \<and> bm_bit d bm j)))"
proof -
  define a k where "a = n div BLOCK_BITS" and "k = n mod BLOCK_BITS"
  have a: "a < blocks bm" using n by (simp add: a_def bm_maximum_def less_mult_imp_div_less)
  have k: "k < BLOCK_BITS" by (simp add: k_def BLOCK_BITS_4096)
  let ?b = "a + start_block_id bm"
  have nh: "?b \<notin> set held" using assms(2) a by (auto simp: bm_blocks_def)
  have len: "length (d ?b) = BLOCK_SZ" using wf by simp
  have call: "bm_dealloc held d bm n = map_option snd (blk_modify held d ?b 0 BLOCK_SZ (bm_dealloc_block (k div 64) (k mod 64)))"
    by (simp add: bm_dealloc_def decomposition_def a_def k_def Let_def)
  note blk = dealloc_block [OF len k]
  have bit: "bm_bit d bm n = blk_bit (d ?b) k" by (simp add: bm_bit_def a_def k_def)
  show ?thesis
  proof (cases "bm_dealloc_block (k div 64) (k mod 64) (d ?b)")
    case None
    then have "blk_modify held d ?b 0 BLOCK_SZ (bm_dealloc_block (k div 64) (k mod 64)) = None"
      using blk_modify_whole [OF wf nh, of "bm_dealloc_block (k div 64) (k mod 64)"] by simp
    with None blk bit call show ?thesis by simp
  next
    case (Some r)
    then obtain t' where r: "bm_dealloc_block (k div 64) (k mod 64) (d ?b) = Some ((), t')" by (cases r) auto
    with blk have t': "blk_bit (d ?b) k" "length t' = BLOCK_SZ" "\<forall>j < BLOCK_BITS. blk_bit t' j = (j \<noteq> k \<and> blk_bit (d ?b) j)"
      by auto
    have m: "bm_dealloc held d bm n = Some (d(?b := t'))" and wf': "wf_disk (d(?b := t'))"
      using call blk_modify_block [where f = "bm_dealloc_block (k div 64) (k mod 64)", OF wf nh r t'(2)] by auto
    have "bm_bit (d(?b := t')) bm j = (j \<noteq> n \<and> bm_bit d bm j)" if "j < bm_maximum bm" for j
    proof -
      have "j mod BLOCK_BITS = k \<and> j div BLOCK_BITS = a \<longleftrightarrow> j = n"
        unfolding a_def k_def by (metis div_mult_mod_eq)
      then show ?thesis using t'(3) bm_bit_upd [OF that a] by (auto simp: bm_bit_def BLOCK_BITS_4096)
    qed
    moreover have "\<forall>b. b \<notin> bm_blocks bm \<longrightarrow> (d(?b := t')) b = d b"
      using a by (auto simp: bm_blocks_def)
    ultimately show ?thesis using m wf' t'(1) bit by simp
  qed
qed

subsection \<open>A bitmap is an identifier allocator\<close>

definition bm_take :: "Bitmap \<Rightarrow> disk \<Rightarrow> (nat \<times> disk) option" where
  "bm_take bm d = (case bm_alloc [] d bm of Some (Some n, d') \<Rightarrow> Some (n, d') | _ \<Rightarrow> None)"

definition bm_used :: "Bitmap \<Rightarrow> disk \<Rightarrow> nat set" where
  "bm_used bm d = {n. n < bm_maximum bm \<and> bm_bit d bm n}"

lemma bm_take_Some:
  assumes "wf_disk d" and "bm_take bm d = Some (n, d')"
  shows "bm_alloc_ok d bm (Some n) d'"
  using bm_alloc_loop_spec [of d bm "[]" 0] assms
  by (auto simp: bm_take_def bm_alloc_def split: option.splits)

interpretation bitmap: id_allocator wf_disk "\<lambda>_ _. True" "{..<bm_maximum bm}" "bm_used bm" "bm_take bm" "\<lambda>d. bm_dealloc [] d bm"
  for bm
proof
  fix d d' n
  assume wf: "wf_disk d"
  {
    assume t: "bm_take bm d = Some (n, d')"
    note ok = bm_take_Some [OF wf t]
    show "n \<in> {..<bm_maximum bm} - bm_used bm d" using ok by (simp add: bm_alloc_ok_def bm_used_def)
    show "bm_used bm d' = insert n (bm_used bm d)" using ok by (auto simp: bm_alloc_ok_def bm_used_def)
    show "wf_disk d'" using ok by (simp add: bm_alloc_ok_def)
  }
  assume "n \<in> {..<bm_maximum bm}"
  then have n: "n < bm_maximum bm" by simp
  have h: "\<forall>b \<in> bm_blocks bm. b \<notin> set []" by simp
  note step = bm_dealloc_step [OF wf h n]
  show "(\<exists>d'. bm_dealloc [] d bm n = Some d') \<longleftrightarrow> n \<in> bm_used bm d"
    using step n by (auto simp: bm_used_def split: option.splits)
  {
    assume "bm_dealloc [] d bm n = Some d'"
    with step show "bm_used bm d' = bm_used bm d - {n}" and "wf_disk d'"
      by (auto simp: bm_used_def)
  }
qed simp_all

text \<open>
  C29 (roundtrip).  Giving a freshly allocated bit back succeeds and restores every bit of the bitmap;
  giving it back a second time panics.
\<close>

theorem bm_alloc_dealloc:
  assumes "wf_disk d" and "bm_alloc [] d bm = Some (Some n, d1)"
  shows "\<exists>d2. bm_dealloc [] d1 bm n = Some d2 \<and> (\<forall>j < bm_maximum bm. bm_bit d2 bm j = bm_bit d bm j) \<and>
    bm_dealloc [] d2 bm n = None"
proof -
  have t: "bm_take bm d = Some (n, d1)" using assms(2) by (simp add: bm_take_def)
  have wf1: "wf_disk d1" and n: "n \<in> {..<bm_maximum bm}"
    using bitmap.alloc_inv [OF assms(1) TrueI t] bitmap.alloc_fresh [OF assms(1) TrueI t] by auto
  obtain d2 where d2: "bm_dealloc [] d1 bm n = Some d2" "bm_used bm d2 = bm_used bm d"
    using bitmap.alloc_then_dealloc [OF assms(1) TrueI t] by blast
  have "bm_bit d2 bm j = bm_bit d bm j" if "j < bm_maximum bm" for j
    using d2(2) that by (auto simp: bm_used_def set_eq_iff)
  with d2(1) bitmap.dealloc_twice_panics [OF wf1 n d2(1)] show ?thesis by blast
qed

theorem bm_alloc_dealloc_witness:
  "\<exists>d1 d2. bm_alloc [] (\<lambda>b. replicate 512 0) \<lparr>start_block_id = 1, blocks = 1\<rparr> = Some (Some 0, d1) \<and>
     bm_dealloc [] d1 \<lparr>start_block_id = 1, blocks = 1\<rparr> 0 = Some d2 \<and>
     bm_dealloc [] d2 \<lparr>start_block_id = 1, blocks = 1\<rparr> 0 = None"
proof -
  let ?d = "\<lambda>b :: nat. replicate 512 (0 :: u8)" and ?bm = "\<lparr>start_block_id = 1, blocks = 1\<rparr>"
  have wf: "wf_disk ?d" by (simp add: wf_disk_def BLOCK_SZ_def)
  have m: "bm_maximum ?bm = 4096" by (simp add: bm_maximum_def BLOCK_BITS_4096)
  obtain r d1 where r: "bm_alloc [] ?d ?bm = Some (r, d1)" "bm_alloc_ok ?d ?bm r d1"
    using bm_alloc_loop_spec [OF wf, of ?bm "[]" 0] unfolding bm_alloc_def by auto
  have "r = Some 0" using r(2) m by (auto simp: bm_alloc_ok_def zero_disk_bits split: option.splits dest: spec [of _ 0])
  with r bm_alloc_dealloc [OF wf, of ?bm 0 d1] show ?thesis by blast
qed

end
