(* ===== verification/Layout.thy ===== *)
theory Layout
  imports Block_Cache "HOL-Library.Multiset"
begin

text \<open>
  The on-disk layout of easy-fs (easy-fs/src/layout.rs): the super block, the disk inode with its
  direct, indirect and doubly indirect block table, and the directory entry.

  Structures are records; \<open>_of\<close> and \<open>_store\<close> functions are the reinterpretation of bytes of a block
  as the structure and the writes through such a reference.  Operations of an inode take the blocks
  that are locked by the caller and the disk, and give \<^term>\<open>None\<close> where the code panics or
  locks a block twice.

  \<open>alist d ino n\<close> lists every block (data, indirect, doubly indirect) that the first \<open>n\<close> data blocks
  of an inode occupy.  The theorems say that \<open>increase_size\<close> appends exactly the blocks it is given
  to this list, that \<open>clear_size\<close> returns exactly this list, that \<open>total_blocks\<close> is its length, and
  that \<open>read_at\<close> and \<open>write_at\<close> are reads and writes of a flat byte array.
\<close>

definition EFS_MAGIC :: nat where
  "EFS_MAGIC = 0x3b800001"

definition INODE_DIRECT_COUNT :: nat where
  "INODE_DIRECT_COUNT = 28"

definition NAME_LENGTH_LIMIT :: nat where
  "NAME_LENGTH_LIMIT = 27"

definition INODE_INDIRECT1_COUNT :: nat where
  "INODE_INDIRECT1_COUNT = BLOCK_SZ div 4"

definition INODE_INDIRECT2_COUNT :: nat where
  "INODE_INDIRECT2_COUNT = INODE_INDIRECT1_COUNT * INODE_INDIRECT1_COUNT"

definition DIRECT_BOUND :: nat where
  "DIRECT_BOUND = INODE_DIRECT_COUNT"

definition INDIRECT1_BOUND :: nat where
  "INDIRECT1_BOUND = DIRECT_BOUND + INODE_INDIRECT1_COUNT"

definition INDIRECT2_BOUND :: nat where
  "INDIRECT2_BOUND = INDIRECT1_BOUND + INODE_INDIRECT2_COUNT"

subsection \<open>Super block\<close>

record SuperBlock =
  magic :: nat
  total_blocks_sb :: nat
  inode_bitmap_blocks :: nat
  inode_area_blocks :: nat
  data_bitmap_blocks :: nat
  data_area_blocks :: nat

definition sb_initialize :: "nat \<Rightarrow> nat \<Rightarrow> nat \<Rightarrow> nat \<Rightarrow> nat \<Rightarrow> SuperBlock" where
  "sb_initialize tb ibb iab dbb dab =
     \<lparr>magic = EFS_MAGIC, total_blocks_sb = tb, inode_bitmap_blocks = ibb, inode_area_blocks = iab,
      data_bitmap_blocks = dbb, data_area_blocks = dab\<rparr>"

definition sb_is_valid :: "SuperBlock \<Rightarrow> bool" where
  "sb_is_valid sb \<longleftrightarrow> magic sb = EFS_MAGIC"

text \<open>The bytes of a \<^verbatim>\<open>[u32]\<close>, and the six words of the \<^verbatim>\<open>repr(C)\<close> super block.\<close>

definition words_bytes :: "nat list \<Rightarrow> u8 list" where
  "words_bytes xs = concat (map (le_bytes 4) xs)"

definition sb_of :: "u8 list \<Rightarrow> SuperBlock" where
  "sb_of t = \<lparr>magic = get_le 4 t 0, total_blocks_sb = get_le 4 t 1, inode_bitmap_blocks = get_le 4 t 2,
     inode_area_blocks = get_le 4 t 3, data_bitmap_blocks = get_le 4 t 4, data_area_blocks = get_le 4 t 5\<rparr>"

definition sb_bytes :: "SuperBlock \<Rightarrow> u8 list" where
  "sb_bytes sb = words_bytes [magic sb, total_blocks_sb sb, inode_bitmap_blocks sb, inode_area_blocks sb,
     data_bitmap_blocks sb, data_area_blocks sb]"

subsection \<open>Disk inodes\<close>

datatype DiskInodeType = File | Directory

record DiskInode =
  size_in :: nat
  direct :: "nat list"
  indirect1 :: nat
  indirect2 :: nat
  type_in :: DiskInodeType

definition INODE_SIZE :: nat where
  "INODE_SIZE = 128"

text \<open>
  The inode in memory: thirty-one words, the type byte at offset 124 and three bytes of padding,
  which writes through the reference leave alone.
\<close>

definition inode_of :: "u8 list \<Rightarrow> DiskInode" where
  "inode_of t = \<lparr>size_in = get_le 4 t 0, direct = map (\<lambda>i. get_le 4 t (Suc i)) [0..<INODE_DIRECT_COUNT],
     indirect1 = get_le 4 t 29, indirect2 = get_le 4 t 30,
     type_in = (if t ! 124 = 0 then File else Directory)\<rparr>"

definition inode_store :: "u8 list \<Rightarrow> DiskInode \<Rightarrow> u8 list" where
  "inode_store t ino = splice_at t 0
     (words_bytes (size_in ino # direct ino @ [indirect1 ino, indirect2 ino]) @
      [case type_in ino of File \<Rightarrow> 0 | Directory \<Rightarrow> 1])"

definition inode_initialize :: "DiskInode \<Rightarrow> DiskInodeType \<Rightarrow> DiskInode" where
  "inode_initialize ino ty = ino\<lparr>size_in := 0, direct := map (\<lambda>_. 0) (direct ino), indirect1 := 0, indirect2 := 0, type_in := ty\<rparr>"

definition is_dir :: "DiskInode \<Rightarrow> bool" where
  "is_dir ino \<longleftrightarrow> type_in ino = Directory"

definition is_file :: "DiskInode \<Rightarrow> bool" where
  "is_file ino \<longleftrightarrow> type_in ino = File"

definition data_blocks_for :: "nat \<Rightarrow> nat" where
  "data_blocks_for sz = sub32 (add32 sz BLOCK_SZ) 1 div BLOCK_SZ"

definition data_blocks :: "DiskInode \<Rightarrow> nat" where
  "data_blocks ino = data_blocks_for (size_in ino)"

definition total_blocks :: "nat \<Rightarrow> nat" where
  "total_blocks sz =
     (let n = data_blocks_for sz;
          total = n;
          total = (if n > INODE_DIRECT_COUNT then total + 1 else total);
          total = (if n > INDIRECT1_BOUND
                   then total + 1 + (n - INDIRECT1_BOUND + INODE_INDIRECT1_COUNT - 1) div INODE_INDIRECT1_COUNT
                   else total)
      in total mod 2 ^ 32)"

definition blocks_num_needed :: "DiskInode \<Rightarrow> nat \<Rightarrow> nat option" where
  "blocks_num_needed ino new_size =
     do { rassert (new_size \<ge> size_in ino);
          Some (sub32 (total_blocks new_size) (total_blocks (size_in ino))) }"

definition indirect_of :: "u8 list \<Rightarrow> nat list" where
  "indirect_of t = map (get_le 4 t) [0..<INODE_INDIRECT1_COUNT]"

definition get_block_id :: "nat list \<Rightarrow> disk \<Rightarrow> DiskInode \<Rightarrow> nat \<Rightarrow> nat option" where
  "get_block_id held d ino inner_id =
     (if inner_id < INODE_DIRECT_COUNT then index (direct ino) inner_id
      else if inner_id < INDIRECT1_BOUND then
        blk_read held d (indirect1 ino) 0 BLOCK_SZ (\<lambda>t. index (indirect_of t) (inner_id - INODE_DIRECT_COUNT))
      else
        (let last = inner_id - INDIRECT1_BOUND
         in do { ind1 \<leftarrow> blk_read held d (indirect2 ino) 0 BLOCK_SZ
                   (\<lambda>t. index (indirect_of t) (last div INODE_INDIRECT1_COUNT));
                 blk_read held d ind1 0 BLOCK_SZ
                   (\<lambda>t. index (indirect_of t) (last mod INODE_INDIRECT1_COUNT)) }))"

subsection \<open>Growing an inode\<close>

text \<open>\<^verbatim>\<open>new_blocks.next().unwrap()\<close>.\<close>

fun next_block :: "nat list \<Rightarrow> (nat \<times> nat list) option" where
  "next_block [] = None"
| "next_block (x # xs) = Some (x, xs)"

text \<open>The loop \<^verbatim>\<open>while current < bound { arr[current] = new_blocks.next().unwrap(); current += 1 }\<close>.\<close>

function fill :: "nat \<Rightarrow> nat \<Rightarrow> nat list \<Rightarrow> nat list \<Rightarrow> (nat list \<times> nat \<times> nat list) option" where
  "fill current bound arr new_blocks =
     (if current < bound then
        do { (x, new_blocks) \<leftarrow> next_block new_blocks;
             arr \<leftarrow> index_set arr current x;
             fill (current + 1) bound arr new_blocks }
      else Some (arr, current, new_blocks))"
  by auto
termination by (relation "measure (\<lambda>(c, b, _). b - c)") auto

declare fill.simps [simp del]

text \<open>
  The loop over the doubly indirect block: \<open>arr2\<close> is the locked indirect block of second level, and
  each round locks one block of first level.
\<close>

definition fill_one :: "nat \<Rightarrow> nat list \<Rightarrow> u8 list \<Rightarrow> (nat list \<times> u8 list) option" where
  "fill_one b0 new_blocks t =
     do { (x, new_blocks) \<leftarrow> next_block new_blocks;
          arr \<leftarrow> index_set (indirect_of t) b0 x;
          Some (new_blocks, words_bytes arr) }"

lemma fill_one_bound: "fill_one b0 new t = Some r \<Longrightarrow> b0 < INODE_INDIRECT1_COUNT"
  by (cases new) (auto simp: fill_one_def index_set_def indirect_of_def split: if_splits)

lemma blk_modify_SomeD:
  "blk_modify held d b off sz f = Some (v, d') \<Longrightarrow> \<exists>t'. f (take sz (drop off (d b))) = Some (v, t')"
  by (auto simp: blk_modify_def with_block_def rassert_def split: if_splits bind_splits)

function fill2 :: "nat list \<Rightarrow> disk \<Rightarrow> nat list \<Rightarrow> nat \<Rightarrow> nat \<Rightarrow> nat \<Rightarrow> nat \<Rightarrow> nat list \<Rightarrow>
    (nat list \<times> nat list \<times> disk) option" where
  "fill2 held d arr2 a0 b0 a1 b1 new_blocks =
     (if a0 < a1 \<or> (a0 = a1 \<and> b0 < b1) then
        do { (arr2, new_blocks) \<leftarrow>
               (if b0 = 0 then do { (x, new_blocks) \<leftarrow> next_block new_blocks;
                                    arr2 \<leftarrow> index_set arr2 a0 x;
                                    Some (arr2, new_blocks) }
                else Some (arr2, new_blocks));
             ind1 \<leftarrow> index arr2 a0;
             (new_blocks, d) \<leftarrow> blk_modify held d ind1 0 BLOCK_SZ (fill_one b0 new_blocks);
             (if b0 + 1 = INODE_INDIRECT1_COUNT then fill2 held d arr2 (a0 + 1) 0 a1 b1 new_blocks
              else fill2 held d arr2 a0 (b0 + 1) a1 b1 new_blocks) }
      else Some (arr2, new_blocks, d))"
  by pat_completeness auto
termination
proof (relation "measures [\<lambda>(_, _, _, a0, _, a1, _). Suc a1 - a0, \<lambda>(_, _, _, _, b0, _). INODE_INDIRECT1_COUNT - b0]", goal_cases)
  case 1
  then show ?case by simp
next
  case 2
  then show ?case by (auto split: if_splits)
next
  case (3 held d arr2 a0 b0 a1 b1 new_blocks x xa xb xc xd xe xf)
  then have "blk_modify held d xc 0 BLOCK_SZ (fill_one b0 xb) = Some (xe, xf)" by simp
  from blk_modify_SomeD [OF this] have "b0 < INODE_INDIRECT1_COUNT" using fill_one_bound by blast
  with 3 show ?case by (auto split: if_splits)
qed

declare fill2.simps [simp del]

definition increase_indirect2 :: "nat list \<Rightarrow> disk \<Rightarrow> DiskInode \<Rightarrow> nat \<Rightarrow> nat \<Rightarrow> nat list \<Rightarrow>
    (DiskInode \<times> disk) option" where
  "increase_indirect2 held d ino current target new_blocks =
     do { (ind2, new_blocks) \<leftarrow> (if current = INODE_INDIRECT1_COUNT then next_block new_blocks
                               else Some (indirect2 ino, new_blocks));
          let current = sub32 current INODE_INDIRECT1_COUNT;
          let target = sub32 target INODE_INDIRECT1_COUNT;
          (_, d) \<leftarrow> with_block held d ind2 0 BLOCK_SZ (\<lambda>held d t.
            do { (arr2, _, d) \<leftarrow> fill2 held d (indirect_of t)
                   (current div INODE_INDIRECT1_COUNT) (current mod INODE_INDIRECT1_COUNT)
                   (target div INODE_INDIRECT1_COUNT) (target mod INODE_INDIRECT1_COUNT) new_blocks;
                 Some ((), d, words_bytes arr2) });
          Some (ino\<lparr>indirect2 := ind2\<rparr>, d) }"

definition increase_indirect1 :: "nat list \<Rightarrow> disk \<Rightarrow> DiskInode \<Rightarrow> nat \<Rightarrow> nat \<Rightarrow> nat list \<Rightarrow>
    (DiskInode \<times> disk) option" where
  "increase_indirect1 held d ino current target new_blocks =
     do { (ind1, new_blocks) \<leftarrow> (if current = INODE_DIRECT_COUNT then next_block new_blocks
                               else Some (indirect1 ino, new_blocks));
          let current = sub32 current INODE_DIRECT_COUNT;
          let target = sub32 target INODE_DIRECT_COUNT;
          ((current, new_blocks), d) \<leftarrow> blk_modify held d ind1 0 BLOCK_SZ (\<lambda>t.
            do { (arr, current, new_blocks) \<leftarrow>
                   fill current (min target INODE_INDIRECT1_COUNT) (indirect_of t) new_blocks;
                 Some ((current, new_blocks), words_bytes arr) });
          (if target > INODE_INDIRECT1_COUNT
           then increase_indirect2 held d (ino\<lparr>indirect1 := ind1\<rparr>) current target new_blocks
           else Some (ino\<lparr>indirect1 := ind1\<rparr>, d)) }"

definition increase_size :: "nat list \<Rightarrow> disk \<Rightarrow> DiskInode \<Rightarrow> nat \<Rightarrow> nat list \<Rightarrow> (DiskInode \<times> disk) option" where
  "increase_size held d ino new_size new_blocks =
     (let current = data_blocks ino;
          ino = ino\<lparr>size_in := new_size\<rparr>;
          target = data_blocks ino
      in do { (dir, current, new_blocks) \<leftarrow> fill current (min target INODE_DIRECT_COUNT) (direct ino) new_blocks;
              (if target > INODE_DIRECT_COUNT
               then increase_indirect1 held d (ino\<lparr>direct := dir\<rparr>) current target new_blocks
               else Some (ino\<lparr>direct := dir\<rparr>, d)) })"

subsection \<open>Clearing an inode\<close>

text \<open>The loop that moves direct entries to the result, and the loop that copies indirect ones.\<close>

function clear_direct :: "nat \<Rightarrow> nat \<Rightarrow> nat list \<Rightarrow> nat list \<Rightarrow> (nat list \<times> nat list) option" where
  "clear_direct current bound arr v =
     (if current < bound then
        do { x \<leftarrow> index arr current;
             arr \<leftarrow> index_set arr current 0;
             clear_direct (current + 1) bound arr (v @ [x]) }
      else Some (arr, v))"
  by auto
termination by (relation "measure (\<lambda>(c, b, _). b - c)") auto

function push_range :: "nat \<Rightarrow> nat \<Rightarrow> nat list \<Rightarrow> nat list \<Rightarrow> nat list option" where
  "push_range current bound arr v =
     (if current < bound then
        do { x \<leftarrow> index arr current;
             push_range (current + 1) bound arr (v @ [x]) }
      else Some v)"
  by auto
termination by (relation "measure (\<lambda>(c, b, _). b - c)") auto

declare clear_direct.simps [simp del] push_range.simps [simp del]

definition clear_sub :: "nat list \<Rightarrow> disk \<Rightarrow> nat list \<Rightarrow> nat \<Rightarrow> nat \<Rightarrow> nat list \<Rightarrow> (nat list \<times> disk) option" where
  "clear_sub held d arr2 i bound v =
     do { ind1 \<leftarrow> index arr2 i;
          blk_modify held d ind1 0 BLOCK_SZ (\<lambda>t.
            do { v \<leftarrow> push_range 0 bound (indirect_of t) (v @ [ind1]);
                 Some (v, t) }) }"

fun clear_subs :: "nat list \<Rightarrow> disk \<Rightarrow> nat list \<Rightarrow> nat list \<Rightarrow> nat list \<Rightarrow> (nat list \<times> disk) option" where
  "clear_subs held d arr2 [] v = Some (v, d)"
| "clear_subs held d arr2 (i # is) v =
     do { (v, d) \<leftarrow> clear_sub held d arr2 i INODE_INDIRECT1_COUNT v;
          clear_subs held d arr2 is v }"

definition clear_indirect2 :: "nat list \<Rightarrow> disk \<Rightarrow> DiskInode \<Rightarrow> nat \<Rightarrow> nat list \<Rightarrow> (nat list \<times> DiskInode \<times> disk) option" where
  "clear_indirect2 held d ino n v =
     do { let v = v @ [indirect2 ino];
          let n = n - INODE_INDIRECT1_COUNT;
          rassert (n \<le> INODE_INDIRECT2_COUNT);
          let a1 = n div INODE_INDIRECT1_COUNT;
          let b1 = n mod INODE_INDIRECT1_COUNT;
          (v, d) \<leftarrow> with_block held d (indirect2 ino) 0 BLOCK_SZ (\<lambda>held d t.
            do { (v, d) \<leftarrow> clear_subs held d (indirect_of t) [0..<a1] v;
                 (v, d) \<leftarrow> (if b1 > 0 then clear_sub held d (indirect_of t) a1 b1 v else Some (v, d));
                 Some (v, d, t) });
          Some (v, ino\<lparr>indirect2 := 0\<rparr>, d) }"

definition clear_size :: "nat list \<Rightarrow> disk \<Rightarrow> DiskInode \<Rightarrow> (nat list \<times> DiskInode \<times> disk) option" where
  "clear_size held d ino =
     (let n = data_blocks ino; ino = ino\<lparr>size_in := 0\<rparr>
      in do { (dir, v) \<leftarrow> clear_direct 0 (min n INODE_DIRECT_COUNT) (direct ino) [];
              let ino = ino\<lparr>direct := dir\<rparr>;
              (if n > INODE_DIRECT_COUNT then
                 do { let v = v @ [indirect1 ino];
                      let n = n - INODE_DIRECT_COUNT;
                      (v, d) \<leftarrow> blk_modify held d (indirect1 ino) 0 BLOCK_SZ (\<lambda>t.
                        do { v \<leftarrow> push_range 0 (min n INODE_INDIRECT1_COUNT) (indirect_of t) v;
                             Some (v, t) });
                      let ino = ino\<lparr>indirect1 := 0\<rparr>;
                      (if n > INODE_INDIRECT1_COUNT then clear_indirect2 held d ino n v
                       else Some (v, ino, d)) }
               else Some (v, ino, d)) })"

subsection \<open>Reading and writing\<close>

text \<open>
  The loops of \<^verbatim>\<open>read_at\<close> and \<^verbatim>\<open>write_at\<close>.  \<^verbatim>\<open>usize\<close> is 64 bits wide; the cast of the block index to
  \<^verbatim>\<open>u32\<close> is written out.
\<close>

function read_loop :: "nat list \<Rightarrow> disk \<Rightarrow> DiskInode \<Rightarrow> nat \<Rightarrow> nat \<Rightarrow> nat \<Rightarrow> nat \<Rightarrow> u8 list \<Rightarrow> (nat \<times> u8 list) option" where
  "read_loop held d ino fin start start_block read_size buf =
     (let end_current_block = min ((start div BLOCK_SZ + 1) * BLOCK_SZ) fin;
          block_read_size = end_current_block - start
      in do { b \<leftarrow> get_block_id held d ino (start_block mod 2 ^ 32);
              src \<leftarrow> blk_read held d b 0 BLOCK_SZ
                (\<lambda>t. slice t (start mod BLOCK_SZ) (start mod BLOCK_SZ + block_read_size));
              buf \<leftarrow> slice_copy buf read_size (read_size + block_read_size) src;
              (if end_current_block = fin then Some (read_size + block_read_size, buf)
               else read_loop held d ino fin end_current_block (start_block + 1) (read_size + block_read_size) buf) })"
  by pat_completeness auto
termination
  by (relation "measure (\<lambda>(_, _, _, e, s, _). e - s)")
    (auto simp: BLOCK_SZ_def dividend_less_times_div min_def)

definition read_at :: "nat list \<Rightarrow> disk \<Rightarrow> DiskInode \<Rightarrow> nat \<Rightarrow> u8 list \<Rightarrow> (nat \<times> u8 list) option" where
  "read_at held d ino offset buf =
     (let fin = min ((offset + length buf) mod 2 ^ 64) (size_in ino)
      in if offset \<ge> fin then Some (0, buf)
         else read_loop held d ino fin offset (offset div BLOCK_SZ) 0 buf)"

function write_loop :: "nat list \<Rightarrow> disk \<Rightarrow> DiskInode \<Rightarrow> nat \<Rightarrow> nat \<Rightarrow> nat \<Rightarrow> nat \<Rightarrow> u8 list \<Rightarrow> (nat \<times> disk) option" where
  "write_loop held d ino fin start start_block write_size buf =
     (let end_current_block = min ((start div BLOCK_SZ + 1) * BLOCK_SZ) fin;
          block_write_size = end_current_block - start
      in do { b \<leftarrow> get_block_id held d ino (start_block mod 2 ^ 32);
              (_, d) \<leftarrow> blk_modify held d b 0 BLOCK_SZ (\<lambda>t.
                do { src \<leftarrow> slice buf write_size (write_size + block_write_size);
                     t \<leftarrow> slice_copy t (start mod BLOCK_SZ) (start mod BLOCK_SZ + block_write_size) src;
                     Some ((), t) });
              (if end_current_block = fin then Some (write_size + block_write_size, d)
               else write_loop held d ino fin end_current_block (start_block + 1) (write_size + block_write_size) buf) })"
  by pat_completeness auto
termination
  by (relation "measure (\<lambda>(_, _, _, e, s, _). e - s)")
    (auto simp: BLOCK_SZ_def dividend_less_times_div min_def)

definition write_at :: "nat list \<Rightarrow> disk \<Rightarrow> DiskInode \<Rightarrow> nat \<Rightarrow> u8 list \<Rightarrow> (nat \<times> disk) option" where
  "write_at held d ino offset buf =
     (let fin = min ((offset + length buf) mod 2 ^ 64) (size_in ino)
      in do { rassert (offset \<le> fin);
              write_loop held d ino fin offset (offset div BLOCK_SZ) 0 buf })"

declare read_loop.simps [simp del] write_loop.simps [simp del]

subsection \<open>Directory entries\<close>

record DirEntry =
  name_de :: "u8 list"
  inode_number :: nat

definition DIRENT_SZ :: nat where
  "DIRENT_SZ = 32"

definition de_empty :: DirEntry where
  "de_empty = \<lparr>name_de = replicate (NAME_LENGTH_LIMIT + 1) 0, inode_number = 0\<rparr>"

definition de_new :: "u8 list \<Rightarrow> nat \<Rightarrow> DirEntry option" where
  "de_new nm ino =
     do { bytes \<leftarrow> slice_copy (replicate (NAME_LENGTH_LIMIT + 1) 0) 0 (length nm) nm;
          Some \<lparr>name_de = bytes, inode_number = ino\<rparr> }"

definition de_as_bytes :: "DirEntry \<Rightarrow> u8 list" where
  "de_as_bytes de = name_de de @ le_bytes 4 (inode_number de)"

definition de_of_bytes :: "u8 list \<Rightarrow> DirEntry" where
  "de_of_bytes t = \<lparr>name_de = take (NAME_LENGTH_LIMIT + 1) t, inode_number = get_le 4 t 7\<rparr>"

text \<open>\<^verbatim>\<open>core::str::from_utf8\<close> accepts exactly the well-formed UTF-8 byte sequences.\<close>

definition utf8_cont :: "u8 \<Rightarrow> bool" where
  "utf8_cont b \<longleftrightarrow> 0x80 \<le> b \<and> b \<le> 0xBF"

fun utf8_ok :: "u8 list \<Rightarrow> bool" where
  "utf8_ok [] = True"
| "utf8_ok (b # r) =
     (if b \<le> 0x7F then utf8_ok r
      else if 0xC2 \<le> b \<and> b \<le> 0xDF then
        (case r of b1 # r1 \<Rightarrow> utf8_cont b1 \<and> utf8_ok r1 | _ \<Rightarrow> False)
      else if 0xE0 \<le> b \<and> b \<le> 0xEF then
        (case r of b1 # b2 # r2 \<Rightarrow>
           utf8_cont b1 \<and> (b = 0xE0 \<longrightarrow> 0xA0 \<le> b1) \<and> (b = 0xED \<longrightarrow> b1 \<le> 0x9F) \<and> utf8_cont b2 \<and> utf8_ok r2
         | _ \<Rightarrow> False)
      else if 0xF0 \<le> b \<and> b \<le> 0xF4 then
        (case r of b1 # b2 # b3 # r3 \<Rightarrow>
           utf8_cont b1 \<and> (b = 0xF0 \<longrightarrow> 0x90 \<le> b1) \<and> (b = 0xF4 \<longrightarrow> b1 \<le> 0x8F) \<and>
           utf8_cont b2 \<and> utf8_cont b3 \<and> utf8_ok r3
         | _ \<Rightarrow> False)
      else False)"

definition de_name :: "DirEntry \<Rightarrow> u8 list option" where
  "de_name de =
     do { len \<leftarrow> find_idx (\<lambda>b. b = 0) (name_de de);
          rassert (utf8_ok (take len (name_de de)));
          Some (take len (name_de de)) }"

subsection \<open>Arrays of words\<close>

lemma layout_consts:
  "INODE_DIRECT_COUNT = 28" "INODE_INDIRECT1_COUNT = 128" "INODE_INDIRECT2_COUNT = 16384"
  "DIRECT_BOUND = 28" "INDIRECT1_BOUND = 156" "INDIRECT2_BOUND = 16540" "BLOCK_SZ = 512"
  by (simp_all add: INODE_DIRECT_COUNT_def INODE_INDIRECT1_COUNT_def INODE_INDIRECT2_COUNT_def
      DIRECT_BOUND_def INDIRECT1_BOUND_def INDIRECT2_BOUND_def BLOCK_SZ_def)

lemma BLOCK_SZ_pos: "0 < BLOCK_SZ"
  by (simp add: BLOCK_SZ_def)

lemma length_words_bytes [simp]: "length (words_bytes xs) = 4 * length xs"
  by (induction xs) (auto simp: words_bytes_def)

lemma words_bytes_nth:
  "i < length xs \<Longrightarrow> get_le 4 (words_bytes xs @ ys) i = xs ! i mod 2 ^ 32"
proof (induction xs arbitrary: i)
  case Nil
  then show ?case by simp
next
  case (Cons x xs)
  show ?case
  proof (cases i)
    case 0
    then show ?thesis by (simp add: get_le_def words_bytes_def un_le_le_bytes del: le_bytes.simps)
  next
    case (Suc j)
    then have "get_le 4 (words_bytes (x # xs) @ ys) i = get_le 4 (words_bytes xs @ ys) j"
      by (simp add: get_le_def words_bytes_def del: le_bytes.simps)
    with Suc Cons show ?thesis by simp
  qed
qed

lemma words_bytes_exact:
  "\<forall>x \<in> set xs. x < 2 ^ 32 \<Longrightarrow> i < length xs \<Longrightarrow> get_le 4 (words_bytes xs @ ys) i = xs ! i"
  using words_bytes_nth [of i xs ys] nth_mem [of i xs] by fastforce

lemma length_indirect_of [simp]: "length (indirect_of t) = INODE_INDIRECT1_COUNT"
  by (simp add: indirect_of_def)

lemma indirect_of_bound: "length t = BLOCK_SZ \<Longrightarrow> i < INODE_INDIRECT1_COUNT \<Longrightarrow> indirect_of t ! i < 2 ^ 32"
  using get_le_bound [of 4 i t] by (simp add: indirect_of_def layout_consts)

lemma indirect_of_words_bytes:
  assumes "length xs = INODE_INDIRECT1_COUNT" and "\<forall>x \<in> set xs. x < 2 ^ 32"
  shows "indirect_of (words_bytes xs) = xs"
proof (rule nth_equalityI)
  fix i assume "i < length (indirect_of (words_bytes xs))"
  then show "indirect_of (words_bytes xs) ! i = xs ! i"
    using assms words_bytes_nth [of i xs "[]"] by (simp add: indirect_of_def)
qed (use assms in simp)

subsection \<open>The block table\<close>

definition ind :: "disk \<Rightarrow> nat \<Rightarrow> nat list" where
  "ind d b = indirect_of (d b)"

definition blk_id :: "disk \<Rightarrow> DiskInode \<Rightarrow> nat \<Rightarrow> nat" where
  "blk_id d ino i =
     (if i < INODE_DIRECT_COUNT then direct ino ! i
      else if i < INDIRECT1_BOUND then ind d (indirect1 ino) ! (i - INODE_DIRECT_COUNT)
      else ind d (ind d (indirect2 ino) ! ((i - INDIRECT1_BOUND) div INODE_INDIRECT1_COUNT))
             ! ((i - INDIRECT1_BOUND) mod INODE_INDIRECT1_COUNT))"

text \<open>The blocks below a doubly indirect block with table \<open>subs\<close> that hold \<open>k\<close> data blocks.\<close>

definition sub_list :: "disk \<Rightarrow> nat list \<Rightarrow> nat \<Rightarrow> nat list" where
  "sub_list d subs k =
     concat (map (\<lambda>i. subs ! i # ind d (subs ! i)) [0..<k div INODE_INDIRECT1_COUNT]) @
     (if k mod INODE_INDIRECT1_COUNT = 0 then []
      else subs ! (k div INODE_INDIRECT1_COUNT) #
           take (k mod INODE_INDIRECT1_COUNT) (ind d (subs ! (k div INODE_INDIRECT1_COUNT))))"

definition alist :: "disk \<Rightarrow> DiskInode \<Rightarrow> nat \<Rightarrow> nat list" where
  "alist d ino n =
     (if n \<le> INODE_DIRECT_COUNT then take n (direct ino)
      else if n \<le> INDIRECT1_BOUND then
        direct ino @ indirect1 ino # take (n - INODE_DIRECT_COUNT) (ind d (indirect1 ino))
      else direct ino @ indirect1 ino # ind d (indirect1 ino) @
           indirect2 ino # sub_list d (ind d (indirect2 ino)) (n - INDIRECT1_BOUND))"

definition subs_used :: "nat \<Rightarrow> nat" where
  "subs_used k = (k + INODE_INDIRECT1_COUNT - 1) div INODE_INDIRECT1_COUNT"

definition scost :: "nat \<Rightarrow> nat" where
  "scost k = k + subs_used k"

definition metas :: "disk \<Rightarrow> DiskInode \<Rightarrow> nat \<Rightarrow> nat list" where
  "metas d ino n =
     (if n \<le> INODE_DIRECT_COUNT then []
      else if n \<le> INDIRECT1_BOUND then [indirect1 ino]
      else indirect1 ino # indirect2 ino #
           take (subs_used (n - INDIRECT1_BOUND)) (ind d (indirect2 ino)))"

lemma length_ind [simp]: "length (ind d b) = INODE_INDIRECT1_COUNT"
  by (simp add: ind_def)

lemma ind_upd [simp]: "ind (d(b := t)) c = (if c = b then indirect_of t else ind d c)"
  by (simp add: ind_def)

lemma sub_list_0 [simp]: "sub_list d subs 0 = []"
  by (simp add: sub_list_def)

lemma sub_list_Suc:
  "sub_list d subs (Suc k) = sub_list d subs k @
     (if k mod INODE_INDIRECT1_COUNT = 0 then [subs ! (k div INODE_INDIRECT1_COUNT)] else []) @
     [ind d (subs ! (k div INODE_INDIRECT1_COUNT)) ! (k mod INODE_INDIRECT1_COUNT)]"
proof -
  let ?a = "k div 128" and ?b = "k mod 128"
  let ?s = "subs ! ?a"
  have len: "length (ind d ?s) = 128" by (simp add: layout_consts)
  show ?thesis
  proof (cases "?b = 127")
    case True
    then have "Suc k div 128 = Suc ?a" "Suc k mod 128 = 0" by (simp_all add: div_Suc mod_Suc)
    moreover have "ind d ?s = take 127 (ind d ?s) @ [ind d ?s ! 127]"
      using len take_Suc_conv_app_nth [of 127 "ind d ?s"] by simp
    ultimately show ?thesis using True by (simp add: sub_list_def layout_consts)
  next
    case False
    then have e: "Suc k div 128 = ?a" "Suc k mod 128 = Suc ?b" by (simp_all add: div_Suc mod_Suc)
    have "?b < 128" by simp
    with False have "?b < 127" by linarith
    then have "take (Suc ?b) (ind d ?s) = take ?b (ind d ?s) @ [ind d ?s ! ?b]"
      using len by (simp add: take_Suc_conv_app_nth)
    then show ?thesis using e by (simp add: sub_list_def layout_consts)
  qed
qed

lemma subs_used_0 [simp]: "subs_used 0 = 0"
  by (simp add: subs_used_def layout_consts)

lemma subs_used_eq:
  "subs_used k = k div INODE_INDIRECT1_COUNT + (if k mod INODE_INDIRECT1_COUNT = 0 then 0 else 1)"
  unfolding subs_used_def by (rule ceil_div) (simp add: layout_consts)

lemma subs_used_Suc:
  "subs_used (Suc k) = (if k mod INODE_INDIRECT1_COUNT = 0 then Suc (subs_used k) else subs_used k)"
  by (simp add: subs_used_eq layout_consts div_Suc mod_Suc)

lemma scost_0 [simp]: "scost 0 = 0"
  by (simp add: scost_def)

lemma scost_Suc: "scost (Suc k) = scost k + (if k mod INODE_INDIRECT1_COUNT = 0 then 2 else 1)"
  by (simp add: scost_def subs_used_Suc)

lemma length_sub_list: "length (sub_list d subs k) = scost k"
  by (induction k) (auto simp: sub_list_Suc scost_Suc)

lemma sub_list_mset:
  assumes "length subs = INODE_INDIRECT1_COUNT" and "k \<le> INODE_INDIRECT2_COUNT"
  shows "mset (sub_list d subs k) =
    mset (map (\<lambda>j. ind d (subs ! (j div INODE_INDIRECT1_COUNT)) ! (j mod INODE_INDIRECT1_COUNT)) [0..<k]) +
    mset (take (subs_used k) subs)"
  using assms(2)
proof (induction k)
  case 0
  then show ?case by (simp add: layout_consts)
next
  case (Suc k)
  show ?case
  proof (cases "k mod INODE_INDIRECT1_COUNT = 0")
    case True
    have "k div INODE_INDIRECT1_COUNT < length subs"
      using assms(1) Suc.prems by (simp add: layout_consts)
    then have "take (subs_used (Suc k)) subs = take (subs_used k) subs @ [subs ! (k div INODE_INDIRECT1_COUNT)]"
      using True by (simp add: subs_used_eq [of k] subs_used_Suc take_Suc_conv_app_nth)
    with Suc True show ?thesis by (simp add: sub_list_Suc)
  next
    case False
    with Suc show ?thesis by (simp add: sub_list_Suc subs_used_Suc)
  qed
qed

lemma blk_ids_direct:
  "length (direct ino) = INODE_DIRECT_COUNT \<Longrightarrow> n \<le> INODE_DIRECT_COUNT \<Longrightarrow>
    map (blk_id d ino) [0..<n] = take n (direct ino)"
  by (rule nth_equalityI) (auto simp: blk_id_def)

lemma blk_ids_indirect1:
  "length (direct ino) = INODE_DIRECT_COUNT \<Longrightarrow> INODE_DIRECT_COUNT \<le> n \<Longrightarrow> n \<le> INDIRECT1_BOUND \<Longrightarrow>
    map (blk_id d ino) [0..<n] = direct ino @ take (n - INODE_DIRECT_COUNT) (ind d (indirect1 ino))"
  by (rule nth_equalityI) (auto simp: blk_id_def nth_append layout_consts)

lemma blk_ids_indirect2:
  "length (direct ino) = INODE_DIRECT_COUNT \<Longrightarrow> INDIRECT1_BOUND \<le> n \<Longrightarrow>
    map (blk_id d ino) [0..<n] = direct ino @ ind d (indirect1 ino) @
      map (\<lambda>j. ind d (ind d (indirect2 ino) ! (j div INODE_INDIRECT1_COUNT)) ! (j mod INODE_INDIRECT1_COUNT))
        [0..<n - INDIRECT1_BOUND]"
  by (rule nth_equalityI) (auto simp: blk_id_def nth_append layout_consts)

lemma alist_mset:
  assumes "length (direct ino) = INODE_DIRECT_COUNT" and "n \<le> INDIRECT2_BOUND"
  shows "mset (alist d ino n) = mset (map (blk_id d ino) [0..<n]) + mset (metas d ino n)"
proof -
  consider "n \<le> INODE_DIRECT_COUNT" | "INODE_DIRECT_COUNT < n" "n \<le> INDIRECT1_BOUND" | "INDIRECT1_BOUND < n"
    by linarith
  then show ?thesis
  proof cases
    case 1
    with assms show ?thesis by (simp add: alist_def metas_def blk_ids_direct del: map_map)
  next
    case 2
    then have "map (blk_id d ino) [0..<n] = direct ino @ take (n - INODE_DIRECT_COUNT) (ind d (indirect1 ino))"
      using assms by (intro blk_ids_indirect1) auto
    with 2 show ?thesis by (simp only: alist_def metas_def) simp
  next
    case 3
    then have b: "map (blk_id d ino) [0..<n] = direct ino @ ind d (indirect1 ino) @
      map (\<lambda>j. ind d (ind d (indirect2 ino) ! (j div INODE_INDIRECT1_COUNT)) ! (j mod INODE_INDIRECT1_COUNT))
        [0..<n - INDIRECT1_BOUND]"
      using assms by (intro blk_ids_indirect2) auto
    have n: "\<not> n \<le> INODE_DIRECT_COUNT" "n - INDIRECT1_BOUND \<le> INODE_INDIRECT2_COUNT"
      using 3 assms(2) by (auto simp: layout_consts)
    have "mset (sub_list d (ind d (indirect2 ino)) (n - INDIRECT1_BOUND)) =
      mset (map (\<lambda>j. ind d (ind d (indirect2 ino) ! (j div INODE_INDIRECT1_COUNT)) ! (j mod INODE_INDIRECT1_COUNT))
        [0..<n - INDIRECT1_BOUND]) + mset (take (subs_used (n - INDIRECT1_BOUND)) (ind d (indirect2 ino)))"
      using n by (intro sub_list_mset) auto
    with 3 n show ?thesis by (simp only: alist_def metas_def b) simp
  qed
qed

lemma length_alist:
  assumes "length (direct ino) = INODE_DIRECT_COUNT"
  shows "length (alist d ino n) =
    (if n \<le> INODE_DIRECT_COUNT then n else if n \<le> INDIRECT1_BOUND then n + 1
     else INDIRECT1_BOUND + 2 + scost (n - INDIRECT1_BOUND))"
  using assms by (auto simp: alist_def length_sub_list layout_consts)

lemma data_blocks_for_eq:
  "sz + BLOCK_SZ \<le> 2 ^ 32 \<Longrightarrow> data_blocks_for sz = (sz + 511) div 512"
  unfolding data_blocks_for_def add32_def sub32_def
  by (cases "sz + BLOCK_SZ = 2 ^ 32") (auto simp: layout_consts mod_if)

definition alen :: "nat \<Rightarrow> nat" where
  "alen n = (if n \<le> INODE_DIRECT_COUNT then n else if n \<le> INDIRECT1_BOUND then n + 1
     else INDIRECT1_BOUND + 2 + scost (n - INDIRECT1_BOUND))"

lemma length_alist_alen: "length (direct ino) = INODE_DIRECT_COUNT \<Longrightarrow> length (alist d ino n) = alen n"
  by (simp add: length_alist alen_def)

lemma total_blocks_alen:
  assumes "sz \<le> INDIRECT2_BOUND * BLOCK_SZ"
  shows "total_blocks sz = alen ((sz + 511) div 512)" and "total_blocks sz < 2 ^ 32"
proof -
  have n: "data_blocks_for sz = (sz + 511) div 512"
    using assms by (intro data_blocks_for_eq) (simp add: layout_consts)
  define m where "m = (sz + 511) div 512"
  have m: "m \<le> 16540" using assms by (simp add: layout_consts m_def)
  then have "Suc (Suc (m + (m - 29) div 128)) < 4294967296"
    using div_le_dividend [of "m - 29" 128] by linarith
  with m show "total_blocks sz = alen ((sz + 511) div 512)"
    unfolding total_blocks_def n m_def [symmetric] Let_def alen_def
    by (auto simp: scost_def subs_used_def layout_consts)
qed (simp add: total_blocks_def Let_def)

text \<open>
  For every size a file can have without exceeding the doubly indirect table,
  \<^verbatim>\<open>DiskInode::total_blocks\<close> is the number of blocks (data, indirect and doubly indirect) that the
  inode's table occupies.
\<close>

theorem total_blocks_counts:
  assumes "length (direct ino) = INODE_DIRECT_COUNT" and "sz \<le> INDIRECT2_BOUND * BLOCK_SZ"
  shows "total_blocks sz = length (alist d ino ((sz + 511) div 512))"
  using assms by (simp add: total_blocks_alen length_alist_alen)

subsection \<open>Well-formed inodes\<close>

definition inode_ok :: "nat list \<Rightarrow> disk \<Rightarrow> DiskInode \<Rightarrow> bool" where
  "inode_ok held d ino \<longleftrightarrow>
     wf_disk d \<and> length (direct ino) = INODE_DIRECT_COUNT \<and> size_in ino \<le> INDIRECT2_BOUND * BLOCK_SZ \<and>
     distinct (alist d ino (data_blocks ino)) \<and> set (alist d ino (data_blocks ino)) \<inter> set held = {}"

definition file_byte :: "disk \<Rightarrow> DiskInode \<Rightarrow> nat \<Rightarrow> u8" where
  "file_byte d ino j = d (blk_id d ino (j div BLOCK_SZ)) ! (j mod BLOCK_SZ)"

lemma inode_ok_blocks:
  assumes "inode_ok held d ino"
  shows "data_blocks ino = (size_in ino + 511) div 512" and "data_blocks ino \<le> INDIRECT2_BOUND"
proof -
  have "size_in ino \<le> 16540 * 512" using assms by (simp add: inode_ok_def layout_consts)
  then show "data_blocks ino = (size_in ino + 511) div 512"
    unfolding data_blocks_def by (intro data_blocks_for_eq) (simp add: layout_consts)
  with \<open>size_in ino \<le> 16540 * 512\<close> show "data_blocks ino \<le> INDIRECT2_BOUND" by (simp add: layout_consts)
qed

lemma inode_ok_split:
  assumes "inode_ok held d ino"
  shows "set (alist d ino (data_blocks ino)) = blk_id d ino ` {..<data_blocks ino} \<union> set (metas d ino (data_blocks ino))"
    and "inj_on (blk_id d ino) {..<data_blocks ino}"
    and "blk_id d ino ` {..<data_blocks ino} \<inter> set (metas d ino (data_blocks ino)) = {}"
    and "distinct (metas d ino (data_blocks ino))"
proof -
  let ?n = "data_blocks ino"
  have m: "mset (alist d ino ?n) = mset (map (blk_id d ino) [0..<?n] @ metas d ino ?n)"
    using assms inode_ok_blocks(2) [OF assms] by (simp add: alist_mset inode_ok_def)
  have "distinct (map (blk_id d ino) [0..<?n] @ metas d ino ?n)"
    using assms mset_eq_imp_distinct_iff [OF m] by (simp add: inode_ok_def)
  then show "inj_on (blk_id d ino) {..<?n}"
    and "blk_id d ino ` {..<?n} \<inter> set (metas d ino ?n) = {}" and "distinct (metas d ino ?n)"
    by (simp_all add: distinct_map atLeast0LessThan)
  show "set (alist d ino ?n) = blk_id d ino ` {..<?n} \<union> set (metas d ino ?n)"
    using mset_eq_setD [OF m] by (simp add: atLeast0LessThan)
qed

lemma metas_sub:
  assumes "INDIRECT1_BOUND \<le> i" and "i < n" and "n \<le> INDIRECT2_BOUND"
  shows "ind d (indirect2 ino) ! ((i - INDIRECT1_BOUND) div INODE_INDIRECT1_COUNT) \<in> set (metas d ino n)"
proof -
  let ?j = "(i - INDIRECT1_BOUND) div INODE_INDIRECT1_COUNT"
  have "?j < subs_used (n - INDIRECT1_BOUND)"
    using assms by (simp add: subs_used_def layout_consts)
  moreover have "?j < length (ind d (indirect2 ino))" using assms by (simp add: layout_consts)
  ultimately have "ind d (indirect2 ino) ! ?j \<in> set (take (subs_used (n - INDIRECT1_BOUND)) (ind d (indirect2 ino)))"
    by (auto simp: in_set_conv_nth)
  with assms show ?thesis by (simp add: metas_def layout_consts)
qed

lemma metas_ind:
  "INODE_DIRECT_COUNT < n \<Longrightarrow> indirect1 ino \<in> set (metas d ino n)"
  "INDIRECT1_BOUND < n \<Longrightarrow> indirect2 ino \<in> set (metas d ino n)"
  by (auto simp: metas_def layout_consts)

lemma get_block_id_ok:
  assumes ok: "inode_ok held d ino" and i: "i < data_blocks ino"
  shows "get_block_id held d ino i = Some (blk_id d ino i)"
proof -
  note n = inode_ok_blocks(2) [OF ok]
  have wf: "wf_disk d" and dir: "length (direct ino) = INODE_DIRECT_COUNT" using ok by (auto simp: inode_ok_def)
  have free: "b \<notin> set held" if "b \<in> set (metas d ino (data_blocks ino))" for b
    using ok that inode_ok_split(1) [OF ok] by (auto simp: inode_ok_def)
  consider "i < INODE_DIRECT_COUNT" | "INODE_DIRECT_COUNT \<le> i" "i < INDIRECT1_BOUND" | "INDIRECT1_BOUND \<le> i"
    by linarith
  then show ?thesis
  proof cases
    case 1
    with dir show ?thesis by (simp add: get_block_id_def blk_id_def)
  next
    case 2
    then have "indirect1 ino \<notin> set held" using i by (intro free metas_ind(1)) simp
    moreover have "i - INODE_DIRECT_COUNT < INODE_INDIRECT1_COUNT" using 2 by (simp add: layout_consts)
    ultimately show ?thesis using 2 wf by (simp add: get_block_id_def blk_id_def blk_read_whole ind_def)
  next
    case 3
    let ?last = "i - INDIRECT1_BOUND"
    have "indirect2 ino \<notin> set held" using 3 i by (intro free metas_ind(2)) simp
    moreover have "ind d (indirect2 ino) ! (?last div INODE_INDIRECT1_COUNT) \<notin> set held"
      using 3 i n by (intro free metas_sub)
    moreover have "?last div INODE_INDIRECT1_COUNT < INODE_INDIRECT1_COUNT" "?last mod INODE_INDIRECT1_COUNT < INODE_INDIRECT1_COUNT"
      using 3 i n by (simp_all add: layout_consts)
    moreover have "\<not> i < INODE_DIRECT_COUNT" "\<not> i < INDIRECT1_BOUND" using 3 by (auto simp: layout_consts)
    ultimately show ?thesis using wf by (simp add: get_block_id_def blk_id_def blk_read_whole ind_def Let_def)
  qed
qed

text \<open>The block table depends on the disk only at the inode's indirect blocks.\<close>

lemma metas_cong:
  assumes "\<And>b. b \<in> set (metas d ino n) \<Longrightarrow> d' b = d b"
  shows "metas d' ino n = metas d ino n"
  using assms metas_ind(2) [of n ino d] by (auto simp: metas_def ind_def split: if_splits)

lemma blk_id_cong:
  assumes "\<And>b. b \<in> set (metas d ino n) \<Longrightarrow> d' b = d b" and "i < n" and "n \<le> INDIRECT2_BOUND"
  shows "blk_id d' ino i = blk_id d ino i"
proof -
  consider "i < INODE_DIRECT_COUNT" | "INODE_DIRECT_COUNT \<le> i" "i < INDIRECT1_BOUND" | "INDIRECT1_BOUND \<le> i"
    by linarith
  then show ?thesis
  proof cases
    case 1
    then show ?thesis by (simp add: blk_id_def)
  next
    case 2
    then have "d' (indirect1 ino) = d (indirect1 ino)" using assms by (intro assms(1) metas_ind(1)) simp
    with 2 show ?thesis by (simp add: blk_id_def ind_def)
  next
    case 3
    then have "d' (indirect2 ino) = d (indirect2 ino)" using assms by (intro assms(1) metas_ind(2)) simp
    then have "ind d' (indirect2 ino) = ind d (indirect2 ino)" by (simp add: ind_def)
    with 3 assms(1) [OF metas_sub [OF 3 assms(2,3)]] show ?thesis by (simp add: blk_id_def ind_def)
  qed
qed

lemma subs_used_mono: "subs_used k \<le> subs_used (Suc k)"
  by (simp add: subs_used_Suc)

lemma sub_in_used:
  assumes "k < K" and "K \<le> INODE_INDIRECT2_COUNT" and "length subs = INODE_INDIRECT1_COUNT"
  shows "subs ! (k div INODE_INDIRECT1_COUNT) \<in> set (take (subs_used K) subs)"
proof -
  have "k div INODE_INDIRECT1_COUNT < subs_used K" "k div INODE_INDIRECT1_COUNT < length subs"
    using assms by (simp_all add: subs_used_def layout_consts)
  then show ?thesis by (auto simp: in_set_conv_nth)
qed

lemma sub_list_cong:
  assumes "\<And>b. b \<in> set (take (subs_used k) subs) \<Longrightarrow> d' b = d b"
    and "k \<le> INODE_INDIRECT2_COUNT" and "length subs = INODE_INDIRECT1_COUNT"
  shows "sub_list d' subs k = sub_list d subs k"
  using assms(1,2)
proof (induction k)
  case 0
  then show ?case by simp
next
  case (Suc k)
  have "set (take (subs_used k) subs) \<subseteq> set (take (subs_used (Suc k)) subs)"
    by (rule set_take_subset_set_take) (rule subs_used_mono)
  then have "sub_list d' subs k = sub_list d subs k" using Suc by auto
  moreover have "d' (subs ! (k div INODE_INDIRECT1_COUNT)) = d (subs ! (k div INODE_INDIRECT1_COUNT))"
    using Suc.prems(2) assms(3) by (intro Suc.prems(1) sub_in_used) auto
  ultimately show ?case by (simp add: sub_list_Suc ind_def)
qed

lemma alist_cong:
  assumes "\<And>b. b \<in> set (metas d ino n) \<Longrightarrow> d' b = d b" and "n \<le> INDIRECT2_BOUND"
  shows "alist d' ino n = alist d ino n"
proof -
  consider "n \<le> INODE_DIRECT_COUNT" | "INODE_DIRECT_COUNT < n" "n \<le> INDIRECT1_BOUND" | "INDIRECT1_BOUND < n"
    by linarith
  then show ?thesis
  proof cases
    case 1
    then show ?thesis by (simp add: alist_def)
  next
    case 2
    then have "d' (indirect1 ino) = d (indirect1 ino)" by (intro assms(1) metas_ind(1))
    with 2 show ?thesis by (simp add: alist_def ind_def)
  next
    case 3
    then have i: "d' (indirect1 ino) = d (indirect1 ino)" "d' (indirect2 ino) = d (indirect2 ino)"
      by (auto intro!: assms(1) metas_ind simp: layout_consts)
    have "sub_list d' (ind d (indirect2 ino)) (n - INDIRECT1_BOUND) = sub_list d (ind d (indirect2 ino)) (n - INDIRECT1_BOUND)"
      using assms 3 by (intro sub_list_cong assms(1)) (auto simp: metas_def layout_consts)
    with i show ?thesis by (simp add: alist_def ind_def)
  qed
qed

lemma inode_ok_cong:
  assumes ok: "inode_ok held d ino" and wf: "wf_disk d'"
    and m: "\<And>b. b \<in> set (metas d ino (data_blocks ino)) \<Longrightarrow> d' b = d b"
  shows "inode_ok held d' ino"
  using ok wf alist_cong [OF m inode_ok_blocks(2) [OF ok]] by (simp add: inode_ok_def)

subsection \<open>An inode is a flat byte array\<close>

text \<open>Blocks of the file: positions within one block, and the part of a range that lies in it.\<close>

lemma block_room:
  assumes "s < e" and "e \<le> (s div BLOCK_SZ + 1) * BLOCK_SZ"
  shows "s mod BLOCK_SZ + (e - s) \<le> BLOCK_SZ"
proof -
  define q r where "q = s div BLOCK_SZ" and "r = s mod BLOCK_SZ"
  have "s = q * BLOCK_SZ + r" by (simp add: q_def r_def)
  with assms show ?thesis unfolding q_def [symmetric] r_def [symmetric] by simp
qed

lemma same_block:
  assumes "s < e" and "e \<le> (s div BLOCK_SZ + 1) * BLOCK_SZ" and "i < e - s"
  shows "(s + i) div BLOCK_SZ = s div BLOCK_SZ" and "(s + i) mod BLOCK_SZ = s mod BLOCK_SZ + i"
proof -
  define q r where "q = s div BLOCK_SZ" and "r = s mod BLOCK_SZ"
  have s: "s = q * BLOCK_SZ + r" by (simp add: q_def r_def)
  have "r + i < BLOCK_SZ" using assms(3) block_room [OF assms(1,2)] unfolding r_def by linarith
  then have "(r + i + q * BLOCK_SZ) div BLOCK_SZ = q" "(r + i + q * BLOCK_SZ) mod BLOCK_SZ = r + i" by simp_all
  moreover have "r + i + q * BLOCK_SZ = s + i" using s by simp
  ultimately show "(s + i) div BLOCK_SZ = s div BLOCK_SZ" and "(s + i) mod BLOCK_SZ = s mod BLOCK_SZ + i"
    by (simp_all add: q_def r_def)
qed

lemma file_chunk:
  assumes "wf_disk d" and "s < e" and "e \<le> (s div BLOCK_SZ + 1) * BLOCK_SZ"
  shows "slice (d (blk_id d ino (s div BLOCK_SZ))) (s mod BLOCK_SZ) (s mod BLOCK_SZ + (e - s)) =
    Some (map (file_byte d ino) [s..<e])"
proof -
  let ?t = "d (blk_id d ino (s div BLOCK_SZ))"
  have room: "s mod BLOCK_SZ + (e - s) \<le> length ?t" using block_room [OF assms(2,3)] assms(1) by (simp add: wf_disk_def)
  have "take (e - s) (drop (s mod BLOCK_SZ) ?t) = map (file_byte d ino) [s..<e]"
  proof (rule nth_equalityI)
    show "length (take (e - s) (drop (s mod BLOCK_SZ) ?t)) = length (map (file_byte d ino) [s..<e])"
      using room by simp
    fix i assume "i < length (take (e - s) (drop (s mod BLOCK_SZ) ?t))"
    then have i: "i < e - s" by simp
    with room same_block [OF assms(2,3) i]
    show "take (e - s) (drop (s mod BLOCK_SZ) ?t) ! i = map (file_byte d ino) [s..<e] ! i"
      by (simp add: file_byte_def)
  qed
  with room show ?thesis by (simp add: slice_def)
qed

text \<open>One round of either loop: the next stop lies in the block of \<open>s\<close>, and the block is in the table.\<close>

lemma round_bounds:
  assumes "inode_ok held d ino" and "s < fin" and "fin \<le> size_in ino"
  defines "e \<equiv> min ((s div BLOCK_SZ + 1) * BLOCK_SZ) fin"
  shows "s < e" and "e \<le> (s div BLOCK_SZ + 1) * BLOCK_SZ" and "e \<le> fin"
    and "e \<noteq> fin \<Longrightarrow> e div BLOCK_SZ = s div BLOCK_SZ + 1"
    and "s div BLOCK_SZ < data_blocks ino" and "s div BLOCK_SZ mod 2 ^ 32 = s div BLOCK_SZ"
proof -
  have "s < (s div BLOCK_SZ + 1) * BLOCK_SZ" using dividend_less_div_times [of BLOCK_SZ s] by (simp add: layout_consts)
  then show "s < e" using assms(2) by (simp add: e_def)
  show "e \<le> (s div BLOCK_SZ + 1) * BLOCK_SZ" "e \<le> fin" by (auto simp: e_def)
  show "e div BLOCK_SZ = s div BLOCK_SZ + 1" if "e \<noteq> fin"
  proof -
    have "e = (s div BLOCK_SZ + 1) * BLOCK_SZ" using that by (auto simp: e_def min_def split: if_splits)
    then show ?thesis by (simp only:) (simp add: layout_consts)
  qed
  show "s div BLOCK_SZ < data_blocks ino"
    using assms(2,3) by (simp add: inode_ok_blocks(1) [OF assms(1)] layout_consts)
  then show "s div BLOCK_SZ mod 2 ^ 32 = s div BLOCK_SZ"
    using inode_ok_blocks(2) [OF assms(1)] by (simp add: layout_consts)
qed

lemma data_block_free:
  assumes "inode_ok held d ino" and "i < data_blocks ino"
  shows "blk_id d ino i \<notin> set held" and "blk_id d ino i \<notin> set (metas d ino (data_blocks ino))"
  using assms inode_ok_split(1,3) [OF assms(1)] by (auto simp: inode_ok_def)

lemma read_loop_spec:
  assumes ok: "inode_ok held d ino" and "s < fin" and "fin \<le> size_in ino" and "r + (fin - s) \<le> length buf"
  shows "read_loop held d ino fin s (s div BLOCK_SZ) r buf =
    Some (r + (fin - s), splice_at buf r (map (file_byte d ino) [s..<fin]))"
  using assms(2-)
proof (induction "fin - s" arbitrary: s r buf rule: less_induct)
  case less
  define e where "e = min ((s div BLOCK_SZ + 1) * BLOCK_SZ) fin"
  note b = round_bounds [OF ok less.prems(1,2), folded e_def]
  let ?chunk = "map (file_byte d ino) [s..<e]"
  have wf: "wf_disk d" using ok by (simp add: inode_ok_def)
  have chunk: "blk_read held d (blk_id d ino (s div BLOCK_SZ)) 0 BLOCK_SZ
      (\<lambda>t. slice t (s mod BLOCK_SZ) (s mod BLOCK_SZ + (e - s))) = Some ?chunk"
    using wf data_block_free(1) [OF ok b(5)] by (simp add: blk_read_whole file_chunk [OF wf b(1,2)])
  have copy: "slice_copy buf r (r + (e - s)) ?chunk = Some (splice_at buf r ?chunk)"
    using less.prems(3) b(3) by (simp add: slice_copy_def)
  have step: "read_loop held d ino fin s (s div BLOCK_SZ) r buf =
    (if e = fin then Some (r + (e - s), splice_at buf r ?chunk)
     else read_loop held d ino fin e (s div BLOCK_SZ + 1) (r + (e - s)) (splice_at buf r ?chunk))"
    using get_block_id_ok [OF ok b(5)] b(6) chunk copy
    unfolding read_loop.simps [of held d ino fin s] Let_def e_def [symmetric] by simp
  show ?case
  proof (cases "e = fin")
    case True
    with step show ?thesis by simp
  next
    case False
    with b have e: "e < fin" "e div BLOCK_SZ = s div BLOCK_SZ + 1" by auto
    have "read_loop held d ino fin e (e div BLOCK_SZ) (r + (e - s)) (splice_at buf r ?chunk) =
      Some (r + (e - s) + (fin - e),
            splice_at (splice_at buf r ?chunk) (r + (e - s)) (map (file_byte d ino) [e..<fin]))"
      using less.prems b e by (intro less.hyps) auto
    moreover have "splice_at (splice_at buf r ?chunk) (r + (e - s)) (map (file_byte d ino) [e..<fin]) =
      splice_at buf r (map (file_byte d ino) [s..<fin])"
    proof -
      have "[s..<fin] = [s..<e] @ [e..<fin]" using b e upt_add_eq_append [of s e "fin - e"] by simp
      then show ?thesis
        using splice_splice_append [of r ?chunk "map (file_byte d ino) [e..<fin]" buf] less.prems b by simp
    qed
    ultimately show ?thesis using step False e b by simp
  qed
qed

lemma read_at_ok:
  assumes "inode_ok held d ino" and "offset + length buf < 2 ^ 64"
  shows "read_at held d ino offset buf =
    (let n = min (offset + length buf) (size_in ino) - offset
     in Some (n, map (file_byte d ino) [offset..<offset + n] @ drop n buf))"
proof (cases "offset \<ge> min (offset + length buf) (size_in ino)")
  case True
  then show ?thesis using assms(2) by (simp add: read_at_def)
next
  case False
  let ?fin = "min (offset + length buf) (size_in ino)"
  have "read_loop held d ino ?fin offset (offset div BLOCK_SZ) 0 buf =
    Some (0 + (?fin - offset), splice_at buf 0 (map (file_byte d ino) [offset..<?fin]))"
    using False by (intro read_loop_spec [OF assms(1)]) auto
  moreover have "offset + (?fin - offset) = ?fin" using False by simp
  ultimately show ?thesis using False assms(2) by (simp add: read_at_def Let_def splice_at_def)
qed

text \<open>
  C30 (functional).  Reading an inode: for every offset and every buffer (a Rust slice has fewer than
  \<open>2 ^ 63\<close> bytes) the call returns, the number of bytes read is exactly the overlap of the requested
  range with the file, these bytes are the file's bytes in order, and the rest of the buffer is
  unchanged.  This includes the offsets for which \<^verbatim>\<open>offset + buf.len()\<close> wraps.
\<close>

theorem read_at_spec:
  assumes "inode_ok held d ino" and "offset < 2 ^ 64" and "length buf < 2 ^ 63"
  shows "read_at held d ino offset buf =
    (let n = min (offset + length buf) (size_in ino) - offset
     in Some (n, map (file_byte d ino) [offset..<offset + n] @ drop n buf))"
proof (cases "offset + length buf < 2 ^ 64")
  case True
  show ?thesis by (rule read_at_ok [OF assms(1) True])
next
  case False
  have "size_in ino \<le> 16540 * 512" using assms(1) by (simp add: inode_ok_def layout_consts)
  then have "size_in ino \<le> offset" using False assms(3) by simp
  then show ?thesis by (simp add: read_at_def Let_def min_le_iff_disj)
qed

lemma write_chunk:
  assumes ok: "inode_ok held d ino" and s: "s < e" "e \<le> (s div BLOCK_SZ + 1) * BLOCK_SZ" "s div BLOCK_SZ < data_blocks ino"
    and w: "w + (e - s) \<le> length buf"
  defines "b \<equiv> blk_id d ino (s div BLOCK_SZ)"
  defines "d' \<equiv> d(b := splice_at (d b) (s mod BLOCK_SZ) (take (e - s) (drop w buf)))"
  shows "blk_modify held d b 0 BLOCK_SZ (\<lambda>t.
           do { src \<leftarrow> slice buf w (w + (e - s));
                t \<leftarrow> slice_copy t (s mod BLOCK_SZ) (s mod BLOCK_SZ + (e - s)) src;
                Some ((), t) }) = Some ((), d')"
    and "inode_ok held d' ino"
    and "i < data_blocks ino \<Longrightarrow> blk_id d' ino i = blk_id d ino i"
    and "j < data_blocks ino * BLOCK_SZ \<Longrightarrow>
      file_byte d' ino j = (if s \<le> j \<and> j < e then buf ! (w + (j - s)) else file_byte d ino j)"
proof -
  have wf: "wf_disk d" using ok by (simp add: inode_ok_def)
  note free = data_block_free [OF ok s(3), folded b_def]
  note room = block_room [OF s(1,2)]
  have len: "length (d b) = BLOCK_SZ" using wf by (simp add: wf_disk_def)
  let ?t = "splice_at (d b) (s mod BLOCK_SZ) (take (e - s) (drop w buf))"
  have t: "length ?t = BLOCK_SZ" using len room w by simp
  show "blk_modify held d b 0 BLOCK_SZ (\<lambda>t. do { src \<leftarrow> slice buf w (w + (e - s));
      t \<leftarrow> slice_copy t (s mod BLOCK_SZ) (s mod BLOCK_SZ + (e - s)) src; Some ((), t) }) = Some ((), d')"
    using w len room t free(1) by (simp add: blk_modify_whole [OF wf] slice_def slice_copy_def d'_def)
  have wf': "wf_disk d'" using wf t by (simp add: d'_def wf_disk_def)
  have m: "d' c = d c" if "c \<in> set (metas d ino (data_blocks ino))" for c
    using that free(2) by (auto simp: d'_def)
  show "inode_ok held d' ino" using ok wf' m by (rule inode_ok_cong)
  show ids: "blk_id d' ino i = blk_id d ino i" if "i < data_blocks ino" for i
    using blk_id_cong [OF m that inode_ok_blocks(2) [OF ok]] .
  assume j: "j < data_blocks ino * BLOCK_SZ"
  then have jb: "j div BLOCK_SZ < data_blocks ino" by (simp add: less_mult_imp_div_less)
  show "file_byte d' ino j = (if s \<le> j \<and> j < e then buf ! (w + (j - s)) else file_byte d ino j)"
  proof (cases "j div BLOCK_SZ = s div BLOCK_SZ")
    case True
    have "s \<le> j \<longleftrightarrow> s mod BLOCK_SZ \<le> j mod BLOCK_SZ"
      using True div_mult_mod_eq [of s BLOCK_SZ] div_mult_mod_eq [of j BLOCK_SZ] by (metis add_le_cancel_left)
    moreover have "j = s + (j mod BLOCK_SZ - s mod BLOCK_SZ)" if "s \<le> j"
      using True that calculation div_mult_mod_eq [of s BLOCK_SZ] div_mult_mod_eq [of j BLOCK_SZ]
      by (metis add_diff_cancel_left le_add_diff_inverse)
    ultimately have "s \<le> j \<and> j < e \<longleftrightarrow> s mod BLOCK_SZ \<le> j mod BLOCK_SZ \<and> j mod BLOCK_SZ < s mod BLOCK_SZ + (e - s)"
      and "s \<le> j \<Longrightarrow> j mod BLOCK_SZ - s mod BLOCK_SZ = j - s"
      by auto
    moreover have "j mod BLOCK_SZ < BLOCK_SZ" by (simp add: layout_consts)
    moreover have "file_byte d' ino j = ?t ! (j mod BLOCK_SZ)"
      unfolding file_byte_def True ids [OF s(3)] b_def [symmetric] by (simp add: d'_def)
    moreover have "file_byte d ino j = d b ! (j mod BLOCK_SZ)"
      unfolding file_byte_def True b_def [symmetric] ..
    ultimately show ?thesis using w len room by (auto simp: nth_splice_at)
  next
    case False
    then have "blk_id d ino (j div BLOCK_SZ) \<noteq> b"
      using inode_ok_split(2) [OF ok] jb s(3) by (auto simp: b_def inj_on_def)
    moreover have "\<not> (s \<le> j \<and> j < e)"
      using False same_block(1) [OF s(1,2), of "j - s"] by (auto dest: diff_less_mono)
    moreover have "file_byte d' ino j = file_byte d ino j"
      using jb calculation(1) by (simp add: file_byte_def ids) (simp add: d'_def)
    ultimately show ?thesis by auto
  qed
qed

definition written :: "nat list \<Rightarrow> disk \<Rightarrow> DiskInode \<Rightarrow> nat \<Rightarrow> nat \<Rightarrow> (nat \<Rightarrow> u8) \<Rightarrow> disk \<Rightarrow> bool" where
  "written held d ino s fin f d' \<longleftrightarrow>
     inode_ok held d' ino \<and> alist d' ino (data_blocks ino) = alist d ino (data_blocks ino) \<and>
     (\<forall>j < data_blocks ino * BLOCK_SZ. file_byte d' ino j = (if s \<le> j \<and> j < fin then f j else file_byte d ino j)) \<and>
     (\<forall>b. b \<notin> blk_id d ino ` {..<data_blocks ino} \<longrightarrow> d' b = d b)"

lemma write_chunk_written:
  assumes "inode_ok held d ino" and "s < e" and "e \<le> (s div BLOCK_SZ + 1) * BLOCK_SZ"
    and "s div BLOCK_SZ < data_blocks ino" and "w + (e - s) \<le> length buf"
  defines "b \<equiv> blk_id d ino (s div BLOCK_SZ)"
  shows "written held d ino s e (\<lambda>j. buf ! (w + (j - s)))
    (d(b := splice_at (d b) (s mod BLOCK_SZ) (take (e - s) (drop w buf))))"
proof -
  have "alist (d(b := t)) ino (data_blocks ino) = alist d ino (data_blocks ino)" for t
    using data_block_free(2) [OF assms(1,4), folded b_def] inode_ok_blocks(2) [OF assms(1)]
    by (intro alist_cong) auto
  then show ?thesis
    using write_chunk(2,4) [OF assms(1-5), folded b_def] assms(4) by (auto simp: written_def b_def)
qed

lemma written_trans:
  assumes "written held d ino s e f d1" and "written held d1 ino e fin g d2" and "s \<le> e" and "e \<le> fin"
    and "inode_ok held d ino" and "\<And>j. s \<le> j \<Longrightarrow> j < e \<Longrightarrow> h j = f j" and "\<And>j. e \<le> j \<Longrightarrow> j < fin \<Longrightarrow> h j = g j"
  shows "written held d ino s fin h d2"
proof -
  let ?n = "data_blocks ino"
  have "blk_id d1 ino i = blk_id d ino i" if "i < ?n" for i
  proof (rule blk_id_cong [OF _ that inode_ok_blocks(2) [OF assms(5)]])
    fix b assume "b \<in> set (metas d ino ?n)"
    then have "b \<notin> blk_id d ino ` {..<?n}" using inode_ok_split(3) [OF assms(5)] by blast
    then show "d1 b = d b" using assms(1) by (simp add: written_def)
  qed
  then have "blk_id d1 ino ` {..<?n} = blk_id d ino ` {..<?n}" by auto
  with assms show ?thesis by (auto simp: written_def)
qed

lemma write_loop_spec:
  assumes "inode_ok held d ino" and "s < fin" and "fin \<le> size_in ino" and "w + (fin - s) \<le> length buf"
  shows "\<exists>d'. write_loop held d ino fin s (s div BLOCK_SZ) w buf = Some (w + (fin - s), d') \<and>
    written held d ino s fin (\<lambda>j. buf ! (w + (j - s))) d'"
  using assms
proof (induction "fin - s" arbitrary: s w d rule: less_induct)
  case less
  note ok = less.prems(1)
  define e where "e = min ((s div BLOCK_SZ + 1) * BLOCK_SZ) fin"
  note b = round_bounds [OF ok less.prems(2,3), folded e_def]
  let ?b = "blk_id d ino (s div BLOCK_SZ)"
  define d1 where "d1 = d(?b := splice_at (d ?b) (s mod BLOCK_SZ) (take (e - s) (drop w buf)))"
  have w: "w + (e - s) \<le> length buf" using less.prems(4) b(3) by linarith
  note chunk = write_chunk(1) [OF ok b(1,2,5) w, folded d1_def]
  note wr = write_chunk_written [OF ok b(1,2,5) w, folded d1_def]
  have step: "write_loop held d ino fin s (s div BLOCK_SZ) w buf =
    (if e = fin then Some (w + (e - s), d1)
     else write_loop held d1 ino fin e (s div BLOCK_SZ + 1) (w + (e - s)) buf)"
    using get_block_id_ok [OF ok b(5)] b(6) chunk
    unfolding write_loop.simps [of held d ino fin s] Let_def e_def [symmetric] by simp
  show ?case
  proof (cases "e = fin")
    case True
    with step wr show ?thesis by auto
  next
    case False
    with b have e: "e < fin" "e div BLOCK_SZ = s div BLOCK_SZ + 1" by auto
    have ok1: "inode_ok held d1 ino" using wr by (simp add: written_def)
    have "w + (e - s) + (fin - e) \<le> length buf" using less.prems(4) b e by linarith
    then obtain d2 where d2: "write_loop held d1 ino fin e (e div BLOCK_SZ) (w + (e - s)) buf =
        Some (w + (e - s) + (fin - e), d2)"
      "written held d1 ino e fin (\<lambda>j. buf ! (w + (e - s) + (j - e))) d2"
      using less.hyps [of e d1 "w + (e - s)"] ok1 e(1) b(1) less.prems(3) diff_less_mono2 [of s e fin] by auto
    have "written held d ino s fin (\<lambda>j. buf ! (w + (j - s))) d2"
      using b e by (intro written_trans [OF wr d2(2) _ _ ok]) auto
    with step d2(1) False e b show ?thesis by simp
  qed
qed

lemma write_at_ok:
  assumes "inode_ok held d ino" and "buf \<noteq> []" and "offset + length buf < 2 ^ 64" and "offset < size_in ino"
  shows "\<exists>d'. write_at held d ino offset buf = Some (min (offset + length buf) (size_in ino) - offset, d') \<and>
    inode_ok held d' ino \<and> alist d' ino (data_blocks ino) = alist d ino (data_blocks ino) \<and>
    (\<forall>j < size_in ino. file_byte d' ino j =
       (if offset \<le> j \<and> j < offset + length buf then buf ! (j - offset) else file_byte d ino j)) \<and>
    (\<forall>b. b \<notin> blk_id d ino ` {..<data_blocks ino} \<longrightarrow> d' b = d b)"
proof -
  let ?fin = "min (offset + length buf) (size_in ino)"
  have lt: "offset < ?fin" using assms(2,4) by simp
  obtain d' where d': "write_loop held d ino ?fin offset (offset div BLOCK_SZ) 0 buf = Some (0 + (?fin - offset), d')"
    "written held d ino offset ?fin (\<lambda>j. buf ! (0 + (j - offset))) d'"
    using write_loop_spec [OF assms(1) lt, of 0 buf] lt by force
  have "size_in ino \<le> data_blocks ino * BLOCK_SZ"
    unfolding inode_ok_blocks(1) [OF assms(1)] layout_consts by linarith
  with d'(2) have "\<forall>j < size_in ino. file_byte d' ino j =
      (if offset \<le> j \<and> j < offset + length buf then buf ! (j - offset) else file_byte d ino j)"
    by (auto simp: written_def)
  with d' lt assms(3) show ?thesis by (auto simp: write_at_def written_def Let_def)
qed

text \<open>
  C31 (functional).  Writing an inode whose size already covers the range: the call returns the length
  of the buffer clipped to the file, exactly the bytes of that range are replaced, the block table
  and the inode's validity are kept, and no block outside the inode's data blocks changes.
\<close>

theorem write_at_spec:
  assumes "inode_ok held d ino" and "buf \<noteq> []" and "offset + length buf < 2 ^ 64" and "offset < size_in ino"
  shows "\<exists>d'. write_at held d ino offset buf = Some (min (offset + length buf) (size_in ino) - offset, d') \<and>
    inode_ok held d' ino \<and> alist d' ino (data_blocks ino) = alist d ino (data_blocks ino) \<and>
    (\<forall>j < size_in ino. file_byte d' ino j =
       (if offset \<le> j \<and> j < offset + length buf then buf ! (j - offset) else file_byte d ino j)) \<and>
    (\<forall>b. b \<notin> blk_id d ino ` {..<data_blocks ino} \<longrightarrow> d' b = d b)"
  using assms by (rule write_at_ok)

subsection \<open>Growing the block table\<close>

lemma words_bytes_indirect:
  assumes "length t = BLOCK_SZ"
  shows "words_bytes (indirect_of t) = t"
proof -
  have "concat (map (\<lambda>i. le_bytes 4 (get_le 4 t i)) [0..<n]) = take (4 * n) t" if "4 * n \<le> length t" for n
    using that
  proof (induction n)
    case (Suc n)
    have "le_bytes 4 (get_le 4 t n) = take 4 (drop (4 * n) t)"
      unfolding get_le_def using Suc.prems by (intro le_bytes_un_le) simp
    moreover have "take (4 * Suc n) t = take (4 * n) t @ take 4 (drop (4 * n) t)"
      using take_add [of "4 * n" 4 t] by (simp add: add.commute)
    ultimately show ?case using Suc by (simp del: le_bytes.simps)
  qed simp
  from this [of INODE_INDIRECT1_COUNT] show ?thesis
    using assms by (simp add: words_bytes_def indirect_of_def comp_def layout_consts del: le_bytes.simps)
qed

lemma fill_spec:
  assumes "c \<le> bound" and "bound \<le> length arr" and "bound - c \<le> length new"
  shows "fill c bound arr new = Some (take c arr @ take (bound - c) new @ drop bound arr, bound, drop (bound - c) new)"
  using assms
proof (induction "bound - c" arbitrary: c arr new)
  case 0
  then show ?case by (simp add: fill.simps [of c])
next
  case (Suc m)
  then obtain x xs where new: "new = x # xs" by (cases new) auto
  have "fill (c + 1) bound (arr[c := x]) xs =
    Some (take (c + 1) (arr[c := x]) @ take (bound - (c + 1)) xs @ drop bound (arr[c := x]), bound, drop (bound - (c + 1)) xs)"
    using Suc new by (intro Suc.hyps(1)) auto
  moreover have "take (c + 1) (arr[c := x]) = take c arr @ [x]"
    using Suc by (simp add: take_Suc_conv_app_nth)
  moreover have "bound - c = Suc (bound - (c + 1))" using Suc by simp
  ultimately show ?case using Suc new by (subst fill.simps) simp
qed

lemma fill_skip: "\<not> c < bound \<Longrightarrow> fill c bound arr new = Some (arr, c, new)"
  by (simp add: fill.simps)

lemma sub_list_subs_cong:
  assumes "take (subs_used k) subs' = take (subs_used k) subs"
    and "length subs = INODE_INDIRECT1_COUNT" and "length subs' = INODE_INDIRECT1_COUNT" and "k \<le> INODE_INDIRECT2_COUNT"
  shows "sub_list d subs' k = sub_list d subs k"
  using assms(1,4)
proof (induction k)
  case (Suc k)
  have a: "k div INODE_INDIRECT1_COUNT < subs_used (Suc k)" "k div INODE_INDIRECT1_COUNT < INODE_INDIRECT1_COUNT"
    using Suc.prems(2) by (simp_all add: subs_used_def layout_consts)
  then have "subs' ! (k div INODE_INDIRECT1_COUNT) = subs ! (k div INODE_INDIRECT1_COUNT)"
    using arg_cong [OF Suc.prems(1), of "\<lambda>xs. xs ! (k div INODE_INDIRECT1_COUNT)"] assms(2,3) by simp
  moreover have "take (subs_used k) subs' = take (subs_used k) subs"
    using arg_cong [OF Suc.prems(1), of "take (subs_used k)"] subs_used_mono [of k] by (simp add: min_def)
  ultimately show ?case using Suc by (simp add: sub_list_Suc)
qed simp

lemma ind_words:
  "length t = BLOCK_SZ \<Longrightarrow> i < INODE_INDIRECT1_COUNT \<Longrightarrow> x < 2 ^ 32 \<Longrightarrow>
    indirect_of (words_bytes ((indirect_of t)[i := x])) = (indirect_of t)[i := x]"
  by (intro indirect_of_words_bytes)
    (auto simp: in_set_conv_nth indirect_of_bound [simplified] nth_list_update split: if_splits)

text \<open>Appending one data block below the doubly indirect block, with and without a new table.\<close>

lemma sub_list_new:
  assumes wf: "wf_disk d" and len: "length subs = INODE_INDIRECT1_COUNT" and k: "k < INODE_INDIRECT2_COUNT"
    and b: "k mod INODE_INDIRECT1_COUNT = 0" and x: "x < 2 ^ 32"
    and fresh: "s \<notin> set (take (subs_used k) subs)"
  shows "sub_list (d(s := words_bytes ((ind d s)[0 := x]))) (subs[k div INODE_INDIRECT1_COUNT := s]) (Suc k) =
    sub_list d subs k @ [s, x]"
proof -
  let ?a = "k div INODE_INDIRECT1_COUNT" and ?d = "d(s := words_bytes ((ind d s)[0 := x]))"
  have a: "?a < INODE_INDIRECT1_COUNT" using k by (simp add: layout_consts)
  have u: "subs_used k = ?a" using b by (simp add: subs_used_eq)
  have "indirect_of (words_bytes ((ind d s)[0 := x])) = (ind d s)[0 := x]"
    unfolding ind_def using wf x by (intro ind_words) (simp_all add: wf_disk_def layout_consts)
  then have "ind ?d s ! 0 = x" by (simp add: layout_consts)
  moreover have "sub_list ?d (subs[?a := s]) k = sub_list ?d subs k"
    using len k u by (intro sub_list_subs_cong) auto
  moreover have "sub_list ?d subs k = sub_list d subs k"
    using fresh len k by (intro sub_list_cong) auto
  ultimately show ?thesis using a len b by (simp add: sub_list_Suc)
qed

lemma sub_list_old:
  assumes wf: "wf_disk d" and len: "length subs = INODE_INDIRECT1_COUNT" and k: "k < INODE_INDIRECT2_COUNT"
    and b: "k mod INODE_INDIRECT1_COUNT \<noteq> 0" and x: "x < 2 ^ 32"
    and dist: "distinct (take (subs_used k) subs)"
  defines "s \<equiv> subs ! (k div INODE_INDIRECT1_COUNT)"
  shows "sub_list (d(s := words_bytes ((ind d s)[k mod INODE_INDIRECT1_COUNT := x]))) subs (Suc k) =
    sub_list d subs k @ [x]"
proof -
  let ?a = "k div INODE_INDIRECT1_COUNT" and ?b = "k mod INODE_INDIRECT1_COUNT"
  let ?d = "d(s := words_bytes ((ind d s)[?b := x]))"
  have a: "?a < INODE_INDIRECT1_COUNT" and bb: "?b < INODE_INDIRECT1_COUNT" using k by (simp_all add: layout_consts)
  have "indirect_of (words_bytes ((ind d s)[?b := x])) = (ind d s)[?b := x]"
    unfolding ind_def using wf x bb by (intro ind_words) (simp_all add: wf_disk_def)
  then have s: "ind ?d s = (ind d s)[?b := x]" by simp
  have "subs ! i \<noteq> s" if "i < ?a" for i
  proof -
    have "Suc ?a = subs_used k" using b by (simp add: subs_used_eq)
    then have "distinct (take (Suc ?a) subs)" using dist by simp
    then show ?thesis using that a len nth_eq_iff_index_eq [of "take (Suc ?a) subs" i ?a] by (simp add: s_def)
  qed
  then have "map (\<lambda>i. subs ! i # ind ?d (subs ! i)) [0..<?a] = map (\<lambda>i. subs ! i # ind d (subs ! i)) [0..<?a]"
    by auto
  then have "sub_list ?d subs k = sub_list d subs k"
    using b s by (simp only: sub_list_def s_def [symmetric]) simp
  then show ?thesis using b bb s by (simp add: sub_list_Suc s_def [symmetric])
qed

abbreviation fill2_from :: "nat list \<Rightarrow> disk \<Rightarrow> nat list \<Rightarrow> nat \<Rightarrow> nat \<Rightarrow> nat list \<Rightarrow> (nat list \<times> nat list \<times> disk) option" where
  "fill2_from held d subs k K new \<equiv> fill2 held d subs (k div INODE_INDIRECT1_COUNT) (k mod INODE_INDIRECT1_COUNT)
     (K div INODE_INDIRECT1_COUNT) (K mod INODE_INDIRECT1_COUNT) new"

lemma pair_less:
  "(k div m < K div m \<or> (k div m = K div m \<and> k mod m < K mod m)) \<longleftrightarrow> k < (K :: nat)" if "0 < m"
proof
  assume "k < K"
  then have "k div m \<le> K div m" by (simp add: div_le_mono)
  moreover have "k mod m < K mod m" if "k div m = K div m"
    using \<open>k < K\<close> that div_mult_mod_eq [of k m] div_mult_mod_eq [of K m] by (metis add_less_cancel_left)
  ultimately show "k div m < K div m \<or> (k div m = K div m \<and> k mod m < K mod m)" by auto
next
  assume "k div m < K div m \<or> (k div m = K div m \<and> k mod m < K mod m)"
  then show "k < K"
  proof
    assume "k div m < K div m"
    then show ?thesis by (metis div_le_mono linorder_not_less)
  next
    assume "k div m = K div m \<and> k mod m < K mod m"
    then show ?thesis using div_mult_mod_eq [of k m] div_mult_mod_eq [of K m] by (metis add_less_cancel_left)
  qed
qed

lemma next_pair:
  "Suc (k mod INODE_INDIRECT1_COUNT) = INODE_INDIRECT1_COUNT \<Longrightarrow>
     Suc k div INODE_INDIRECT1_COUNT = Suc (k div INODE_INDIRECT1_COUNT) \<and> Suc k mod INODE_INDIRECT1_COUNT = 0"
  "Suc (k mod INODE_INDIRECT1_COUNT) \<noteq> INODE_INDIRECT1_COUNT \<Longrightarrow>
     Suc k div INODE_INDIRECT1_COUNT = k div INODE_INDIRECT1_COUNT \<and>
     Suc k mod INODE_INDIRECT1_COUNT = Suc (k mod INODE_INDIRECT1_COUNT)"
  by (auto simp: div_Suc mod_Suc layout_consts)

lemma fill_one_modify:
  assumes "wf_disk d" and "s \<notin> set held" and "b < INODE_INDIRECT1_COUNT"
  shows "blk_modify held d s 0 BLOCK_SZ (fill_one b (x # new)) = Some (new, d(s := words_bytes ((ind d s)[b := x])))"
    and "wf_disk (d(s := words_bytes ((ind d s)[b := x])))"
proof -
  have len: "length (d s) = 4 * INODE_INDIRECT1_COUNT" using assms(1) by (simp add: wf_disk_def layout_consts)
  then show "blk_modify held d s 0 BLOCK_SZ (fill_one b (x # new)) = Some (new, d(s := words_bytes ((ind d s)[b := x])))"
    using assms by (simp add: blk_modify_whole fill_one_def ind_def)
  show "wf_disk (d(s := words_bytes ((ind d s)[b := x])))"
    using assms(1) by (simp add: wf_disk_def layout_consts)
qed

lemma fill2_done: "\<not> k < K \<Longrightarrow> fill2_from held d subs k K new = Some (subs, new, d)"
  using pair_less [of INODE_INDIRECT1_COUNT k K] by (subst fill2.simps) (auto simp: layout_consts)

lemma fill2_round:
  assumes "k < K" and "K \<le> INODE_INDIRECT2_COUNT" and "wf_disk d" and "length subs = INODE_INDIRECT1_COUNT"
  defines "a \<equiv> k div INODE_INDIRECT1_COUNT" and "b \<equiv> k mod INODE_INDIRECT1_COUNT"
  shows "b = 0 \<Longrightarrow> s \<notin> set held \<Longrightarrow> fill2_from held d subs k K (s # x # new) =
      fill2_from held (d(s := words_bytes ((ind d s)[0 := x]))) (subs[a := s]) (Suc k) K new"
    and "b \<noteq> 0 \<Longrightarrow> subs ! a \<notin> set held \<Longrightarrow> fill2_from held d subs k K (x # new) =
      fill2_from held (d(subs ! a := words_bytes ((ind d (subs ! a))[b := x]))) subs (Suc k) K new"
proof -
  have a: "a < INODE_INDIRECT1_COUNT" and b: "b < INODE_INDIRECT1_COUNT"
    using assms(1,2) by (simp_all add: a_def b_def layout_consts)
  have go: "k div INODE_INDIRECT1_COUNT < K div INODE_INDIRECT1_COUNT \<or>
      (k div INODE_INDIRECT1_COUNT = K div INODE_INDIRECT1_COUNT \<and> k mod INODE_INDIRECT1_COUNT < K mod INODE_INDIRECT1_COUNT)"
    using pair_less [of INODE_INDIRECT1_COUNT k K] assms(1) by (simp add: layout_consts)
  have one: "Suc 0 \<noteq> INODE_INDIRECT1_COUNT" by (simp add: layout_consts)
  note mod_ = fill_one_modify(1) [OF assms(3) _ b]
  show "fill2_from held d subs k K (s # x # new) =
      fill2_from held (d(s := words_bytes ((ind d s)[0 := x]))) (subs[a := s]) (Suc k) K new"
    if "b = 0" "s \<notin> set held"
    using that one go a assms(4) mod_ [OF that(2), of x new] next_pair [of k]
    by (subst fill2.simps) (simp add: a_def [symmetric] b_def [symmetric])
  show "fill2_from held d subs k K (x # new) =
      fill2_from held (d(subs ! a := words_bytes ((ind d (subs ! a))[b := x]))) subs (Suc k) K new"
    if "b \<noteq> 0" "subs ! a \<notin> set held"
    using that go a assms(4) mod_ [OF that(2), of x new] next_pair [of k]
    by (subst fill2.simps) (simp add: a_def [symmetric] b_def [symmetric])
qed

definition fill2_ok :: "disk \<Rightarrow> nat list \<Rightarrow> nat \<Rightarrow> nat \<Rightarrow> nat list \<Rightarrow> nat list \<Rightarrow> disk \<Rightarrow> bool" where
  "fill2_ok d subs k K new subs' d' \<longleftrightarrow>
     wf_disk d' \<and> length subs' = INODE_INDIRECT1_COUNT \<and> (\<forall>x \<in> set subs'. x < 2 ^ 32) \<and>
     take (subs_used k) subs' = take (subs_used k) subs \<and>
     sub_list d' subs' K = sub_list d subs k @ new \<and>
     (\<forall>b. b \<notin> set (take (subs_used K) subs') \<longrightarrow> d' b = d b)"

lemma sub_list_used:
  assumes "length subs = INODE_INDIRECT1_COUNT" and "k \<le> INODE_INDIRECT2_COUNT"
  shows "set (take (subs_used k) subs) \<subseteq> set (sub_list d subs k)"
    and "distinct (sub_list d subs k) \<Longrightarrow> distinct (take (subs_used k) subs)"
proof -
  let ?f = "\<lambda>j. ind d (subs ! (j div INODE_INDIRECT1_COUNT)) ! (j mod INODE_INDIRECT1_COUNT)"
  have m: "mset (sub_list d subs k) = mset (map ?f [0..<k] @ take (subs_used k) subs)"
    using sub_list_mset [OF assms] by simp
  show "set (take (subs_used k) subs) \<subseteq> set (sub_list d subs k)"
    using mset_eq_setD [OF m] by auto
  show "distinct (take (subs_used k) subs)" if "distinct (sub_list d subs k)"
    using that mset_eq_imp_distinct_iff [OF m] by simp
qed

lemma subs_used_le: "j \<le> k \<Longrightarrow> subs_used j \<le> subs_used k"
  unfolding subs_used_def by (intro div_le_mono) simp

lemma scost_le: "j \<le> k \<Longrightarrow> scost j \<le> scost k"
  unfolding scost_def by (intro add_mono subs_used_le)

text \<open>One round of the loop appends its blocks, whether it starts a new table or not.\<close>

lemma fill2_advance:
  assumes wf: "wf_disk d" and len: "length subs = INODE_INDIRECT1_COUNT" and k: "k < K" "K \<le> INODE_INDIRECT2_COUNT"
    and new: "length new = scost K - scost k" "\<forall>x \<in> set new. x < 2 ^ 32"
    and dist: "distinct (sub_list d subs k @ new)" "set (sub_list d subs k @ new) \<inter> set held = {}"
  defines "a \<equiv> k div INODE_INDIRECT1_COUNT" and "b \<equiv> k mod INODE_INDIRECT1_COUNT"
  obtains s x new' subs1 where "new = (if b = 0 then [s, x] else [x]) @ new'" and "s = subs1 ! a" and "s \<notin> set held"
    and "subs1 = (if b = 0 then subs[a := s] else subs)"
    and "fill2_from held d subs k K (new @ rest) =
        fill2_from held (d(s := words_bytes ((ind d s)[b := x]))) subs1 (Suc k) K (new' @ rest)"
    and "sub_list (d(s := words_bytes ((ind d s)[b := x]))) subs1 (Suc k) = sub_list d subs k @ (if b = 0 then [s, x] else [x])"
proof (cases "b = 0")
  case True
  have k2: "k < INODE_INDIRECT2_COUNT" using k by simp
  then have a: "a < INODE_INDIRECT1_COUNT" by (simp add: a_def layout_consts)
  note used = sub_list_used [OF len less_imp_le [OF k2], of d]
  have "scost (Suc k) \<le> scost K" using k(1) by (intro scost_le) simp
  then obtain s x new' where n: "new = s # x # new'"
    using new(1) True by (cases new; cases "tl new") (auto simp: scost_Suc b_def)
  have s: "s \<notin> set held" "x < 2 ^ 32" "s \<notin> set (take (subs_used k) subs)" using new(2) dist used(1) n by auto
  show ?thesis
    using that [of s x new' "subs[a := s]"] n True s a len
      fill2_round(1) [OF k wf len True [unfolded b_def] s(1), where x = x and new = "new' @ rest"]
      sub_list_new [OF wf len k2 True [unfolded b_def] s(2,3)] by (simp add: a_def)
next
  case False
  have k2: "k < INODE_INDIRECT2_COUNT" using k by simp
  then have a: "a < INODE_INDIRECT1_COUNT" by (simp add: a_def layout_consts)
  note used = sub_list_used [OF len less_imp_le [OF k2], of d]
  have "scost (Suc k) \<le> scost K" using k(1) by (intro scost_le) simp
  then obtain x new' where n: "new = x # new'" using new(1) False by (cases new) (auto simp: scost_Suc b_def)
  have "a < subs_used k" using False by (simp add: subs_used_eq a_def b_def)
  then have "subs ! a \<in> set (take (subs_used k) subs)" using a len by (auto simp: in_set_conv_nth)
  then have s: "subs ! a \<notin> set held" "x < 2 ^ 32" "distinct (take (subs_used k) subs)" using new(2) dist used n by auto
  show ?thesis
    using that [of "subs ! a" x new' subs] n False
      fill2_round(2) [OF k wf len False [unfolded b_def] s(1) [unfolded a_def], where x = x and new = "new' @ rest"]
      sub_list_old [OF wf len k2 False [unfolded b_def] s(2,3)] s by (simp add: a_def b_def)
qed

lemma fill2_ok_extend:
  assumes r: "fill2_ok d1 subs1 (Suc k) K new' subs' d'"
    and subs1: "subs1 = (if k mod INODE_INDIRECT1_COUNT = 0 then subs[k div INODE_INDIRECT1_COUNT := s] else subs)"
    and d1: "d1 = d(s := t)" and s: "s = subs1 ! (k div INODE_INDIRECT1_COUNT)"
    and list1: "sub_list d1 subs1 (Suc k) @ new' = sub_list d subs k @ new"
    and k: "k < K" "K \<le> INODE_INDIRECT2_COUNT" and len: "length subs = INODE_INDIRECT1_COUNT"
  shows "fill2_ok d subs k K new subs' d'"
proof -
  let ?a = "k div INODE_INDIRECT1_COUNT"
  have len': "length subs' = INODE_INDIRECT1_COUNT" and keep: "take (subs_used (Suc k)) subs' = take (subs_used (Suc k)) subs1"
    using r by (auto simp: fill2_ok_def)
  have "take (subs_used k) subs' = take (subs_used k) subs1"
    using arg_cong [OF keep, of "take (subs_used k)"] subs_used_mono [of k] by (simp add: min_def)
  moreover have "take (subs_used k) subs1 = take (subs_used k) subs"
    using subs1 by (simp add: subs_used_eq)
  moreover have "s \<in> set (take (subs_used K) subs')"
  proof -
    have a: "?a < subs_used (Suc k)" "?a < INODE_INDIRECT1_COUNT"
      using k by (simp_all add: subs_used_def layout_consts)
    have "subs' ! ?a = subs1 ! ?a" using arg_cong [OF keep, of "\<lambda>xs. xs ! ?a"] a by simp
    then have "subs' ! ?a = s" by (simp only: s)
    then show ?thesis using sub_in_used [OF k len'] by simp
  qed
  ultimately show ?thesis using r d1 list1 by (auto simp: fill2_ok_def)
qed

lemma fill2_spec:
  assumes "wf_disk d" and "length subs = INODE_INDIRECT1_COUNT" and "\<forall>x \<in> set subs. x < 2 ^ 32"
    and "k \<le> K" and "K \<le> INODE_INDIRECT2_COUNT" and "length new = scost K - scost k"
    and "\<forall>x \<in> set new. x < 2 ^ 32" and "distinct (sub_list d subs k @ new)"
    and "set (sub_list d subs k @ new) \<inter> set held = {}"
  shows "\<exists>subs' d'. fill2_from held d subs k K (new @ rest) = Some (subs', rest, d') \<and> fill2_ok d subs k K new subs' d'"
  using assms(1-4,6-)
proof (induction "K - k" arbitrary: d subs k new)
  case 0
  then have "fill2_from held d subs k K (new @ rest) = Some (subs, rest, d)" by (simp add: fill2_done)
  with 0 show ?case by (auto simp: fill2_ok_def)
next
  case (Suc m)
  let ?a = "k div INODE_INDIRECT1_COUNT" and ?b = "k mod INODE_INDIRECT1_COUNT"
  have k: "k < K" "Suc k \<le> K" using Suc.hyps(2) by auto
  have m: "m = K - Suc k" using Suc.hyps(2) by linarith
  have bb: "?b < INODE_INDIRECT1_COUNT" by (simp add: layout_consts)
  obtain s x new' subs1 where new: "new = (if ?b = 0 then [s, x] else [x]) @ new'" and s: "s = subs1 ! ?a" "s \<notin> set held"
    and subs1: "subs1 = (if ?b = 0 then subs[?a := s] else subs)"
    and step: "fill2_from held d subs k K (new @ rest) =
        fill2_from held (d(s := words_bytes ((ind d s)[?b := x]))) subs1 (Suc k) K (new' @ rest)"
    and list1: "sub_list (d(s := words_bytes ((ind d s)[?b := x]))) subs1 (Suc k) = sub_list d subs k @ (if ?b = 0 then [s, x] else [x])"
    using fill2_advance [OF Suc.prems(1,2) k(1) assms(5) Suc.prems(5-8)] .
  define d1 where "d1 = d(s := words_bytes ((ind d s)[?b := x]))"
  have wf1: "wf_disk d1" unfolding d1_def using fill_one_modify(2) [OF Suc.prems(1) s(2) bb] by simp
  have len1: "length subs1 = INODE_INDIRECT1_COUNT" using subs1 Suc.prems(2) by simp
  have b1: "\<forall>x \<in> set subs1. x < 2 ^ 32"
    using subs1 Suc.prems(3,6) new set_update_subset_insert [of subs ?a s] by (auto split: if_splits)
  have "length new' = scost K - scost (Suc k)" using Suc.prems(5) new by (auto simp: scost_Suc split: if_splits)
  moreover have l: "sub_list d1 subs1 (Suc k) @ new' = sub_list d subs k @ new" using list1 new by (simp add: d1_def)
  ultimately obtain subs' d' where r: "fill2_from held d1 subs1 (Suc k) K (new' @ rest) = Some (subs', rest, d')"
    "fill2_ok d1 subs1 (Suc k) K new' subs' d'"
    using Suc.hyps(1) [of "Suc k" d1 subs1 new'] m wf1 len1 b1 k(2) Suc.prems(6-8) new by auto
  have "fill2_ok d subs k K new subs' d'"
    using fill2_ok_extend [OF r(2) subs1 d1_def s(1) l k(1) assms(5) Suc.prems(2)] .
  with r(1) step show ?case by (auto simp: d1_def)
qed

text \<open>The table grows one data block at a time, preceded by the tables that this block needs.\<close>

definition extra :: "disk \<Rightarrow> DiskInode \<Rightarrow> nat \<Rightarrow> nat list" where
  "extra d ino n =
     (if n = INODE_DIRECT_COUNT then [indirect1 ino] else []) @
     (if n = INDIRECT1_BOUND then [indirect2 ino] else []) @
     (if INDIRECT1_BOUND \<le> n \<and> (n - INDIRECT1_BOUND) mod INODE_INDIRECT1_COUNT = 0
      then [ind d (indirect2 ino) ! ((n - INDIRECT1_BOUND) div INODE_INDIRECT1_COUNT)] else [])"

lemma alist_Suc:
  assumes "length (direct ino) = INODE_DIRECT_COUNT"
  shows "alist d ino (Suc n) = alist d ino n @ extra d ino n @ [blk_id d ino n]"
proof -
  consider "n < INODE_DIRECT_COUNT" | "n = INODE_DIRECT_COUNT" | "INODE_DIRECT_COUNT < n" "n < INDIRECT1_BOUND"
    | "INDIRECT1_BOUND \<le> n" by linarith
  then show ?thesis
  proof cases
    case 1
    with assms show ?thesis by (simp add: alist_def extra_def blk_id_def take_Suc_conv_app_nth layout_consts)
  next
    case 2
    have "take (Suc 0) (ind d (indirect1 ino)) = [ind d (indirect1 ino) ! 0]"
      by (simp add: take_Suc_conv_app_nth layout_consts)
    with 2 assms show ?thesis by (simp add: alist_def extra_def blk_id_def layout_consts)
  next
    case 3
    then obtain k where n: "n = INODE_DIRECT_COUNT + k" "k < INODE_INDIRECT1_COUNT"
      by (metis INDIRECT1_BOUND_def DIRECT_BOUND_def less_imp_le le_iff_add nat_add_left_cancel_less)
    then have "take (Suc k) (ind d (indirect1 ino)) = take k (ind d (indirect1 ino)) @ [ind d (indirect1 ino) ! k]"
      by (simp add: take_Suc_conv_app_nth)
    with 3 n show ?thesis by (simp add: alist_def extra_def blk_id_def layout_consts)
  next
    case 4
    then obtain k where n: "n = INDIRECT1_BOUND + k" by (metis le_iff_add)
    have "sub_list d (ind d (indirect2 ino)) (Suc k) = sub_list d (ind d (indirect2 ino)) k @
      (if k mod 128 = 0 then [ind d (indirect2 ino) ! (k div 128)] else []) @
      [ind d (ind d (indirect2 ino) ! (k div 128)) ! (k mod 128)]"
      by (simp add: sub_list_Suc layout_consts)
    with n show ?thesis by (cases "k = 0") (auto simp: alist_def extra_def blk_id_def layout_consts)
  qed
qed

lemma metas_Suc:
  assumes "n < INDIRECT2_BOUND"
  shows "metas d ino (Suc n) = metas d ino n @ extra d ino n"
proof (cases "INDIRECT1_BOUND \<le> n")
  case False
  then show ?thesis by (auto simp: metas_def extra_def layout_consts)
next
  case True
  then obtain k where n: "n = INDIRECT1_BOUND + k" by (metis le_iff_add)
  let ?s = "ind d (indirect2 ino)"
  have k: "k div INODE_INDIRECT1_COUNT < length ?s" using assms n by (simp add: layout_consts)
  have "take (subs_used (Suc k)) ?s = take (subs_used k) ?s @
    (if k mod INODE_INDIRECT1_COUNT = 0 then [?s ! (k div INODE_INDIRECT1_COUNT)] else [])"
    using k by (simp add: subs_used_Suc subs_used_eq [of k] take_Suc_conv_app_nth)
  with n show ?thesis by (cases "k = 0") (auto simp: metas_def extra_def layout_consts)
qed

lemma alist_prefix:
  "length (direct ino) = INODE_DIRECT_COUNT \<Longrightarrow> m \<le> n \<Longrightarrow> \<exists>ys. alist d ino n = alist d ino m @ ys"
  by (induction n) (auto simp: alist_Suc le_Suc_eq)

lemma alist_determines:
  assumes "length (direct ino) = INODE_DIRECT_COUNT" and "length (direct ino') = INODE_DIRECT_COUNT"
    and "alist d' ino' n = alist d ino n" and "n \<le> INDIRECT2_BOUND"
  shows "metas d' ino' n = metas d ino n \<and> (\<forall>i < n. blk_id d' ino' i = blk_id d ino i)"
  using assms(3,4)
proof (induction n)
  case 0
  then show ?case by (simp add: metas_def)
next
  case (Suc n)
  have "length (alist d' ino' n) = length (alist d ino n)" using assms by (simp add: length_alist_alen)
  then have "alist d' ino' n = alist d ino n" and "extra d' ino' n @ [blk_id d' ino' n] = extra d ino n @ [blk_id d ino n]"
    using Suc.prems(1) alist_Suc [OF assms(1)] alist_Suc [OF assms(2)] by (metis append_eq_append_conv)+
  with Suc show ?case by (auto simp: metas_Suc less_Suc_eq)
qed

lemma alist_extends:
  assumes "length (direct ino) = INODE_DIRECT_COUNT" and "length (direct ino') = INODE_DIRECT_COUNT"
    and "alist d' ino' n = alist d ino m @ new" and "m \<le> n" and "n \<le> INDIRECT2_BOUND"
  shows "i < m \<Longrightarrow> blk_id d' ino' i = blk_id d ino i" and "set (metas d ino m) \<subseteq> set (metas d' ino' n)"
proof -
  obtain ys where ys: "alist d' ino' n = alist d' ino' m @ ys" using alist_prefix [OF assms(2,4)] by blast
  have "alist d' ino' m = alist d ino m"
    using assms(1-3) ys length_alist_alen [OF assms(1), of d m] length_alist_alen [OF assms(2), of d' m]
    by (metis append_eq_append_conv)
  from alist_determines [OF assms(1,2) this] assms(4,5)
  have "metas d' ino' m = metas d ino m" "\<forall>i < m. blk_id d' ino' i = blk_id d ino i" by auto
  moreover have "set (metas d' ino' m) \<subseteq> set (metas d' ino' n)"
    using assms(4,5) by (induction n) (auto simp: metas_Suc le_Suc_eq)
  ultimately show "i < m \<Longrightarrow> blk_id d' ino' i = blk_id d ino i" and "set (metas d ino m) \<subseteq> set (metas d' ino' n)"
    by auto
qed

text \<open>From \<open>c\<close> data blocks to \<open>n\<close> data blocks, consuming the blocks \<open>new\<close>.\<close>

definition grown :: "disk \<Rightarrow> DiskInode \<Rightarrow> nat \<Rightarrow> nat list \<Rightarrow> disk \<Rightarrow> DiskInode \<Rightarrow> nat \<Rightarrow> bool" where
  "grown d ino c new d' ino' n \<longleftrightarrow>
     wf_disk d' \<and> length (direct ino') = INODE_DIRECT_COUNT \<and> size_in ino' = size_in ino \<and> type_in ino' = type_in ino \<and>
     alist d' ino' n = alist d ino c @ new \<and> (\<forall>b. b \<notin> set (metas d' ino' n) \<longrightarrow> d' b = d b)"

text \<open>What a step of the growth may rely on.\<close>

definition growable :: "nat list \<Rightarrow> disk \<Rightarrow> DiskInode \<Rightarrow> nat \<Rightarrow> nat list \<Rightarrow> nat \<Rightarrow> bool" where
  "growable held d ino c new n \<longleftrightarrow>
     wf_disk d \<and> length (direct ino) = INODE_DIRECT_COUNT \<and> c \<le> n \<and> n \<le> INDIRECT2_BOUND \<and>
     length new = alen n - alen c \<and> (\<forall>x \<in> set new. x < 2 ^ 32) \<and>
     distinct (alist d ino c @ new) \<and> set (alist d ino c @ new) \<inter> set held = {}"

lemma grown_trans:
  assumes "grown d ino c xs d1 ino1 m" and "grown d1 ino1 m ys d2 ino2 n" and "m \<le> n" and "n \<le> INDIRECT2_BOUND"
  shows "grown d ino c (xs @ ys) d2 ino2 n"
proof -
  have "set (metas d1 ino1 m) \<subseteq> set (metas d2 ino2 n)"
    using assms by (intro alist_extends(2) [where new = ys]) (auto simp: grown_def)
  with assms show ?thesis by (auto simp: grown_def)
qed

lemma growable_next:
  assumes "growable held d ino c (xs @ ys) n" and "grown d ino c xs d1 ino1 m" and "m \<le> n"
  shows "growable held d1 ino1 m ys n"
proof -
  have "alen m = alen c + length xs"
    using assms length_alist_alen [of ino d c] length_alist_alen [of ino1 d1 m] by (auto simp: growable_def grown_def)
  with assms show ?thesis by (auto simp: growable_def grown_def)
qed

lemma alen_mono: "m \<le> n \<Longrightarrow> alen m \<le> alen n"
  using scost_le [of "m - INDIRECT1_BOUND" "n - INDIRECT1_BOUND"] by (auto simp: alen_def layout_consts)

lemma ind_bound: "wf_disk d \<Longrightarrow> x \<in> set (ind d b) \<Longrightarrow> x < 2 ^ 32"
  by (auto simp: ind_def wf_disk_def in_set_conv_nth intro: indirect_of_bound [simplified])

lemma table_block:
  assumes "wf_disk d" and "length arr = INODE_INDIRECT1_COUNT" and "\<forall>x \<in> set arr. x < 2 ^ 32"
  shows "ind (d(b := words_bytes arr)) b = arr" and "wf_disk (d(b := words_bytes arr))"
  using assms indirect_of_words_bytes [of arr] by (auto simp: wf_disk_def layout_consts)

text \<open>The doubly indirect block before the loop, freshly taken or already in place.\<close>

lemma indirect2_taken:
  assumes g: "growable held d ino c new n" and c: "INDIRECT1_BOUND \<le> c" and n: "INDIRECT1_BOUND < n"
  obtains i2 new' where
    "(if c - INODE_DIRECT_COUNT = INODE_INDIRECT1_COUNT then next_block new else Some (indirect2 ino, new)) = Some (i2, new')"
    and "alist d ino c @ new = direct ino @ indirect1 ino # ind d (indirect1 ino) @ i2 # sub_list d (ind d i2) (c - INDIRECT1_BOUND) @ new'"
    and "length new' = scost (n - INDIRECT1_BOUND) - scost (c - INDIRECT1_BOUND)" and "set new' \<subseteq> set new"
proof (cases "c = INDIRECT1_BOUND")
  case True
  have "scost 1 \<le> scost (n - INDIRECT1_BOUND)" using n by (intro scost_le) simp
  then obtain x xs where "new = x # xs"
    using g n True by (cases new) (auto simp: growable_def alen_def layout_consts)
  with True g n show ?thesis by (intro that [of x xs]) (auto simp: alist_def growable_def alen_def layout_consts)
next
  case False
  with c g n show ?thesis
    by (intro that [of "indirect2 ino" new]) (auto simp: alist_def growable_def alen_def layout_consts)
qed

lemma increase_indirect2_spec:
  assumes g: "growable held d ino c new n" and c: "INDIRECT1_BOUND \<le> c" and n: "INDIRECT1_BOUND < n"
  shows "\<exists>d' ino'. increase_indirect2 held d ino (c - INODE_DIRECT_COUNT) (n - INODE_DIRECT_COUNT) new = Some (ino', d') \<and>
    grown d ino c new d' ino' n"
proof -
  let ?k = "c - INDIRECT1_BOUND" and ?K = "n - INDIRECT1_BOUND"
  have wf: "wf_disk d" using g by (simp add: growable_def)
  have k: "?k \<le> ?K" "?K \<le> INODE_INDIRECT2_COUNT" using g n by (auto simp: growable_def layout_consts)
  obtain i2 new' where new: "(if c - INODE_DIRECT_COUNT = INODE_INDIRECT1_COUNT then next_block new else Some (indirect2 ino, new)) = Some (i2, new')"
    and l: "alist d ino c @ new = direct ino @ indirect1 ino # ind d (indirect1 ino) @ i2 # sub_list d (ind d i2) ?k @ new'"
    and len: "length new' = scost ?K - scost ?k" and sub: "set new' \<subseteq> set new"
    using indirect2_taken [OF assms] .
  have dist: "distinct (direct ino @ indirect1 ino # ind d (indirect1 ino) @ i2 # sub_list d (ind d i2) ?k @ new')"
    and held: "set (direct ino @ indirect1 ino # ind d (indirect1 ino) @ i2 # sub_list d (ind d i2) ?k @ new') \<inter> set held = {}"
    using g l by (auto simp: growable_def)
  have "\<exists>subs' d1. fill2_from (i2 # held) d (ind d i2) ?k ?K (new' @ []) = Some (subs', [], d1) \<and>
      fill2_ok d (ind d i2) ?k ?K new' subs' d1"
    using wf k len sub g dist held by (intro fill2_spec) (auto simp: growable_def dest: ind_bound)
  then obtain subs' d1 where f: "fill2_from (i2 # held) d (ind d i2) ?k ?K new' = Some (subs', [], d1)"
    and ok: "fill2_ok d (ind d i2) ?k ?K new' subs' d1" by auto
  let ?d' = "d1(i2 := words_bytes subs')" and ?ino' = "ino\<lparr>indirect2 := i2\<rparr>"
  have len': "length subs' = INODE_INDIRECT1_COUNT" "\<forall>x \<in> set subs'. x < 2 ^ 32" and wf1: "wf_disk d1"
    and sl: "sub_list d1 subs' ?K = sub_list d (ind d i2) ?k @ new'" using ok by (auto simp: fill2_ok_def)
  have call: "increase_indirect2 held d ino (c - INODE_DIRECT_COUNT) (n - INODE_DIRECT_COUNT) new = Some (?ino', ?d')"
  proof -
    have "sub32 (c - INODE_DIRECT_COUNT) INODE_INDIRECT1_COUNT = ?k" "sub32 (n - INODE_DIRECT_COUNT) INODE_INDIRECT1_COUNT = ?K"
      using c n g by (auto simp: sub32_le growable_def layout_consts)
    moreover have "take BLOCK_SZ (d i2) = d i2" "splice_at (d1 i2) 0 (words_bytes subs') = words_bytes subs'"
      using wf wf1 len' by (auto simp: wf_disk_def splice_at_def layout_consts)
    ultimately show ?thesis
      using new f held by (simp add: increase_indirect2_def with_block_def ind_def [symmetric] BLOCK_SZ_pos)
  qed
  have "set (take (subs_used ?K) subs') \<subseteq> set (sub_list d (ind d i2) ?k @ new')"
    using sub_list_used(1) [OF len'(1) k(2), of d1] sl by simp
  then have out: "indirect1 ino \<notin> set (take (subs_used ?K) subs')" "i2 \<notin> set (take (subs_used ?K) subs')" "indirect1 ino \<noteq> i2"
    using dist by auto
  then have i1: "ind ?d' (indirect1 ino) = ind d (indirect1 ino)" using ok by (auto simp: fill2_ok_def ind_def)
  have i2: "ind ?d' i2 = subs'" and wf': "wf_disk ?d'" using table_block [OF wf1 len'] by auto
  have "sub_list ?d' subs' ?K = sub_list d1 subs' ?K" using out(2) k(2) len'(1) by (intro sub_list_cong) auto
  then have al: "alist ?d' ?ino' n = alist d ino c @ new" using n i1 i2 sl l by (simp add: alist_def layout_consts)
  have "\<forall>b. b \<notin> set (metas ?d' ?ino' n) \<longrightarrow> ?d' b = d b"
    using n ok i2 by (auto simp: metas_def fill2_ok_def layout_consts)
  then have "grown d ino c new ?d' ?ino' n" using wf' al g by (simp add: grown_def growable_def)
  with call show ?thesis by blast
qed

lemma indirect1_taken:
  assumes g: "growable held d ino c new n" and c: "INODE_DIRECT_COUNT \<le> c" "c \<le> INDIRECT1_BOUND" and n: "INODE_DIRECT_COUNT < n"
  obtains i1 new' where
    "(if c = INODE_DIRECT_COUNT then next_block new else Some (indirect1 ino, new)) = Some (i1, new')"
    and "alist d ino c @ new = direct ino @ i1 # take (c - INODE_DIRECT_COUNT) (ind d i1) @ new'"
    and "length new' = alen n - (c + 1)" and "set new' \<subseteq> set new"
proof (cases "c = INODE_DIRECT_COUNT")
  case True
  have "alen (Suc INODE_DIRECT_COUNT) \<le> alen n" using n by (intro alen_mono) simp
  then obtain x xs where "new = x # xs"
    using g True by (cases new) (auto simp: growable_def alen_def layout_consts)
  with True g show ?thesis by (intro that [of x xs]) (auto simp: alist_def growable_def alen_def layout_consts)
next
  case False
  with c g show ?thesis
    by (intro that [of "indirect1 ino" new]) (auto simp: alist_def growable_def alen_def layout_consts)
qed

text \<open>The single indirect table: filled up to \<open>m\<close> data blocks from the first \<open>m - c\<close> blocks at hand.\<close>

lemma fill_indirect1:
  assumes g: "growable held d ino c new n" and c: "INODE_DIRECT_COUNT \<le> c" "c \<le> INDIRECT1_BOUND"
    and l: "alist d ino c @ new = direct ino @ i1 # take (c - INODE_DIRECT_COUNT) (ind d i1) @ new'"
    and new: "length new' = alen n - (c + 1)" "set new' \<subseteq> set new" and n: "INODE_DIRECT_COUNT < n"
  defines "m \<equiv> min n INDIRECT1_BOUND"
  defines "arr \<equiv> take (c - INODE_DIRECT_COUNT) (ind d i1) @ take (m - c) new' @ drop (m - INODE_DIRECT_COUNT) (ind d i1)"
  shows "fill (c - INODE_DIRECT_COUNT) (min (n - INODE_DIRECT_COUNT) INODE_INDIRECT1_COUNT) (ind d i1) new' =
      Some (arr, m - INODE_DIRECT_COUNT, drop (m - c) new')"
    and "\<exists>xs. new = xs @ drop (m - c) new' \<and> grown d ino c xs (d(i1 := words_bytes arr)) (ino\<lparr>indirect1 := i1\<rparr>) m"
proof -
  have wf: "wf_disk d" and dir: "length (direct ino) = INODE_DIRECT_COUNT" using g by (auto simp: growable_def)
  have cm: "c \<le> m" "m \<le> n" "m \<le> INDIRECT1_BOUND" "INODE_DIRECT_COUNT < m"
    using g n c by (auto simp: growable_def m_def layout_consts)
  have "alen m \<le> alen n" using cm by (intro alen_mono)
  then have room: "m - c \<le> length new'" using new(1) cm by (simp add: alen_def layout_consts)
  have mm: "min (n - INODE_DIRECT_COUNT) INODE_INDIRECT1_COUNT = m - INODE_DIRECT_COUNT"
    by (auto simp: m_def min_def layout_consts)
  have diff: "m - INODE_DIRECT_COUNT - (c - INODE_DIRECT_COUNT) = m - c" using c(1) by simp
  have "m - INODE_DIRECT_COUNT \<le> INODE_INDIRECT1_COUNT" using cm(3) by (simp add: layout_consts)
  then show "fill (c - INODE_DIRECT_COUNT) (min (n - INODE_DIRECT_COUNT) INODE_INDIRECT1_COUNT) (ind d i1) new' =
      Some (arr, m - INODE_DIRECT_COUNT, drop (m - c) new')"
    using fill_spec [of "c - INODE_DIRECT_COUNT" "m - INODE_DIRECT_COUNT" "ind d i1" new', unfolded diff] cm(1) room
    by (simp add: mm arr_def diff_le_mono)
  have la: "length arr = INODE_INDIRECT1_COUNT" using cm c room by (simp add: arr_def layout_consts)
  have ba: "\<forall>x \<in> set arr. x < 2 ^ 32"
    using g wf new(2) by (auto simp: arr_def growable_def dest!: in_set_takeD in_set_dropD dest: ind_bound)
  note tb = table_block [OF wf la ba, of i1]
  have "take (m - INODE_DIRECT_COUNT) arr = take (c - INODE_DIRECT_COUNT) (ind d i1) @ take (m - c) new'"
    using cm c room by (simp add: arr_def layout_consts)
  then have al: "alist (d(i1 := words_bytes arr)) (ino\<lparr>indirect1 := i1\<rparr>) m =
      direct ino @ i1 # take (c - INODE_DIRECT_COUNT) (ind d i1) @ take (m - c) new'"
    using cm tb(1) by (simp add: alist_def)
  moreover have "\<exists>xs. new = xs @ drop (m - c) new' \<and> alist d ino c @ xs =
      direct ino @ i1 # take (c - INODE_DIRECT_COUNT) (ind d i1) @ take (m - c) new'"
  proof (cases "c = INODE_DIRECT_COUNT")
    case True
    then have "new = i1 # new'" using l dir by (simp add: alist_def)
    with True dir show ?thesis by (intro exI [of _ "i1 # take (m - c) new'"]) (simp add: alist_def)
  next
    case False
    then have "length (alist d ino c) = length (direct ino @ i1 # take (c - INODE_DIRECT_COUNT) (ind d i1))"
      using c dir by (simp add: length_alist_alen alen_def layout_consts)
    then have "alist d ino c = direct ino @ i1 # take (c - INODE_DIRECT_COUNT) (ind d i1)" "new = new'"
      using l by (metis append_Cons append_assoc append_eq_append_conv)+
    then show ?thesis by (intro exI [of _ "take (m - c) new'"]) simp
  qed
  moreover have "metas (d(i1 := words_bytes arr)) (ino\<lparr>indirect1 := i1\<rparr>) m = [i1]" using cm by (simp add: metas_def)
  ultimately show "\<exists>xs. new = xs @ drop (m - c) new' \<and> grown d ino c xs (d(i1 := words_bytes arr)) (ino\<lparr>indirect1 := i1\<rparr>) m"
    using tb(2) dir by (auto simp: grown_def)
qed

lemma increase_indirect1_step:
  assumes wf: "wf_disk d" and i1: "i1 \<notin> set held" and c: "INODE_DIRECT_COUNT \<le> c" "c \<le> INDIRECT2_BOUND"
    and n: "INODE_DIRECT_COUNT < n" "n \<le> INDIRECT2_BOUND"
    and t: "(if c = INODE_DIRECT_COUNT then next_block new else Some (indirect1 ino, new)) = Some (i1, new')"
    and f: "fill (c - INODE_DIRECT_COUNT) (min (n - INODE_DIRECT_COUNT) INODE_INDIRECT1_COUNT) (ind d i1) new' =
      Some (arr, cur, rest)" and len: "length arr = INODE_INDIRECT1_COUNT"
  shows "increase_indirect1 held d ino c n new =
    (if n > INDIRECT1_BOUND
     then increase_indirect2 held (d(i1 := words_bytes arr)) (ino\<lparr>indirect1 := i1\<rparr>) cur (n - INODE_DIRECT_COUNT) rest
     else Some (ino\<lparr>indirect1 := i1\<rparr>, d(i1 := words_bytes arr)))"
proof -
  have s: "sub32 c INODE_DIRECT_COUNT = c - INODE_DIRECT_COUNT" "sub32 n INODE_DIRECT_COUNT = n - INODE_DIRECT_COUNT"
    using c n by (auto simp: sub32_le layout_consts)
  have "length (d i1) = 4 * INODE_INDIRECT1_COUNT" using wf by (simp add: wf_disk_def layout_consts)
  then have m: "blk_modify held d i1 0 BLOCK_SZ (\<lambda>t. do { (arr, current, new_blocks) \<leftarrow>
      fill (c - INODE_DIRECT_COUNT) (min (n - INODE_DIRECT_COUNT) INODE_INDIRECT1_COUNT) (indirect_of t) new';
      Some ((current, new_blocks), words_bytes arr) }) = Some ((cur, rest), d(i1 := words_bytes arr))"
    using f len by (simp add: blk_modify_whole [OF wf i1] ind_def)
  have "n - INODE_DIRECT_COUNT > INODE_INDIRECT1_COUNT \<longleftrightarrow> n > INDIRECT1_BOUND" by (auto simp: layout_consts)
  then show ?thesis using t m s by (simp add: increase_indirect1_def)
qed

lemma increase_indirect1_spec:
  assumes g: "growable held d ino c new n" and c: "INODE_DIRECT_COUNT \<le> c" and n: "INODE_DIRECT_COUNT < n"
  shows "\<exists>d' ino'. increase_indirect1 held d ino c n new = Some (ino', d') \<and> grown d ino c new d' ino' n"
proof (cases "c \<le> INDIRECT1_BOUND")
  case True
  have wf: "wf_disk d" and cn: "c \<le> INDIRECT2_BOUND" "n \<le> INDIRECT2_BOUND" "c \<le> n" using g by (auto simp: growable_def)
  obtain i1 new' where t: "(if c = INODE_DIRECT_COUNT then next_block new else Some (indirect1 ino, new)) = Some (i1, new')"
    and l: "alist d ino c @ new = direct ino @ i1 # take (c - INODE_DIRECT_COUNT) (ind d i1) @ new'"
    and new: "length new' = alen n - (c + 1)" "set new' \<subseteq> set new"
    using indirect1_taken [OF g c True n] .
  define m where "m = min n INDIRECT1_BOUND"
  define arr where "arr = take (c - INODE_DIRECT_COUNT) (ind d i1) @ take (m - c) new' @ drop (m - INODE_DIRECT_COUNT) (ind d i1)"
  note f = fill_indirect1 [OF g c True l new n, folded m_def, folded arr_def]
  have mn: "m \<le> n" "INODE_DIRECT_COUNT < m" using n by (auto simp: m_def layout_consts)
  obtain xs where xs: "new = xs @ drop (m - c) new'"
    and gr: "grown d ino c xs (d(i1 := words_bytes arr)) (ino\<lparr>indirect1 := i1\<rparr>) m" using f(2) by blast
  have i1: "i1 \<notin> set held" using g l by (auto simp: growable_def)
  have "length arr = INODE_INDIRECT1_COUNT"
    using new(1) alen_mono [OF mn(1)] True c mn(2) cn by (auto simp: arr_def m_def alen_def layout_consts)
  note step = increase_indirect1_step [OF wf i1 c cn(1) n cn(2) t f(1) this]
  have nxt: "growable held (d(i1 := words_bytes arr)) (ino\<lparr>indirect1 := i1\<rparr>) m (drop (m - c) new') n"
    using g gr xs mn by (metis growable_next)
  show ?thesis
  proof (cases "n > INDIRECT1_BOUND")
    case True
    then have m: "m = INDIRECT1_BOUND" by (simp add: m_def)
    obtain d' ino' where "increase_indirect2 held (d(i1 := words_bytes arr)) (ino\<lparr>indirect1 := i1\<rparr>)
        (m - INODE_DIRECT_COUNT) (n - INODE_DIRECT_COUNT) (drop (m - c) new') = Some (ino', d')"
      and "grown (d(i1 := words_bytes arr)) (ino\<lparr>indirect1 := i1\<rparr>) m (drop (m - c) new') d' ino' n"
      using increase_indirect2_spec [OF nxt _ True] m by auto
    with step True grown_trans [OF gr _ mn(1) cn(2)] xs show ?thesis by metis
  next
    case False
    then have "m = n" by (simp add: m_def)
    with nxt have "drop (m - c) new' = []" by (simp add: growable_def)
    with xs gr step False \<open>m = n\<close> show ?thesis by auto
  qed
next
  case False
  have wf: "wf_disk d" and cn: "c \<le> INDIRECT2_BOUND" "n \<le> INDIRECT2_BOUND" "c \<le> n" using g by (auto simp: growable_def)
  have "indirect1 ino \<in> set (alist d ino c)" using False by (simp add: alist_def layout_consts)
  then have i1: "indirect1 ino \<notin> set held" using g by (auto simp: growable_def)
  have f: "fill (c - INODE_DIRECT_COUNT) (min (n - INODE_DIRECT_COUNT) INODE_INDIRECT1_COUNT) (ind d (indirect1 ino)) new =
      Some (ind d (indirect1 ino), c - INODE_DIRECT_COUNT, new)"
    using False by (intro fill_skip) (auto simp: layout_consts)
  have same: "d(indirect1 ino := words_bytes (ind d (indirect1 ino))) = d" "ino\<lparr>indirect1 := indirect1 ino\<rparr> = ino"
    using wf by (auto simp: ind_def words_bytes_indirect wf_disk_def)
  have t: "(if c = INODE_DIRECT_COUNT then next_block new else Some (indirect1 ino, new)) = Some (indirect1 ino, new)"
    using False by (auto simp: layout_consts)
  have "n > INDIRECT1_BOUND" using False cn by simp
  then show ?thesis
    using increase_indirect1_step [OF wf i1 c cn(1) n cn(2) t f] same increase_indirect2_spec [OF g, simplified] False by simp
qed

lemma fill_direct:
  assumes g: "growable held d ino c new n"
  defines "m \<equiv> max c (min n INODE_DIRECT_COUNT)"
  shows "\<exists>dir xs. fill c (min n INODE_DIRECT_COUNT) (direct ino) new = Some (dir, m, drop (m - c) new) \<and>
    new = xs @ drop (m - c) new \<and> grown d ino c xs d (ino\<lparr>direct := dir\<rparr>) m"
proof (cases "c < min n INODE_DIRECT_COUNT")
  case True
  then have m: "m = min n INODE_DIRECT_COUNT" by (simp add: m_def)
  have dir: "length (direct ino) = INODE_DIRECT_COUNT" using g by (simp add: growable_def)
  have "alen m \<le> alen n" by (rule alen_mono) (simp add: m)
  then have room: "m - c \<le> length new" using g True m by (simp add: growable_def alen_def)
  let ?dir = "take c (direct ino) @ take (m - c) new @ drop m (direct ino)"
  have "fill c m (direct ino) new = Some (?dir, m, drop (m - c) new)"
    using True m dir room by (intro fill_spec) auto
  moreover have "grown d ino c (take (m - c) new) d (ino\<lparr>direct := ?dir\<rparr>) m"
    using g True m dir room by (auto simp: grown_def growable_def alist_def)
  ultimately show ?thesis using m by (metis append_take_drop_id)
next
  case False
  then have "m = c" by (auto simp: m_def)
  with False g show ?thesis
    by (intro exI [of _ "direct ino"] exI [of _ "[]"]) (auto simp: fill_skip grown_def growable_def)
qed

lemma alist_size [simp]: "alist d (ino\<lparr>size_in := x\<rparr>) n = alist d ino n"
  by (simp add: alist_def)

lemma growable_start:
  assumes ok: "inode_ok held d ino" and sz: "size_in ino \<le> new_size" "new_size \<le> INDIRECT2_BOUND * BLOCK_SZ"
    and need: "blocks_num_needed ino new_size = Some (length new)" and b: "\<forall>x \<in> set new. x < 2 ^ 32"
    and fresh: "distinct new" "set new \<inter> set (alist d ino (data_blocks ino)) = {}" "set new \<inter> set held = {}"
  shows "growable held d (ino\<lparr>size_in := new_size\<rparr>) (data_blocks ino) new (data_blocks (ino\<lparr>size_in := new_size\<rparr>))"
proof -
  have n: "data_blocks (ino\<lparr>size_in := new_size\<rparr>) = (new_size + 511) div 512"
    unfolding data_blocks_def using sz(2) by (simp add: data_blocks_for_eq layout_consts)
  note n0 = inode_ok_blocks(1) [OF ok]
  have "alen ((size_in ino + 511) div 512) \<le> alen ((new_size + 511) div 512)"
    using sz(1) by (intro alen_mono div_le_mono) simp
  then have "length new = alen ((new_size + 511) div 512) - alen ((size_in ino + 511) div 512)"
    using need sz total_blocks_alen [of "size_in ino"] total_blocks_alen [of new_size]
    by (simp add: blocks_num_needed_def sub32_le)
  moreover have "(new_size + 511) div 512 \<le> INDIRECT2_BOUND" using sz(2) by (simp add: layout_consts)
  moreover have "(size_in ino + 511) div 512 \<le> (new_size + 511) div 512" using sz(1) by (intro div_le_mono) simp
  ultimately show ?thesis unfolding growable_def n using ok b fresh by (auto simp: inode_ok_def n0)
qed

lemma increase_size_grown:
  assumes g: "growable held d (ino\<lparr>size_in := new_size\<rparr>) (data_blocks ino) new (data_blocks (ino\<lparr>size_in := new_size\<rparr>))"
  shows "\<exists>ino' d'. increase_size held d ino new_size new = Some (ino', d') \<and>
    grown d (ino\<lparr>size_in := new_size\<rparr>) (data_blocks ino) new d' ino' (data_blocks (ino\<lparr>size_in := new_size\<rparr>))"
proof -
  let ?ino = "ino\<lparr>size_in := new_size\<rparr>" and ?c = "data_blocks ino"
  let ?n = "data_blocks ?ino"
  define m where "m = max ?c (min ?n INODE_DIRECT_COUNT)"
  have mn: "m \<le> ?n" "?n \<le> INDIRECT2_BOUND" using g by (auto simp: m_def growable_def)
  obtain dir xs where f: "fill ?c (min ?n INODE_DIRECT_COUNT) (direct ino) new = Some (dir, m, drop (m - ?c) new)"
    and xs: "new = xs @ drop (m - ?c) new" and gr: "grown d ?ino ?c xs d (?ino\<lparr>direct := dir\<rparr>) m"
    using fill_direct [OF g, folded m_def] by auto
  have nxt: "growable held d (?ino\<lparr>direct := dir\<rparr>) m (drop (m - ?c) new) ?n" using g gr xs mn by (metis growable_next)
  show ?thesis
  proof (cases "?n > INODE_DIRECT_COUNT")
    case True
    then have "INODE_DIRECT_COUNT \<le> m" by (simp add: m_def)
    from increase_indirect1_spec [OF nxt this True] obtain d' ino' where
      r: "increase_indirect1 held d (?ino\<lparr>direct := dir\<rparr>) m ?n (drop (m - ?c) new) = Some (ino', d')"
      "grown d (?ino\<lparr>direct := dir\<rparr>) m (drop (m - ?c) new) d' ino' ?n" by blast
    have "grown d ?ino ?c new d' ino' ?n" using grown_trans [OF gr r(2) mn] by (simp only: xs [symmetric])
    with f True r(1) show ?thesis by (auto simp: increase_size_def Let_def)
  next
    case False
    then have "m = ?n" using g by (simp add: m_def growable_def)
    with nxt have "drop (m - ?c) new = []" by (simp add: growable_def)
    with xs gr f False \<open>m = ?n\<close> show ?thesis by (auto simp: increase_size_def Let_def)
  qed
qed

lemma grown_inode_ok:
  "growable held d ino c new n \<Longrightarrow> grown d ino c new d' ino' n \<Longrightarrow>
    distinct (alist d' ino' n) \<and> set (alist d' ino' n) \<inter> set held = {}"
  by (simp add: growable_def grown_def)

lemma increase_size_ok:
  assumes ok: "inode_ok held d ino" and sz: "size_in ino \<le> new_size" "new_size \<le> INDIRECT2_BOUND * BLOCK_SZ"
    and need: "blocks_num_needed ino new_size = Some (length new)" and b: "\<forall>x \<in> set new. x < 2 ^ 32"
    and fresh: "distinct new" "set new \<inter> set (alist d ino (data_blocks ino)) = {}" "set new \<inter> set held = {}"
  shows "\<exists>ino' d'. increase_size held d ino new_size new = Some (ino', d') \<and>
    inode_ok held d' ino' \<and> size_in ino' = new_size \<and> type_in ino' = type_in ino \<and>
    alist d' ino' (data_blocks ino') = alist d ino (data_blocks ino) @ new \<and>
    (\<forall>j < size_in ino. file_byte d' ino' j = file_byte d ino j) \<and>
    (\<forall>c. c \<notin> set (metas d' ino' (data_blocks ino')) \<longrightarrow> d' c = d c)"
proof -
  let ?ino = "ino\<lparr>size_in := new_size\<rparr>"
  let ?c = "data_blocks ino" and ?n = "data_blocks ?ino"
  have g: "growable held d ?ino ?c new ?n" by (rule growable_start) (use assms in auto)
  obtain d' ino' where r: "increase_size held d ino new_size new = Some (ino', d')" "grown d ?ino ?c new d' ino' ?n"
    using increase_size_grown [OF g] by blast
  then have n': "data_blocks ino' = ?n" by (simp add: grown_def data_blocks_def)
  have ok': "inode_ok held d' ino'" using grown_inode_ok [OF g r(2)] n' sz(2) r(2) by (simp add: inode_ok_def grown_def)
  have "file_byte d' ino' j = file_byte d ino j" if j: "j < size_in ino" for j
  proof -
    have i: "j div BLOCK_SZ < ?c" using j by (simp add: inode_ok_blocks(1) [OF ok] layout_consts)
    have "blk_id d' ino' (j div BLOCK_SZ) = blk_id d ?ino (j div BLOCK_SZ)"
      using g r(2) i by (intro alist_extends(1) [where new = new]) (auto simp: growable_def grown_def)
    then have id: "blk_id d' ino' (j div BLOCK_SZ) = blk_id d ino (j div BLOCK_SZ)" by (simp add: blk_id_def)
    have "j div BLOCK_SZ < data_blocks ino'" using i n' g by (simp add: growable_def)
    then have "d' (blk_id d' ino' (j div BLOCK_SZ)) = d (blk_id d' ino' (j div BLOCK_SZ))"
      using data_block_free(2) [OF ok'] n' r(2) by (simp add: grown_def)
    with id show ?thesis by (simp add: file_byte_def)
  qed
  with ok' show ?thesis using r n' by (auto simp: grown_def alist_size)
qed

text \<open>
  C32 (functional).  Growing an inode: given exactly the number of fresh blocks that
  \<^verbatim>\<open>blocks_num_needed\<close> asks for, \<^verbatim>\<open>increase_size\<close> returns, appends exactly these blocks in order to the
  inode's block table and keeps the inode well formed; every block that is not an indirect block of
  the grown inode is unchanged, so the old content of the file is still there.
\<close>

theorem increase_size_spec:
  assumes ok: "inode_ok held d ino" and sz: "size_in ino \<le> new_size" "new_size \<le> INDIRECT2_BOUND * BLOCK_SZ"
    and need: "blocks_num_needed ino new_size = Some (length new)" and b: "\<forall>x \<in> set new. x < 2 ^ 32"
    and fresh: "distinct new" "set new \<inter> set (alist d ino (data_blocks ino)) = {}" "set new \<inter> set held = {}"
  shows "\<exists>ino' d'. increase_size held d ino new_size new = Some (ino', d') \<and>
    inode_ok held d' ino' \<and> size_in ino' = new_size \<and> type_in ino' = type_in ino \<and>
    alist d' ino' (data_blocks ino') = alist d ino (data_blocks ino) @ new \<and>
    (\<forall>j < size_in ino. file_byte d' ino' j = file_byte d ino j) \<and>
    (\<forall>c. c \<notin> set (metas d' ino' (data_blocks ino')) \<longrightarrow> d' c = d c)"
  using assms by (rule increase_size_ok)

subsection \<open>Clearing the block table\<close>

lemma push_range_spec:
  "c \<le> bound \<Longrightarrow> bound \<le> length arr \<Longrightarrow> push_range c bound arr v = Some (v @ take (bound - c) (drop c arr))"
proof (induction "bound - c" arbitrary: c v)
  case 0
  then show ?case by (simp add: push_range.simps)
next
  case (Suc m)
  then have "push_range (c + 1) bound arr (v @ [arr ! c]) = Some ((v @ [arr ! c]) @ take (bound - (c + 1)) (drop (c + 1) arr))"
    by (intro Suc.hyps) auto
  moreover have "take (bound - c) (drop c arr) = arr ! c # take (bound - (c + 1)) (drop (c + 1) arr)"
    using Suc by (simp add: Cons_nth_drop_Suc [symmetric] take_Cons')
  ultimately show ?case using Suc by (subst push_range.simps) simp
qed

lemma clear_direct_spec:
  "c \<le> bound \<Longrightarrow> bound \<le> length arr \<Longrightarrow> clear_direct c bound arr v =
    Some (take c arr @ replicate (bound - c) 0 @ drop bound arr, v @ take (bound - c) (drop c arr))"
proof (induction "bound - c" arbitrary: c arr v)
  case 0
  then show ?case by (simp add: clear_direct.simps [of c])
next
  case (Suc m)
  then have "clear_direct (c + 1) bound (arr[c := 0]) (v @ [arr ! c]) =
    Some (take (c + 1) (arr[c := 0]) @ replicate (bound - (c + 1)) 0 @ drop bound (arr[c := 0]),
          (v @ [arr ! c]) @ take (bound - (c + 1)) (drop (c + 1) (arr[c := 0])))"
    by (intro Suc.hyps) auto
  moreover have "take (bound - c) (drop c arr) = arr ! c # take (bound - (c + 1)) (drop (c + 1) arr)"
    using Suc by (simp add: Cons_nth_drop_Suc [symmetric] take_Cons')
  moreover have "take (c + 1) (arr[c := 0]) = take c arr @ [0]" using Suc by (simp add: take_Suc_conv_app_nth)
  moreover have "replicate (bound - c) (0 :: nat) = 0 # replicate (bound - (c + 1)) 0"
    using Suc by (metis Suc_diff_Suc Suc_eq_plus1 replicate_Suc zero_less_diff zero_less_Suc)
  ultimately show ?case using Suc by (subst clear_direct.simps) simp
qed

lemma blk_modify_unchanged:
  assumes "wf_disk d" and "b \<notin> set held" and "f (d b) = Some (v, d b)"
  shows "blk_modify held d b 0 BLOCK_SZ f = Some (v, d)"
  using assms by (simp add: blk_modify_whole)

lemma clear_sub_spec:
  assumes "wf_disk d" and "i < length subs" and "subs ! i \<notin> set held" and "n \<le> INODE_INDIRECT1_COUNT"
  shows "clear_sub held d subs i n v = Some (v @ subs ! i # take n (ind d (subs ! i)), d)"
  using assms blk_modify_unchanged [OF assms(1,3), of "\<lambda>t. do { v \<leftarrow> push_range 0 n (indirect_of t) (v @ [subs ! i]); Some (v, t) }"]
  by (simp add: clear_sub_def push_range_spec ind_def)

lemma clear_subs_spec:
  assumes "wf_disk d" and "\<forall>i \<in> set is. i < length subs \<and> subs ! i \<notin> set held"
  shows "clear_subs held d subs is v = Some (v @ concat (map (\<lambda>i. subs ! i # ind d (subs ! i)) is), d)"
  using assms(2) by (induction "is" arbitrary: v) (auto simp: clear_sub_spec [OF assms(1)])

lemma with_block_unchanged:
  assumes "wf_disk d" and "b \<notin> set held" and "f (b # held) d (d b) = Some (v, d, d b)"
  shows "with_block held d b 0 BLOCK_SZ f = Some (v, d)"
proof -
  have "take BLOCK_SZ (d b) = d b" using assms(1) by (simp add: wf_disk_def)
  with assms show ?thesis by (simp add: with_block_def splice_at_def BLOCK_SZ_pos)
qed

lemma clear_indirect2_spec:
  assumes wf: "wf_disk d" and i2: "indirect2 ino \<notin> set held" and n: "n \<le> INODE_INDIRECT1_COUNT + INODE_INDIRECT2_COUNT"
    and k: "k = n - INODE_INDIRECT1_COUNT"
    and sub: "set (take (subs_used k) (ind d (indirect2 ino))) \<inter> set (indirect2 ino # held) = {}"
  shows "clear_indirect2 held d ino n v =
    Some (v @ indirect2 ino # sub_list d (ind d (indirect2 ino)) k, ino\<lparr>indirect2 := 0\<rparr>, d)"
proof -
  let ?subs = "ind d (indirect2 ino)" and ?h = "indirect2 ino # held"
  let ?a = "k div INODE_INDIRECT1_COUNT" and ?b = "k mod INODE_INDIRECT1_COUNT"
  have k2: "k \<le> INODE_INDIRECT2_COUNT" using n k by simp
  have free: "i < length ?subs \<and> ?subs ! i \<notin> set ?h" if "i < subs_used k" for i
  proof -
    have "subs_used k \<le> subs_used INODE_INDIRECT2_COUNT" using k2 by (rule subs_used_le)
    then have i: "i < length ?subs" using that by (simp add: subs_used_def layout_consts)
    with that have "?subs ! i \<in> set (take (subs_used k) ?subs)" by (auto simp: in_set_conv_nth)
    with i sub show ?thesis by auto
  qed
  have full: "clear_subs ?h d ?subs [0..<?a] w = Some (w @ concat (map (\<lambda>i. ?subs ! i # ind d (?subs ! i)) [0..<?a]), d)" for w
  proof (rule clear_subs_spec [OF wf], rule ballI)
    fix i assume "i \<in> set [0..<?a]"
    then have "i < subs_used k" by (simp add: subs_used_eq)
    then show "i < length ?subs \<and> ?subs ! i \<notin> set ?h" by (rule free)
  qed
  have last: "clear_sub ?h d ?subs ?a ?b w = Some (w @ ?subs ! ?a # take ?b (ind d (?subs ! ?a)), d)" if "?b > 0" for w
  proof -
    have "?a < subs_used k" using that by (simp add: subs_used_eq)
    moreover have "?b \<le> INODE_INDIRECT1_COUNT" by (simp add: layout_consts)
    ultimately show ?thesis using free [of ?a] by (intro clear_sub_spec [OF wf]) auto
  qed
  have "with_block held d (indirect2 ino) 0 BLOCK_SZ (\<lambda>held d t.
      do { (v, d) \<leftarrow> clear_subs held d (indirect_of t) [0..<?a] (v @ [indirect2 ino]);
           (v, d) \<leftarrow> (if ?b > 0 then clear_sub held d (indirect_of t) ?a ?b v else Some (v, d));
           Some (v, d, t) }) = Some (v @ indirect2 ino # sub_list d ?subs k, d)"
  proof (rule with_block_unchanged [OF wf i2])
    have t: "indirect_of (d (indirect2 ino)) = ?subs" by (simp add: ind_def)
    show "do { (v, d') \<leftarrow> clear_subs ?h d (indirect_of (d (indirect2 ino))) [0..<?a] (v @ [indirect2 ino]);
               (v, d') \<leftarrow> (if ?b > 0 then clear_sub ?h d' (indirect_of (d (indirect2 ino))) ?a ?b v else Some (v, d'));
               Some (v, d', d (indirect2 ino)) } = Some (v @ indirect2 ino # sub_list d ?subs k, d, d (indirect2 ino))"
      unfolding t full sub_list_def using last by simp
  qed
  then show ?thesis unfolding clear_indirect2_def Let_def k [symmetric] using k2 by simp
qed

lemma clear_size_steps:
  assumes wf: "wf_disk d" and len: "length (direct ino) = INODE_DIRECT_COUNT"
  defines "n \<equiv> data_blocks ino"
  defines "m \<equiv> min n INODE_DIRECT_COUNT"
  defines "e \<equiv> ino\<lparr>size_in := 0, direct := replicate m 0 @ drop m (direct ino)\<rparr>"
  shows "n \<le> INODE_DIRECT_COUNT \<Longrightarrow> clear_size held d ino = Some (take n (direct ino), e, d)"
    and "INODE_DIRECT_COUNT < n \<Longrightarrow> indirect1 ino \<notin> set held \<Longrightarrow> clear_size held d ino =
      (let v = direct ino @ indirect1 ino # take (n - INODE_DIRECT_COUNT) (ind d (indirect1 ino))
       in if n > INDIRECT1_BOUND then clear_indirect2 held d (e\<lparr>indirect1 := 0\<rparr>) (n - INODE_DIRECT_COUNT) v
          else Some (v, e\<lparr>indirect1 := 0\<rparr>, d))"
proof -
  have direct: "clear_direct 0 m (direct ino) [] = Some (replicate m 0 @ drop m (direct ino), take m (direct ino))"
    using len by (simp add: clear_direct_spec m_def)
  show "clear_size held d ino = Some (take n (direct ino), e, d)" if "n \<le> INODE_DIRECT_COUNT"
    using that direct by (simp add: clear_size_def n_def [symmetric] Let_def m_def e_def)
  let ?k = "n - INODE_DIRECT_COUNT"
  let ?v = "direct ino @ indirect1 ino # take ?k (ind d (indirect1 ino))"
  assume n: "INODE_DIRECT_COUNT < n" and i1: "indirect1 ino \<notin> set held"
  then have m: "m = INODE_DIRECT_COUNT" by (simp add: m_def)
  have "push_range 0 (min ?k INODE_INDIRECT1_COUNT) (indirect_of (d (indirect1 ino))) (direct ino @ [indirect1 ino]) = Some ?v"
    by (subst push_range_spec) (auto simp: ind_def min_def)
  then have "blk_modify held d (indirect1 ino) 0 BLOCK_SZ (\<lambda>t.
      do { v \<leftarrow> push_range 0 (min ?k INODE_INDIRECT1_COUNT) (indirect_of t) (direct ino @ [indirect1 ino]);
           Some (v, t) }) = Some (?v, d)"
    by (intro blk_modify_unchanged [OF wf i1]) simp
  moreover have "?k > INODE_INDIRECT1_COUNT \<longleftrightarrow> n > INDIRECT1_BOUND" by (auto simp: layout_consts)
  ultimately show "clear_size held d ino =
      (let v = ?v in if n > INDIRECT1_BOUND then clear_indirect2 held d (e\<lparr>indirect1 := 0\<rparr>) ?k v
       else Some (v, e\<lparr>indirect1 := 0\<rparr>, d))"
    using direct n len m unfolding clear_size_def n_def [symmetric] m_def [symmetric] Let_def
    by (simp add: m_def [symmetric] e_def)
qed

lemma clear_size_ok:
  assumes ok: "inode_ok held d ino"
  shows "\<exists>ino'. clear_size held d ino = Some (alist d ino (data_blocks ino), ino', d) \<and>
    size_in ino' = 0 \<and> data_blocks ino' = 0 \<and> type_in ino' = type_in ino \<and> inode_ok held d ino' \<and>
    set (direct ino') \<subseteq> insert 0 (set (direct ino)) \<and> indirect1 ino' \<in> {0, indirect1 ino} \<and> indirect2 ino' \<in> {0, indirect2 ino}"
proof -
  let ?n = "data_blocks ino"
  let ?m = "min ?n INODE_DIRECT_COUNT"
  let ?dir = "replicate ?m 0 @ drop ?m (direct ino)"
  let ?e = "ino\<lparr>size_in := 0, direct := ?dir\<rparr>"
  have wf: "wf_disk d" and len: "length (direct ino) = INODE_DIRECT_COUNT" using ok by (auto simp: inode_ok_def)
  note steps = clear_size_steps [OF wf len]
  have free: "b \<notin> set held" if "b \<in> set (metas d ino ?n)" for b
    using ok that inode_ok_split(1) [OF ok] by (auto simp: inode_ok_def)
  have dir: "set ?dir \<subseteq> insert 0 (set (direct ino))" by (auto dest: in_set_dropD)
  have empty: "size_in i = 0 \<and> data_blocks i = 0 \<and> type_in i = type_in ino \<and> inode_ok held d i \<and> set (direct i) \<subseteq> insert 0 (set (direct ino))"
    if "size_in i = 0" "direct i = ?dir" "type_in i = type_in ino" for i
  proof -
    have "data_blocks i = 0" using that(1) by (simp add: data_blocks_def data_blocks_for_eq layout_consts)
    moreover have "set (direct i) \<subseteq> insert 0 (set (direct ino))" using dir that(2) by simp
    ultimately show ?thesis using that wf len by (simp add: inode_ok_def alist_def)
  qed
  consider "?n \<le> INODE_DIRECT_COUNT" | "INODE_DIRECT_COUNT < ?n" "?n \<le> INDIRECT1_BOUND" | "INDIRECT1_BOUND < ?n"
    by linarith
  then show ?thesis
  proof cases
    case 1
    with steps(1) have "clear_size held d ino = Some (alist d ino ?n, ?e, d)" by (simp add: alist_def)
    moreover note empty [of ?e]
    ultimately show ?thesis by auto
  next
    case 2
    then have i1: "indirect1 ino \<notin> set held" by (intro free metas_ind(1))
    have "clear_size held d ino = Some (alist d ino ?n, ?e\<lparr>indirect1 := 0\<rparr>, d)"
      using steps(2) [OF 2(1) i1] 2 by (simp add: alist_def Let_def)
    moreover note empty [of "?e\<lparr>indirect1 := 0\<rparr>"]
    ultimately show ?thesis by auto
  next
    case 3
    then have gt: "INODE_DIRECT_COUNT < ?n" by (simp add: layout_consts)
    have i1: "indirect1 ino \<notin> set held" using gt by (intro free metas_ind(1))
    have i2: "indirect2 ino \<notin> set held" using 3 by (intro free metas_ind(2))
    let ?k = "?n - INDIRECT1_BOUND" and ?e1 = "?e\<lparr>indirect1 := 0\<rparr>"
    have "metas d ino ?n = indirect1 ino # indirect2 ino # take (subs_used ?k) (ind d (indirect2 ino))"
      using 3 gt by (simp add: metas_def)
    then have "set (take (subs_used ?k) (ind d (indirect2 ino))) \<inter> set (indirect2 ino # held) = {}"
      using inode_ok_split(4) [OF ok] free by auto
    then have "clear_indirect2 held d ?e1 (?n - INODE_DIRECT_COUNT) v =
      Some (v @ indirect2 ino # sub_list d (ind d (indirect2 ino)) ?k, ?e1\<lparr>indirect2 := 0\<rparr>, d)" for v
      using i2 inode_ok_blocks(2) [OF ok] clear_indirect2_spec [OF wf, of ?e1 held "?n - INODE_DIRECT_COUNT" ?k v]
      by (simp add: layout_consts)
    moreover have "length (ind d (indirect1 ino)) \<le> ?n - INODE_DIRECT_COUNT" using 3 by (simp add: layout_consts)
    then have "take (?n - INODE_DIRECT_COUNT) (ind d (indirect1 ino)) = ind d (indirect1 ino)" by (rule take_all)
    ultimately have "clear_size held d ino = Some (alist d ino ?n, ?e1\<lparr>indirect2 := 0\<rparr>, d)"
      using steps(2) [OF gt i1] 3 gt by (simp add: alist_def Let_def)
    moreover note empty [of "?e1\<lparr>indirect2 := 0\<rparr>"]
    ultimately show ?thesis by auto
  qed
qed

text \<open>
  C33 (functional).  Clearing a well-formed inode returns exactly the blocks of its table, data and
  indirect ones, each once and in table order; the disk is unchanged and the inode is left empty.
\<close>

theorem clear_size_spec:
  assumes ok: "inode_ok held d ino"
  shows "\<exists>ino'. clear_size held d ino = Some (alist d ino (data_blocks ino), ino', d) \<and>
    size_in ino' = 0 \<and> data_blocks ino' = 0 \<and> type_in ino' = type_in ino \<and> inode_ok held d ino'"
  using clear_size_ok [OF assms] by blast

subsection \<open>Encodings\<close>

lemma inode_store_roundtrip:
  assumes "length t = INODE_SIZE" and "length (direct ino) = INODE_DIRECT_COUNT"
    and "\<forall>x \<in> set (size_in ino # indirect1 ino # indirect2 ino # direct ino). x < 2 ^ 32"
  shows "inode_of (inode_store t ino) = ino" and "length (inode_store t ino) = INODE_SIZE"
    and "drop 125 (inode_store t ino) = drop 125 t"
proof -
  let ?w = "size_in ino # direct ino @ [indirect1 ino, indirect2 ino]"
  let ?y = "(case type_in ino of File \<Rightarrow> 0 | Directory \<Rightarrow> (1 :: u8)) # drop 125 t"
  have len: "length ?w = 31" using assms(2) by (simp add: layout_consts)
  have st: "inode_store t ino = words_bytes ?w @ ?y"
    using len by (simp add: inode_store_def splice_at_def)
  have w: "get_le 4 (inode_store t ino) i = ?w ! i" if "i < 31" for i
    unfolding st using that len assms(3) by (intro words_bytes_exact) auto
  have "map (\<lambda>i. get_le 4 (inode_store t ino) (Suc i)) [0..<INODE_DIRECT_COUNT] = direct ino"
    using assms(2) w by (intro nth_equalityI) (auto simp: nth_append layout_consts)
  moreover have "inode_store t ino ! 124 = (case type_in ino of File \<Rightarrow> 0 | Directory \<Rightarrow> 1)"
    using len by (simp add: st nth_append)
  moreover have "?w ! 29 = indirect1 ino" "?w ! 30 = indirect2 ino"
    using assms(2) by (simp_all add: nth_append layout_consts)
  ultimately show "inode_of (inode_store t ino) = ino"
    using w by (simp add: inode_of_def split: DiskInodeType.splits)
  show "length (inode_store t ino) = INODE_SIZE" "drop 125 (inode_store t ino) = drop 125 t"
    using len assms(1) by (simp_all add: st INODE_SIZE_def)
qed

text \<open>All words of an inode fit their fields, and the operations keep it so.\<close>

definition inode_u32 :: "DiskInode \<Rightarrow> bool" where
  "inode_u32 ino \<longleftrightarrow> (\<forall>x \<in> set (size_in ino # indirect1 ino # indirect2 ino # direct ino). x < 2 ^ 32)"

lemma inode_of_u32:
  assumes "length t = INODE_SIZE"
  shows "inode_u32 (inode_of t)" and "length (direct (inode_of t)) = INODE_DIRECT_COUNT"
proof -
  have "get_le 4 t i < 2 ^ 32" if "i < 32" for i
    using that assms get_le_bound [of 4 i t] by (simp add: INODE_SIZE_def)
  then show "inode_u32 (inode_of t)" by (auto simp: inode_u32_def inode_of_def layout_consts)
qed (simp add: inode_of_def)

lemma next_block_SomeD: "next_block xs = Some (x, ys) \<Longrightarrow> xs = x # ys"
  by (cases xs) auto

lemma fill_bounded:
  assumes "fill c b arr new = Some (arr', c', new')" and "\<forall>x \<in> set arr. x < m" and "\<forall>x \<in> set new. x < m"
  shows "(\<forall>x \<in> set arr'. x < m) \<and> (\<forall>x \<in> set new'. x < m)"
  using assms
proof (induction c b arr new rule: fill.induct)
  case (1 c b arr new)
  show ?case
  proof (cases "c < b")
    case True
    with 1(2) obtain x xs where n: "next_block new = Some (x, xs)" "c < length arr"
      "fill (c + 1) b (arr[c := x]) xs = Some (arr', c', new')"
      unfolding fill.simps [of c] by (auto simp: index_set_def split: bind_splits if_splits)
    have "\<forall>y \<in> set (arr[c := x]). y < m" "\<forall>y \<in> set xs. y < m"
      using 1(3,4) next_block_SomeD [OF n(1)] set_update_subset_insert [of arr c x] by auto
    then show ?thesis using 1(1) [OF True n(1) refl index_set_eq [OF n(2)] n(3)] by blast
  next
    case False
    with 1(2-4) show ?thesis by (auto simp: fill.simps [of c])
  qed
qed

lemma increase_indirect2_bounded:
  assumes "increase_indirect2 held d ino c t new = Some (ino', d')" and "\<forall>x \<in> set new. x < m" and "indirect2 ino < m"
  shows "\<exists>i2 < m. ino' = ino\<lparr>indirect2 := i2\<rparr>"
proof -
  obtain i2 new1 where t: "(if c = INODE_INDIRECT1_COUNT then next_block new else Some (indirect2 ino, new)) = Some (i2, new1)"
    and "ino' = ino\<lparr>indirect2 := i2\<rparr>"
    using assms(1) unfolding increase_indirect2_def Let_def by (auto split: bind_splits)
  moreover have "i2 < m" using t assms(2,3) by (auto dest!: next_block_SomeD split: if_splits)
  ultimately show ?thesis by blast
qed

lemma increase_indirect1_bounded:
  assumes r: "increase_indirect1 held d ino c t new = Some (ino', d')" and "\<forall>x \<in> set new. x < m"
    and "indirect1 ino < m" and "indirect2 ino < m" and wf: "wf_disk d" and m: "m = 2 ^ 32"
  shows "\<exists>i1 < m. \<exists>i2 < m. ino' = ino\<lparr>indirect1 := i1, indirect2 := i2\<rparr>"
proof -
  obtain i1 new1 cur new2 d1 where t: "(if c = INODE_DIRECT_COUNT then next_block new else Some (indirect1 ino, new)) = Some (i1, new1)"
    and f: "blk_modify held d i1 0 BLOCK_SZ (\<lambda>t'. do { (arr, current, new_blocks) \<leftarrow>
        fill (sub32 c INODE_DIRECT_COUNT) (min (sub32 t INODE_DIRECT_COUNT) INODE_INDIRECT1_COUNT) (indirect_of t') new1;
        Some ((current, new_blocks), words_bytes arr) }) = Some ((cur, new2), d1)"
    and e: "(if sub32 t INODE_DIRECT_COUNT > INODE_INDIRECT1_COUNT
      then increase_indirect2 held d1 (ino\<lparr>indirect1 := i1\<rparr>) cur (sub32 t INODE_DIRECT_COUNT) new2
      else Some (ino\<lparr>indirect1 := i1\<rparr>, d1)) = Some (ino', d')"
    using r unfolding increase_indirect1_def Let_def by (auto split: bind_splits prod.splits)
  have i1: "i1 < m" "\<forall>x \<in> set new1. x < m" using t assms(2,3) by (auto dest!: next_block_SomeD split: if_splits)
  from blk_modify_SomeD [OF f] obtain arr where
    fl: "fill (sub32 c INODE_DIRECT_COUNT) (min (sub32 t INODE_DIRECT_COUNT) INODE_INDIRECT1_COUNT)
      (indirect_of (take BLOCK_SZ (drop 0 (d i1)))) new1 = Some (arr, cur, new2)" by (auto split: bind_splits)
  have "take BLOCK_SZ (drop 0 (d i1)) = d i1" using wf by (simp add: wf_disk_def)
  then have "\<forall>x \<in> set (indirect_of (take BLOCK_SZ (drop 0 (d i1)))). x < m"
    using ind_bound [OF wf] unfolding m ind_def by metis
  then have "\<forall>x \<in> set new2. x < m" using fill_bounded [OF fl _ i1(2)] by blast
  show ?thesis
  proof (cases "sub32 t INODE_DIRECT_COUNT > INODE_INDIRECT1_COUNT")
    case True
    then have "increase_indirect2 held d1 (ino\<lparr>indirect1 := i1\<rparr>) cur (sub32 t INODE_DIRECT_COUNT) new2 = Some (ino', d')"
      using e by simp
    from increase_indirect2_bounded [OF this \<open>\<forall>x \<in> set new2. x < m\<close>] assms(4)
    obtain i2 where "i2 < m" "ino' = ino\<lparr>indirect1 := i1, indirect2 := i2\<rparr>" by auto
    with i1(1) show ?thesis by blast
  next
    case False
    with e have "ino' = ino\<lparr>indirect1 := i1\<rparr>" by simp
    then have "ino' = ino\<lparr>indirect1 := i1, indirect2 := indirect2 ino\<rparr>" by (cases ino) simp
    with i1(1) assms(4) show ?thesis by blast
  qed
qed

lemma increase_size_u32:
  assumes "increase_size held d ino new_size new = Some (ino', d')" and "inode_u32 ino"
    and "new_size < 2 ^ 32" and "\<forall>x \<in> set new. x < 2 ^ 32" and wf: "wf_disk d"
  shows "inode_u32 ino'"
proof -
  let ?i = "ino\<lparr>size_in := new_size\<rparr>"
  obtain dir c new1 where f: "fill (data_blocks ino) (min (data_blocks ?i) INODE_DIRECT_COUNT) (direct ino) new = Some (dir, c, new1)"
    and r: "(if data_blocks ?i > INODE_DIRECT_COUNT
      then increase_indirect1 held d (?i\<lparr>direct := dir\<rparr>) c (data_blocks ?i) new1
      else Some (?i\<lparr>direct := dir\<rparr>, d)) = Some (ino', d')"
    using assms(1) by (auto simp: increase_size_def Let_def split: bind_splits)
  have "\<forall>x \<in> set (direct ino). x < 2 ^ 32" using assms(2) by (simp add: inode_u32_def)
  from fill_bounded [OF f this assms(4)] have b: "\<forall>x \<in> set dir. x < 2 ^ 32" "\<forall>x \<in> set new1. x < 2 ^ 32"
    by blast+
  show ?thesis
  proof (cases "data_blocks ?i > INODE_DIRECT_COUNT")
    case True
    then have "increase_indirect1 held d (?i\<lparr>direct := dir\<rparr>) c (data_blocks ?i) new1 = Some (ino', d')" using r by simp
    from increase_indirect1_bounded [OF this b(2) _ _ wf refl] assms(2,3) b(1)
    show ?thesis by (auto simp: inode_u32_def)
  next
    case False
    with r assms(2,3) b(1) show ?thesis by (auto simp: inode_u32_def)
  qed
qed

lemma sb_roundtrip:
  assumes "\<forall>x \<in> set [magic sb, total_blocks_sb sb, inode_bitmap_blocks sb, inode_area_blocks sb,
    data_bitmap_blocks sb, data_area_blocks sb]. x < 2 ^ 32"
  shows "sb_of (sb_bytes sb @ ys) = sb"
proof -
  let ?w = "[magic sb, total_blocks_sb sb, inode_bitmap_blocks sb, inode_area_blocks sb,
    data_bitmap_blocks sb, data_area_blocks sb]"
  have "get_le 4 (sb_bytes sb @ ys) i = ?w ! i" if "i < 6" for i
    unfolding sb_bytes_def using that assms by (intro words_bytes_exact) auto
  from this [of 0] this [of 1] this [of 2] this [of 3] this [of 4] this [of 5] show ?thesis
    by (simp add: sb_of_def)
qed

lemma de_new_Some:
  "length nm \<le> 28 \<Longrightarrow> de_new nm n = Some \<lparr>name_de = nm @ replicate (28 - length nm) 0, inode_number = n\<rparr>"
  by (simp add: de_new_def slice_copy_def splice_at_def NAME_LENGTH_LIMIT_def)

lemma find_zero: "0 \<notin> set nm \<Longrightarrow> 0 < k \<Longrightarrow> find_idx (\<lambda>b. b = 0) (nm @ replicate k 0) = Some (length nm)"
  by (auto simp: find_idx_Some nth_append) (metis nth_mem)

lemma de_bytes_roundtrip:
  "length (name_de de) = 28 \<Longrightarrow> inode_number de < 2 ^ 32 \<Longrightarrow> de_of_bytes (de_as_bytes de) = de"
  by (simp add: de_of_bytes_def de_as_bytes_def NAME_LENGTH_LIMIT_def get_le_def un_le_le_bytes del: le_bytes.simps)

lemma de_new_ok:
  assumes "length nm \<le> NAME_LENGTH_LIMIT" and "0 \<notin> set nm" and "utf8_ok nm" and "n < 2 ^ 32"
  shows "\<exists>de. de_new nm n = Some de \<and> length (de_as_bytes de) = DIRENT_SZ \<and>
    de_of_bytes (de_as_bytes de) = de \<and> de_name de = Some nm \<and> inode_number de = n"
proof -
  let ?de = "\<lparr>name_de = nm @ replicate (28 - length nm) 0, inode_number = n\<rparr>"
  have l: "length nm \<le> 27" using assms(1) by (simp add: NAME_LENGTH_LIMIT_def)
  then have "de_new nm n = Some ?de" by (simp add: de_new_Some)
  moreover have "de_name ?de = Some nm"
    using l assms(3) find_zero [OF assms(2), of "28 - length nm"] by (simp add: de_name_def)
  moreover have "de_of_bytes (de_as_bytes ?de) = ?de" using l assms(4) by (intro de_bytes_roundtrip) auto
  moreover have "length (de_as_bytes ?de) = DIRENT_SZ" using l by (simp add: de_as_bytes_def DIRENT_SZ_def)
  ultimately show ?thesis by auto
qed

text \<open>
  C34 (roundtrip).  A directory entry for a name of at most 27 bytes without zero bytes survives the
  round trip through its 32 bytes on disk: the name and the inode number read back are the ones
  stored.
\<close>

theorem dirent_roundtrip:
  assumes "length nm \<le> NAME_LENGTH_LIMIT" and "0 \<notin> set nm" and "utf8_ok nm" and "n < 2 ^ 32"
  shows "\<exists>de. de_new nm n = Some de \<and> length (de_as_bytes de) = DIRENT_SZ \<and>
    de_of_bytes (de_as_bytes de) = de \<and> de_name de = Some nm \<and> inode_number de = n"
  using assms by (rule de_new_ok)

theorem dirent_roundtrip_witness:
  "length [104, 105 :: u8] \<le> NAME_LENGTH_LIMIT \<and> utf8_ok [104, 105] \<and>
   (\<exists>de. de_new [104, 105] 3 = Some de \<and> de_name de = Some [104, 105] \<and> inode_number de = 3)"
  using dirent_roundtrip [of "[104, 105]" 3] by (simp add: NAME_LENGTH_LIMIT_def) blast



subsection \<open>A small inode\<close>

text \<open>A file of three bytes in block 7, and its disk.\<close>

definition ex_inode :: DiskInode where
  "ex_inode = \<lparr>size_in = 3, direct = 7 # replicate 27 0, indirect1 = 0, indirect2 = 0, type_in = File\<rparr>"

definition ex_disk :: disk where
  "ex_disk b = (if b = 7 then [1, 2, 3] @ replicate 509 0 else replicate 512 0)"

lemma ex_data_blocks: "data_blocks ex_inode = 1"
  by (simp add: data_blocks_def data_blocks_for_eq ex_inode_def layout_consts)

lemma ex_alist: "alist ex_disk ex_inode 1 = [7]"
  by (simp add: alist_def ex_inode_def layout_consts)

lemma ex_ok: "inode_ok [2] ex_disk ex_inode"
  unfolding inode_ok_def ex_data_blocks ex_alist
  by (simp add: wf_disk_def ex_disk_def ex_inode_def layout_consts)

lemma ex_byte: "j < 512 \<Longrightarrow> file_byte ex_disk ex_inode j = ([1, 2, 3] @ replicate 509 0) ! j"
  by (simp add: file_byte_def blk_id_def ex_inode_def ex_disk_def layout_consts)

theorem total_blocks_counts_witness:
  "length (direct ex_inode) = INODE_DIRECT_COUNT \<and> 100000 \<le> INDIRECT2_BOUND * BLOCK_SZ \<and>
   total_blocks 100000 = length (alist ex_disk ex_inode 196)"
  using total_blocks_counts [of ex_inode 100000 ex_disk] by (simp add: ex_inode_def layout_consts)

theorem read_at_spec_witness:
  "inode_ok [2] ex_disk ex_inode \<and> read_at [2] ex_disk ex_inode 1 [9, 9, 9, 9] = Some (2, [2, 3, 9, 9])"
  using read_at_spec [OF ex_ok, of 1 "[9, 9, 9, 9]"] ex_ok
  by (simp add: ex_byte upt_rec ex_inode_def [THEN arg_cong [of _ _ size_in]])

theorem write_at_spec_witness:
  "inode_ok [2] ex_disk ex_inode \<and>
   (\<exists>d'. write_at [2] ex_disk ex_inode 1 [8, 9, 10] = Some (2, d') \<and> inode_ok [2] d' ex_inode \<and>
     map (file_byte d' ex_inode) [0, 1, 2] = [1, 8, 9])"
proof -
  have sz: "size_in ex_inode = 3" by (simp add: ex_inode_def)
  obtain d' where w: "write_at [2] ex_disk ex_inode 1 [8, 9, 10] = Some (2, d')" "inode_ok [2] d' ex_inode"
    and b: "\<forall>j < 3. file_byte d' ex_inode j = (if 1 \<le> j \<and> j < 4 then [8, 9, 10] ! (j - 1) else file_byte ex_disk ex_inode j)"
    using write_at_spec [OF ex_ok, of "[8, 9, 10]" 1] by (auto simp: sz)
  have "map (file_byte d' ex_inode) [0, 1, 2] = [1, 8, 9]"
    using b by (simp add: ex_byte)
  with w show ?thesis by (intro conjI exI [of _ d'] ex_ok)
qed

theorem increase_size_spec_witness:
  "inode_ok [2] ex_disk ex_inode \<and> blocks_num_needed ex_inode 1000 = Some 1 \<and>
   (\<exists>ino' d'. increase_size [2] ex_disk ex_inode 1000 [9] = Some (ino', d') \<and> alist d' ino' (data_blocks ino') = [7, 9])"
proof -
  have need: "blocks_num_needed ex_inode 1000 = Some 1"
    by (simp add: blocks_num_needed_def ex_inode_def total_blocks_alen layout_consts alen_def sub32_def)
  then show ?thesis
    using increase_size_spec [OF ex_ok, of 1000 "[9]"] ex_ok ex_alist
    by (fastforce simp: ex_data_blocks layout_consts ex_inode_def [THEN arg_cong [of _ _ size_in]])
qed

theorem clear_size_spec_witness:
  "inode_ok [2] ex_disk ex_inode \<and> (\<exists>ino'. clear_size [2] ex_disk ex_inode = Some ([7], ino', ex_disk) \<and> size_in ino' = 0)"
  using clear_size_spec [OF ex_ok] ex_ok ex_alist by (auto simp: ex_data_blocks)

end
