(* ===== verification/Efs.thy ===== *)
theory Efs
  imports Bitmap Layout
begin

text \<open>
  The file system object of easy-fs (easy-fs/src/efs.rs): geometry computed by \<^verbatim>\<open>create\<close> and
  \<^verbatim>\<open>open\<close>, inode positions, allocation of inodes and data blocks.

  The blocks of a device are, in order, the super block, the inode bitmap, the inode area, the data
  bitmap and the data area.  \<open>geometry\<close> states this partition; \<open>efs_create\<close> establishes it and
  \<open>efs_open\<close> recovers the same object from the super block.

  \<^verbatim>\<open>block_cache_sync_all\<close> does not change the visible disk (see \<open>sync_all_durable\<close> in
  \<open>Block_Cache\<close>), so the calls do not appear here.
\<close>

record EasyFileSystem =
  inode_bitmap :: Bitmap
  data_bitmap :: Bitmap
  inode_area_start_block :: nat
  data_area_start_block :: nat

definition get_disk_inode_pos :: "EasyFileSystem \<Rightarrow> nat \<Rightarrow> nat \<times> nat" where
  "get_disk_inode_pos fs inode_id =
     (let inode_size = INODE_SIZE; inodes_per_block = BLOCK_SZ div inode_size
      in (add32 (inode_area_start_block fs) (inode_id div inodes_per_block),
          inode_id mod inodes_per_block * inode_size))"

definition get_data_block_id :: "EasyFileSystem \<Rightarrow> nat \<Rightarrow> nat" where
  "get_data_block_id fs data_block_id = add32 (data_area_start_block fs) data_block_id"

definition alloc_inode :: "nat list \<Rightarrow> EasyFileSystem \<Rightarrow> disk \<Rightarrow> (nat \<times> disk) option" where
  "alloc_inode held fs d =
     do { (r, d) \<leftarrow> bm_alloc held d (inode_bitmap fs);
          n \<leftarrow> r;
          Some (n mod 2 ^ 32, d) }"

definition alloc_data :: "nat list \<Rightarrow> EasyFileSystem \<Rightarrow> disk \<Rightarrow> (nat \<times> disk) option" where
  "alloc_data held fs d =
     do { (r, d) \<leftarrow> bm_alloc held d (data_bitmap fs);
          n \<leftarrow> r;
          Some (add32 (n mod 2 ^ 32) (data_area_start_block fs), d) }"

definition zero_block :: "nat list \<Rightarrow> disk \<Rightarrow> nat \<Rightarrow> disk option" where
  "zero_block held d b = map_option snd (blk_modify held d b 0 BLOCK_SZ (\<lambda>t. Some ((), map (\<lambda>_. 0) t)))"

definition dealloc_data :: "nat list \<Rightarrow> EasyFileSystem \<Rightarrow> disk \<Rightarrow> nat \<Rightarrow> disk option" where
  "dealloc_data held fs d b =
     do { d \<leftarrow> zero_block held d b;
          bm_dealloc held d (data_bitmap fs) (sub32 b (data_area_start_block fs)) }"

fun clear_blocks :: "disk \<Rightarrow> nat list \<Rightarrow> disk option" where
  "clear_blocks d [] = Some d"
| "clear_blocks d (i # is) = do { d \<leftarrow> zero_block [] d i; clear_blocks d is }"

definition efs_create :: "disk \<Rightarrow> nat \<Rightarrow> nat \<Rightarrow> (EasyFileSystem \<times> disk) option" where
  "efs_create d tb ibb =
     do { let ib = bm_new 1 ibb;
          let inode_num = bm_maximum ib;
          let iab = (inode_num * INODE_SIZE + BLOCK_SZ - 1) div BLOCK_SZ mod 2 ^ 32;
          let itb = add32 ibb iab;
          let dtb = sub32 (sub32 tb 1) itb;
          let dbb = add32 dtb 4096 div 4097;
          let dab = sub32 dtb dbb;
          let fs = \<lparr>inode_bitmap = ib, data_bitmap = bm_new (add32 (add32 1 ibb) iab) dbb,
                    inode_area_start_block = add32 1 ibb,
                    data_area_start_block = add32 (add32 1 itb) dbb\<rparr>;
          d \<leftarrow> clear_blocks d [0..<tb];
          (_, d) \<leftarrow> blk_modify [] d 0 0 24 (\<lambda>_. Some ((), sb_bytes (sb_initialize tb ibb iab dbb dab)));
          (root, d) \<leftarrow> alloc_inode [] fs d;
          rassert (root = 0);
          let (root_block, root_offset) = get_disk_inode_pos fs 0;
          (_, d) \<leftarrow> blk_modify [] d root_block root_offset INODE_SIZE
            (\<lambda>t. Some ((), inode_store t (inode_initialize (inode_of t) Directory)));
          Some (fs, d) }"

definition efs_open :: "disk \<Rightarrow> EasyFileSystem option" where
  "efs_open d = blk_read [] d 0 0 24 (\<lambda>t.
     do { let sb = sb_of t;
          rassert (sb_is_valid sb);
          let itb = add32 (inode_bitmap_blocks sb) (inode_area_blocks sb);
          Some \<lparr>inode_bitmap = bm_new 1 (inode_bitmap_blocks sb),
                data_bitmap = bm_new (add32 1 itb) (data_bitmap_blocks sb),
                inode_area_start_block = add32 1 (inode_bitmap_blocks sb),
                data_area_start_block = add32 (add32 1 itb) (data_bitmap_blocks sb)\<rparr> })"

subsection \<open>Geometry\<close>

definition geometry :: "EasyFileSystem \<Rightarrow> nat \<Rightarrow> bool" where
  "geometry fs tb \<longleftrightarrow>
     start_block_id (inode_bitmap fs) = 1 \<and>
     inode_area_start_block fs = 1 + blocks (inode_bitmap fs) \<and>
     start_block_id (data_bitmap fs) = inode_area_start_block fs + 1024 * blocks (inode_bitmap fs) \<and>
     data_area_start_block fs = start_block_id (data_bitmap fs) + blocks (data_bitmap fs) \<and>
     data_area_start_block fs \<le> tb \<and> data_area_start_block fs + bm_maximum (data_bitmap fs) \<le> 2 ^ 32"

definition inode_area :: "EasyFileSystem \<Rightarrow> nat set" where
  "inode_area fs = {inode_area_start_block fs..<start_block_id (data_bitmap fs)}"

lemma geometry_consts:
  assumes "geometry fs tb"
  shows "bm_maximum (inode_bitmap fs) = 4096 * blocks (inode_bitmap fs)"
    and "bm_maximum (data_bitmap fs) = 4096 * blocks (data_bitmap fs)"
  by (simp_all add: bm_maximum_def BLOCK_BITS_4096)

lemma inode_pos_eq:
  assumes g: "geometry fs tb" and i: "i < bm_maximum (inode_bitmap fs)"
  shows "get_disk_inode_pos fs i = (inode_area_start_block fs + i div 4, i mod 4 * 128)"
    and "inode_area_start_block fs + i div 4 \<in> inode_area fs"
proof -
  have "i div 4 < 1024 * blocks (inode_bitmap fs)" using i by (simp add: geometry_consts [OF g])
  then show area: "inode_area_start_block fs + i div 4 \<in> inode_area fs"
    using g by (simp add: geometry_def inode_area_def)
  then have "inode_area_start_block fs + i div 4 < 2 ^ 32" using g by (simp add: geometry_def inode_area_def)
  then show "get_disk_inode_pos fs i = (inode_area_start_block fs + i div 4, i mod 4 * 128)"
    by (simp add: get_disk_inode_pos_def INODE_SIZE_def BLOCK_SZ_def add32_lt)
qed

lemma slots_disjoint:
  assumes "i \<noteq> j" shows "i div 4 \<noteq> j div 4 \<or> i mod 4 * 128 + 128 \<le> j mod 4 * 128 \<or> j mod 4 * 128 + 128 \<le> i mod 4 * (128 :: nat)"
proof (cases "i div 4 = j div 4")
  case True
  with assms have "i mod 4 \<noteq> j mod 4" by (metis div_mult_mod_eq)
  then show ?thesis by linarith
qed simp

text \<open>
  C36 (bounds).  Inode positions: on a well-formed geometry distinct inode numbers of the bitmap are
  mapped to disjoint 128-byte slots, each inside one block of the inode area.
\<close>

theorem inode_pos_slots:
  assumes "geometry fs tb" and "i < bm_maximum (inode_bitmap fs)" and "j < bm_maximum (inode_bitmap fs)"
  shows "fst (get_disk_inode_pos fs i) \<in> inode_area fs \<and> snd (get_disk_inode_pos fs i) + INODE_SIZE \<le> BLOCK_SZ \<and>
    (i \<noteq> j \<longrightarrow> fst (get_disk_inode_pos fs i) \<noteq> fst (get_disk_inode_pos fs j) \<or>
       snd (get_disk_inode_pos fs i) + INODE_SIZE \<le> snd (get_disk_inode_pos fs j) \<or>
       snd (get_disk_inode_pos fs j) + INODE_SIZE \<le> snd (get_disk_inode_pos fs i))"
proof -
  have "i mod 4 < 4" by simp
  then have "i mod 4 * 128 + 128 \<le> 512" by linarith
  then show ?thesis
    using slots_disjoint [of i j] inode_pos_eq [OF assms(1,2)] inode_pos_eq(1) [OF assms(1,3)]
    by (auto simp: INODE_SIZE_def BLOCK_SZ_def)
qed

subsection \<open>Creating and opening\<close>

lemma zero_block_eq: "wf_disk d \<Longrightarrow> b \<notin> set held \<Longrightarrow> zero_block held d b = Some (d(b := replicate 512 0))"
  by (simp add: zero_block_def blk_modify_whole map_replicate_const) (simp add: wf_disk_def BLOCK_SZ_def)

lemma clear_blocks_eq:
  "wf_disk d \<Longrightarrow> clear_blocks d is = Some (\<lambda>b. if b \<in> set is then replicate 512 0 else d b)"
proof (induction "is" arbitrary: d)
  case (Cons i "is")
  have "wf_disk (d(i := replicate 512 0))" using Cons.prems by (simp add: wf_disk_def BLOCK_SZ_def)
  note IH = Cons.IH [OF this]
  have "clear_blocks d (i # is) = clear_blocks (d(i := replicate 512 0)) is"
    using Cons.prems by (simp add: zero_block_eq)
  also note IH
  also have "(\<lambda>b. if b \<in> set is then replicate 512 0 else (d(i := replicate 512 0)) b) =
      (\<lambda>b. if b \<in> set (i # is) then replicate 512 0 else d b)" by auto
  finally show ?case .
qed simp

definition efs_fresh :: "disk \<Rightarrow> nat \<Rightarrow> nat \<Rightarrow> EasyFileSystem \<Rightarrow> disk \<Rightarrow> bool" where
  "efs_fresh d tb ibb fs d' \<longleftrightarrow>
     wf_disk d' \<and> geometry fs tb \<and> blocks (inode_bitmap fs) = ibb \<and>
     (\<forall>n < bm_maximum (inode_bitmap fs). bm_bit d' (inode_bitmap fs) n \<longleftrightarrow> n = 0) \<and>
     (\<forall>n < bm_maximum (data_bitmap fs). \<not> bm_bit d' (data_bitmap fs) n) \<and>
     inode_of (take 128 (d' (inode_area_start_block fs))) =
       \<lparr>size_in = 0, direct = replicate 28 0, indirect1 = 0, indirect2 = 0, type_in = Directory\<rparr> \<and>
     (\<forall>b \<ge> data_area_start_block fs. b < tb \<longrightarrow> d' b = replicate 512 0) \<and>
     (\<forall>b \<ge> tb. d' b = d b)"

text \<open>The sizes that \<^verbatim>\<open>create\<close> computes, without wrap-around for a device that has room for them.\<close>

definition efs_sizes :: "nat \<Rightarrow> nat \<Rightarrow> EasyFileSystem" where
  "efs_sizes tb ibb =
     (let dtb = tb - 1 - 1025 * ibb; dbb = (dtb + 4096) div 4097
      in \<lparr>inode_bitmap = bm_new 1 ibb, data_bitmap = bm_new (1 + 1025 * ibb) dbb,
          inode_area_start_block = 1 + ibb, data_area_start_block = 1 + 1025 * ibb + dbb\<rparr>)"

lemma efs_sizes_geometry:
  assumes "1 + 1025 * ibb \<le> tb" and "tb + 8192 \<le> 2 ^ 32"
  shows "geometry (efs_sizes tb ibb) tb"
proof -
  define t where "t = tb - 1 - 1025 * ibb"
  have tb: "tb = t + 1 + 1025 * ibb" using assms(1) by (simp add: t_def)
  define q where "q = (t + 4096) div 4097"
  have "q * 4097 \<le> t + 4096" unfolding q_def by (rule div_times_less_eq_dividend)
  then have "q \<le> t" and "q * 4097 \<le> t + 4096" by linarith+
  then show ?thesis
    using tb assms(2) unfolding geometry_def efs_sizes_def Let_def t_def [symmetric] q_def [symmetric]
    by (simp add: bm_maximum_def bm_new_def BLOCK_BITS_4096)
qed

lemma efs_create_sizes:
  assumes "1 + 1025 * ibb \<le> tb" and "tb + 8192 \<le> 2 ^ 32"
  defines "dtb \<equiv> tb - 1 - 1025 * ibb" and "fs \<equiv> efs_sizes tb ibb"
  defines "sb \<equiv> sb_initialize tb ibb (1024 * ibb) ((dtb + 4096) div 4097) (dtb - (dtb + 4096) div 4097)"
  shows "efs_create d tb ibb =
     do { d \<leftarrow> clear_blocks d [0..<tb];
          (_, d) \<leftarrow> blk_modify [] d 0 0 24 (\<lambda>_. Some ((), sb_bytes sb));
          (root, d) \<leftarrow> alloc_inode [] fs d;
          rassert (root = 0);
          (_, d) \<leftarrow> blk_modify [] d (1 + ibb) 0 INODE_SIZE
            (\<lambda>t. Some ((), inode_store t (inode_initialize (inode_of t) Directory)));
          Some (fs, d) }"
proof -
  have s: "ibb < 2 ^ 32" "1024 * ibb < 2 ^ 32" "1 + 1025 * ibb < 2 ^ 32" using assms(1,2) by auto
  have iab: "(bm_maximum (bm_new 1 ibb) * INODE_SIZE + BLOCK_SZ - 1) div BLOCK_SZ mod 2 ^ 32 = 1024 * ibb"
    using s(2) by (simp add: bm_maximum_def bm_new_def BLOCK_BITS_4096 INODE_SIZE_def BLOCK_SZ_def)
  have d1: "add32 ibb (1024 * ibb) = 1025 * ibb" "sub32 (sub32 tb 1) (1025 * ibb) = dtb"
    using s assms(1,2) by (simp_all add: add32_lt sub32_le dtb_def)
  have "dtb + 4096 < 2 ^ 32" using assms(1,2) by (simp add: dtb_def)
  then have d2: "add32 dtb 4096 = dtb + 4096" by (simp add: add32_lt)
  have q: "(dtb + 4096) div 4097 * 4097 \<le> dtb + 4096" by (rule div_times_less_eq_dividend)
  then have le: "(dtb + 4096) div 4097 \<le> dtb" by linarith
  have d3: "sub32 dtb ((dtb + 4096) div 4097) = dtb - (dtb + 4096) div 4097"
    using le \<open>dtb + 4096 < 2 ^ 32\<close> by (intro sub32_le) auto
  have d4: "add32 1 ibb = 1 + ibb" "add32 (1 + ibb) (1024 * ibb) = 1 + 1025 * ibb" "add32 1 (1025 * ibb) = 1 + 1025 * ibb"
    using s by (simp_all add: add32_lt)
  have "1 + 1025 * ibb + (dtb + 4096) div 4097 < 2 ^ 32" using le assms(1,2) by (simp add: dtb_def)
  then have d5: "add32 (1 + 1025 * ibb) ((dtb + 4096) div 4097) = 1 + 1025 * ibb + (dtb + 4096) div 4097"
    by (rule add32_lt)
  have pos: "get_disk_inode_pos fs 0 = (1 + ibb, 0)"
    using s by (simp add: get_disk_inode_pos_def fs_def efs_sizes_def Let_def add32_lt BLOCK_SZ_def INODE_SIZE_def)
  have fs: "\<lparr>inode_bitmap = bm_new 1 ibb, data_bitmap = bm_new (1 + 1025 * ibb) ((dtb + 4096) div 4097),
      inode_area_start_block = 1 + ibb, data_area_start_block = 1 + 1025 * ibb + (dtb + 4096) div 4097\<rparr> = fs"
    by (simp add: fs_def efs_sizes_def Let_def dtb_def)
  show ?thesis
    unfolding efs_create_def Let_def iab d1 d2 d3 d4 d5 sb_def fs pos by simp
qed

lemma splice_whole: "length xs = n \<Longrightarrow> length ys \<le> n \<Longrightarrow> splice_at xs 0 ys = ys @ drop (length ys) xs"
  by (simp add: splice_at_def)

lemma get_le_zeros: "k * i + k \<le> n \<Longrightarrow> get_le k (replicate n 0) i = 0"
  by (simp add: get_le_def)

lemma inode_of_zeros: "inode_initialize (inode_of (replicate 128 0)) ty =
  \<lparr>size_in = 0, direct = replicate 28 0, indirect1 = 0, indirect2 = 0, type_in = ty\<rparr>"
  by (simp add: inode_initialize_def inode_of_def map_replicate_const layout_consts)

lemma bm_bit_other: "(\<And>b. b \<in> bm_blocks bm \<Longrightarrow> d' b = d b) \<Longrightarrow> n < bm_maximum bm \<Longrightarrow> bm_bit d' bm n = bm_bit d bm n"
proof -
  assume d: "\<And>b. b \<in> bm_blocks bm \<Longrightarrow> d' b = d b" and n: "n < bm_maximum bm"
  have "n div BLOCK_BITS < blocks bm" using n by (simp add: bm_maximum_def less_mult_imp_div_less)
  then have "d' (n div BLOCK_BITS + start_block_id bm) = d (n div BLOCK_BITS + start_block_id bm)"
    by (intro d) (simp add: bm_blocks_def)
  then show ?thesis by (simp add: bm_bit_def)
qed

lemma zero_bits:
  assumes "\<And>b. b \<in> bm_blocks bm \<Longrightarrow> d b = replicate 512 0" and "n < bm_maximum bm"
  shows "\<not> bm_bit d bm n"
  using bm_bit_other [of bm d "\<lambda>_. replicate 512 0" n] assms zero_disk_bits by simp

definition efs_super :: "nat \<Rightarrow> nat \<Rightarrow> SuperBlock" where
  "efs_super tb ibb =
     (let dtb = tb - 1 - 1025 * ibb
      in sb_initialize tb ibb (1024 * ibb) ((dtb + 4096) div 4097) (dtb - (dtb + 4096) div 4097))"

lemma length_sb_bytes [simp]: "length (sb_bytes sb) = 24"
  by (simp add: sb_bytes_def)

lemma efs_open_eq:
  assumes "1 + 1025 * ibb \<le> tb" and "tb + 8192 \<le> 2 ^ 32" and d: "d 0 = sb_bytes (efs_super tb ibb) @ ys"
  shows "efs_open d = Some (efs_sizes tb ibb)"
proof -
  let ?sb = "efs_super tb ibb" and ?dtb = "tb - 1 - 1025 * ibb"
  have "(?dtb + 4096) div 4097 * 4097 \<le> ?dtb + 4096" by (rule div_times_less_eq_dividend)
  then have le: "(?dtb + 4096) div 4097 \<le> ?dtb" by linarith
  have f: "magic ?sb = EFS_MAGIC" "inode_bitmap_blocks ?sb = ibb" "inode_area_blocks ?sb = 1024 * ibb"
    "data_bitmap_blocks ?sb = (?dtb + 4096) div 4097" "total_blocks_sb ?sb = tb" "data_area_blocks ?sb \<le> ?dtb"
    by (simp_all add: efs_super_def sb_initialize_def Let_def)
  have "sb_of (sb_bytes ?sb @ []) = ?sb"
    using f le assms(1,2) by (intro sb_roundtrip) (auto simp: EFS_MAGIC_def)
  then have "take 24 (drop 0 (d 0)) = sb_bytes ?sb" "sb_of (sb_bytes ?sb) = ?sb" using d by auto
  moreover have "add32 ibb (1024 * ibb) = 1025 * ibb" "add32 1 (1025 * ibb) = 1 + 1025 * ibb" "add32 1 ibb = 1 + ibb"
    using assms(1,2) by (simp_all add: add32_lt)
  moreover have "1 + 1025 * ibb + (?dtb + 4096) div 4097 < 2 ^ 32" using le assms(1,2) by linarith
  then have "add32 (1 + 1025 * ibb) ((?dtb + 4096) div 4097) = 1 + 1025 * ibb + (?dtb + 4096) div 4097"
    by (rule add32_lt)
  ultimately show ?thesis
    unfolding efs_open_def blk_read_def Let_def
    by (simp only: f sb_is_valid_def assert_True) (simp add: BLOCK_SZ_def efs_sizes_def Let_def)
qed

lemma alloc_first:
  assumes "wf_disk d" and "0 < blocks bm" and "\<And>b. b \<in> bm_blocks bm \<Longrightarrow> d b = replicate 512 0"
  obtains d' where "bm_alloc [] d bm = Some (Some 0, d')" and "bm_alloc_ok d bm (Some 0) d'"
proof -
  obtain r d' where r: "bm_alloc [] d bm = Some (r, d')" "bm_alloc_ok d bm r d'"
    using bm_alloc_loop_spec [OF assms(1), of bm "[]" 0] unfolding bm_alloc_def by auto
  have "0 < bm_maximum bm" using assms(2) by (simp add: bm_maximum_def BLOCK_BITS_4096)
  moreover note zero_bits [OF assms(3)]
  ultimately have "r = Some 0" using r(2) by (auto simp: bm_alloc_ok_def split: option.splits)
  with r that show ?thesis by auto
qed

lemma root_inode_stored:
  fixes t :: "u8 list"
  assumes "t = replicate 512 0"
  defines "t' \<equiv> splice_at t 0 (inode_store (take 128 t) (inode_initialize (inode_of (take 128 t)) Directory))"
  shows "inode_of (take 128 t') = \<lparr>size_in = 0, direct = replicate 28 0, indirect1 = 0, indirect2 = 0, type_in = Directory\<rparr>"
    and "length t' = 512"
proof -
  let ?r = "\<lparr>size_in = 0, direct = replicate 28 0, indirect1 = 0, indirect2 = 0, type_in = Directory\<rparr>"
  have "take 128 t = replicate 128 0" using assms(1) by simp
  then have t': "t' = splice_at t 0 (inode_store (replicate 128 0) ?r)" by (simp add: t'_def inode_of_zeros)
  have "length (direct ?r) = INODE_DIRECT_COUNT" by (simp add: INODE_DIRECT_COUNT_def)
  then have "inode_of (inode_store (replicate 128 0) ?r) = ?r" "length (inode_store (replicate 128 0) ?r) = 128"
    using inode_store_roundtrip [of "replicate 128 0" ?r] by (auto simp: INODE_SIZE_def)
  then show "inode_of (take 128 t') = ?r" "length t' = 512" using assms(1) by (simp_all add: t' splice_at_def)
qed

lemma efs_create_ok:
  assumes wf: "wf_disk d" and room: "1 + 1025 * ibb \<le> tb" "tb + 8192 \<le> 2 ^ 32" and ibb: "0 < ibb"
  shows "\<exists>d'. efs_create d tb ibb = Some (efs_sizes tb ibb, d') \<and> efs_fresh d tb ibb (efs_sizes tb ibb) d' \<and>
    efs_open d' = Some (efs_sizes tb ibb)"
proof -
  let ?fs = "efs_sizes tb ibb" and ?z = "replicate 512 0 :: u8 list"
  define sbb where "sbb = sb_bytes (efs_super tb ibb)"
  define d0 where "d0 = (\<lambda>b. if b < tb then ?z else d b)"
  define d1 where "d1 = d0(0 := sbb @ drop 24 ?z)"
  note g = efs_sizes_geometry [OF room]
  have das: "blocks (inode_bitmap ?fs) = ibb" "inode_area_start_block ?fs = 1 + ibb" "data_area_start_block ?fs \<le> tb"
    "bm_blocks (inode_bitmap ?fs) = {1..<1 + ibb}" "bm_blocks (data_bitmap ?fs) = {1 + 1025 * ibb..<data_area_start_block ?fs}"
    "1 + 1025 * ibb \<le> data_area_start_block ?fs"
    using g by (auto simp: geometry_def efs_sizes_def Let_def bm_new_def bm_blocks_def)
  have "clear_blocks d [0..<tb] = Some d0" using wf by (simp add: clear_blocks_eq d0_def)
  moreover have "blk_modify [] d0 0 0 24 (\<lambda>_. Some ((), sbb)) = Some ((), d1)"
    using room by (simp add: blk_modify_def with_block_def BLOCK_SZ_def d1_def d0_def splice_at_def sbb_def)
  moreover have wf1: "wf_disk d1" using wf by (simp add: d1_def d0_def sbb_def wf_disk_def BLOCK_SZ_def)
  have z1: "d1 b = ?z" if "0 < b" "b < tb" for b using that by (simp add: d1_def d0_def)
  obtain d2 where d2: "bm_alloc [] d1 (inode_bitmap ?fs) = Some (Some 0, d2)" "bm_alloc_ok d1 (inode_bitmap ?fs) (Some 0) d2"
    using alloc_first [OF wf1, of "inode_bitmap ?fs"] ibb das room z1 by force
  let ?b = "1 + ibb"
  have z2: "d2 b = d1 b" if "b = 0 \<or> ?b \<le> b" for b using that d2(2) das by (auto simp: bm_alloc_ok_def)
  have b: "d2 ?b = ?z" using z2 [of ?b] z1 [of ?b] room ibb by simp
  define t' where "t' = splice_at (d2 ?b) 0 (inode_store (take 128 (d2 ?b)) (inode_initialize (inode_of (take 128 (d2 ?b))) Directory))"
  note root = root_inode_stored [OF b, folded t'_def]
  define d3 where "d3 = d2(?b := t')"
  have "blk_modify [] d2 ?b 0 INODE_SIZE (\<lambda>t. Some ((), inode_store t (inode_initialize (inode_of t) Directory))) = Some ((), d3)"
    by (simp add: blk_modify_def with_block_def BLOCK_SZ_def INODE_SIZE_def d3_def t'_def)
  ultimately have create: "efs_create d tb ibb = Some (?fs, d3)"
    unfolding efs_create_sizes [OF room] using d2(1)
    by (simp add: alloc_inode_def sbb_def efs_super_def Let_def)
  have "wf_disk d3" using d2(2) root(2) by (simp add: bm_alloc_ok_def d3_def wf_disk_def BLOCK_SZ_def)
  moreover have "bm_bit d3 (inode_bitmap ?fs) n \<longleftrightarrow> n = 0" if "n < bm_maximum (inode_bitmap ?fs)" for n
  proof -
    have "bm_bit d3 (inode_bitmap ?fs) n = bm_bit d2 (inode_bitmap ?fs) n"
      using that das by (intro bm_bit_other) (auto simp: d3_def)
    moreover have "\<not> bm_bit d1 (inode_bitmap ?fs) n" using that das z1 room by (intro zero_bits) auto
    ultimately show ?thesis using d2(2) that by (auto simp: bm_alloc_ok_def)
  qed
  moreover have rest: "d3 b = d1 b" if "b = 0 \<or> ?b < b" for b using that z2 [of b] by (auto simp: d3_def)
  have "\<not> bm_bit d3 (data_bitmap ?fs) n" if "n < bm_maximum (data_bitmap ?fs)" for n
    using that das rest z1 ibb by (intro zero_bits) auto
  moreover have "d3 b = ?z" if "data_area_start_block ?fs \<le> b" "b < tb" for b
    using that das rest [of b] z1 [of b] ibb by auto
  moreover have "d3 b = d b" if "tb \<le> b" for b
    using that rest [of b] room ibb by (auto simp: d1_def d0_def)
  ultimately have "efs_fresh d tb ibb ?fs d3" using g das root(1) by (simp add: efs_fresh_def d3_def)
  moreover have "d3 0 = sb_bytes (efs_super tb ibb) @ drop 24 ?z" using rest [of 0] by (simp add: d1_def sbb_def)
  ultimately show ?thesis using create efs_open_eq [OF room] by blast
qed

text \<open>
  C37 (roundtrip).  On a device with room for the inode area, \<^verbatim>\<open>EasyFileSystem::create\<close> returns a file
  system with a well-formed geometry: only inode 0 is allocated, it is an empty directory, no data
  block is allocated, the data area is zeroed and no block at or beyond \<^verbatim>\<open>total_blocks\<close> is touched.
  \<^verbatim>\<open>EasyFileSystem::open\<close> on the resulting device gives back the same object.
\<close>

theorem efs_create_open:
  assumes wf: "wf_disk d" and room: "1 + 1025 * ibb \<le> tb" "tb + 8192 \<le> 2 ^ 32" and ibb: "0 < ibb"
  shows "\<exists>d'. efs_create d tb ibb = Some (efs_sizes tb ibb, d') \<and> efs_fresh d tb ibb (efs_sizes tb ibb) d' \<and>
    efs_open d' = Some (efs_sizes tb ibb)"
  using assms by (rule efs_create_ok)

theorem efs_create_open_witness:
  "wf_disk (\<lambda>_. replicate 512 7) \<and> data_area_start_block (efs_sizes 4096 1) = 1027 \<and>
   (\<exists>d'. efs_create (\<lambda>_. replicate 512 7) 4096 1 = Some (efs_sizes 4096 1, d') \<and> efs_open d' = Some (efs_sizes 4096 1))"
proof -
  have wf: "wf_disk (\<lambda>_. replicate 512 7)" by (simp add: wf_disk_def BLOCK_SZ_def)
  with efs_create_open [OF wf, of 1 4096] show ?thesis by (auto simp: efs_sizes_def)
qed

theorem inode_pos_slots_witness:
  "geometry (efs_sizes 4096 1) 4096 \<and>
   snd (get_disk_inode_pos (efs_sizes 4096 1) 5) + INODE_SIZE \<le> BLOCK_SZ \<and>
   get_disk_inode_pos (efs_sizes 4096 1) 5 \<noteq> get_disk_inode_pos (efs_sizes 4096 1) 6"
proof -
  have g: "geometry (efs_sizes 4096 1) 4096" by (rule efs_sizes_geometry) simp_all
  have "bm_maximum (inode_bitmap (efs_sizes 4096 1)) = 4096"
    by (simp add: efs_sizes_def bm_new_def bm_maximum_def BLOCK_BITS_4096)
  with g inode_pos_slots [OF g, of 5 6] show ?thesis by (auto simp: INODE_SIZE_def)
qed

subsection \<open>Allocating data blocks\<close>

definition data_used :: "EasyFileSystem \<Rightarrow> disk \<Rightarrow> nat set" where
  "data_used fs d = (\<lambda>n. data_area_start_block fs + n) ` {n. n < bm_maximum (data_bitmap fs) \<and> bm_bit d (data_bitmap fs) n}"

definition data_room :: "EasyFileSystem \<Rightarrow> nat set" where
  "data_room fs = {data_area_start_block fs..<data_area_start_block fs + bm_maximum (data_bitmap fs)}"

lemma data_used_iff:
  "data_area_start_block fs + n \<in> data_used fs d \<longleftrightarrow> n < bm_maximum (data_bitmap fs) \<and> bm_bit d (data_bitmap fs) n"
  by (auto simp: data_used_def)

lemma data_used_room: "data_used fs d \<subseteq> data_room fs"
  by (auto simp: data_used_def data_room_def)

lemma alloc_data_cases:
  assumes g: "geometry fs tb" and wf: "wf_disk d" and h: "\<forall>b \<in> bm_blocks (data_bitmap fs). b \<notin> set held"
  shows "case alloc_data held fs d of
      None \<Rightarrow> data_used fs d = data_room fs
    | Some (b, d') \<Rightarrow> b \<in> data_room fs \<and> b \<notin> data_used fs d \<and> data_used fs d' = insert b (data_used fs d) \<and>
        (\<forall>c. c \<notin> bm_blocks (data_bitmap fs) \<longrightarrow> d' c = d c) \<and> wf_disk d'"
proof -
  let ?bm = "data_bitmap fs" and ?s = "data_area_start_block fs"
  obtain r d' where r: "bm_alloc held d ?bm = Some (r, d')" "bm_alloc_ok d ?bm r d'"
    using bm_alloc_loop_spec [OF wf h, of 0] unfolding bm_alloc_def by auto
  show ?thesis
  proof (cases r)
    case None
    with r have "\<forall>j < bm_maximum ?bm. bm_bit d ?bm j" by (simp add: bm_alloc_ok_def)
    then have "data_used fs d = (\<lambda>n. ?s + n) ` {..<bm_maximum ?bm}" by (auto simp: data_used_def)
    also have "\<dots> = data_room fs" unfolding data_room_def by (simp add: lessThan_atLeast0 add.commute)
    finally have "data_used fs d = data_room fs" .
    with None r show ?thesis by (simp add: alloc_data_def)
  next
    case (Some n)
    with r(2) have n: "n < bm_maximum ?bm" "\<not> bm_bit d ?bm n"
      "\<forall>j < bm_maximum ?bm. bm_bit d' ?bm j = (j = n \<or> bm_bit d ?bm j)" by (auto simp: bm_alloc_ok_def)
    have lt: "n + ?s < 2 ^ 32" using n(1) g by (simp add: geometry_def)
    then have "alloc_data held fs d = Some (?s + n, d')"
      using r Some by (simp add: alloc_data_def add32_def add.commute)
    moreover have "data_used fs d' = insert (?s + n) (data_used fs d)" using n by (auto simp: data_used_def)
    moreover have "?s + n \<notin> data_used fs d" using n by (simp add: data_used_iff)
    ultimately show ?thesis using r(2) Some n by (auto simp: bm_alloc_ok_def data_room_def)
  qed
qed

lemma dealloc_data_ok:
  assumes g: "geometry fs tb" and wf: "wf_disk d" and h: "\<forall>b \<in> bm_blocks (data_bitmap fs). b \<notin> set held"
    and b: "b \<in> data_used fs d" "b \<notin> set held"
  obtains d' where "dealloc_data held fs d b = Some d'" and "data_used fs d' = data_used fs d - {b}"
    and "d' b = replicate 512 0" and "\<And>c. c \<notin> insert b (bm_blocks (data_bitmap fs)) \<Longrightarrow> d' c = d c" and "wf_disk d'"
proof -
  let ?bm = "data_bitmap fs" and ?s = "data_area_start_block fs"
  obtain n where n: "b = ?s + n" "n < bm_maximum ?bm" "bm_bit d ?bm n" using b(1) by (auto simp: data_used_def)
  have out: "b \<notin> bm_blocks ?bm" using n g by (auto simp: geometry_def bm_blocks_def)
  define d0 where "d0 = d(b := replicate 512 0)"
  have wf0: "wf_disk d0" using wf by (simp add: d0_def wf_disk_def BLOCK_SZ_def)
  have bits: "bm_bit d0 ?bm j = bm_bit d ?bm j" if "j < bm_maximum ?bm" for j
    using that out by (intro bm_bit_other) (auto simp: d0_def)
  have "n + ?s < 2 ^ 32" using n g by (simp add: geometry_def)
  then have sub: "sub32 b ?s = n" using n by (simp add: sub32_le)
  obtain d' where d': "bm_dealloc held d0 ?bm n = Some d'" "wf_disk d'" "\<forall>c. c \<notin> bm_blocks ?bm \<longrightarrow> d' c = d0 c"
    "\<forall>j < bm_maximum ?bm. bm_bit d' ?bm j = (j \<noteq> n \<and> bm_bit d0 ?bm j)"
    using bm_dealloc_step [OF wf0 h n(2)] n bits by (auto split: option.splits)
  have "dealloc_data held fs d b = Some d'"
    using b wf d'(1) sub by (simp add: dealloc_data_def zero_block_eq d0_def)
  moreover have "data_used fs d' = data_used fs d - {b}" using d'(4) bits n by (auto simp: data_used_def)
  ultimately show thesis using that d' out by (auto simp: d0_def)
qed

text \<open>
  C38 (error).  The data bitmap has a bit for every multiple of 4096 blocks, also where the device
  ends earlier: once the whole data area is in use, \<^verbatim>\<open>alloc_data\<close> does not fail but hands out the
  block number \<^verbatim>\<open>total_blocks\<close>, which lies beyond the file system.
\<close>

theorem alloc_data_overrun:
  assumes "wf_disk d" and "1 + 1025 * ibb \<le> tb" and "tb + 8192 \<le> 2 ^ 32"
    and "\<forall>n < bm_maximum (data_bitmap (efs_sizes tb ibb)).
      bm_bit d (data_bitmap (efs_sizes tb ibb)) n \<longleftrightarrow> data_area_start_block (efs_sizes tb ibb) + n < tb"
    and "tb < data_area_start_block (efs_sizes tb ibb) + bm_maximum (data_bitmap (efs_sizes tb ibb))"
  shows "\<exists>d'. alloc_data [] (efs_sizes tb ibb) d = Some (tb, d')"
proof -
  let ?bm = "data_bitmap (efs_sizes tb ibb)" and ?s = "data_area_start_block (efs_sizes tb ibb)"
  have s: "?s \<le> tb" using efs_sizes_geometry [OF assms(2,3)] by (simp add: geometry_def)
  obtain r d' where r: "bm_alloc [] d ?bm = Some (r, d')" "bm_alloc_ok d ?bm r d'"
    using bm_alloc_loop_spec [OF assms(1), of ?bm "[]" 0] unfolding bm_alloc_def by auto
  have lt: "tb - ?s < bm_maximum ?bm" using s assms(5) by linarith
  then have free: "\<not> bm_bit d ?bm (tb - ?s)" using assms(4) s by simp
  with r(2) lt obtain n where n: "r = Some n" "n < bm_maximum ?bm" "\<not> bm_bit d ?bm n" "\<forall>j < n. bm_bit d ?bm j"
    by (auto simp: bm_alloc_ok_def split: option.splits)
  have "\<not> n < tb - ?s" using n(2,3) assms(4) by auto
  moreover have "\<not> tb - ?s < n" using n(4) free by blast
  ultimately have "n + ?s = tb" using s by linarith
  moreover have "n < 2 ^ 32" using calculation assms(3) by linarith
  ultimately show ?thesis using r(1) n(1) assms(3) by (simp add: alloc_data_def add32_def)
qed

theorem alloc_data_overrun_witness:
  "data_area_start_block (efs_sizes 1030 1) = 1027 \<and>
   (\<exists>d'. alloc_data [] (efs_sizes 1030 1) (\<lambda>b. if b = 1026 then 7 # replicate 511 0 else replicate 512 0) = Some (1030, d'))"
proof -
  let ?d = "\<lambda>b :: nat. if b = 1026 then 7 # replicate 511 0 else replicate 512 (0 :: u8)"
  have fs: "data_bitmap (efs_sizes 1030 1) = \<lparr>start_block_id = 1026, blocks = 1\<rparr>" "data_area_start_block (efs_sizes 1030 1) = 1027"
    by (simp_all add: efs_sizes_def bm_new_def)
  have wf: "wf_disk ?d" by (simp add: wf_disk_def BLOCK_SZ_def)
  have bits: "bm_bit ?d \<lparr>start_block_id = 1026, blocks = 1\<rparr> n \<longleftrightarrow> n < 3" if "n < 4096" for n
  proof -
    have "get_u64 (7 # replicate 511 0) i = (if i = 0 then 7 else 0)" if "i < 64" for i
    proof (cases i)
      case 0
      then show ?thesis by (simp add: get_u64_def get_le_def take_Cons')
    next
      case (Suc j)
      then have "get_le 8 (7 # replicate 511 0) i = get_le 8 (replicate 504 0) j"
        by (simp add: get_le_def drop_Cons')
      with Suc that show ?thesis by (simp add: get_u64_def get_le_zeros)
    qed
    moreover have "bit (7 :: u64) k \<longleftrightarrow> k < 3" for k
    proof -
      have "(7 :: u64) = mask 3" by (simp add: mask_eq_decr_exp)
      then have "bit (7 :: u64) k = bit (mask 3 :: u64) k" by (rule arg_cong)
      also have "\<dots> \<longleftrightarrow> k < 3" unfolding bit_mask_iff by auto
      finally show ?thesis .
    qed
    ultimately show ?thesis using that by (auto simp: bm_bit_def blk_bit_def BLOCK_BITS_4096)
  qed
  show ?thesis
    using alloc_data_overrun [OF wf, of 1 1030, unfolded fs] bits
    by (auto simp: fs(2) [simplified] bm_maximum_def BLOCK_BITS_4096)
qed

end
