(* ===== verification/Vfs.thy ===== *)
theory Vfs
  imports Efs
begin

text \<open>
  The virtual file system layer of easy-fs (easy-fs/src/vfs.rs).  An \<open>Inode\<close> is a handle: the block
  and the offset of a disk inode.  Every operation takes the file system object and the disk and
  locks the block of its disk inode while it works, so the closures of the source run with that
  block in the list of held blocks.

  \<open>fs_inv\<close> is the invariant of a file system with a set of live inodes: their block tables are
  well formed, allocated in the data bitmap and pairwise disjoint.  The theorems say what the
  operations do to the content of the inode they are called on, that they keep the invariant, and
  that no other inode is affected.
\<close>

record Inode =
  in_block :: nat
  in_offset :: nat

definition inode_handle :: "EasyFileSystem \<Rightarrow> nat \<Rightarrow> Inode" where
  "inode_handle fs inode_id =
     (let (b, off) = get_disk_inode_pos fs inode_id in \<lparr>in_block = b, in_offset = off\<rparr>)"

definition root_inode :: "EasyFileSystem \<Rightarrow> Inode" where
  "root_inode fs = inode_handle fs 0"

definition read_disk_inode :: "disk \<Rightarrow> Inode \<Rightarrow> (nat list \<Rightarrow> DiskInode \<Rightarrow> 'v option) \<Rightarrow> 'v option" where
  "read_disk_inode d h f =
     blk_read [] d (in_block h) (in_offset h) INODE_SIZE (\<lambda>t. f [in_block h] (inode_of t))"

definition modify_disk_inode :: "disk \<Rightarrow> Inode \<Rightarrow>
    (nat list \<Rightarrow> disk \<Rightarrow> DiskInode \<Rightarrow> ('v \<times> disk \<times> DiskInode) option) \<Rightarrow> ('v \<times> disk) option" where
  "modify_disk_inode d h f =
     with_block [] d (in_block h) (in_offset h) INODE_SIZE (\<lambda>held d t.
       do { (v, d, ino) \<leftarrow> f held d (inode_of t);
            Some (v, d, inode_store t ino) })"

text \<open>The scan of a directory; the entry buffer is reused from round to round.\<close>

fun find_loop :: "nat list \<Rightarrow> disk \<Rightarrow> u8 list \<Rightarrow> DiskInode \<Rightarrow> u8 list \<Rightarrow> nat list \<Rightarrow> nat option option" where
  "find_loop held d nm ino dirent [] = Some None"
| "find_loop held d nm ino dirent (i # is) =
     do { (n, dirent) \<leftarrow> read_at held d ino (DIRENT_SZ * i) dirent;
          rassert (n = DIRENT_SZ);
          m \<leftarrow> de_name (de_of_bytes dirent);
          if m = nm then Some (Some (inode_number (de_of_bytes dirent)))
          else find_loop held d nm ino dirent is }"

definition find_inode_id :: "nat list \<Rightarrow> disk \<Rightarrow> u8 list \<Rightarrow> DiskInode \<Rightarrow> nat option option" where
  "find_inode_id held d nm ino =
     do { rassert (is_dir ino);
          let file_count = size_in ino div DIRENT_SZ;
          find_loop held d nm ino (de_as_bytes de_empty) [0..<file_count] }"

definition vfs_find :: "EasyFileSystem \<Rightarrow> disk \<Rightarrow> Inode \<Rightarrow> u8 list \<Rightarrow> Inode option option" where
  "vfs_find fs d h nm =
     read_disk_inode d h (\<lambda>held ino. map_option (map_option (inode_handle fs)) (find_inode_id held d nm ino))"

fun alloc_blocks :: "nat list \<Rightarrow> EasyFileSystem \<Rightarrow> disk \<Rightarrow> nat \<Rightarrow> (nat list \<times> disk) option" where
  "alloc_blocks held fs d 0 = Some ([], d)"
| "alloc_blocks held fs d (Suc n) =
     do { (b, d) \<leftarrow> alloc_data held fs d;
          (v, d) \<leftarrow> alloc_blocks held fs d n;
          Some (b # v, d) }"

definition vfs_increase_size :: "nat list \<Rightarrow> EasyFileSystem \<Rightarrow> disk \<Rightarrow> nat \<Rightarrow> DiskInode \<Rightarrow> (DiskInode \<times> disk) option" where
  "vfs_increase_size held fs d new_size ino =
     (if new_size < size_in ino then Some (ino, d)
      else do { blocks_needed \<leftarrow> blocks_num_needed ino new_size;
                (v, d) \<leftarrow> alloc_blocks held fs d blocks_needed;
                increase_size held d ino new_size v })"

definition vfs_create :: "EasyFileSystem \<Rightarrow> disk \<Rightarrow> Inode \<Rightarrow> u8 list \<Rightarrow> (Inode option \<times> disk) option" where
  "vfs_create fs d h nm =
     do { (found, d) \<leftarrow> modify_disk_inode d h (\<lambda>held d root.
            do { rassert (is_dir root);
                 r \<leftarrow> find_inode_id held d nm root;
                 Some (r, d, root) });
          if found \<noteq> None then Some (None, d)
          else do {
            (new_id, d) \<leftarrow> alloc_inode [] fs d;
            let new_h = inode_handle fs new_id;
            (_, d) \<leftarrow> blk_modify [] d (in_block new_h) (in_offset new_h) INODE_SIZE
              (\<lambda>t. Some ((), inode_store t (inode_initialize (inode_of t) File)));
            (_, d) \<leftarrow> modify_disk_inode d h (\<lambda>held d root.
              do { let file_count = size_in root div DIRENT_SZ;
                   let new_size = (file_count + 1) * DIRENT_SZ;
                   (root, d) \<leftarrow> vfs_increase_size held fs d (new_size mod 2 ^ 32) root;
                   dirent \<leftarrow> de_new nm new_id;
                   (_, d) \<leftarrow> write_at held d root (file_count * DIRENT_SZ) (de_as_bytes dirent);
                   Some ((), d, root) });
            Some (Some new_h, d) } }"

fun ls_loop :: "nat list \<Rightarrow> disk \<Rightarrow> DiskInode \<Rightarrow> nat list \<Rightarrow> u8 list list option" where
  "ls_loop held d ino [] = Some []"
| "ls_loop held d ino (i # is) =
     do { (n, dirent) \<leftarrow> read_at held d ino (i * DIRENT_SZ) (de_as_bytes de_empty);
          rassert (n = DIRENT_SZ);
          m \<leftarrow> de_name (de_of_bytes dirent);
          v \<leftarrow> ls_loop held d ino is;
          Some (m # v) }"

definition vfs_ls :: "disk \<Rightarrow> Inode \<Rightarrow> u8 list list option" where
  "vfs_ls d h = read_disk_inode d h (\<lambda>held ino. ls_loop held d ino [0..<size_in ino div DIRENT_SZ])"

definition vfs_read_at :: "disk \<Rightarrow> Inode \<Rightarrow> nat \<Rightarrow> u8 list \<Rightarrow> (nat \<times> u8 list) option" where
  "vfs_read_at d h offset buf = read_disk_inode d h (\<lambda>held ino. read_at held d ino offset buf)"

definition vfs_write_at :: "EasyFileSystem \<Rightarrow> disk \<Rightarrow> Inode \<Rightarrow> nat \<Rightarrow> u8 list \<Rightarrow> (nat \<times> disk) option" where
  "vfs_write_at fs d h offset buf =
     modify_disk_inode d h (\<lambda>held d ino.
       do { (ino, d) \<leftarrow> vfs_increase_size held fs d ((offset + length buf) mod 2 ^ 32) ino;
            (n, d) \<leftarrow> write_at held d ino offset buf;
            Some (n, d, ino) })"

fun dealloc_blocks :: "nat list \<Rightarrow> EasyFileSystem \<Rightarrow> disk \<Rightarrow> nat list \<Rightarrow> disk option" where
  "dealloc_blocks held fs d [] = Some d"
| "dealloc_blocks held fs d (b # bs) = do { d \<leftarrow> dealloc_data held fs d b; dealloc_blocks held fs d bs }"

definition vfs_clear :: "EasyFileSystem \<Rightarrow> disk \<Rightarrow> Inode \<Rightarrow> disk option" where
  "vfs_clear fs d h =
     map_option snd (modify_disk_inode d h (\<lambda>held d ino.
       do { let sz = size_in ino;
            (v, ino, d) \<leftarrow> clear_size held d ino;
            rassert (length v = total_blocks sz);
            d \<leftarrow> dealloc_blocks held fs d v;
            Some ((), d, ino) }))"

subsection \<open>Slots of the inode area\<close>

definition slot :: "disk \<Rightarrow> Inode \<Rightarrow> DiskInode" where
  "slot d h = inode_of (take INODE_SIZE (drop (in_offset h) (d (in_block h))))"

definition set_slot :: "disk \<Rightarrow> Inode \<Rightarrow> DiskInode \<Rightarrow> disk" where
  "set_slot d h ino = d(in_block h := splice_at (d (in_block h)) (in_offset h)
     (inode_store (take INODE_SIZE (drop (in_offset h) (d (in_block h)))) ino))"

abbreviation ino_at :: "EasyFileSystem \<Rightarrow> disk \<Rightarrow> nat \<Rightarrow> DiskInode" where
  "ino_at fs d i \<equiv> slot d (inode_handle fs i)"

abbreviation inode_max :: "EasyFileSystem \<Rightarrow> nat" where
  "inode_max fs \<equiv> bm_maximum (inode_bitmap fs)"

definition storable :: "DiskInode \<Rightarrow> bool" where
  "storable ino \<longleftrightarrow> inode_u32 ino \<and> length (direct ino) = INODE_DIRECT_COUNT"

lemma handle_eq:
  assumes "geometry fs tb" and "i < inode_max fs"
  shows "in_block (inode_handle fs i) = inode_area_start_block fs + i div 4" and "in_offset (inode_handle fs i) = i mod 4 * 128"
    and "in_block (inode_handle fs i) \<in> inode_area fs" and "in_offset (inode_handle fs i) + INODE_SIZE \<le> BLOCK_SZ"
proof -
  note pos = inode_pos_eq [OF assms]
  then show h: "in_block (inode_handle fs i) = inode_area_start_block fs + i div 4" "in_offset (inode_handle fs i) = i mod 4 * 128"
    by (simp_all add: inode_handle_def)
  show "in_block (inode_handle fs i) \<in> inode_area fs" using pos(2) h(1) by simp
  have "i mod 4 < 4" by simp
  then show "in_offset (inode_handle fs i) + INODE_SIZE \<le> BLOCK_SZ" unfolding h(2) INODE_SIZE_def BLOCK_SZ_def by linarith
qed

lemma slot_storable:
  assumes "geometry fs tb" and "i < inode_max fs" and "wf_disk d"
  shows "storable (ino_at fs d i)"
proof -
  have "length (take INODE_SIZE (drop (in_offset (inode_handle fs i)) (d (in_block (inode_handle fs i))))) = INODE_SIZE"
    using handle_eq(4) [OF assms(1,2)] assms(3) by (simp add: wf_disk_def)
  from inode_of_u32 [OF this] show ?thesis by (simp add: slot_def storable_def)
qed

lemma set_slot_props:
  assumes g: "geometry fs tb" and i: "i < inode_max fs" and wf: "wf_disk d" and ino: "storable ino"
  defines "h \<equiv> inode_handle fs i"
  shows "ino_at fs (set_slot d h ino) i = ino" and "wf_disk (set_slot d h ino)"
    and "j < inode_max fs \<Longrightarrow> j \<noteq> i \<Longrightarrow> ino_at fs (set_slot d h ino) j = ino_at fs d j"
    and "b \<notin> inode_area fs \<Longrightarrow> set_slot d h ino b = d b"
proof -
  note hb = handle_eq [OF g i, folded h_def]
  let ?t = "take INODE_SIZE (drop (in_offset h) (d (in_block h)))"
  have len: "length (d (in_block h)) = BLOCK_SZ" using wf by (simp add: wf_disk_def)
  then have lt: "length ?t = INODE_SIZE" using hb(4) by simp
  note rt = inode_store_roundtrip [OF lt, of ino]
  have st: "inode_of (inode_store ?t ino) = ino" "length (inode_store ?t ino) = INODE_SIZE"
    using rt(1,2) ino by (auto simp: storable_def inode_u32_def)
  then have "take INODE_SIZE (drop (in_offset h) (splice_at (d (in_block h)) (in_offset h) (inode_store ?t ino))) = inode_store ?t ino"
    using take_drop_splice_same [of "in_offset h" "inode_store ?t ino" "d (in_block h)"] hb(4) len by simp
  then show "ino_at fs (set_slot d h ino) i = ino" using st by (simp add: slot_def set_slot_def h_def [symmetric])
  show "wf_disk (set_slot d h ino)"
    using wf st hb(4) len by (simp add: set_slot_def wf_disk_def)
  show "set_slot d h ino b = d b" if "b \<notin> inode_area fs" using that hb(3) by (auto simp: set_slot_def)
  assume j: "j < inode_max fs" "j \<noteq> i"
  note jb = handle_eq [OF g j(1)]
  show "ino_at fs (set_slot d h ino) j = ino_at fs d j"
  proof (cases "in_block (inode_handle fs j) = in_block h")
    case True
    then have "j div 4 = i div 4" using hb(1) jb(1) by simp
    with slots_disjoint [OF j(2)]
    have "in_offset (inode_handle fs j) + 128 \<le> in_offset h \<or> in_offset h + 128 \<le> in_offset (inode_handle fs j)"
      using hb(2) jb(2) by simp
    then have "take INODE_SIZE (drop (in_offset (inode_handle fs j)) (splice_at (d (in_block h)) (in_offset h) (inode_store ?t ino))) =
        take INODE_SIZE (drop (in_offset (inode_handle fs j)) (d (in_block h)))"
      using st hb(4) jb(4) len by (intro take_drop_splice_other) (auto simp: INODE_SIZE_def)
    with True show ?thesis by (simp add: slot_def set_slot_def)
  next
    case False
    then show ?thesis by (simp add: slot_def set_slot_def)
  qed
qed

lemma read_disk_inode_eq:
  assumes "geometry fs tb" and "i < inode_max fs"
  defines "h \<equiv> inode_handle fs i"
  shows "read_disk_inode d h f = f [in_block h] (ino_at fs d i)"
  using handle_eq(4) [OF assms(1,2), folded h_def]
  by (simp add: read_disk_inode_def blk_read_def slot_def h_def [symmetric] INODE_SIZE_def)

lemma modify_disk_inode_eq:
  assumes "geometry fs tb" and "i < inode_max fs"
  defines "h \<equiv> inode_handle fs i"
  assumes "f [in_block h] d (ino_at fs d i) = Some (v, d1, ino1)" and "d1 (in_block h) = d (in_block h)"
  shows "modify_disk_inode d h f = Some (v, set_slot d1 h ino1)"
  using handle_eq(4) [OF assms(1,2), folded h_def] assms(4,5)
  by (simp add: modify_disk_inode_def with_block_def slot_def h_def [symmetric] INODE_SIZE_def set_slot_def)

subsection \<open>The file-system invariant\<close>

definition blks :: "EasyFileSystem \<Rightarrow> disk \<Rightarrow> nat \<Rightarrow> nat list" where
  "blks fs d i = alist d (ino_at fs d i) (data_blocks (ino_at fs d i))"

definition content :: "EasyFileSystem \<Rightarrow> disk \<Rightarrow> nat \<Rightarrow> u8 list" where
  "content fs d i = map (file_byte d (ino_at fs d i)) [0..<size_in (ino_at fs d i)]"

definition fs_inv :: "EasyFileSystem \<Rightarrow> nat \<Rightarrow> disk \<Rightarrow> nat set \<Rightarrow> bool" where
  "fs_inv fs tb d S \<longleftrightarrow>
     geometry fs tb \<and> wf_disk d \<and>
     (\<forall>i \<in> S. i < inode_max fs \<and> bm_bit d (inode_bitmap fs) i \<and>
        inode_ok [] d (ino_at fs d i) \<and> set (blks fs d i) \<subseteq> data_used fs d) \<and>
     (\<forall>i \<in> S. \<forall>j \<in> S. i \<noteq> j \<longrightarrow> set (blks fs d i) \<inter> set (blks fs d j) = {})"

lemma regions:
  assumes "geometry fs tb"
  shows "bm_blocks (inode_bitmap fs) \<inter> inode_area fs = {}" and "bm_blocks (inode_bitmap fs) \<inter> bm_blocks (data_bitmap fs) = {}"
    and "bm_blocks (inode_bitmap fs) \<inter> data_room fs = {}" and "inode_area fs \<inter> bm_blocks (data_bitmap fs) = {}"
    and "inode_area fs \<inter> data_room fs = {}" and "bm_blocks (data_bitmap fs) \<inter> data_room fs = {}"
  using assms by (auto simp: geometry_def bm_blocks_def inode_area_def data_room_def)

lemma inode_ok_held: "inode_ok [] d ino \<Longrightarrow> set (alist d ino (data_blocks ino)) \<inter> set held = {} \<Longrightarrow> inode_ok held d ino"
  by (simp add: inode_ok_def)

lemma inode_ok_unheld: "inode_ok held d ino \<Longrightarrow> inode_ok [] d ino"
  by (simp add: inode_ok_def)

lemma fs_inv_inode:
  assumes inv: "fs_inv fs tb d S" and i: "i \<in> S"
  shows "i < inode_max fs" and "inode_ok [in_block (inode_handle fs i)] d (ino_at fs d i)"
    and "set (blks fs d i) \<subseteq> data_used fs d" and "storable (ino_at fs d i)"
proof -
  have g: "geometry fs tb" and ok: "inode_ok [] d (ino_at fs d i)" and wf: "wf_disk d"
    using inv i by (auto simp: fs_inv_def)
  show im: "i < inode_max fs" and used: "set (blks fs d i) \<subseteq> data_used fs d" using inv i by (auto simp: fs_inv_def)
  have "in_block (inode_handle fs i) \<notin> set (blks fs d i)"
    using handle_eq(3) [OF g im] used data_used_room [of fs d] regions(5) [OF g] by blast
  with ok show "inode_ok [in_block (inode_handle fs i)] d (ino_at fs d i)" by (simp add: inode_ok_def blks_def)
  show "storable (ino_at fs d i)" using g im wf by (rule slot_storable)
qed

text \<open>
  The effect of an operation on inode \<open>i\<close>: its new disk inode and the disk before it is stored.  Apart
  from the data bitmap only blocks of \<open>A\<close> change, and these are free or belong to the inode.
\<close>

definition fs_step :: "EasyFileSystem \<Rightarrow> disk \<Rightarrow> nat \<Rightarrow> nat set \<Rightarrow> DiskInode \<Rightarrow> disk \<Rightarrow> bool" where
  "fs_step fs d i A ino' d' \<longleftrightarrow>
     inode_ok [] d' ino' \<and> storable ino' \<and>
     set (alist d' ino' (data_blocks ino')) \<subseteq> data_used fs d' \<and>
     set (alist d' ino' (data_blocks ino')) \<inter> (data_used fs d - set (blks fs d i)) = {} \<and>
     data_used fs d - set (blks fs d i) \<subseteq> data_used fs d' \<and>
     (\<forall>c. c \<notin> bm_blocks (data_bitmap fs) \<union> A \<longrightarrow> d' c = d c) \<and>
     A \<subseteq> data_room fs \<and> A \<inter> data_used fs d \<subseteq> set (blks fs d i)"

text \<open>The inode, its blocks and its content depend on its slot and its blocks only.\<close>

lemma inode_view_cong:
  assumes ok: "inode_ok [] d ino" and same: "\<And>b. b \<in> set (alist d ino (data_blocks ino)) \<Longrightarrow> d' b = d b" and wf: "wf_disk d'"
  shows "inode_ok [] d' ino" and "alist d' ino (data_blocks ino) = alist d ino (data_blocks ino)"
    and "j < size_in ino \<Longrightarrow> file_byte d' ino j = file_byte d ino j"
proof -
  have m: "d' b = d b" if "b \<in> set (metas d ino (data_blocks ino))" for b
    using that same inode_ok_split(1) [OF ok] by auto
  show "alist d' ino (data_blocks ino) = alist d ino (data_blocks ino)" using m inode_ok_blocks(2) [OF ok] by (rule alist_cong)
  show "inode_ok [] d' ino" using ok wf m by (rule inode_ok_cong)
  assume "j < size_in ino"
  then have j: "j div BLOCK_SZ < data_blocks ino" unfolding inode_ok_blocks(1) [OF ok] layout_consts by linarith
  have "blk_id d' ino (j div BLOCK_SZ) = blk_id d ino (j div BLOCK_SZ)" using m j inode_ok_blocks(2) [OF ok] by (rule blk_id_cong)
  moreover have "d' (blk_id d ino (j div BLOCK_SZ)) = d (blk_id d ino (j div BLOCK_SZ))"
    using same j inode_ok_split(1) [OF ok] by auto
  ultimately show "file_byte d' ino j = file_byte d ino j" by (simp add: file_byte_def)
qed

lemma data_used_cong:
  "(\<And>b. b \<in> bm_blocks (data_bitmap fs) \<Longrightarrow> d' b = d b) \<Longrightarrow> data_used fs d' = data_used fs d"
  unfolding data_used_def using bm_bit_other [of "data_bitmap fs" d' d] by auto

lemma slot_cong: "d' (in_block h) = d (in_block h) \<Longrightarrow> slot d' h = slot d h"
  by (simp add: slot_def)

lemma stored_view:
  assumes g: "geometry fs tb" and i: "i < inode_max fs" and ino: "storable ino" and ok: "inode_ok [] d ino"
    and used: "set (alist d ino (data_blocks ino)) \<subseteq> data_used fs d"
  defines "d' \<equiv> set_slot d (inode_handle fs i) ino"
  shows "inode_ok [] d' (ino_at fs d' i)" and "blks fs d' i = alist d ino (data_blocks ino)"
    and "content fs d' i = map (file_byte d ino) [0..<size_in ino]"
proof -
  have wf: "wf_disk d" using ok by (simp add: inode_ok_def)
  note st = set_slot_props [OF g i wf ino, folded d'_def]
  have same: "d' b = d b" if "b \<in> set (alist d ino (data_blocks ino))" for b
    using that used data_used_room [of fs d] regions(5) [OF g] by (intro st(4)) auto
  note v = inode_view_cong [OF ok same st(2)]
  show "inode_ok [] d' (ino_at fs d' i)" "blks fs d' i = alist d ino (data_blocks ino)" using v st(1) by (auto simp: blks_def)
  show "content fs d' i = map (file_byte d ino) [0..<size_in ino]" using v(3) st(1) by (simp add: content_def)
qed

lemma fs_step_other:
  assumes inv: "fs_inv fs tb d S" and i: "i \<in> S" and step: "fs_step fs d i A ino' d'"
    and j: "j \<in> S" "j \<noteq> i"
  defines "d'' \<equiv> set_slot d' (inode_handle fs i) ino'"
  shows "ino_at fs d'' j = ino_at fs d j" and "blks fs d'' j = blks fs d j" and "content fs d'' j = content fs d j"
    and "inode_ok [] d'' (ino_at fs d'' j)" and "bm_bit d'' (inode_bitmap fs) j"
proof -
  have g: "geometry fs tb" and im: "i < inode_max fs" and jm: "j < inode_max fs" and okj: "inode_ok [] d (ino_at fs d j)"
    and jb: "set (blks fs d j) \<subseteq> data_used fs d" "set (blks fs d i) \<inter> set (blks fs d j) = {}" and bit: "bm_bit d (inode_bitmap fs) j"
    using inv i j by (auto simp: fs_inv_def)
  note reg = regions [OF g]
  have wf': "wf_disk d'" and st: "storable ino'" using step by (auto simp: fs_step_def inode_ok_def)
  have fr: "d' c = d c" if "c \<notin> bm_blocks (data_bitmap fs) \<union> A" for c using step that by (simp add: fs_step_def)
  note sp = set_slot_props [OF g im wf' st, folded d''_def]
  have A: "A \<subseteq> data_room fs" "A \<inter> data_used fs d \<subseteq> set (blks fs d i)" using step by (auto simp: fs_step_def)
  have "d' (in_block (inode_handle fs j)) = d (in_block (inode_handle fs j))"
    using handle_eq(3) [OF g jm] reg A(1) by (intro fr) auto
  then have same_ino: "ino_at fs d'' j = ino_at fs d j" using sp(3) [OF jm j(2)] slot_cong by metis
  then show "ino_at fs d'' j = ino_at fs d j" .
  have same: "d'' b = d b" if "b \<in> set (alist d (ino_at fs d j) (data_blocks (ino_at fs d j)))" for b
  proof -
    have b: "b \<in> data_used fs d" "b \<notin> set (blks fs d i)" using that jb by (auto simp: blks_def)
    then have "b \<in> data_room fs" "b \<notin> A" using data_used_room [of fs d] A(2) by auto
    then have "d'' b = d' b" "d' b = d b" using reg by (auto intro!: sp(4) fr)
    then show ?thesis by simp
  qed
  note v = inode_view_cong [OF okj same sp(2)]
  show "blks fs d'' j = blks fs d j" "inode_ok [] d'' (ino_at fs d'' j)" using v same_ino by (auto simp: blks_def)
  show "content fs d'' j = content fs d j" using v(3) same_ino by (simp add: content_def)
  have "bm_bit d'' (inode_bitmap fs) j = bm_bit d (inode_bitmap fs) j"
  proof (rule bm_bit_other [OF _ jm])
    fix b assume b: "b \<in> bm_blocks (inode_bitmap fs)"
    then have "d'' b = d' b" "d' b = d b" using reg A(1) by (auto intro!: sp(4) fr)
    then show "d'' b = d b" by simp
  qed
  with bit show "bm_bit d'' (inode_bitmap fs) j" by simp
qed

lemma fs_step_inv:
  assumes inv: "fs_inv fs tb d S" and i: "i \<in> S" and step: "fs_step fs d i A ino' d'"
  defines "d'' \<equiv> set_slot d' (inode_handle fs i) ino'"
  shows "fs_inv fs tb d'' S" and "data_used fs d'' = data_used fs d'"
proof -
  have g: "geometry fs tb" and im: "i < inode_max fs" using inv i by (auto simp: fs_inv_def)
  note reg = regions [OF g]
  have wf': "wf_disk d'" and st: "storable ino'" and ok': "inode_ok [] d' ino'"
    and used': "set (alist d' ino' (data_blocks ino')) \<subseteq> data_used fs d'"
    and new: "set (alist d' ino' (data_blocks ino')) \<inter> (data_used fs d - set (blks fs d i)) = {}"
      "data_used fs d - set (blks fs d i) \<subseteq> data_used fs d'"
    and fr: "\<And>c. c \<notin> bm_blocks (data_bitmap fs) \<union> A \<Longrightarrow> d' c = d c" and A: "A \<subseteq> data_room fs"
    using step by (auto simp: fs_step_def inode_ok_def)
  note sp = set_slot_props [OF g im wf' st, folded d''_def]
  note me = stored_view [OF g im st ok' used', folded d''_def]
  note other = fs_step_other [OF inv i step, folded d''_def]
  show du: "data_used fs d'' = data_used fs d'" using reg by (intro data_used_cong sp(4)) auto
  have "bm_bit d'' (inode_bitmap fs) i = bm_bit d (inode_bitmap fs) i"
  proof (rule bm_bit_other [OF _ im])
    fix b assume "b \<in> bm_blocks (inode_bitmap fs)"
    then have "d'' b = d' b" "d' b = d b" using reg A by (auto intro!: sp(4) fr)
    then show "d'' b = d b" by simp
  qed
  moreover have "bm_bit d (inode_bitmap fs) i" using inv i by (simp add: fs_inv_def)
  ultimately have me_ok: "bm_bit d'' (inode_bitmap fs) i" by simp
  have sub: "set (blks fs d j) \<subseteq> data_used fs d - set (blks fs d i)" if "j \<in> S" "j \<noteq> i" for j
  proof -
    have "set (blks fs d j) \<subseteq> data_used fs d" "set (blks fs d i) \<inter> set (blks fs d j) = {}"
      using inv i that by (auto simp: fs_inv_def)
    then show ?thesis by blast
  qed
  show "fs_inv fs tb d'' S"
    unfolding fs_inv_def
  proof (intro conjI ballI impI)
    fix j assume j: "j \<in> S"
    show "j < inode_max fs" using inv j by (simp add: fs_inv_def)
    show "bm_bit d'' (inode_bitmap fs) j" using other(5) [OF j] me_ok by (cases "j = i") auto
    show "inode_ok [] d'' (ino_at fs d'' j)" using other(4) [OF j] me(1) by (cases "j = i") auto
    show "set (blks fs d'' j) \<subseteq> data_used fs d''"
      using other(2) [OF j] me(2) used' du sub [OF j] new(2) by (cases "j = i") auto
    fix k assume k: "k \<in> S" "j \<noteq> k"
    have "set (blks fs d j) \<inter> set (blks fs d k) = {}" using inv j k by (auto simp: fs_inv_def)
    moreover have "set (blks fs d'' i) \<inter> set (blks fs d l) = {}" if "l \<in> S" "l \<noteq> i" for l
      using sub [OF that] new(1) me(2) by auto
    ultimately show "set (blks fs d'' j) \<inter> set (blks fs d'' k) = {}"
      using other(2) [OF j] other(2) [OF k(1)] j k by (cases "j = i"; cases "k = i") auto
  qed (use g sp(2) in auto)
qed

subsection \<open>Growing and writing\<close>

definition free_blocks :: "EasyFileSystem \<Rightarrow> disk \<Rightarrow> nat" where
  "free_blocks fs d = card (data_room fs - data_used fs d)"

lemma finite_data_room [simp]: "finite (data_room fs)"
  by (simp add: data_room_def)

lemma alloc_blocks_spec:
  assumes g: "geometry fs tb" and h: "\<forall>b \<in> bm_blocks (data_bitmap fs). b \<notin> set held"
  shows "wf_disk d \<Longrightarrow> n \<le> free_blocks fs d \<Longrightarrow>
    \<exists>v d'. alloc_blocks held fs d n = Some (v, d') \<and> length v = n \<and> distinct v \<and>
      set v \<subseteq> data_room fs - data_used fs d \<and> data_used fs d' = data_used fs d \<union> set v \<and>
      (\<forall>c. c \<notin> bm_blocks (data_bitmap fs) \<longrightarrow> d' c = d c) \<and> wf_disk d'"
proof (induction n arbitrary: d)
  case 0
  then show ?case by simp
next
  case (Suc n)
  have "card (data_room fs - data_used fs d) \<noteq> 0" using Suc.prems(2) unfolding free_blocks_def by linarith
  then have "data_room fs - data_used fs d \<noteq> {}" by (intro notI) simp
  then obtain b d1 where b: "alloc_data held fs d = Some (b, d1)" "b \<in> data_room fs" "b \<notin> data_used fs d"
    "data_used fs d1 = insert b (data_used fs d)" "\<forall>c. c \<notin> bm_blocks (data_bitmap fs) \<longrightarrow> d1 c = d c" "wf_disk d1"
    using alloc_data_cases [OF g Suc.prems(1) h] by (auto split: option.splits)
  have "data_room fs - data_used fs d1 = (data_room fs - data_used fs d) - {b}" using b(4) by auto
  then have "n \<le> free_blocks fs d1" using Suc.prems(2) b(2,3) by (simp add: free_blocks_def)
  from Suc.IH [OF b(6) this] obtain v d' where
    v: "alloc_blocks held fs d1 n = Some (v, d')" "length v = n" "distinct v" "set v \<subseteq> data_room fs - data_used fs d1"
      "data_used fs d' = data_used fs d1 \<union> set v" "\<forall>c. c \<notin> bm_blocks (data_bitmap fs) \<longrightarrow> d' c = d1 c" "wf_disk d'"
    by blast
  then show ?case using b by (intro exI [of _ "b # v"] exI [of _ d']) auto
qed

text \<open>Blocks missing for a size, and what holds after the inode has grown by the blocks \<open>V\<close>.\<close>

definition missing :: "DiskInode \<Rightarrow> nat \<Rightarrow> nat" where
  "missing ino new_size = total_blocks new_size - total_blocks (size_in ino)"

definition grown_by :: "EasyFileSystem \<Rightarrow> disk \<Rightarrow> nat \<Rightarrow> nat list \<Rightarrow> DiskInode \<Rightarrow> disk \<Rightarrow> bool" where
  "grown_by fs d i v ino' d' \<longleftrightarrow>
     inode_ok [in_block (inode_handle fs i)] d' ino' \<and> storable ino' \<and>
     alist d' ino' (data_blocks ino') = blks fs d i @ v \<and> set v \<subseteq> data_room fs - data_used fs d \<and>
     data_used fs d' = data_used fs d \<union> set v \<and>
     (\<forall>c. c \<notin> bm_blocks (data_bitmap fs) \<union> set (blks fs d i @ v) \<longrightarrow> d' c = d c)"

lemma grown_by_step:
  assumes inv: "fs_inv fs tb d S" and i: "i \<in> S" and g: "grown_by fs d i v ino' d'"
  shows "fs_step fs d i (set (blks fs d i @ v)) ino' d'"
proof -
  have "set (blks fs d i) \<subseteq> data_used fs d" using inv i by (simp add: fs_inv_def)
  then show ?thesis
    using g data_used_room [of fs d] unfolding grown_by_def fs_step_def by (auto intro: inode_ok_unheld)
qed

lemma vfs_increase_size_spec:
  assumes inv: "fs_inv fs tb d S" and i: "i \<in> S" and sz: "new_size \<le> INDIRECT2_BOUND * BLOCK_SZ"
    and free: "missing (ino_at fs d i) new_size \<le> free_blocks fs d"
  shows "\<exists>ino' d' v. vfs_increase_size [in_block (inode_handle fs i)] fs d new_size (ino_at fs d i) = Some (ino', d') \<and>
    grown_by fs d i v ino' d' \<and> size_in ino' = max new_size (size_in (ino_at fs d i)) \<and> type_in ino' = type_in (ino_at fs d i) \<and>
    (\<forall>j < size_in (ino_at fs d i). file_byte d' ino' j = file_byte d (ino_at fs d i) j)"
proof (cases "new_size < size_in (ino_at fs d i)")
  case True
  have g: "grown_by fs d i [] (ino_at fs d i) d"
    using fs_inv_inode [OF inv i] by (simp add: grown_by_def blks_def)
  show ?thesis using True g by (intro exI [of _ "ino_at fs d i"] exI [of _ d] exI [of _ "[]"]) (simp add: vfs_increase_size_def)
next
  case False
  let ?ino = "ino_at fs d i" and ?b = "in_block (inode_handle fs i)"
  have g: "geometry fs tb" and wf: "wf_disk d" using inv by (auto simp: fs_inv_def)
  note ino = fs_inv_inode [OF inv i]
  note reg = regions [OF g]
  have h: "\<forall>b \<in> bm_blocks (data_bitmap fs). b \<notin> set [?b]" using handle_eq(3) [OF g ino(1)] reg(4) by auto
  have szs: "size_in ?ino \<le> INDIRECT2_BOUND * BLOCK_SZ" using ino(2) by (simp add: inode_ok_def)
  have "total_blocks (size_in ?ino) \<le> total_blocks new_size"
    using False sz szs by (simp add: total_blocks_alen alen_mono div_le_mono)
  then have need: "blocks_num_needed ?ino new_size = Some (missing ?ino new_size)"
    using False total_blocks_alen(2) [OF sz] by (simp add: blocks_num_needed_def missing_def sub32_le)
  obtain v d1 where v: "alloc_blocks [?b] fs d (missing ?ino new_size) = Some (v, d1)" "length v = missing ?ino new_size" "distinct v"
    "set v \<subseteq> data_room fs - data_used fs d" "data_used fs d1 = data_used fs d \<union> set v"
    and fr: "\<forall>c. c \<notin> bm_blocks (data_bitmap fs) \<longrightarrow> d1 c = d c" and wf1: "wf_disk d1"
    using alloc_blocks_spec [OF g h wf free] by blast
  have room: "x < 2 ^ 32" if "x \<in> data_room fs" for x using that g by (auto simp: data_room_def geometry_def)
  have same: "d1 c = d c" if "c \<in> set (alist d ?ino (data_blocks ?ino))" for c
    using that ino(3) data_used_room [of fs d] reg(6) fr unfolding blks_def by blast
  have ok0: "inode_ok [] d ?ino" using inode_ok_unheld [OF ino(2)] .
  note view = inode_view_cong [OF ok0 same wf1]
  have al: "alist d1 ?ino (data_blocks ?ino) = blks fs d i" using view(2) by (simp add: blks_def)
  have held: "set (blks fs d i @ v) \<inter> set [?b] = {}"
    using ino(3) v(4) data_used_room [of fs d] handle_eq(3) [OF g ino(1)] reg(5) by auto
  have "set (alist d1 ?ino (data_blocks ?ino)) \<inter> set [?b] = {}" using held unfolding al by auto
  with view(1) have ok1: "inode_ok [?b] d1 ?ino" by (rule inode_ok_held)
  have le: "size_in ?ino \<le> new_size" and need': "blocks_num_needed ?ino new_size = Some (length v)"
    using False need v(2) by auto
  have bv: "\<forall>x \<in> set v. x < 2 ^ 32" and hv: "set v \<inter> set [?b] = {}" using room v(4) held by auto
  have dj: "set v \<inter> set (alist d1 ?ino (data_blocks ?ino)) = {}" using v(4) ino(3) unfolding al by auto
  obtain ino' d' where r: "increase_size [?b] d1 ?ino new_size v = Some (ino', d')" "inode_ok [?b] d' ino'"
    "size_in ino' = new_size" "type_in ino' = type_in ?ino" "alist d' ino' (data_blocks ino') = blks fs d i @ v"
    and bytes: "\<forall>j < size_in ?ino. file_byte d' ino' j = file_byte d1 ?ino j"
    and fr': "\<forall>c. c \<notin> set (metas d' ino' (data_blocks ino')) \<longrightarrow> d' c = d1 c"
    using increase_size_ok [OF ok1 le sz need' bv v(3) dj hv] unfolding al by blast
  have metas: "set (metas d' ino' (data_blocks ino')) \<subseteq> set (blks fs d i @ v)"
    using inode_ok_split(1) [OF r(2)] r(5) by auto
  have "storable ino'"
    using increase_size_u32 [OF r(1)] ino(4) sz v(4) room wf1 r(2)
    by (auto simp: storable_def inode_ok_def layout_consts)
  moreover have "data_used fs d' = data_used fs d1"
  proof (rule data_used_cong)
    fix b assume "b \<in> bm_blocks (data_bitmap fs)"
    then have "b \<notin> set (blks fs d i @ v)" using v(4) ino(3) data_used_room [of fs d] reg(6) by auto
    then show "d' b = d1 b" using fr' metas by blast
  qed
  moreover have "\<forall>c. c \<notin> bm_blocks (data_bitmap fs) \<union> set (blks fs d i @ v) \<longrightarrow> d' c = d c"
    using fr fr' metas by auto
  ultimately have "grown_by fs d i v ino' d'" using r v by (simp add: grown_by_def)
  moreover have "vfs_increase_size [?b] fs d new_size ?ino = Some (ino', d')"
    using False need v(1) r(1) by (simp add: vfs_increase_size_def)
  moreover have "size_in ino' = max new_size (size_in ?ino)" using r(3) False by simp
  moreover have "\<forall>j < size_in ?ino. file_byte d' ino' j = file_byte d ?ino j" using bytes view(3) by simp
  ultimately show ?thesis using r(4) by blast
qed

lemma grown_by_write:
  assumes inv: "fs_inv fs tb d S" and i: "i \<in> S" and g: "grown_by fs d i v ino' d1"
    and buf: "buf \<noteq> []" "offset + length buf \<le> size_in ino'"
  shows "\<exists>d'. write_at [in_block (inode_handle fs i)] d1 ino' offset buf = Some (length buf, d') \<and> grown_by fs d i v ino' d' \<and>
    (\<forall>j < size_in ino'. file_byte d' ino' j =
      (if offset \<le> j \<and> j < offset + length buf then buf ! (j - offset) else file_byte d1 ino' j))"
proof -
  let ?b = "in_block (inode_handle fs i)"
  have ok: "inode_ok [?b] d1 ino'" using g by (simp add: grown_by_def)
  have sz: "size_in ino' < 2 ^ 64" using ok by (simp add: inode_ok_def layout_consts)
  have lt: "offset < size_in ino'" using buf by (cases buf) auto
  have "min (offset + length buf) (size_in ino') - offset = length buf" using buf by simp
  then obtain d' where d': "write_at [?b] d1 ino' offset buf = Some (length buf, d')" "inode_ok [?b] d' ino'"
    "alist d' ino' (data_blocks ino') = alist d1 ino' (data_blocks ino')"
    and bytes: "\<forall>j < size_in ino'. file_byte d' ino' j =
      (if offset \<le> j \<and> j < offset + length buf then buf ! (j - offset) else file_byte d1 ino' j)"
    and fr: "\<forall>b. b \<notin> blk_id d1 ino' ` {..<data_blocks ino'} \<longrightarrow> d' b = d1 b"
    using write_at_ok [OF ok buf(1) _ lt] buf sz by auto
  have data: "blk_id d1 ino' ` {..<data_blocks ino'} \<subseteq> set (blks fs d i @ v)"
    using inode_ok_split(1) [OF ok] g by (auto simp: grown_by_def)
  have geo: "geometry fs tb" and used: "set (blks fs d i) \<subseteq> data_used fs d" using inv i by (auto simp: fs_inv_def)
  have "set (blks fs d i @ v) \<subseteq> data_room fs" using g used data_used_room [of fs d] by (auto simp: grown_by_def)
  then have "data_used fs d' = data_used fs d1"
    using fr data regions(6) [OF geo] by (intro data_used_cong) blast
  moreover have "d' c = d c" if "c \<notin> bm_blocks (data_bitmap fs) \<union> set (blks fs d i @ v)" for c
  proof -
    have "d' c = d1 c" using fr data that by blast
    then show ?thesis using g that by (simp add: grown_by_def)
  qed
  ultimately have "grown_by fs d i v ino' d'" using g d'(2,3) unfolding grown_by_def by simp
  with d'(1) bytes show ?thesis by blast
qed

lemma fs_step_inode_area:
  assumes g: "geometry fs tb" and step: "fs_step fs d i A ino' d'" and c: "c \<in> inode_area fs"
  shows "d' c = d c"
proof -
  have "A \<subseteq> data_room fs" using step by (simp add: fs_step_def)
  then have "c \<notin> bm_blocks (data_bitmap fs) \<union> A" using c regions(4,5) [OF g] by blast
  then show ?thesis using step by (simp add: fs_step_def)
qed

lemma map_upt_split:
  assumes "length c = n" and "m = max n (off + length buf)"
    and "\<And>j. j < m \<Longrightarrow> off \<le> j \<Longrightarrow> j < off + length buf \<Longrightarrow> f j = buf ! (j - off)"
    and "\<And>j. j < n \<Longrightarrow> \<not> (off \<le> j \<and> j < off + length buf) \<Longrightarrow> f j = c ! j"
  shows "map f [0..<m] = take off c @ map f [n..<off] @ buf @ drop (off + length buf) c"
proof -
  let ?e = "off + length buf"
  have "[0..<m] = [0..<off] @ [off..<?e] @ [?e..<m]"
    using assms(2) upt_add_eq_append [of 0 off "m - off"] upt_add_eq_append [of off ?e "m - ?e"] by simp
  moreover have "map f [0..<off] = take off c @ map f [n..<off]"
    using assms(1,4) by (intro nth_equalityI) (auto simp: nth_append min_def)
  moreover have "map f [off..<?e] = buf" using assms(2,3) by (intro nth_equalityI) auto
  moreover have "map f [?e..<m] = drop ?e c" using assms(1,2,4) by (intro nth_equalityI) auto
  ultimately show ?thesis by simp
qed

text \<open>Growing an inode to the end of the buffer and writing it, as \<^verbatim>\<open>write_at\<close> and \<^verbatim>\<open>create\<close> do.\<close>

lemma grow_write:
  assumes inv: "fs_inv fs tb d S" and i: "i \<in> S" and buf: "buf \<noteq> []"
    and max: "offset + length buf \<le> INDIRECT2_BOUND * BLOCK_SZ"
    and free: "missing (ino_at fs d i) (offset + length buf) \<le> free_blocks fs d"
  obtains ino' d1 d2 gap where
    "vfs_increase_size [in_block (inode_handle fs i)] fs d (offset + length buf) (ino_at fs d i) = Some (ino', d1)"
    and "write_at [in_block (inode_handle fs i)] d1 ino' offset buf = Some (length buf, d2)"
    and "d2 (in_block (inode_handle fs i)) = d (in_block (inode_handle fs i))"
    and "fs_inv fs tb (set_slot d2 (inode_handle fs i) ino') S"
    and "length gap = offset - length (content fs d i)"
    and "content fs (set_slot d2 (inode_handle fs i) ino') i =
      take offset (content fs d i) @ gap @ buf @ drop (offset + length buf) (content fs d i)"
    and "type_in (ino_at fs (set_slot d2 (inode_handle fs i) ino') i) = type_in (ino_at fs d i)"
    and "\<forall>j \<in> S - {i}. content fs (set_slot d2 (inode_handle fs i) ino') j = content fs d j"
proof -
  let ?h = "inode_handle fs i" and ?ino = "ino_at fs d i" and ?n = "offset + length buf"
  have g: "geometry fs tb" and im: "i < inode_max fs" using inv i by (auto simp: fs_inv_def)
  obtain ino' d1 v where r: "vfs_increase_size [in_block ?h] fs d ?n ?ino = Some (ino', d1)" and gr: "grown_by fs d i v ino' d1"
    and sz: "size_in ino' = max ?n (size_in ?ino)" and ty: "type_in ino' = type_in ?ino"
    and old: "\<forall>j < size_in ?ino. file_byte d1 ino' j = file_byte d ?ino j"
    using vfs_increase_size_spec [OF inv i max free] by blast
  obtain d2 where w: "write_at [in_block ?h] d1 ino' offset buf = Some (length buf, d2)" and gr2: "grown_by fs d i v ino' d2"
    and bytes: "\<forall>j < size_in ino'. file_byte d2 ino' j =
      (if offset \<le> j \<and> j < ?n then buf ! (j - offset) else file_byte d1 ino' j)"
    using grown_by_write [OF inv i gr buf, of offset] sz by auto
  note step = grown_by_step [OF inv i gr2]
  have st: "storable ino'" and ok: "inode_ok [] d2 ino'" and used: "set (alist d2 ino' (data_blocks ino')) \<subseteq> data_used fs d2"
    and wf: "wf_disk d2" using step by (auto simp: fs_step_def inode_ok_def)
  have c: "content fs (set_slot d2 ?h ino') i =
      take offset (content fs d i) @ map (file_byte d2 ino') [size_in ?ino..<offset] @ buf @ drop ?n (content fs d i)"
    unfolding stored_view(3) [OF g im st ok used] using sz bytes old by (intro map_upt_split) (auto simp: content_def)
  have "type_in (ino_at fs (set_slot d2 ?h ino') i) = type_in ?ino"
    using set_slot_props(1) [OF g im wf st] ty by simp
  moreover have "\<forall>j \<in> S - {i}. content fs (set_slot d2 ?h ino') j = content fs d j"
    using fs_step_other(3) [OF inv i step] by auto
  moreover have "length (map (file_byte d2 ino') [size_in ?ino..<offset]) = offset - length (content fs d i)"
    by (simp add: content_def)
  ultimately show thesis
    using that [OF r w fs_step_inode_area [OF g step handle_eq(3) [OF g im]] fs_step_inv(1) [OF inv i step] _ c] by blast
qed

lemma vfs_write_ok:
  assumes inv: "fs_inv fs tb d S" and i: "i \<in> S" and buf: "buf \<noteq> []"
    and max: "offset + length buf \<le> INDIRECT2_BOUND * BLOCK_SZ"
    and free: "missing (ino_at fs d i) (offset + length buf) \<le> free_blocks fs d"
  shows "\<exists>d' gap. vfs_write_at fs d (inode_handle fs i) offset buf = Some (length buf, d') \<and> fs_inv fs tb d' S \<and>
    length gap = offset - length (content fs d i) \<and>
    content fs d' i = take offset (content fs d i) @ gap @ buf @ drop (offset + length buf) (content fs d i) \<and>
    (\<forall>j \<in> S - {i}. content fs d' j = content fs d j)"
proof (rule grow_write [OF assms])
  fix ino' d1 d2 gap
  let ?h = "inode_handle fs i"
  assume r: "vfs_increase_size [in_block ?h] fs d (offset + length buf) (ino_at fs d i) = Some (ino', d1)"
    and w: "write_at [in_block ?h] d1 ino' offset buf = Some (length buf, d2)" and same: "d2 (in_block ?h) = d (in_block ?h)"
    and rest: "fs_inv fs tb (set_slot d2 ?h ino') S" "length gap = offset - length (content fs d i)"
    "content fs (set_slot d2 ?h ino') i = take offset (content fs d i) @ gap @ buf @ drop (offset + length buf) (content fs d i)"
    "\<forall>j \<in> S - {i}. content fs (set_slot d2 ?h ino') j = content fs d j"
  have g: "geometry fs tb" and im: "i < inode_max fs" using inv i by (auto simp: fs_inv_def)
  have "(offset + length buf) mod 2 ^ 32 = offset + length buf" using max by (simp add: layout_consts)
  then have "vfs_write_at fs d ?h offset buf = Some (length buf, set_slot d2 ?h ino')"
    unfolding vfs_write_at_def using r w same by (intro modify_disk_inode_eq [OF g im]) simp_all
  with rest show ?thesis by blast
qed

text \<open>
  C20 (functional).  Writing a file: with enough free data blocks the call writes the whole buffer, the
  content of the file becomes the old content with the buffer at the offset (a gap between the old
  end and the offset has the length it must have), every other file keeps its content, and the
  file-system invariant is kept.
\<close>

theorem vfs_write_spec:
  assumes inv: "fs_inv fs tb d S" and i: "i \<in> S" and buf: "buf \<noteq> []"
    and max: "offset + length buf \<le> INDIRECT2_BOUND * BLOCK_SZ"
    and free: "missing (ino_at fs d i) (offset + length buf) \<le> free_blocks fs d"
  shows "\<exists>d' gap. vfs_write_at fs d (inode_handle fs i) offset buf = Some (length buf, d') \<and> fs_inv fs tb d' S \<and>
    length gap = offset - length (content fs d i) \<and>
    content fs d' i = take offset (content fs d i) @ gap @ buf @ drop (offset + length buf) (content fs d i) \<and>
    (\<forall>j \<in> S - {i}. content fs d' j = content fs d j)"
  using assms by (rule vfs_write_ok)

text \<open>
  C24 (functional).  Reading a file, at a range that does not wrap, returns the part of its content that the
  range covers and leaves the rest of the buffer alone.
\<close>

theorem vfs_read_spec:
  assumes "fs_inv fs tb d S" and "i \<in> S" and "offset + length buf < 2 ^ 64"
  shows "vfs_read_at d (inode_handle fs i) offset buf =
    (let r = take (length buf) (drop offset (content fs d i)) in Some (length r, r @ drop (length r) buf))"
proof -
  let ?ino = "ino_at fs d i"
  have g: "geometry fs tb" using assms(1) by (simp add: fs_inv_def)
  note ino = fs_inv_inode [OF assms(1,2)]
  define n where "n = min (offset + length buf) (size_in ?ino) - offset"
  have "take (length buf) (drop offset (content fs d i)) = map (file_byte d ?ino) [offset..<offset + n]"
    by (rule nth_equalityI) (auto simp: content_def n_def)
  then show ?thesis
    unfolding vfs_read_at_def read_disk_inode_eq [OF g ino(1)] read_at_ok [OF ino(2) assms(3)] Let_def n_def by simp
qed

subsection \<open>Clearing a file\<close>

lemma dealloc_blocks_spec:
  assumes g: "geometry fs tb" and h: "\<forall>b \<in> bm_blocks (data_bitmap fs). b \<notin> set held"
  shows "wf_disk d \<Longrightarrow> set v \<subseteq> data_used fs d \<Longrightarrow> distinct v \<Longrightarrow> set v \<inter> set held = {} \<Longrightarrow>
    \<exists>d'. dealloc_blocks held fs d v = Some d' \<and> data_used fs d' = data_used fs d - set v \<and>
      (\<forall>c. c \<notin> set v \<union> bm_blocks (data_bitmap fs) \<longrightarrow> d' c = d c) \<and> wf_disk d'"
proof (induction v arbitrary: d)
  case Nil
  then show ?case by simp
next
  case (Cons b v)
  have b: "b \<in> data_used fs d" "b \<notin> set held" using Cons.prems by auto
  obtain d1 where d1: "dealloc_data held fs d b = Some d1" "data_used fs d1 = data_used fs d - {b}"
    "\<And>c. c \<notin> insert b (bm_blocks (data_bitmap fs)) \<Longrightarrow> d1 c = d c" "wf_disk d1"
    using dealloc_data_ok [OF g Cons.prems(1) h b] by metis
  have "\<exists>d'. dealloc_blocks held fs d1 v = Some d' \<and> data_used fs d' = data_used fs d1 - set v \<and>
      (\<forall>c. c \<notin> set v \<union> bm_blocks (data_bitmap fs) \<longrightarrow> d' c = d1 c) \<and> wf_disk d'"
    using Cons.prems d1(2,4) by (intro Cons.IH) auto
  then obtain d' where d': "dealloc_blocks held fs d1 v = Some d'" "data_used fs d' = data_used fs d1 - set v"
    "\<forall>c. c \<notin> set v \<union> bm_blocks (data_bitmap fs) \<longrightarrow> d' c = d1 c" "wf_disk d'" by blast
  moreover have "data_used fs d' = data_used fs d - set (b # v)" using d'(2) d1(2) by auto
  moreover have "\<forall>c. c \<notin> set (b # v) \<union> bm_blocks (data_bitmap fs) \<longrightarrow> d' c = d c" using d'(3) d1(3) by auto
  ultimately show ?case using d1(1) by auto
qed

text \<open>
  C23 (functional).  Clearing a file: it becomes empty, exactly its blocks (data and indirect) are
  given back to the data bitmap, no other file changes and the invariant is kept.
\<close>

theorem vfs_clear_spec:
  assumes inv: "fs_inv fs tb d S" and i: "i \<in> S"
  shows "\<exists>d'. vfs_clear fs d (inode_handle fs i) = Some d' \<and> fs_inv fs tb d' S \<and> content fs d' i = [] \<and>
    data_used fs d' = data_used fs d - set (blks fs d i) \<and> (\<forall>j \<in> S - {i}. content fs d' j = content fs d j)"
proof -
  let ?h = "inode_handle fs i" and ?ino = "ino_at fs d i"
  let ?b = "in_block ?h"
  have g: "geometry fs tb" and wf: "wf_disk d" using inv by (auto simp: fs_inv_def)
  note ino = fs_inv_inode [OF inv i]
  note reg = regions [OF g]
  note area = handle_eq(3) [OF g ino(1)]
  have h: "\<forall>b \<in> bm_blocks (data_bitmap fs). b \<notin> set [?b]" using area reg(4) by auto
  obtain ino' where c: "clear_size [?b] d ?ino = Some (blks fs d i, ino', d)" "size_in ino' = 0" "data_blocks ino' = 0"
    "inode_ok [?b] d ino'" "set (direct ino') \<subseteq> insert 0 (set (direct ?ino))" "indirect1 ino' \<in> {0, indirect1 ?ino}"
    "indirect2 ino' \<in> {0, indirect2 ?ino}"
    using clear_size_ok [OF ino(2)] by (auto simp: blks_def)
  have st: "storable ino'" using ino(4) c(2,4-7) by (auto simp: storable_def inode_u32_def inode_ok_def)
  have szs: "size_in ?ino \<le> INDIRECT2_BOUND * BLOCK_SZ" and dir: "length (direct ?ino) = INODE_DIRECT_COUNT"
    and dist: "distinct (blks fs d i)" and hold: "set (blks fs d i) \<inter> set [?b] = {}"
    using ino(2) by (auto simp: inode_ok_def blks_def)
  have "length (blks fs d i) = total_blocks (size_in ?ino)"
    using szs dir unfolding blks_def inode_ok_blocks(1) [OF ino(2)] by (simp add: total_blocks_alen length_alist_alen)
  moreover obtain d1 where d1: "dealloc_blocks [?b] fs d (blks fs d i) = Some d1" "data_used fs d1 = data_used fs d - set (blks fs d i)"
    "\<forall>c. c \<notin> set (blks fs d i) \<union> bm_blocks (data_bitmap fs) \<longrightarrow> d1 c = d c" "wf_disk d1"
    using dealloc_blocks_spec [OF g h wf ino(3) dist hold] by blast
  have empty: "alist d' ino' (data_blocks ino') = []" for d' using c(3) by (simp add: alist_def)
  have "inode_ok [] d1 ino'" using c(4) d1(4) empty by (simp add: inode_ok_def)
  then have step: "fs_step fs d i (set (blks fs d i)) ino' d1"
    unfolding fs_step_def using st empty d1 ino(3) data_used_room [of fs d] by auto
  have "d1 ?b = d ?b" using fs_step_inode_area [OF g step area] .
  ultimately have "vfs_clear fs d ?h = Some (set_slot d1 ?h ino')"
    unfolding vfs_clear_def using c(1) d1(1) by (subst modify_disk_inode_eq [OF g ino(1)]) (auto simp: Let_def)
  moreover have "content fs (set_slot d1 ?h ino') i = []"
    using step c(2) stored_view(3) [OF g ino(1) st] empty by (simp add: fs_step_def)
  moreover note fs_step_inv [OF inv i step] fs_step_other(3) [OF inv i step]
  ultimately show ?thesis using d1(2) by auto
qed

subsection \<open>Directories\<close>

definition dirents_of :: "u8 list \<Rightarrow> DirEntry list" where
  "dirents_of c = map (\<lambda>k. de_of_bytes (take DIRENT_SZ (drop (DIRENT_SZ * k) c))) [0..<length c div DIRENT_SZ]"

definition dirents :: "EasyFileSystem \<Rightarrow> disk \<Rightarrow> nat \<Rightarrow> DirEntry list" where
  "dirents fs d i = dirents_of (content fs d i)"

definition dir_ok :: "EasyFileSystem \<Rightarrow> disk \<Rightarrow> nat \<Rightarrow> bool" where
  "dir_ok fs d i \<longleftrightarrow> is_dir (ino_at fs d i) \<and> size_in (ino_at fs d i) mod DIRENT_SZ = 0 \<and>
     (\<forall>e \<in> set (dirents fs d i). de_name e \<noteq> None)"

lemma dirents_append:
  assumes "length c mod DIRENT_SZ = 0" and "length e = DIRENT_SZ"
  shows "dirents_of (c @ e) = dirents_of c @ [de_of_bytes e]"
proof -
  define n where "n = length c div DIRENT_SZ"
  have l: "length c = DIRENT_SZ * n" using assms(1) by (auto simp: n_def)
  have n': "length (c @ e) div DIRENT_SZ = Suc n" using l assms(2) by (simp add: DIRENT_SZ_def)
  have old: "take DIRENT_SZ (drop (DIRENT_SZ * k) (c @ e)) = take DIRENT_SZ (drop (DIRENT_SZ * k) c)" if "k < n" for k
  proof -
    have "DIRENT_SZ * Suc k \<le> DIRENT_SZ * n" using that by (intro mult_le_mono2) simp
    then show ?thesis using l by simp
  qed
  have new: "take DIRENT_SZ (drop (DIRENT_SZ * n) (c @ e)) = e" using l assms(2) by simp
  have "map (\<lambda>k. de_of_bytes (take DIRENT_SZ (drop (DIRENT_SZ * k) (c @ e)))) [0..<n] =
      map (\<lambda>k. de_of_bytes (take DIRENT_SZ (drop (DIRENT_SZ * k) c))) [0..<n]"
    by (rule map_cong) (simp_all only: refl old set_upt atLeastLessThan_iff)
  then show ?thesis unfolding dirents_of_def n' n_def [symmetric] upt_Suc_append [OF le0] map_append list.map new by simp
qed

lemma dirent_read:
  assumes ok: "inode_ok held d ino" and k: "k < size_in ino div DIRENT_SZ" and b: "length buf = DIRENT_SZ"
  shows "read_at held d ino (DIRENT_SZ * k) buf = Some (DIRENT_SZ, map (file_byte d ino) [DIRENT_SZ * k..<DIRENT_SZ * k + DIRENT_SZ])"
proof -
  have "DIRENT_SZ * Suc k \<le> DIRENT_SZ * (size_in ino div DIRENT_SZ)" using k by (intro mult_le_mono2) simp
  also have "\<dots> \<le> size_in ino" by simp
  finally have le: "DIRENT_SZ * k + DIRENT_SZ \<le> size_in ino" by simp
  moreover have "size_in ino < 2 ^ 32" using ok by (simp add: inode_ok_def layout_consts)
  ultimately show ?thesis using read_at_ok [OF ok, of "DIRENT_SZ * k" buf] b by (simp add: Let_def min_def)
qed

definition entry :: "disk \<Rightarrow> DiskInode \<Rightarrow> nat \<Rightarrow> DirEntry" where
  "entry d ino k = de_of_bytes (map (file_byte d ino) [DIRENT_SZ * k..<DIRENT_SZ * k + DIRENT_SZ])"

lemma dirents_entries: "dirents fs d i = map (entry d (ino_at fs d i)) [0..<size_in (ino_at fs d i) div DIRENT_SZ]"
proof -
  let ?ino = "ino_at fs d i"
  have "take DIRENT_SZ (drop (DIRENT_SZ * k) (content fs d i)) = map (file_byte d ?ino) [DIRENT_SZ * k..<DIRENT_SZ * k + DIRENT_SZ]"
    if "k < size_in ?ino div DIRENT_SZ" for k
  proof -
    have "DIRENT_SZ * Suc k \<le> DIRENT_SZ * (size_in ?ino div DIRENT_SZ)" using that by (intro mult_le_mono2) simp
    also have "\<dots> \<le> size_in ?ino" by simp
    finally have "DIRENT_SZ * k + DIRENT_SZ \<le> size_in ?ino" by simp
    then show ?thesis by (intro nth_equalityI) (auto simp: content_def)
  qed
  then show ?thesis by (simp add: dirents_def dirents_of_def entry_def content_def)
qed

lemma find_loop_spec:
  assumes ok: "inode_ok held d ino"
  shows "\<forall>k \<in> set ks. k < size_in ino div DIRENT_SZ \<and> de_name (entry d ino k) \<noteq> None \<Longrightarrow> length buf = DIRENT_SZ \<Longrightarrow>
    find_loop held d nm ino buf ks = Some (map_option inode_number (find (\<lambda>e. de_name e = Some nm) (map (entry d ino) ks)))"
proof (induction ks arbitrary: buf)
  case Nil
  then show ?case by simp
next
  case (Cons k ks)
  let ?b = "map (file_byte d ino) [DIRENT_SZ * k..<DIRENT_SZ * k + DIRENT_SZ]"
  have "k < size_in ino div DIRENT_SZ" using Cons.prems(1) by simp
  note rd = dirent_read [OF ok this Cons.prems(2)]
  have e: "entry d ino k = de_of_bytes ?b" by (simp add: entry_def)
  obtain m where m: "de_name (entry d ino k) = Some m" using Cons.prems(1) by auto
  have "find_loop held d nm ino ?b ks = Some (map_option inode_number (find (\<lambda>e. de_name e = Some nm) (map (entry d ino) ks)))"
    using Cons.prems(1) by (intro Cons.IH) auto
  then show ?case using rd m by (simp add: e [symmetric])
qed

lemma find_inode_id_spec:
  assumes inv: "fs_inv fs tb d S" and i: "i \<in> S" and dir: "dir_ok fs d i"
  shows "find_inode_id [in_block (inode_handle fs i)] d nm (ino_at fs d i) =
    Some (map_option inode_number (find (\<lambda>e. de_name e = Some nm) (dirents fs d i)))"
proof -
  note ok = fs_inv_inode(2) [OF inv i]
  have l: "length (de_as_bytes de_empty) = DIRENT_SZ"
    by (simp add: de_as_bytes_def de_empty_def NAME_LENGTH_LIMIT_def DIRENT_SZ_def)
  have "\<forall>k \<in> set [0..<size_in (ino_at fs d i) div DIRENT_SZ].
      k < size_in (ino_at fs d i) div DIRENT_SZ \<and> de_name (entry d (ino_at fs d i) k) \<noteq> None"
    using dir unfolding dir_ok_def dirents_entries by auto
  from find_loop_spec [OF ok this l] dir show ?thesis
    by (simp add: find_inode_id_def dir_ok_def dirents_entries)
qed

lemma vfs_find_ok:
  assumes "fs_inv fs tb d S" and "i \<in> S" and "dir_ok fs d i"
  shows "vfs_find fs d (inode_handle fs i) nm =
    Some (map_option (\<lambda>e. inode_handle fs (inode_number e)) (find (\<lambda>e. de_name e = Some nm) (dirents fs d i)))"
proof -
  have g: "geometry fs tb" using assms(1) by (simp add: fs_inv_def)
  show ?thesis
    unfolding vfs_find_def read_disk_inode_eq [OF g fs_inv_inode(1) [OF assms(1,2)]] find_inode_id_spec [OF assms]
    by (simp add: option.map_comp comp_def)
qed

text \<open>
  C25 (functional).  Looking a name up in a well-formed directory returns the handle of the first entry
  with that name, and \<^verbatim>\<open>None\<close> when there is no such entry.
\<close>

theorem vfs_find_spec:
  assumes "fs_inv fs tb d S" and "i \<in> S" and "dir_ok fs d i"
  shows "vfs_find fs d (inode_handle fs i) nm =
    Some (map_option (\<lambda>e. inode_handle fs (inode_number e)) (find (\<lambda>e. de_name e = Some nm) (dirents fs d i)))"
  using assms by (rule vfs_find_ok)

lemma ls_loop_spec:
  assumes ok: "inode_ok held d ino"
  shows "\<forall>k \<in> set ks. k < size_in ino div DIRENT_SZ \<and> de_name (entry d ino k) \<noteq> None \<Longrightarrow>
    ls_loop held d ino ks = Some (map (\<lambda>k. the (de_name (entry d ino k))) ks)"
proof (induction ks)
  case Nil
  then show ?case by simp
next
  case (Cons k ks)
  have k: "k < size_in ino div DIRENT_SZ" using Cons.prems by simp
  have l: "length (de_as_bytes de_empty) = DIRENT_SZ"
    by (simp add: de_as_bytes_def de_empty_def NAME_LENGTH_LIMIT_def DIRENT_SZ_def)
  note rd = dirent_read [OF ok k l]
  have e: "entry d ino k = de_of_bytes (map (file_byte d ino) [DIRENT_SZ * k..<DIRENT_SZ * k + DIRENT_SZ])" by (simp add: entry_def)
  obtain m where m: "de_name (entry d ino k) = Some m" using Cons.prems by auto
  have "ls_loop held d ino ks = Some (map (\<lambda>k. the (de_name (entry d ino k))) ks)" using Cons.prems by (intro Cons.IH) auto
  then show ?case using rd m by (simp add: e [symmetric] mult.commute [of k])
qed

text \<open>
  C26 (functional).  Listing a well-formed directory returns the names of its entries, in order.
\<close>

theorem vfs_ls_spec:
  assumes inv: "fs_inv fs tb d S" and i: "i \<in> S" and dir: "dir_ok fs d i"
  shows "vfs_ls d (inode_handle fs i) = Some (map (\<lambda>e. the (de_name e)) (dirents fs d i))"
proof -
  have g: "geometry fs tb" using inv by (simp add: fs_inv_def)
  let ?ino = "ino_at fs d i"
  have "\<forall>k \<in> set [0..<size_in ?ino div DIRENT_SZ]. k < size_in ?ino div DIRENT_SZ \<and> de_name (entry d ?ino k) \<noteq> None"
    using dir unfolding dir_ok_def dirents_entries by auto
  from ls_loop_spec [OF fs_inv_inode(2) [OF inv i] this] show ?thesis
    unfolding vfs_ls_def read_disk_inode_eq [OF g fs_inv_inode(1) [OF inv i]] dirents_entries by (simp add: comp_def)
qed

subsection \<open>Creating a file\<close>

text \<open>Storing an inode back unchanged, and allocating and initialising a new one.\<close>

lemma slot_rewritten:
  assumes inv: "fs_inv fs tb d S" and i: "i \<in> S"
  defines "d' \<equiv> set_slot d (inode_handle fs i) (ino_at fs d i)"
  shows "fs_inv fs tb d' S" and "data_used fs d' = data_used fs d"
    and "j \<in> S \<Longrightarrow> ino_at fs d' j = ino_at fs d j" and "j \<in> S \<Longrightarrow> content fs d' j = content fs d j"
    and "k < inode_max fs \<Longrightarrow> bm_bit d' (inode_bitmap fs) k = bm_bit d (inode_bitmap fs) k"
proof -
  have g: "geometry fs tb" and wf: "wf_disk d" using inv by (auto simp: fs_inv_def)
  note ino = fs_inv_inode [OF inv i]
  have "grown_by fs d i [] (ino_at fs d i) d" using ino by (simp add: grown_by_def blks_def)
  note step = grown_by_step [OF inv i this]
  show "fs_inv fs tb d' S" "data_used fs d' = data_used fs d" using fs_step_inv [OF inv i step] by (simp_all add: d'_def)
  note sp = set_slot_props [OF g ino(1) wf ino(4), folded d'_def]
  show "ino_at fs d' j = ino_at fs d j" if "j \<in> S" using sp(1) fs_step_other(1) [OF inv i step that] by (cases "j = i") (auto simp: d'_def)
  have "content fs d' i = content fs d i"
    using stored_view(3) [OF g ino(1,4) inode_ok_unheld [OF ino(2)]] ino(3) by (simp add: content_def blks_def d'_def)
  then show "content fs d' j = content fs d j" if "j \<in> S"
    using fs_step_other(3) [OF inv i step that] by (cases "j = i") (auto simp: d'_def)
  show "bm_bit d' (inode_bitmap fs) k = bm_bit d (inode_bitmap fs) k" if "k < inode_max fs"
    using that regions(1) [OF g] by (intro bm_bit_other sp(4)) auto
qed

lemma alloc_inode_spec:
  assumes wf: "wf_disk d" and free: "\<exists>k < inode_max fs. \<not> bm_bit d (inode_bitmap fs) k" and max: "inode_max fs \<le> 2 ^ 32"
  shows "\<exists>k d'. alloc_inode [] fs d = Some (k, d') \<and> k < inode_max fs \<and> \<not> bm_bit d (inode_bitmap fs) k \<and>
    (\<forall>j < inode_max fs. bm_bit d' (inode_bitmap fs) j = (j = k \<or> bm_bit d (inode_bitmap fs) j)) \<and>
    (\<forall>b. b \<notin> bm_blocks (inode_bitmap fs) \<longrightarrow> d' b = d b) \<and> wf_disk d'"
proof -
  let ?bm = "inode_bitmap fs"
  obtain r d' where r: "bm_alloc [] d ?bm = Some (r, d')" "bm_alloc_ok d ?bm r d'"
    using bm_alloc_loop_spec [OF wf, of ?bm "[]" 0] unfolding bm_alloc_def by auto
  then obtain k where k: "r = Some k" using free by (cases r) (auto simp: bm_alloc_ok_def)
  then have "k < inode_max fs" using r(2) by (simp add: bm_alloc_ok_def)
  then have "k mod 2 ^ 32 = k" using max by simp
  then show ?thesis using r k by (simp add: alloc_inode_def bm_alloc_ok_def)
qed

lemma new_inode:
  assumes inv: "fs_inv fs tb d S" and k: "k < inode_max fs" "\<not> bm_bit d (inode_bitmap fs) k"
    and bits: "\<forall>j < inode_max fs. bm_bit d1 (inode_bitmap fs) j = (j = k \<or> bm_bit d (inode_bitmap fs) j)"
    and fr: "\<forall>b. b \<notin> bm_blocks (inode_bitmap fs) \<longrightarrow> d1 b = d b" and wf: "wf_disk d1"
  defines "ino0 \<equiv> inode_initialize (ino_at fs d1 k) File"
  defines "d' \<equiv> set_slot d1 (inode_handle fs k) ino0"
  shows "fs_inv fs tb d' (insert k S)" and "k \<notin> S" and "ino_at fs d' k = ino0" and "content fs d' k = []"
    and "data_used fs d' = data_used fs d"
    and "j \<in> S \<Longrightarrow> ino_at fs d' j = ino_at fs d j" and "j \<in> S \<Longrightarrow> content fs d' j = content fs d j"
proof -
  have g: "geometry fs tb" using inv by (simp add: fs_inv_def)
  note reg = regions [OF g]
  show kS: "k \<notin> S" using inv k(2) by (auto simp: fs_inv_def)
  have st: "storable ino0" using slot_storable [OF g k(1) wf]
    by (auto simp: ino0_def storable_def inode_u32_def inode_initialize_def)
  note sp = set_slot_props [OF g k(1) wf st, folded d'_def]
  show ik: "ino_at fs d' k = ino0" by (rule sp(1))
  have sz: "size_in ino0 = 0" by (simp add: ino0_def inode_initialize_def)
  then show "content fs d' k = []" using ik by (simp add: content_def)
  have same: "d' b = d b" if "b \<in> data_room fs \<union> bm_blocks (data_bitmap fs)" for b
  proof -
    have "b \<notin> inode_area fs" "b \<notin> bm_blocks (inode_bitmap fs)" using that reg by auto
    then show ?thesis using sp(4) fr by simp
  qed
  show du: "data_used fs d' = data_used fs d" using same by (intro data_used_cong) simp
  have bit: "bm_bit d' (inode_bitmap fs) j = bm_bit d1 (inode_bitmap fs) j" if "j < inode_max fs" for j
    using that reg(1) by (intro bm_bit_other sp(4)) auto
  have empty: "blks fs d' k = []" using ik sz by (simp add: blks_def data_blocks_def data_blocks_for_def alist_def sub32_def add32_def layout_consts)
  have old: "ino_at fs d' j = ino_at fs d j \<and> content fs d' j = content fs d j \<and> blks fs d' j = blks fs d j \<and> inode_ok [] d' (ino_at fs d' j)"
    if j: "j \<in> S" for j
  proof -
    have jm: "j < inode_max fs" and okj: "inode_ok [] d (ino_at fs d j)" and jb: "set (blks fs d j) \<subseteq> data_used fs d"
      using inv j by (auto simp: fs_inv_def)
    have "d1 (in_block (inode_handle fs j)) = d (in_block (inode_handle fs j))" using handle_eq(3) [OF g jm] reg(1) fr by blast
    then have ij: "ino_at fs d' j = ino_at fs d j" using sp(3) [OF jm] j kS slot_cong by metis
    have "d' b = d b" if "b \<in> set (alist d (ino_at fs d j) (data_blocks (ino_at fs d j)))" for b
      using that jb data_used_room [of fs d] by (intro same) (auto simp: blks_def)
    from inode_view_cong [OF okj this sp(2)] ij show ?thesis by (simp add: content_def blks_def)
  qed
  then show "j \<in> S \<Longrightarrow> ino_at fs d' j = ino_at fs d j" "j \<in> S \<Longrightarrow> content fs d' j = content fs d j" by blast+
  have k_ok: "inode_ok [] d' ino0"
    using empty sp(2) st sz ik by (simp add: inode_ok_def blks_def storable_def)
  show "fs_inv fs tb d' (insert k S)"
    unfolding fs_inv_def
  proof (intro conjI ballI impI)
    fix i assume i: "i \<in> insert k S"
    show im: "i < inode_max fs" using i k(1) inv by (auto simp: fs_inv_def)
    show "bm_bit d' (inode_bitmap fs) i" using bit [OF im] bits im i inv by (auto simp: fs_inv_def)
    show "inode_ok [] d' (ino_at fs d' i)" using i old k_ok ik by auto
    have "set (blks fs d i) \<subseteq> data_used fs d" if "i \<in> S" using fs_inv_inode(3) [OF inv that] .
    then show "set (blks fs d' i) \<subseteq> data_used fs d'" using i old [of i] empty du by auto
    fix j assume j: "j \<in> insert k S" "i \<noteq> j"
    have "set (blks fs d i) \<inter> set (blks fs d j) = {}" if "i \<in> S" "j \<in> S" using inv that j by (auto simp: fs_inv_def)
    then show "set (blks fs d' i) \<inter> set (blks fs d' j) = {}" using i j old [of i] old [of j] empty by auto
  qed (use g sp(2) in auto)
qed

lemma create_probe:
  assumes inv: "fs_inv fs tb d S" and r: "r \<in> S" and dir: "dir_ok fs d r"
  shows "modify_disk_inode d (inode_handle fs r) (\<lambda>held d root.
      do { rassert (is_dir root); x \<leftarrow> find_inode_id held d nm root; Some (x, d, root) }) =
    Some (map_option inode_number (find (\<lambda>e. de_name e = Some nm) (dirents fs d r)), set_slot d (inode_handle fs r) (ino_at fs d r))"
proof (rule modify_disk_inode_eq)
  show "geometry fs tb" "r < inode_max fs" using inv r by (auto simp: fs_inv_def)
  show "do { rassert (is_dir (ino_at fs d r)); x \<leftarrow> find_inode_id [in_block (inode_handle fs r)] d nm (ino_at fs d r);
        Some (x, d, ino_at fs d r) } =
    Some (map_option inode_number (find (\<lambda>e. de_name e = Some nm) (dirents fs d r)), d, ino_at fs d r)"
    using dir find_inode_id_spec [OF inv r dir] by (simp add: dir_ok_def)
qed simp

lemma append_dirent:
  assumes inv: "fs_inv fs tb d S" and r: "r \<in> S" and dir: "dir_ok fs d r"
    and nm: "length nm \<le> NAME_LENGTH_LIMIT" "0 \<notin> set nm" "utf8_ok nm" and k: "k < 2 ^ 32"
    and max: "size_in (ino_at fs d r) + DIRENT_SZ \<le> INDIRECT2_BOUND * BLOCK_SZ"
    and free: "missing (ino_at fs d r) (size_in (ino_at fs d r) + DIRENT_SZ) \<le> free_blocks fs d"
  shows "\<exists>d' e. modify_disk_inode d (inode_handle fs r) (\<lambda>held d root.
      do { let file_count = size_in root div DIRENT_SZ;
           let new_size = (file_count + 1) * DIRENT_SZ;
           (root, d) \<leftarrow> vfs_increase_size held fs d (new_size mod 2 ^ 32) root;
           dirent \<leftarrow> de_new nm k;
           (_, d) \<leftarrow> write_at held d root (file_count * DIRENT_SZ) (de_as_bytes dirent);
           Some ((), d, root) }) = Some ((), d') \<and>
    fs_inv fs tb d' S \<and> dirents fs d' r = dirents fs d r @ [e] \<and> de_name e = Some nm \<and> inode_number e = k \<and>
    dir_ok fs d' r \<and> (\<forall>j \<in> S - {r}. content fs d' j = content fs d j)"
proof -
  let ?h = "inode_handle fs r" and ?ino = "ino_at fs d r"
  let ?sz = "size_in ?ino"
  have g: "geometry fs tb" and rm: "r < inode_max fs" using inv r by (auto simp: fs_inv_def)
  obtain e where e: "de_new nm k = Some e" "length (de_as_bytes e) = DIRENT_SZ" "de_of_bytes (de_as_bytes e) = e"
    "de_name e = Some nm" "inode_number e = k" using de_new_ok [OF nm k] by blast
  have sz: "?sz div DIRENT_SZ * DIRENT_SZ = ?sz" "?sz mod DIRENT_SZ = 0" using dir by (auto simp: dir_ok_def)
  have ne: "de_as_bytes e \<noteq> []" using e(2) by (auto simp: DIRENT_SZ_def)
  have l: "length (content fs d r) = ?sz" by (simp add: content_def)
  have n: "(?sz div DIRENT_SZ + 1) * DIRENT_SZ mod 2 ^ 32 = ?sz + DIRENT_SZ" using sz(1) max by (simp add: layout_consts)
  show ?thesis
  proof (rule grow_write [OF inv r ne, of ?sz])
    show "?sz + length (de_as_bytes e) \<le> INDIRECT2_BOUND * BLOCK_SZ" "missing ?ino (?sz + length (de_as_bytes e)) \<le> free_blocks fs d"
      using max free e(2) by simp_all
    fix ino' d1 d2 gap
    assume w: "vfs_increase_size [in_block ?h] fs d (?sz + length (de_as_bytes e)) ?ino = Some (ino', d1)"
        "write_at [in_block ?h] d1 ino' ?sz (de_as_bytes e) = Some (length (de_as_bytes e), d2)"
      and same: "d2 (in_block ?h) = d (in_block ?h)" and inv': "fs_inv fs tb (set_slot d2 ?h ino') S"
      and gap: "length gap = ?sz - length (content fs d r)"
      and c: "content fs (set_slot d2 ?h ino') r = take ?sz (content fs d r) @ gap @ de_as_bytes e @
        drop (?sz + length (de_as_bytes e)) (content fs d r)"
      and ty: "type_in (ino_at fs (set_slot d2 ?h ino') r) = type_in ?ino"
      and oth: "\<forall>j \<in> S - {r}. content fs (set_slot d2 ?h ino') j = content fs d j"
    let ?d = "set_slot d2 ?h ino'"
    have c': "content fs ?d r = content fs d r @ de_as_bytes e" using c gap l by simp
    then have sz': "size_in (ino_at fs ?d r) = ?sz + DIRENT_SZ" using l e(2) unfolding content_def by (metis diff_zero length_append length_map length_upt)
    have de: "dirents fs ?d r = dirents fs d r @ [e]"
      using dirents_append [of "content fs d r" "de_as_bytes e"] l sz(2) e(2,3) c' by (simp add: dirents_def)
    moreover have "dir_ok fs ?d r" using dir ty sz' de e(4) by (auto simp: dir_ok_def is_dir_def)
    ultimately show ?thesis
      by (intro exI [of _ ?d] exI [of _ e] conjI inv' oth e modify_disk_inode_eq [OF g rm])
        (use w same e n sz in \<open>simp_all add: Let_def\<close>)
  qed
qed

lemma vfs_create_ok:
  assumes inv: "fs_inv fs tb d S" and r: "r \<in> S" and dir: "dir_ok fs d r"
    and nm: "length nm \<le> NAME_LENGTH_LIMIT" "0 \<notin> set nm" "utf8_ok nm"
    and ino: "\<exists>k < inode_max fs. \<not> bm_bit d (inode_bitmap fs) k" "inode_max fs \<le> 2 ^ 32"
    and max: "size_in (ino_at fs d r) + DIRENT_SZ \<le> INDIRECT2_BOUND * BLOCK_SZ"
    and free: "missing (ino_at fs d r) (size_in (ino_at fs d r) + DIRENT_SZ) \<le> free_blocks fs d"
  shows "if find (\<lambda>e. de_name e = Some nm) (dirents fs d r) = None
    then \<exists>k d' e. vfs_create fs d (inode_handle fs r) nm = Some (Some (inode_handle fs k), d') \<and> k \<notin> S \<and>
      fs_inv fs tb d' (insert k S) \<and> content fs d' k = [] \<and> dirents fs d' r = dirents fs d r @ [e] \<and> dir_ok fs d' r \<and>
      de_name e = Some nm \<and> inode_number e = k \<and> (\<forall>j \<in> S - {r}. content fs d' j = content fs d j) \<and>
      vfs_find fs d' (inode_handle fs r) nm = Some (Some (inode_handle fs k))
    else \<exists>d'. vfs_create fs d (inode_handle fs r) nm = Some (None, d') \<and> fs_inv fs tb d' S \<and>
      (\<forall>j \<in> S. content fs d' j = content fs d j)"
proof -
  let ?h = "inode_handle fs r" and ?found = "find (\<lambda>e. de_name e = Some nm) (dirents fs d r)"
  define d0 where "d0 = set_slot d ?h (ino_at fs d r)"
  have g: "geometry fs tb" using inv by (simp add: fs_inv_def)
  note pr = create_probe [OF inv r dir, of nm, folded d0_def]
  note rw = slot_rewritten [OF inv r, folded d0_def]
  show ?thesis
  proof (cases "?found = None")
    case False
    then have "vfs_create fs d ?h nm = Some (None, d0)" by (auto simp: vfs_create_def pr)
    then show ?thesis using False rw(1,4) by auto
  next
    case True
    have wf0: "wf_disk d0" using rw(1) by (simp add: fs_inv_def)
    have "\<exists>k < inode_max fs. \<not> bm_bit d0 (inode_bitmap fs) k" using ino(1) rw(5) by blast
    from alloc_inode_spec [OF wf0 this ino(2)] obtain k d1 where al: "alloc_inode [] fs d0 = Some (k, d1)"
      and k: "k < inode_max fs" "\<not> bm_bit d0 (inode_bitmap fs) k"
      and d1: "\<forall>j < inode_max fs. bm_bit d1 (inode_bitmap fs) j = (j = k \<or> bm_bit d0 (inode_bitmap fs) j)"
        "\<forall>b. b \<notin> bm_blocks (inode_bitmap fs) \<longrightarrow> d1 b = d0 b" "wf_disk d1" by blast
    let ?k = "inode_handle fs k"
    define d2 where "d2 = set_slot d1 ?k (inode_initialize (ino_at fs d1 k) File)"
    note nw = new_inode [OF rw(1) k d1, folded d2_def]
    have init: "blk_modify [] d1 (in_block ?k) (in_offset ?k) INODE_SIZE
        (\<lambda>t. Some ((), inode_store t (inode_initialize (inode_of t) File))) = Some ((), d2)"
      using handle_eq(4) [OF g k(1)] by (simp add: blk_modify_def with_block_def d2_def set_slot_def slot_def INODE_SIZE_def)
    have r2: "ino_at fs d2 r = ino_at fs d r" "content fs d2 r = content fs d r" using nw(6,7) [OF r] rw(3,4) [OF r] by simp_all
    have dir2: "dir_ok fs d2 r" using dir r2 by (simp add: dir_ok_def dirents_def)
    have free2: "free_blocks fs d2 = free_blocks fs d" using nw(5) rw(2) by (simp add: free_blocks_def)
    have "k < 2 ^ 32" using k(1) ino(2) by linarith
    from append_dirent [OF nw(1) insertI2 [OF r] dir2 nm this, unfolded r2 free2, OF max free]
    obtain d' e where ap: "modify_disk_inode d2 ?h (\<lambda>held d root.
        do { let file_count = size_in root div DIRENT_SZ;
             let new_size = (file_count + 1) * DIRENT_SZ;
             (root, d) \<leftarrow> vfs_increase_size held fs d (new_size mod 2 ^ 32) root;
             dirent \<leftarrow> de_new nm k;
             (_, d) \<leftarrow> write_at held d root (file_count * DIRENT_SZ) (de_as_bytes dirent);
             Some ((), d, root) }) = Some ((), d')"
      and inv': "fs_inv fs tb d' (insert k S)" and de: "dirents fs d' r = dirents fs d2 r @ [e]"
      and e: "de_name e = Some nm" "inode_number e = k" and dir': "dir_ok fs d' r"
      and oth: "\<forall>j \<in> insert k S - {r}. content fs d' j = content fs d2 j" by blast
    have "vfs_create fs d ?h nm = Some (Some ?k, d')"
      unfolding vfs_create_def pr using True al init ap by (simp add: Let_def)
    moreover have de': "dirents fs d' r = dirents fs d r @ [e]" using de r2(2) by (simp add: dirents_def)
    moreover have kr: "k \<noteq> r" using nw(2) r by blast
    have "content fs d' k = content fs d2 k" using oth kr by blast
    then have "content fs d' k = []" using nw(4) by simp
    moreover have "content fs d' j = content fs d j" if "j \<in> S - {r}" for j
    proof -
      have j: "j \<in> S" "content fs d' j = content fs d2 j" using oth that by blast+
      then show ?thesis using nw(7) [OF j(1)] rw(4) [OF j(1)] by simp
    qed
    moreover have "find (\<lambda>e. de_name e = Some nm) (dirents fs d' r) = Some e"
    proof -
      have "find P (xs @ [y]) = (if find P xs = None then (if P y then Some y else None) else find P xs)" for P xs and y :: DirEntry
        by (induction xs) auto
      then show ?thesis using True e(1) de' by simp
    qed
    then have "vfs_find fs d' ?h nm = Some (Some ?k)" using vfs_find_ok [OF inv' insertI2 [OF r] dir', of nm] e(2) by simp
    ultimately show ?thesis using True nw(2) inv' dir' e by auto
  qed
qed

text \<open>
  C19 (functional).  Creating a file in a well-formed directory: with a legal name that is not there yet,
  a free inode and room for the entry, the call takes an inode that is not in use, which becomes an
  empty file, and appends an entry that names it.  All other files are unchanged and the invariant
  holds with the new inode; a lookup of the name then finds it.  When the name exists already the
  call returns \<^verbatim>\<open>None\<close> and no content changes.
\<close>

theorem vfs_create_spec:
  assumes inv: "fs_inv fs tb d S" and r: "r \<in> S" and dir: "dir_ok fs d r"
    and nm: "length nm \<le> NAME_LENGTH_LIMIT" "0 \<notin> set nm" "utf8_ok nm"
    and ino: "\<exists>k < inode_max fs. \<not> bm_bit d (inode_bitmap fs) k" "inode_max fs \<le> 2 ^ 32"
    and max: "size_in (ino_at fs d r) + DIRENT_SZ \<le> INDIRECT2_BOUND * BLOCK_SZ"
    and free: "missing (ino_at fs d r) (size_in (ino_at fs d r) + DIRENT_SZ) \<le> free_blocks fs d"
  shows "if find (\<lambda>e. de_name e = Some nm) (dirents fs d r) = None
    then \<exists>k d' e. vfs_create fs d (inode_handle fs r) nm = Some (Some (inode_handle fs k), d') \<and> k \<notin> S \<and>
      fs_inv fs tb d' (insert k S) \<and> content fs d' k = [] \<and> dirents fs d' r = dirents fs d r @ [e] \<and> dir_ok fs d' r \<and>
      de_name e = Some nm \<and> inode_number e = k \<and> (\<forall>j \<in> S - {r}. content fs d' j = content fs d j) \<and>
      vfs_find fs d' (inode_handle fs r) nm = Some (Some (inode_handle fs k))
    else \<exists>d'. vfs_create fs d (inode_handle fs r) nm = Some (None, d') \<and> fs_inv fs tb d' S \<and>
      (\<forall>j \<in> S. content fs d' j = content fs d j)"
  using assms by (rule vfs_create_ok)

subsection \<open>Examples\<close>

lemma fresh_inv:
  assumes fresh: "efs_fresh d tb ibb fs d'" and ibb: "0 < ibb"
  shows "fs_inv fs tb d' {0}" and "content fs d' 0 = []" and "dir_ok fs d' 0" and "free_blocks fs d' = bm_maximum (data_bitmap fs)"
    and "size_in (ino_at fs d' 0) = 0"
proof -
  have g: "geometry fs tb" and wf: "wf_disk d'" and ib: "blocks (inode_bitmap fs) = ibb" using fresh by (auto simp: efs_fresh_def)
  have m: "0 < inode_max fs" using ib ibb by (simp add: bm_maximum_def BLOCK_BITS_4096)
  let ?r = "\<lparr>size_in = 0, direct = replicate 28 0, indirect1 = 0, indirect2 = 0, type_in = Directory\<rparr>"
  have ino: "ino_at fs d' 0 = ?r" using fresh handle_eq(1,2) [OF g m] by (simp add: slot_def efs_fresh_def INODE_SIZE_def)
  have z: "data_blocks ?r = 0" by (simp add: data_blocks_def data_blocks_for_def sub32_def add32_def layout_consts)
  then have al: "blks fs d' 0 = []" by (simp add: blks_def ino alist_def)
  have "inode_ok [] d' ?r" using wf z by (simp add: inode_ok_def alist_def layout_consts)
  moreover have "bm_bit d' (inode_bitmap fs) 0" using fresh m by (simp add: efs_fresh_def)
  ultimately show "fs_inv fs tb d' {0}" using g wf m al ino by (simp add: fs_inv_def)
  show "content fs d' 0 = []" by (simp add: content_def ino)
  then show "dir_ok fs d' 0" by (simp add: dir_ok_def ino is_dir_def dirents_def dirents_of_def)
  have "data_used fs d' = {}" using fresh by (auto simp: data_used_def efs_fresh_def)
  then show "free_blocks fs d' = bm_maximum (data_bitmap fs)" by (simp add: free_blocks_def data_room_def)
  show "size_in (ino_at fs d' 0) = 0" by (simp add: ino)
qed

abbreviation example_fs :: EasyFileSystem where
  "example_fs \<equiv> efs_sizes 4096 1"

lemma example_fresh:
  "\<exists>d d0. efs_fresh d0 4096 1 example_fs d \<and> inode_max example_fs = 4096 \<and> bm_maximum (data_bitmap example_fs) = 4096"
proof -
  have "wf_disk (\<lambda>_. replicate 512 0)" by (simp add: wf_disk_def BLOCK_SZ_def)
  from efs_create_ok [OF this, of 1 4096] show ?thesis
    by (auto simp: efs_sizes_def bm_maximum_def BLOCK_BITS_4096 bm_new_def)
qed

lemma example_missing: "size_in ino = 0 \<Longrightarrow> n \<in> {3, 32} \<Longrightarrow> missing ino n \<le> 1"
  by (auto simp: missing_def total_blocks_def data_blocks_for_def add32_def sub32_def layout_consts Let_def)

lemma example_ready:
  obtains d where "fs_inv example_fs 4096 d {0}" and "content example_fs d 0 = []" and "dir_ok example_fs d 0"
    and "size_in (ino_at example_fs d 0) = 0" and "\<exists>k < inode_max example_fs. \<not> bm_bit d (inode_bitmap example_fs) k"
    and "inode_max example_fs \<le> 2 ^ 32" and "missing (ino_at example_fs d 0) 3 \<le> free_blocks example_fs d"
    and "missing (ino_at example_fs d 0) DIRENT_SZ \<le> free_blocks example_fs d"
proof -
  obtain d d0 where f: "efs_fresh d0 4096 1 example_fs d" "inode_max example_fs = 4096" "bm_maximum (data_bitmap example_fs) = 4096"
    using example_fresh by blast
  note i = fresh_inv [OF f(1) zero_less_one]
  have "\<not> bm_bit d (inode_bitmap example_fs) 1" using f(1,2) by (simp add: efs_fresh_def)
  then have "\<exists>k < inode_max example_fs. \<not> bm_bit d (inode_bitmap example_fs) k" using f(2) by (intro exI [of _ 1]) simp
  moreover have "missing (ino_at example_fs d 0) n \<le> free_blocks example_fs d" if "n \<in> {3, 32}" for n
    using i(4) f(3) example_missing [OF i(5) that] by simp
  ultimately show thesis using that i f(2) by (simp add: DIRENT_SZ_def)
qed

lemma example_file: "\<exists>d. fs_inv example_fs 4096 d {0} \<and> content example_fs d 0 = [1, 2, 3]"
proof -
  obtain d where i: "fs_inv example_fs 4096 d {0}" "content example_fs d 0 = []" "dir_ok example_fs d 0" "size_in (ino_at example_fs d 0) = 0"
    and k: "\<exists>k < inode_max example_fs. \<not> bm_bit d (inode_bitmap example_fs) k" "inode_max example_fs \<le> 2 ^ 32"
    and m: "missing (ino_at example_fs d 0) 3 \<le> free_blocks example_fs d" "missing (ino_at example_fs d 0) DIRENT_SZ \<le> free_blocks example_fs d"
    by (rule example_ready)
  have "missing (ino_at example_fs d 0) (0 + length [1, 2, 3 :: u8]) \<le> free_blocks example_fs d" using m(1) by (simp add: numeral_3_eq_3)
  from vfs_write_ok [OF i(1) _ _ _ this] show ?thesis using i(2) by (auto simp: layout_consts)
qed

lemma example_dir:
  "\<exists>d k e. fs_inv example_fs 4096 d {0, k} \<and> dir_ok example_fs d 0 \<and> dirents example_fs d 0 = [e] \<and> de_name e = Some [104, 105]"
proof -
  obtain d where i: "fs_inv example_fs 4096 d {0}" "content example_fs d 0 = []" "dir_ok example_fs d 0" "size_in (ino_at example_fs d 0) = 0"
    and k: "\<exists>k < inode_max example_fs. \<not> bm_bit d (inode_bitmap example_fs) k" "inode_max example_fs \<le> 2 ^ 32"
    and m: "missing (ino_at example_fs d 0) 3 \<le> free_blocks example_fs d" "missing (ino_at example_fs d 0) DIRENT_SZ \<le> free_blocks example_fs d"
    by (rule example_ready)
  have len: "length [104, 105 :: u8] \<le> NAME_LENGTH_LIMIT" and utf: "utf8_ok [104, 105]" and nz: "0 \<notin> set [104, 105 :: u8]"
    by (simp_all add: NAME_LENGTH_LIMIT_def)
  have room: "size_in (ino_at example_fs d 0) + DIRENT_SZ \<le> INDIRECT2_BOUND * BLOCK_SZ"
    "missing (ino_at example_fs d 0) (size_in (ino_at example_fs d 0) + DIRENT_SZ) \<le> free_blocks example_fs d"
    using i(4) m(2) by (simp_all add: layout_consts DIRENT_SZ_def)
  have "dirents example_fs d 0 = []" using i(2) by (simp add: dirents_def dirents_of_def)
  with vfs_create_ok [OF i(1) insertI1 i(3) len nz utf k room] show ?thesis by (auto simp: insert_commute)
qed

theorem vfs_write_spec_witness:
  "\<exists>d d'. fs_inv example_fs 4096 d {0} \<and> vfs_write_at example_fs d (root_inode example_fs) 0 [1, 2, 3] = Some (3, d') \<and>
     content example_fs d' 0 = [1, 2, 3]"
proof -
  obtain d where i: "fs_inv example_fs 4096 d {0}" "content example_fs d 0 = []" "dir_ok example_fs d 0" "size_in (ino_at example_fs d 0) = 0"
    and k: "\<exists>k < inode_max example_fs. \<not> bm_bit d (inode_bitmap example_fs) k" "inode_max example_fs \<le> 2 ^ 32"
    and m: "missing (ino_at example_fs d 0) 3 \<le> free_blocks example_fs d" "missing (ino_at example_fs d 0) DIRENT_SZ \<le> free_blocks example_fs d"
    by (rule example_ready)
  have "missing (ino_at example_fs d 0) (0 + length [1, 2, 3 :: u8]) \<le> free_blocks example_fs d" using m(1) by (simp add: numeral_3_eq_3)
  from vfs_write_spec [OF i(1) _ _ _ this] show ?thesis using i(1,2) by (auto simp: layout_consts root_inode_def)
qed

theorem vfs_read_spec_witness:
  "\<exists>d. fs_inv example_fs 4096 d {0} \<and> vfs_read_at d (root_inode example_fs) 1 [9, 9, 9, 9] = Some (2, [2, 3, 9, 9])"
proof -
  obtain d where d: "fs_inv example_fs 4096 d {0}" "content example_fs d 0 = [1, 2, 3]" using example_file by blast
  from d vfs_read_spec [OF d(1), of 0 1 "[9, 9, 9, 9]"] show ?thesis by (auto simp: root_inode_def)
qed

theorem vfs_clear_spec_witness:
  "\<exists>d d'. fs_inv example_fs 4096 d {0} \<and> content example_fs d 0 = [1, 2, 3] \<and>
     vfs_clear example_fs d (root_inode example_fs) = Some d' \<and> content example_fs d' 0 = []"
proof -
  obtain d where d: "fs_inv example_fs 4096 d {0}" "content example_fs d 0 = [1, 2, 3]" using example_file by blast
  from d vfs_clear_spec [OF d(1), of 0] show ?thesis by (auto simp: root_inode_def)
qed

theorem vfs_find_spec_witness:
  "\<exists>d k. vfs_find example_fs d (root_inode example_fs) [104, 105] = Some (Some (inode_handle example_fs k)) \<and>
     vfs_find example_fs d (root_inode example_fs) [104] = Some None"
proof -
  obtain d k e where d: "fs_inv example_fs 4096 d {0, k}" "dir_ok example_fs d 0" "dirents example_fs d 0 = [e]"
    "de_name e = Some [104, 105]" using example_dir by blast
  from d vfs_find_spec [OF d(1) _ d(2), of "[104, 105]"] vfs_find_spec [OF d(1) _ d(2), of "[104]"] show ?thesis
    by (intro exI [of _ d] exI [of _ "inode_number e"]) (simp add: root_inode_def)
qed

theorem vfs_ls_spec_witness:
  "\<exists>d k. fs_inv example_fs 4096 d {0, k} \<and> vfs_ls d (root_inode example_fs) = Some [[104, 105]]"
proof -
  obtain d k e where d: "fs_inv example_fs 4096 d {0, k}" "dir_ok example_fs d 0" "dirents example_fs d 0 = [e]"
    "de_name e = Some [104, 105]" using example_dir by blast
  from d vfs_ls_spec [OF d(1) _ d(2)] show ?thesis by (auto simp: root_inode_def)
qed

theorem vfs_create_spec_witness:
  "\<exists>d k d'. fs_inv example_fs 4096 d {0} \<and> vfs_create example_fs d (root_inode example_fs) [104, 105] = Some (Some (inode_handle example_fs k), d') \<and>
     vfs_find example_fs d' (root_inode example_fs) [104, 105] = Some (Some (inode_handle example_fs k))"
proof -
  obtain d where i: "fs_inv example_fs 4096 d {0}" "content example_fs d 0 = []" "dir_ok example_fs d 0" "size_in (ino_at example_fs d 0) = 0"
    and k: "\<exists>k < inode_max example_fs. \<not> bm_bit d (inode_bitmap example_fs) k" "inode_max example_fs \<le> 2 ^ 32"
    and m: "missing (ino_at example_fs d 0) 3 \<le> free_blocks example_fs d" "missing (ino_at example_fs d 0) DIRENT_SZ \<le> free_blocks example_fs d"
    by (rule example_ready)
  have len: "length [104, 105 :: u8] \<le> NAME_LENGTH_LIMIT" and utf: "utf8_ok [104, 105]" and nz: "0 \<notin> set [104, 105 :: u8]"
    by (simp_all add: NAME_LENGTH_LIMIT_def)
  have room: "size_in (ino_at example_fs d 0) + DIRENT_SZ \<le> INDIRECT2_BOUND * BLOCK_SZ"
    "missing (ino_at example_fs d 0) (size_in (ino_at example_fs d 0) + DIRENT_SZ) \<le> free_blocks example_fs d"
    using i(4) m(2) by (simp_all add: layout_consts DIRENT_SZ_def)
  have "dirents example_fs d 0 = []" using i(2) by (simp add: dirents_def dirents_of_def)
  with vfs_create_spec [OF i(1) insertI1 i(3) len nz utf k room] show ?thesis using i(1) by (auto simp: root_inode_def)
qed

end
