(* ===== verification/Timers.thy ===== *)
theory Timers
  imports Address "HOL-Library.Multiset"
begin

text \<open>
  Time and sleeping tasks (os8-ref/src/timer.rs).  The clock register is an argument of the
  operations that read it.  \<^verbatim>\<open>TIMERS\<close> is a \<^verbatim>\<open>BinaryHeap\<close> of \<^verbatim>\<open>TimerCondVar\<close>s ordered by the negated,
  signed expiry time; the heap is the array algorithm of the Rust standard library
  (\<^verbatim>\<open>sift_up\<close>, \<^verbatim>\<open>sift_down_to_bottom\<close>), so that the order in which timers with equal expiry are woken is
  the one of the program.  A task is its position in the kernel's table of tasks.

  The locale \<open>heap_order\<close> holds the contract of the heap for any total preorder: the heap invariant
  and the multiset of elements under \<^verbatim>\<open>push\<close> and \<^verbatim>\<open>pop\<close>.  It is interpreted on the order of timers,
  and \<^verbatim>\<open>check_timer\<close> is shown to agree with a partition of the timers by their expiry time.
\<close>

subsection \<open>The clock\<close>

definition TICKS_PER_SEC :: usize where "TICKS_PER_SEC = 100"
definition MILLI_PER_SEC :: usize where "MILLI_PER_SEC = 1000"
definition MICRO_PER_SEC :: usize where "MICRO_PER_SEC = 1000000"

definition get_time :: "usize \<Rightarrow> usize" where
  "get_time mtime = mtime"

definition get_time_us :: "usize \<Rightarrow> usize" where
  "get_time_us mtime = mtime div (CLOCK_FREQ div MICRO_PER_SEC)"

definition get_time_ms :: "usize \<Rightarrow> usize" where
  "get_time_ms mtime = mtime div (CLOCK_FREQ div MILLI_PER_SEC)"

text \<open>The argument of the \<^verbatim>\<open>set_timer\<close> call.\<close>

definition set_next_trigger :: "usize \<Rightarrow> usize" where
  "set_next_trigger mtime = get_time mtime + CLOCK_FREQ div TICKS_PER_SEC"

subsection \<open>Binary heaps\<close>

definition swap_at :: "'a list \<Rightarrow> nat \<Rightarrow> nat \<Rightarrow> 'a list" where
  "swap_at xs i j = xs[i := xs ! j, j := xs ! i]"

lemma length_swap_at [simp]: "length (swap_at xs i j) = length xs"
  by (simp add: swap_at_def)

function sift_up :: "('a \<Rightarrow> 'a \<Rightarrow> bool) \<Rightarrow> 'a list \<Rightarrow> nat \<Rightarrow> 'a list" where
  "sift_up le xs pos =
     (if pos = 0 then xs
      else let parent = (pos - 1) div 2
           in if le (xs ! pos) (xs ! parent) then xs else sift_up le (swap_at xs pos parent) parent)"
  by auto
termination by (relation "measure (\<lambda>(le, xs, pos). pos)") auto

function sift_bottom :: "('a \<Rightarrow> 'a \<Rightarrow> bool) \<Rightarrow> 'a list \<Rightarrow> nat \<Rightarrow> 'a list \<times> nat" where
  "sift_bottom le xs pos =
     (let child = 2 * pos + 1
      in if child + 2 \<le> length xs
         then let c = (if le (xs ! child) (xs ! (child + 1)) then child + 1 else child)
              in sift_bottom le (swap_at xs pos c) c
         else if child + 1 = length xs then (swap_at xs pos child, child)
         else (xs, pos))"
  by auto
termination by (relation "measure (\<lambda>(le, xs, pos). length xs - pos)") (auto split: if_splits)

definition heap_push :: "('a \<Rightarrow> 'a \<Rightarrow> bool) \<Rightarrow> 'a list \<Rightarrow> 'a \<Rightarrow> 'a list" where
  "heap_push le xs x = sift_up le (xs @ [x]) (length xs)"

definition heap_peek :: "'a list \<Rightarrow> 'a option" where
  "heap_peek xs = (if xs = [] then None else Some (xs ! 0))"

definition heap_pop :: "('a \<Rightarrow> 'a \<Rightarrow> bool) \<Rightarrow> 'a list \<Rightarrow> ('a \<times> 'a list) option" where
  "heap_pop le xs =
     (if xs = [] then None
      else let item = last xs; data = butlast xs
           in if data = [] then Some (item, [])
              else let (data', pos) = sift_bottom le (data[0 := item]) 0
                   in Some (data ! 0, sift_up le data' pos))"

declare sift_up.simps [simp del] sift_bottom.simps [simp del]

subsection \<open>Timers\<close>

record TimerCondVar =
  expire_ms :: usize
  tm_task :: nat

definition timer_key :: "TimerCondVar \<Rightarrow> int" where
  "timer_key t = sint (- expire_ms t)"

definition timer_le :: "TimerCondVar \<Rightarrow> TimerCondVar \<Rightarrow> bool" where
  "timer_le a b \<longleftrightarrow> timer_key a \<le> timer_key b"

definition timer_eq :: "TimerCondVar \<Rightarrow> TimerCondVar \<Rightarrow> bool" where
  "timer_eq a b \<longleftrightarrow> expire_ms a = expire_ms b"

definition add_timer :: "TimerCondVar list \<Rightarrow> usize \<Rightarrow> nat \<Rightarrow> TimerCondVar list" where
  "add_timer timers exp task = heap_push timer_le timers \<lparr>expire_ms = exp, tm_task = task\<rparr>"

lemma length_sift_up [simp]: "length (sift_up le xs pos) = length xs"
  by (induction le xs pos rule: sift_up.induct) (subst sift_up.simps, simp add: Let_def)

lemma length_sift_bottom [simp]: "length (fst (sift_bottom le xs pos)) = length xs"
  by (induction le xs pos rule: sift_bottom.induct) (subst sift_bottom.simps, simp add: Let_def)

lemma heap_pop_length: "heap_pop le xs = Some (x, ys) \<Longrightarrow> length xs = Suc (length ys)"
proof -
  assume h: "heap_pop le xs = Some (x, ys)"
  have l: "length x1 = length zs" if "sift_bottom le zs 0 = (x1, x2)" for zs x1 x2
    using length_sift_bottom [of le zs 0] that by simp
  from h have "xs \<noteq> []" by (auto simp: heap_pop_def)
  then have n: "length xs = Suc (length (butlast xs))" by simp
  show ?thesis
  proof (cases "butlast xs = []")
    case True
    then show ?thesis using h n by (simp add: heap_pop_def Let_def split: if_splits)
  next
    case False
    then show ?thesis using h n l by (auto simp: heap_pop_def Let_def split: if_splits prod.splits)
  qed
qed

text \<open>The tasks woken, in the order in which they are added to the ready queue, and the timers left.\<close>

function check_timer :: "usize \<Rightarrow> TimerCondVar list \<Rightarrow> nat list \<times> TimerCondVar list" where
  "check_timer current_ms timers =
     (case heap_peek timers of
        None \<Rightarrow> ([], timers)
      | Some timer \<Rightarrow>
          if expire_ms timer \<le> current_ms
          then (case heap_pop timer_le timers of
                  None \<Rightarrow> ([], timers)
                | Some (_, rest) \<Rightarrow>
                    let (woken, left) = check_timer current_ms rest in (tm_task timer # woken, left))
          else ([], timers))"
  by auto
termination
  by (relation "measure (\<lambda>(current_ms, timers). length timers)") (auto dest: heap_pop_length)

declare check_timer.simps [simp del]

subsection \<open>The heap contract\<close>

lemma mset_swap_at: "i < length xs \<Longrightarrow> j < length xs \<Longrightarrow> mset (swap_at xs i j) = mset xs"
  by (simp add: swap_at_def mset_swap)

lemma nth_swap_at:
  "i < length xs \<Longrightarrow> j < length xs \<Longrightarrow> k < length xs \<Longrightarrow>
   swap_at xs i j ! k = (if k = j then xs ! i else if k = i then xs ! j else xs ! k)"
  by (simp add: swap_at_def nth_list_update)

lemma parent_less: "0 < i \<Longrightarrow> (i - 1) div 2 < i" for i :: nat
  by linarith

lemma parent_iff: "0 < i \<Longrightarrow> (i - 1) div 2 = p \<longleftrightarrow> i = 2 * p + 1 \<or> i = 2 * p + 2" for i :: nat
  by linarith

text \<open>The heap order at every position, except between \<open>pos\<close> and its parent.\<close>

definition heap_but :: "('a \<Rightarrow> 'a \<Rightarrow> bool) \<Rightarrow> 'a list \<Rightarrow> nat set \<Rightarrow> bool" where
  "heap_but le xs P \<longleftrightarrow> (\<forall>i. 0 < i \<longrightarrow> i < length xs \<longrightarrow> i \<notin> P \<longrightarrow> le (xs ! i) (xs ! ((i - 1) div 2)))"

definition heap_ok :: "('a \<Rightarrow> 'a \<Rightarrow> bool) \<Rightarrow> 'a list \<Rightarrow> bool" where
  "heap_ok le xs \<longleftrightarrow> heap_but le xs {}"

text \<open>The children of \<open>pos\<close> are below its parent.\<close>

definition bridged :: "('a \<Rightarrow> 'a \<Rightarrow> bool) \<Rightarrow> 'a list \<Rightarrow> nat \<Rightarrow> bool" where
  "bridged le xs pos \<longleftrightarrow>
     (\<forall>c. 0 < pos \<longrightarrow> 0 < c \<longrightarrow> c < length xs \<longrightarrow> (c - 1) div 2 = pos \<longrightarrow> le (xs ! c) (xs ! ((pos - 1) div 2)))"

lemma heap_butD: "heap_but le xs P \<Longrightarrow> 0 < i \<Longrightarrow> i < length xs \<Longrightarrow> i \<notin> P \<Longrightarrow> le (xs ! i) (xs ! ((i - 1) div 2))"
  by (simp add: heap_but_def)

lemma bridgedD: "bridged le xs pos \<Longrightarrow> 0 < pos \<Longrightarrow> 0 < c \<Longrightarrow> c < length xs \<Longrightarrow> (c - 1) div 2 = pos \<Longrightarrow>
    le (xs ! c) (xs ! ((pos - 1) div 2))"
  by (simp add: bridged_def)

locale heap_order =
  fixes le :: "'a \<Rightarrow> 'a \<Rightarrow> bool"
  assumes le_total: "le a b \<or> le b a"
    and le_trans: "le a b \<Longrightarrow> le b c \<Longrightarrow> le a c"
begin

lemma sift_up_step:
  assumes pos: "0 < pos" "pos < length xs" and p: "p = (pos - 1) div 2" and nle: "\<not> le (xs ! pos) (xs ! p)"
    and h: "heap_but le xs {pos}" and b: "bridged le xs pos"
  shows "heap_but le (swap_at xs pos p) {p}" and "bridged le (swap_at xs pos p) p"
proof -
  have pl: "p < length xs" "p < pos" using pos p parent_less [of pos] by auto
  note nth = nth_swap_at [OF pos(2) pl(1)]
  have up: "le (xs ! p) (xs ! pos)" using nle le_total by blast
  show "heap_but le (swap_at xs pos p) {p}"
    unfolding heap_but_def
  proof (intro allI impI)
    fix i assume i: "0 < i" "i < length (swap_at xs pos p)" "i \<notin> {p}"
    let ?q = "(i - 1) div 2"
    have q: "?q < length xs" "?q < i" using i parent_less [of i] by auto
    consider "i = pos" | "i \<noteq> pos" "?q = pos" | "i \<noteq> pos" "?q = p" | "i \<noteq> pos" "?q \<noteq> pos" "?q \<noteq> p" by blast
    then show "le (swap_at xs pos p ! i) (swap_at xs pos p ! ?q)"
    proof cases
      case 1 then show ?thesis using nth pos pl p up by simp
    next
      case 2
      then have "le (xs ! i) (xs ! p)" using bridgedD [OF b pos(1) i(1) _ 2(2)] i p by simp
      then show ?thesis using 2 nth i q pl pos by simp
    next
      case 3
      then have "le (xs ! i) (xs ! p)" using heap_butD [OF h i(1)] i by auto
      then have "le (xs ! i) (xs ! pos)" using up le_trans by blast
      then show ?thesis using 3 nth i q pl pos by simp
    next
      case 4
      then have "le (xs ! i) (xs ! ?q)" using heap_butD [OF h i(1)] i by auto
      then show ?thesis using 4 nth i q by simp
    qed
  qed
  show "bridged le (swap_at xs pos p) p"
    unfolding bridged_def
  proof (intro allI impI)
    fix c assume c: "0 < p" "0 < c" "c < length (swap_at xs pos p)" "(c - 1) div 2 = p"
    have g: "(p - 1) div 2 < p" using c parent_less by simp
    have hp: "le (xs ! p) (xs ! ((p - 1) div 2))" using heap_butD [OF h c(1)] pl by simp
    have cp: "c \<noteq> p" using parent_less [of c] c by auto
    have "le (xs ! c) (xs ! p)" if "c \<noteq> pos" using heap_butD [OF h c(2)] c that by auto
    then have "le (xs ! c) (xs ! ((p - 1) div 2))" if "c \<noteq> pos" using that hp le_trans by blast
    then show "le (swap_at xs pos p ! c) (swap_at xs pos p ! ((p - 1) div 2))"
      using nth c g pl hp cp by (cases "c = pos") simp_all
  qed
qed

lemma sift_up_heap:
  assumes "pos < length xs" and "heap_but le xs {pos}" and "bridged le xs pos"
  shows "heap_ok le (sift_up le xs pos) \<and> mset (sift_up le xs pos) = mset xs"
  using assms
proof (induction pos arbitrary: xs rule: less_induct)
  case (less pos)
  let ?p = "(pos - 1) div 2"
  consider "pos = 0" | "0 < pos" "le (xs ! pos) (xs ! ?p)" | "0 < pos" "\<not> le (xs ! pos) (xs ! ?p)" by blast
  then show ?case
  proof cases
    case 1
    then have "heap_ok le xs" using less.prems(2) by (simp add: heap_ok_def heap_but_def)
    then show ?thesis using 1 by (simp add: sift_up.simps [of le xs 0])
  next
    case 2
    then have "heap_ok le xs" using less.prems(2) unfolding heap_ok_def heap_but_def by (metis empty_iff singletonD)
    then show ?thesis using 2 by (simp add: sift_up.simps [of le xs pos])
  next
    case 3
    have pl: "?p < pos" using 3 parent_less by simp
    have "sift_up le xs pos = sift_up le (swap_at xs pos ?p) ?p"
      using 3 by (subst sift_up.simps) (simp add: Let_def)
    then show ?thesis
      using less.IH [OF pl, of "swap_at xs pos ?p"] sift_up_step [OF 3(1) less.prems(1) refl 3(2) less.prems(2,3)]
        less.prems(1) pl mset_swap_at [of pos xs ?p] by simp
  qed
qed

lemma push_heap:
  assumes "heap_ok le xs"
  shows "heap_ok le (heap_push le xs x)" and "mset (heap_push le xs x) = add_mset x (mset xs)"
proof -
  have "heap_but le (xs @ [x]) {length xs}"
    unfolding heap_but_def
  proof (intro allI impI)
    fix i assume i: "0 < i" "i < length (xs @ [x])" "i \<notin> {length xs}"
    then have "i < length xs" "(i - 1) div 2 < length xs" using parent_less [of i] by auto
    then show "le ((xs @ [x]) ! i) ((xs @ [x]) ! ((i - 1) div 2))"
      using assms i by (simp add: heap_ok_def heap_but_def nth_append)
  qed
  moreover have "bridged le (xs @ [x]) (length xs)"
    unfolding bridged_def
  proof (intro allI impI)
    fix c assume c: "0 < c" "c < length (xs @ [x])" "(c - 1) div 2 = length xs"
    then show "le ((xs @ [x]) ! c) ((xs @ [x]) ! ((length xs - 1) div 2))" using parent_less [of c] by simp
  qed
  ultimately show "heap_ok le (heap_push le xs x)" and "mset (heap_push le xs x) = add_mset x (mset xs)"
    using sift_up_heap [of "length xs" "xs @ [x]"] by (simp_all add: heap_push_def)
qed

text \<open>On the way down, the order fails at most between \<open>pos\<close> and its neighbours.\<close>

lemma sift_down_step:
  assumes c: "c = 2 * pos + 1 \<or> c = 2 * pos + 2" "c < length xs"
    and sib: "\<And>d. 0 < d \<Longrightarrow> d < length xs \<Longrightarrow> (d - 1) div 2 = pos \<Longrightarrow> le (xs ! d) (xs ! c)"
    and h: "heap_but le xs {i. i = pos \<or> (i - 1) div 2 = pos}" and b: "bridged le xs pos"
  shows "heap_but le (swap_at xs pos c) {i. i = c \<or> (i - 1) div 2 = c}" and "bridged le (swap_at xs pos c) c"
proof -
  have pl: "pos < length xs" "pos < c" "0 < c" "(c - 1) div 2 = pos" using c by auto
  note nth = nth_swap_at [OF pl(1) c(2)]
  show "heap_but le (swap_at xs pos c) {i. i = c \<or> (i - 1) div 2 = c}"
    unfolding heap_but_def
  proof (intro allI impI)
    fix i assume i: "0 < i" "i < length (swap_at xs pos c)" "i \<notin> {i. i = c \<or> (i - 1) div 2 = c}"
    let ?q = "(i - 1) div 2"
    have q: "?q < length xs" "?q < i" using i parent_less [of i] by auto
    consider "i = pos" | "i \<noteq> pos" "?q = pos" | "i \<noteq> pos" "?q \<noteq> pos" by blast
    then show "le (swap_at xs pos c ! i) (swap_at xs pos c ! ?q)"
    proof cases
      case 1
      then have "le (xs ! c) (xs ! ((pos - 1) div 2))" using bridgedD [OF b _ pl(3) c(2) pl(4)] i by simp
      then show ?thesis using 1 nth i q pl by simp
    next
      case 2
      then show ?thesis using nth i q pl sib [of i] by simp
    next
      case 3
      then have "le (xs ! i) (xs ! ?q)" using heap_butD [OF h i(1)] i by auto
      then show ?thesis using 3 nth i q by simp
    qed
  qed
  show "bridged le (swap_at xs pos c) c"
    unfolding bridged_def
  proof (intro allI impI)
    fix d assume d: "0 < d" "d < length (swap_at xs pos c)" "(d - 1) div 2 = c"
    then have "d \<noteq> pos" "d \<noteq> c" using pl parent_less [of d] by auto
    moreover have "le (xs ! d) (xs ! c)" using heap_butD [OF h d(1)] d pl \<open>d \<noteq> pos\<close> by auto
    ultimately show "le (swap_at xs pos c ! d) (swap_at xs pos c ! ((c - 1) div 2))"
      using nth d pl by simp
  qed
qed

lemma sift_bottom_heap:
  assumes "pos < length xs" and "heap_but le xs {i. i = pos \<or> (i - 1) div 2 = pos}" and "bridged le xs pos"
    and "sift_bottom le xs pos = (ys, q)"
  shows "q < length ys \<and> heap_but le ys {q} \<and> bridged le ys q \<and> mset ys = mset xs"
  using assms
proof (induction "length xs - pos" arbitrary: xs pos rule: less_induct)
  case less
  let ?child = "2 * pos + 1"
  consider "?child + 2 \<le> length xs" | "?child + 1 = length xs" | "length xs \<le> ?child" by linarith
  then show ?case
  proof cases
    case 1
    define c where "c = (if le (xs ! ?child) (xs ! (?child + 1)) then ?child + 1 else ?child)"
    have c: "c = 2 * pos + 1 \<or> c = 2 * pos + 2" "c < length xs" using 1 by (auto simp: c_def)
    have sib: "le (xs ! d) (xs ! c)" if "0 < d" "(d - 1) div 2 = pos" for d
      using that parent_iff [of d pos] le_total [of "xs ! ?child" "xs ! (?child + 1)"] le_total [of "xs ! d" "xs ! d"]
      by (auto simp: c_def)
    have "sift_bottom le xs pos = sift_bottom le (swap_at xs pos c) c"
      using 1 by (subst sift_bottom.simps) (simp add: Let_def c_def)
    then have "sift_bottom le (swap_at xs pos c) c = (ys, q)" using less.prems(4) by simp
    moreover have "length (swap_at xs pos c) - c < length xs - pos" using c less.prems(1) by auto
    ultimately show ?thesis
      using less.hyps [of "swap_at xs pos c" c] c sift_down_step [OF c sib less.prems(2,3)] less.prems(1)
        mset_swap_at [of pos xs c] by simp
  next
    case 2
    then have c: "?child = 2 * pos + 1 \<or> ?child = 2 * pos + 2" "?child < length xs" by auto
    have sib: "le (xs ! d) (xs ! ?child)" if "0 < d" "d < length xs" "(d - 1) div 2 = pos" for d
      using that 2 parent_iff [of d pos] le_total [of "xs ! d" "xs ! d"] by auto
    have "sift_bottom le xs pos = (swap_at xs pos ?child, ?child)"
      using 2 by (subst sift_bottom.simps) (simp add: Let_def)
    then have e: "ys = swap_at xs pos ?child" "q = ?child" using less.prems(4) by simp_all
    have "i < length ys \<Longrightarrow> 0 < i \<Longrightarrow> (i - 1) div 2 \<noteq> ?child" for i using 2 e parent_iff [of i ?child] by auto
    then have "heap_but le ys {q}"
      using sift_down_step(1) [OF c sib less.prems(2,3)] unfolding e heap_but_def by auto
    then show ?thesis
      using sift_down_step(2) [OF c sib less.prems(2,3)] less.prems(1) c mset_swap_at [of pos xs ?child]
      unfolding e by simp
  next
    case 3
    then have "sift_bottom le xs pos = (xs, pos)" by (subst sift_bottom.simps) (simp add: Let_def)
    then have e: "ys = xs" "q = pos" using less.prems(4) by simp_all
    have "i < length xs \<Longrightarrow> 0 < i \<Longrightarrow> (i - 1) div 2 \<noteq> pos" for i using 3 parent_iff [of i pos] by auto
    then have "heap_but le xs {pos}" using less.prems(2) unfolding heap_but_def by auto
    then show ?thesis using less.prems unfolding e by simp
  qed
qed

lemma heap_root_max:
  assumes "heap_ok le xs" and "i < length xs"
  shows "le (xs ! i) (xs ! 0)"
  using assms(2)
proof (induction i rule: less_induct)
  case (less i)
  show ?case
  proof (cases "i = 0")
    case True
    then show ?thesis using le_total [of "xs ! 0" "xs ! 0"] by simp
  next
    case False
    then have "le (xs ! i) (xs ! ((i - 1) div 2))" using assms(1) less.prems by (simp add: heap_ok_def heap_but_def)
    moreover have "le (xs ! ((i - 1) div 2)) (xs ! 0)" using less.IH [of "(i - 1) div 2"] parent_less [of i] False less.prems by simp
    ultimately show ?thesis using le_trans by blast
  qed
qed

lemma pop_heap:
  assumes "heap_ok le xs" and "xs \<noteq> []"
  shows "\<exists>ys. heap_pop le xs = Some (xs ! 0, ys) \<and> heap_ok le ys \<and> mset xs = add_mset (xs ! 0) (mset ys)"
proof (cases "butlast xs = []")
  case True
  with assms(2) obtain x where "xs = [x]" by (metis append_butlast_last_id append_Nil)
  then show ?thesis by (simp add: heap_pop_def heap_ok_def heap_but_def)
next
  case False
  define zs where "zs = (butlast xs)[0 := last xs]"
  obtain ys q where b: "sift_bottom le zs 0 = (ys, q)" by fastforce
  have "length (butlast xs) \<noteq> 0" using False by (simp only: length_0_conv not_False_eq_True)
  then have n: "0 < length zs" "length zs < length xs" using assms(2) by (simp_all add: zs_def)
  have nth: "zs ! i = xs ! i" if "0 < i" "i < length zs" for i
    using that by (simp add: zs_def nth_butlast)
  have z: "heap_but le zs {i. i = 0 \<or> (i - 1) div 2 = 0}"
    unfolding heap_but_def
  proof (intro allI impI)
    fix i assume i: "0 < i" "i < length zs" "i \<notin> {i. i = 0 \<or> (i - 1) div 2 = 0}"
    then have q: "0 < (i - 1) div 2" "(i - 1) div 2 < length zs" using parent_less [of i] by auto
    have "le (xs ! i) (xs ! ((i - 1) div 2))" using assms(1) i n by (simp add: heap_ok_def heap_but_def)
    then show "le (zs ! i) (zs ! ((i - 1) div 2))" using nth [OF i(1,2)] nth [OF q] by simp
  qed
  have s: "q < length ys \<and> heap_but le ys {q} \<and> bridged le ys q \<and> mset ys = mset zs"
    using sift_bottom_heap [OF n(1) z _ b] by (simp add: bridged_def)
  have hd: "butlast xs ! 0 = xs ! 0" using n(1) nth_butlast [of 0 xs] by (simp add: zs_def)
  have "mset xs = add_mset (xs ! 0) (mset zs)"
  proof -
    obtain y ys' where y: "butlast xs = y # ys'" using False by (cases "butlast xs") auto
    have "xs = butlast xs @ [last xs]" using assms(2) by simp
    then have "mset xs = add_mset (last xs) (mset (y # ys'))" using y by (metis mset_append mset_single_iff_right union_commute add_mset_add_single mset.simps)
    then show ?thesis using y hd by (simp add: zs_def)
  qed
  then show ?thesis
    using sift_up_heap [of q ys] s b hd assms(2) False by (simp add: heap_pop_def Let_def zs_def)
qed

end

subsection \<open>Waking the sleepers\<close>

interpretation timers: heap_order timer_le
  by unfold_locales (auto simp: timer_le_def)

text \<open>Expiry times that an \<^verbatim>\<open>isize\<close> can hold; the order of the heap is then the reverse order of expiry.\<close>

definition timer_room :: "TimerCondVar \<Rightarrow> bool" where
  "timer_room t \<longleftrightarrow> unat (expire_ms t) < 2 ^ 63"

lemma signed_63: "signed_take_bit 63 k = k" if "- (2 ^ 63) \<le> k" "k < 2 ^ 63" for k :: int
  using that by (intro signed_take_bit_int_eq_self) auto

lemma sint_small:
  fixes w :: usize
  assumes "uint w < 2 ^ 63"
  shows "sint w = uint w"
proof -
  have "signed_take_bit 63 (uint w) = uint w" using assms by (intro signed_63) (auto intro: order_trans [of _ 0])
  then show ?thesis by (simp only: sint_uint) simp
qed

lemma sint_minus_small:
  fixes w :: usize
  assumes "uint w < 2 ^ 63"
  shows "sint (- w) = - uint w"
proof -
  have "sint (- w) = signed_take_bit 63 (- uint w)" using sint_word_ariths(4) [of w] sint_small [OF assms] by simp
  moreover have "0 \<le> uint w" by simp
  ultimately show ?thesis using signed_63 [of "- uint w"] assms by linarith
qed

lemma timer_key_room: "timer_room t \<Longrightarrow> timer_key t = - uint (expire_ms t)"
proof -
  assume "timer_room t"
  then have "int (unat (expire_ms t)) < int (2 ^ 63)" by (simp only: of_nat_less_iff timer_room_def)
  then have "uint (expire_ms t) < 2 ^ 63" by simp
  then show ?thesis by (simp only: timer_key_def sint_minus_small)
qed

lemma timer_le_room: "timer_room a \<Longrightarrow> timer_room b \<Longrightarrow> timer_le a b \<longleftrightarrow> expire_ms b \<le> expire_ms a"
  by (simp add: timer_le_def timer_key_room word_le_def)

text \<open>
  The specification: the timers split at the current time, and the expired ones are woken from the
  earliest to the latest.
\<close>

lemma check_timer_ok:
  assumes "heap_ok timer_le timers" and "\<forall>t \<in> set timers. timer_room t"
  shows "\<exists>ts. fst (check_timer now timers) = map tm_task ts \<and> sorted_wrt (\<lambda>a b. expire_ms a \<le> expire_ms b) ts \<and>
    mset ts = filter_mset (\<lambda>t. expire_ms t \<le> now) (mset timers) \<and>
    mset (snd (check_timer now timers)) = filter_mset (\<lambda>t. \<not> expire_ms t \<le> now) (mset timers) \<and>
    heap_ok timer_le (snd (check_timer now timers))"
  using assms
proof (induction "length timers" arbitrary: timers)
  case 0
  have "check_timer now [] = ([], [])" by (subst check_timer.simps) (simp add: heap_peek_def)
  then show ?case using 0 by simp
next
  case (Suc n)
  have ne: "timers \<noteq> []" using Suc.hyps(2) by auto
  let ?t = "timers ! 0"
  have first: "expire_ms ?t \<le> expire_ms u" if u: "u \<in> set timers" for u
  proof -
    obtain i where i: "i < length timers" "u = timers ! i" using u by (auto simp: in_set_conv_nth)
    then show ?thesis
      using timers.heap_root_max [OF Suc.prems(1) i(1)] timer_le_room [of u ?t] Suc.prems(2) u nth_mem [of 0 timers] ne by simp
  qed
  obtain rest where pop: "heap_pop timer_le timers = Some (?t, rest)" and h: "heap_ok timer_le rest"
    and m: "mset timers = add_mset ?t (mset rest)"
    using timers.pop_heap [OF Suc.prems(1) ne] by blast
  have sub: "set rest \<subseteq> set timers" using arg_cong [OF m, of set_mset] by auto
  show ?case
  proof (cases "expire_ms ?t \<le> now")
    case True
    have n: "n = length rest" using heap_pop_length [OF pop] Suc.hyps(2) by simp
    from Suc.hyps(1) [OF n h] sub Suc.prems(2) obtain ts where
      ts: "fst (check_timer now rest) = map tm_task ts" "sorted_wrt (\<lambda>a b. expire_ms a \<le> expire_ms b) ts"
      "mset ts = filter_mset (\<lambda>t. expire_ms t \<le> now) (mset rest)"
      "mset (snd (check_timer now rest)) = filter_mset (\<lambda>t. \<not> expire_ms t \<le> now) (mset rest)"
      "heap_ok timer_le (snd (check_timer now rest))" by blast
    have c: "check_timer now timers = (tm_task ?t # fst (check_timer now rest), snd (check_timer now rest))"
      using True ne pop by (subst check_timer.simps) (simp add: heap_peek_def split_beta Let_def)
    have "set ts \<subseteq> set rest" using arg_cong [OF ts(3), of set_mset] by auto
    then have "set ts \<subseteq> set timers" using sub by blast
    then have "sorted_wrt (\<lambda>a b. expire_ms a \<le> expire_ms b) (?t # ts)" using ts(2) first by auto
    then show ?thesis using c ts m True by (intro exI [of _ "?t # ts"]) simp
  next
    case False
    then have c: "check_timer now timers = ([], timers)"
      using ne by (subst check_timer.simps) (simp add: heap_peek_def)
    have late: "\<not> expire_ms u \<le> now" if "u \<in> set timers" for u using first [OF that] False by simp
    then have "filter_mset (\<lambda>t. expire_ms t \<le> now) (mset timers) = {#}"
      "filter_mset (\<lambda>t. \<not> expire_ms t \<le> now) (mset timers) = mset timers"
      by (simp_all flip: mset_filter add: filter_empty_conv)
    then show ?thesis using c Suc.prems(1) by simp
  qed
qed

lemma add_timers:
  assumes "heap_ok timer_le h" and "list_all (\<lambda>(e, t). unat e < 2 ^ 63) reqs" and "\<forall>t \<in> set h. timer_room t"
  defines "h' \<equiv> foldl (\<lambda>h (e, t). add_timer h e t) h reqs"
  shows "heap_ok timer_le h' \<and> mset h' = mset h + mset (map (\<lambda>(e, t). \<lparr>expire_ms = e, tm_task = t\<rparr>) reqs) \<and>
    (\<forall>t \<in> set h'. timer_room t)"
  using assms(1-3) unfolding h'_def
proof (induction reqs arbitrary: h)
  case (Cons r reqs)
  obtain e t where r: "r = (e, t)" by fastforce
  let ?h = "add_timer h e t"
  have h: "heap_ok timer_le ?h" "mset ?h = add_mset \<lparr>expire_ms = e, tm_task = t\<rparr> (mset h)"
    using timers.push_heap [OF Cons.prems(1)] by (simp_all add: add_timer_def)
  have "\<forall>t \<in> set ?h. timer_room t"
    using arg_cong [OF h(2), of set_mset] Cons.prems(2,3) r by (simp add: timer_room_def)
  then show ?case using Cons.IH [OF h(1)] Cons.prems(2) r h(2) by simp
qed simp

text \<open>
  C16 (equivalence).  Sleeping agrees with sorting the requests: after any sequence of \<^verbatim>\<open>add_timer\<close> calls
  whose expiry times an \<^verbatim>\<open>isize\<close> can hold, \<^verbatim>\<open>check_timer\<close> wakes exactly the tasks whose time has come,
  from the earliest expiry to the latest, and keeps exactly the others, still as a heap.
\<close>
theorem check_timer_sorts:
  assumes "list_all (\<lambda>(e, t). unat e < 2 ^ 63) reqs"
  shows "\<exists>ts. fst (check_timer now (foldl (\<lambda>h (e, t). add_timer h e t) [] reqs)) = map snd ts \<and>
    sorted_wrt (\<lambda>a b. fst a \<le> fst b) ts \<and>
    mset ts = mset (filter (\<lambda>(e, t). e \<le> now) reqs) \<and>
    image_mset (\<lambda>t. (expire_ms t, tm_task t)) (mset (snd (check_timer now (foldl (\<lambda>h (e, t). add_timer h e t) [] reqs)))) =
      mset (filter (\<lambda>(e, t). \<not> e \<le> now) reqs) \<and>
    heap_ok timer_le (snd (check_timer now (foldl (\<lambda>h (e, t). add_timer h e t) [] reqs)))"
proof -
  define h where "h = foldl (\<lambda>h (e, t). add_timer h e t) [] reqs"
  let ?mk = "\<lambda>(e, t). \<lparr>expire_ms = e, tm_task = t\<rparr>" and ?un = "\<lambda>t. (expire_ms t, tm_task t)"
  have h: "heap_ok timer_le h" "mset h = mset (map ?mk reqs)" "\<forall>t \<in> set h. timer_room t"
    using add_timers [of "[]" reqs] assms by (simp_all add: h_def heap_ok_def heap_but_def)
  have un: "image_mset ?un (filter_mset (\<lambda>t. P (expire_ms t)) (mset h)) = mset (filter (\<lambda>(e, t). P e) reqs)" for P
    unfolding h(2) by (induction reqs) auto
  from check_timer_ok [OF h(1,3), of now] obtain ts where
    ts: "fst (check_timer now h) = map tm_task ts" "sorted_wrt (\<lambda>a b. expire_ms a \<le> expire_ms b) ts"
    "mset ts = filter_mset (\<lambda>t. expire_ms t \<le> now) (mset h)"
    "mset (snd (check_timer now h)) = filter_mset (\<lambda>t. \<not> expire_ms t \<le> now) (mset h)"
    "heap_ok timer_le (snd (check_timer now h))" by blast
  have "mset (map ?un ts) = mset (filter (\<lambda>(e, t). e \<le> now) reqs)" using un [of "\<lambda>e. e \<le> now"] ts(3) by simp
  moreover have "sorted_wrt (\<lambda>a b. fst a \<le> fst b) (map ?un ts)" using ts(2) by (simp add: sorted_wrt_map)
  ultimately show ?thesis
    using ts un [of "\<lambda>e. \<not> e \<le> now"] unfolding h_def [symmetric] by (intro exI [of _ "map ?un ts"]) (simp add: o_def)
qed

theorem check_timer_sorts_witness:
  "\<exists>ts. fst (check_timer 25 (foldl (\<lambda>h (e, t). add_timer h e t) [] [(30, 1), (20, 2), (10, 3)])) = map snd ts \<and>
    mset ts = {#(20 :: usize, 2), (10, 3)#}"
  using check_timer_sorts [of "[(30, 1), (20, 2), (10, 3)]" 25] by auto

text \<open>
  The divisor of \<^verbatim>\<open>get_time_us\<close> is rounded down to 12 ticks, so its microseconds are short: one second
  of clock ticks reads as 1041666 of them, while \<^verbatim>\<open>get_time_ms\<close> is exact.
\<close>
lemma clock_us_runs_fast: "get_time_us CLOCK_FREQ = 1041666 \<and> get_time_ms CLOCK_FREQ = MILLI_PER_SEC"
  by (simp add: get_time_us_def get_time_ms_def mm_consts MICRO_PER_SEC_def MILLI_PER_SEC_def)

end
