(* ===== verification/User_Mem.thy ===== *)
theory User_Mem
  imports Page_Table
begin

text \<open>
  Reading and writing physical memory byte by byte: the laws of \<open>phys_byte_set\<close>, of stores to a list
  of addresses, and of the reads and writes of little-endian values through a reference, which the
  system calls use to exchange data with user memory.
\<close>

definition pages_ok :: "mm \<Rightarrow> bool" where
  "pages_ok s \<longleftrightarrow> (\<forall>a. length (pages s a) = 4096)"

lemma mm_ok_pages: "mm_ok l s \<Longrightarrow> pages_ok s"
  by (simp add: mm_ok_def pages_ok_def)

lemma pa_offset: "pa_page_offset a = va_page_offset a"
  by (simp add: pa_page_offset_def va_page_offset_def)

lemma pa_offset_lt: "unat (pa_page_offset a) < 4096"
  unfolding pa_offset unat_va_offset by simp

lemma phys_byte_set_byte [simp]:
  assumes "pages_ok s"
  shows "phys_byte (phys_byte_set s a c) b = (if a = b then c else phys_byte s b)"
proof (cases "a - pa_page_offset a = b - pa_page_offset b")
  case True
  have "unat (pa_page_offset a) \<noteq> unat (pa_page_offset b)" if "a \<noteq> b"
    using True that by (metis add_diff_cancel diff_add_cancel word_unat_eq_iff)
  then show ?thesis using assms True pa_offset_lt
    by (auto simp: phys_byte_set_def phys_byte_def pages_ok_def Let_def)
next
  case False
  then show ?thesis by (auto simp: phys_byte_set_def phys_byte_def Let_def)
qed

lemma pages_ok_byte_set [simp]: "pages_ok s \<Longrightarrow> pages_ok (phys_byte_set s a c)"
  by (auto simp: phys_byte_set_def pages_ok_def Let_def)

lemma falloc_byte_set [simp]: "falloc (phys_byte_set s a c) = falloc s"
  by (simp add: phys_byte_set_def Let_def)

lemma pages_byte_set: "b \<noteq> a - pa_page_offset a \<Longrightarrow> pages (phys_byte_set s a c) b = pages s b"
  by (simp add: phys_byte_set_def Let_def)

text \<open>The bytes \<open>cs\<close> stored at the addresses \<open>as\<close>, one after the other.\<close>

fun store_bytes :: "mm \<Rightarrow> PhysAddr list \<Rightarrow> u8 list \<Rightarrow> mm" where
  "store_bytes s (a # as) (c # cs) = store_bytes (phys_byte_set s a c) as cs"
| "store_bytes s as cs = s"

lemma pages_ok_store [simp]: "pages_ok s \<Longrightarrow> pages_ok (store_bytes s as cs)"
  by (induction s as cs rule: store_bytes.induct) auto

lemma falloc_store [simp]: "falloc (store_bytes s as cs) = falloc s"
  by (induction s as cs rule: store_bytes.induct) auto

lemma store_outside: "pages_ok s \<Longrightarrow> a \<notin> set as \<Longrightarrow> phys_byte (store_bytes s as cs) a = phys_byte s a"
  by (induction s as cs rule: store_bytes.induct) auto

lemma store_inside:
  "pages_ok s \<Longrightarrow> distinct as \<Longrightarrow> map (phys_byte (store_bytes s as cs)) (take (length cs) as) = take (length as) cs"
  by (induction s as cs rule: store_bytes.induct) (auto simp: store_outside)

lemma pages_store:
  "\<forall>x \<in> set as. b \<noteq> x - pa_page_offset x \<Longrightarrow> pages (store_bytes s as cs) b = pages s b"
  by (induction s as cs rule: store_bytes.induct) (auto simp: pages_byte_set)

definition run_addrs :: "PhysAddr \<Rightarrow> nat \<Rightarrow> PhysAddr list" where
  "run_addrs pa n = map (\<lambda>k. pa + word_of_nat k) [0..<n]"

lemma run_addrs_Suc: "run_addrs pa (Suc n) = pa # run_addrs (pa + 1) n"
  unfolding run_addrs_def map_upt_Suc by (simp add: add_ac)

lemma length_run_addrs [simp]: "length (run_addrs pa n) = n"
  by (simp add: run_addrs_def)

lemma distinct_run_addrs: "n \<le> 2 ^ 64 \<Longrightarrow> distinct (run_addrs pa n)"
proof -
  assume n: "n \<le> 2 ^ 64"
  have "inj_on (\<lambda>k. pa + word_of_nat k) {0..<n}"
  proof (rule inj_onI)
    fix i j assume "i \<in> {0..<n}" "j \<in> {0..<n}" "pa + word_of_nat i = pa + word_of_nat j"
    then have "(word_of_nat i :: usize) = word_of_nat j" "i < 2 ^ 64" "j < 2 ^ 64" using n by auto
    then have "unat (word_of_nat i :: usize) = unat (word_of_nat j :: usize)" by simp
    then show "i = j" using \<open>i < 2 ^ 64\<close> \<open>j < 2 ^ 64\<close> by (simp add: unat_of_nat)
  qed
  then show ?thesis by (simp add: run_addrs_def distinct_map)
qed

lemma write_phys_store: "write_phys s pa bs = store_bytes s (run_addrs pa (length bs)) bs"
  by (induction s pa bs rule: write_phys.induct) (simp_all add: run_addrs_Suc)

lemma read_phys_run: "read_phys s pa n = map (phys_byte s) (run_addrs pa n)"
  by (simp add: read_phys_def run_addrs_def)

lemma read_write_phys:
  assumes "pages_ok s" and "length bs \<le> 2 ^ 64"
  shows "read_phys (write_phys s pa bs) pa (length bs) = bs"
  using store_inside [OF assms(1) distinct_run_addrs [OF assms(2)], of pa bs]
  unfolding write_phys_store read_phys_run by simp

lemma pages_ok_write_phys [simp]: "pages_ok s \<Longrightarrow> pages_ok (write_phys s pa bs)"
  by (simp add: write_phys_store)

end
