(* ===== verification/Queues.thy ===== *)
theory Queues
  imports Prelude
begin

text \<open>
  The contract of a first-in first-out queue that may have a bounded capacity.  The kernel relies on
  it in two places: the ready queue of the scheduler and the ring buffer of a pipe.  The locale
  proves once, for any sequence of operations that respects the guards, that what leaves the queue
  followed by what is still in it is what was in it followed by what entered: nothing is lost,
  duplicated or reordered.
\<close>

datatype 'a queue_op = Put 'a | Get

fun puts :: "'a queue_op list \<Rightarrow> 'a list" where
  "puts [] = []"
| "puts (Put a # ops) = a # puts ops"
| "puts (Get # ops) = puts ops"

fun serve_queue :: "('s \<Rightarrow> 'a \<Rightarrow> 's option) \<Rightarrow> ('s \<Rightarrow> ('a \<times> 's) option) \<Rightarrow> 's \<Rightarrow> 'a queue_op list \<Rightarrow>
    ('a list \<times> 's) option" where
  "serve_queue put get s [] = Some ([], s)"
| "serve_queue put get s (Put a # ops) = do { s \<leftarrow> put s a; serve_queue put get s ops }"
| "serve_queue put get s (Get # ops) =
     do { (a, s) \<leftarrow> get s; (out, s) \<leftarrow> serve_queue put get s ops; Some (a # out, s) }"

text \<open>The guards: an element is put only into a queue with room and taken only from one that is not empty.\<close>

fun guarded :: "nat \<Rightarrow> nat \<Rightarrow> 'a queue_op list \<Rightarrow> bool" where
  "guarded cap n [] \<longleftrightarrow> True"
| "guarded cap n (Put a # ops) \<longleftrightarrow> n < cap \<and> guarded cap (Suc n) ops"
| "guarded cap n (Get # ops) \<longleftrightarrow> 0 < n \<and> guarded cap (n - 1) ops"

locale fifo =
  fixes ok :: "'s \<Rightarrow> bool"
    and items :: "'s \<Rightarrow> 'a list"
    and cap :: nat
    and put :: "'s \<Rightarrow> 'a \<Rightarrow> 's option"
    and get :: "'s \<Rightarrow> ('a \<times> 's) option"
  assumes put_law: "ok s \<Longrightarrow> length (items s) < cap \<Longrightarrow> \<exists>s'. put s a = Some s' \<and> ok s' \<and> items s' = items s @ [a]"
    and get_law: "ok s \<Longrightarrow> items s = a # as \<Longrightarrow> \<exists>s'. get s = Some (a, s') \<and> ok s' \<and> items s' = as"
begin

lemma serve_ok:
  assumes "ok s" and "guarded cap (length (items s)) ops"
  shows "\<exists>out s'. serve_queue put get s ops = Some (out, s') \<and> ok s' \<and> items s @ puts ops = out @ items s'"
  using assms
proof (induction ops arbitrary: s)
  case (Cons op ops)
  show ?case
  proof (cases op)
    case (Put a)
    with Cons.prems obtain s1 where s1: "put s a = Some s1" "ok s1" "items s1 = items s @ [a]"
      using put_law [of s a] by auto
    then obtain out s' where "serve_queue put get s1 ops = Some (out, s')" "ok s'" "items s1 @ puts ops = out @ items s'"
      using Cons.IH [of s1] Cons.prems(2) Put by auto
    then show ?thesis using Put s1 by simp
  next
    case Get
    with Cons.prems obtain a as where a: "items s = a # as" by (cases "items s") auto
    then obtain s1 where s1: "get s = Some (a, s1)" "ok s1" "items s1 = as" using get_law [OF Cons.prems(1)] by auto
    then obtain out s' where "serve_queue put get s1 ops = Some (out, s')" "ok s'" "items s1 @ puts ops = out @ items s'"
      using Cons.IH [of s1] Cons.prems(2) Get a by auto
    then show ?thesis using Get s1 a by simp
  qed
qed simp

lemma put_all:
  assumes "ok s" and "length (items s) + length as \<le> cap"
  shows "\<exists>s'. serve_queue put get s (map Put as) = Some ([], s') \<and> ok s' \<and> items s' = items s @ as"
  using assms
proof (induction as arbitrary: s)
  case (Cons a as)
  then obtain s1 where s1: "put s a = Some s1" "ok s1" "items s1 = items s @ [a]" using put_law [of s a] by auto
  then show ?case using Cons.IH [of s1] Cons.prems(2) by auto
qed simp

end

end
