(* ===== verification/Pipe.thy ===== *)
theory Pipe
  imports User_Mem Queues
begin

text \<open>
  Pipes (os8-ref/src/fs/pipe.rs): the ring buffer and the two blocking loops over it.  A ring buffer
  is shared by the two ends of a pipe; its \<^verbatim>\<open>write_end\<close> is a weak reference, here the position of the
  write end in the kernel's table of open files, and whether that file is still alive is an argument
  of the read loop.  A \<^verbatim>\<open>read\<close> or \<^verbatim>\<open>write\<close> runs until it returns or suspends its task: a \<open>turn\<close> is what
  runs between two suspensions, and carries the user buffer's iterator and the byte count from one
  turn to the next.

  The ring buffer is shown to be a queue of at most 32 bytes (an interpretation of \<open>fifo\<close>), and the
  turns to move exactly the bytes of the user buffers, in order, until the user buffer or the ring
  buffer is exhausted.
\<close>

subsection \<open>Ring buffers\<close>

record Pipe =
  p_readable :: bool
  p_writable :: bool
  p_buffer :: nat

definition read_end_with_buffer :: "nat \<Rightarrow> Pipe" where
  "read_end_with_buffer buffer = \<lparr>p_readable = True, p_writable = False, p_buffer = buffer\<rparr>"

definition write_end_with_buffer :: "nat \<Rightarrow> Pipe" where
  "write_end_with_buffer buffer = \<lparr>p_readable = False, p_writable = True, p_buffer = buffer\<rparr>"

definition RING_BUFFER_SIZE :: usize where "RING_BUFFER_SIZE = 32"

datatype RingBufferStatus = FULL | EMPTY | NORMAL

record PipeRingBuffer =
  rb_arr :: "u8 list"
  rb_head :: usize
  rb_tail :: usize
  rb_status :: RingBufferStatus
  rb_write_end :: "nat option"

definition rb_new :: PipeRingBuffer where
  "rb_new = \<lparr>rb_arr = replicate (unat RING_BUFFER_SIZE) 0, rb_head = 0, rb_tail = 0, rb_status = EMPTY, rb_write_end = None\<rparr>"

definition set_write_end :: "PipeRingBuffer \<Rightarrow> nat \<Rightarrow> PipeRingBuffer" where
  "set_write_end rb w = rb\<lparr>rb_write_end := Some w\<rparr>"

definition write_byte :: "PipeRingBuffer \<Rightarrow> u8 \<Rightarrow> PipeRingBuffer option" where
  "write_byte rb byte =
     do { let rb = rb\<lparr>rb_status := NORMAL\<rparr>;
          arr \<leftarrow> index_set (rb_arr rb) (unat (rb_tail rb)) byte;
          let rb = rb\<lparr>rb_arr := arr\<rparr>;
          let rb = rb\<lparr>rb_tail := (rb_tail rb + 1) mod RING_BUFFER_SIZE\<rparr>;
          Some (if rb_tail rb = rb_head rb then rb\<lparr>rb_status := FULL\<rparr> else rb) }"

definition read_byte :: "PipeRingBuffer \<Rightarrow> (u8 \<times> PipeRingBuffer) option" where
  "read_byte rb =
     do { let rb = rb\<lparr>rb_status := NORMAL\<rparr>;
          c \<leftarrow> index (rb_arr rb) (unat (rb_head rb));
          let rb = rb\<lparr>rb_head := (rb_head rb + 1) mod RING_BUFFER_SIZE\<rparr>;
          Some (c, if rb_head rb = rb_tail rb then rb\<lparr>rb_status := EMPTY\<rparr> else rb) }"

definition available_read :: "PipeRingBuffer \<Rightarrow> usize" where
  "available_read rb =
     (if rb_status rb = EMPTY then 0
      else if rb_tail rb > rb_head rb then rb_tail rb - rb_head rb
      else rb_tail rb + RING_BUFFER_SIZE - rb_head rb)"

definition available_write :: "PipeRingBuffer \<Rightarrow> usize" where
  "available_write rb = (if rb_status rb = FULL then 0 else RING_BUFFER_SIZE - available_read rb)"

subsection \<open>The blocking loops\<close>

text \<open>
  The \<^verbatim>\<open>for\<close> loops: at most \<open>k\<close> bytes, with the flag that the user buffer ran out (the early
  \<^verbatim>\<open>return\<close> of the source).
\<close>

fun rd_loop :: "nat \<Rightarrow> mm \<Rightarrow> PipeRingBuffer \<Rightarrow> UserBufferIterator \<Rightarrow> usize \<Rightarrow>
    (bool \<times> mm \<times> PipeRingBuffer \<times> UserBufferIterator \<times> usize) option" where
  "rd_loop 0 s rb it n = Some (False, s, rb, it, n)"
| "rd_loop (Suc k) s rb it n =
     do { (r, it) \<leftarrow> ubi_next it;
          (case r of
             None \<Rightarrow> Some (True, s, rb, it, n)
           | Some byte_ref \<Rightarrow> do { (c, rb) \<leftarrow> read_byte rb; rd_loop k (phys_byte_set s byte_ref c) rb it (n + 1) }) }"

fun wr_loop :: "nat \<Rightarrow> mm \<Rightarrow> PipeRingBuffer \<Rightarrow> UserBufferIterator \<Rightarrow> usize \<Rightarrow>
    (bool \<times> PipeRingBuffer \<times> UserBufferIterator \<times> usize) option" where
  "wr_loop 0 s rb it n = Some (False, rb, it, n)"
| "wr_loop (Suc k) s rb it n =
     do { (r, it) \<leftarrow> ubi_next it;
          (case r of
             None \<Rightarrow> Some (True, rb, it, n)
           | Some byte_ref \<Rightarrow> do { rb \<leftarrow> write_byte rb (phys_byte s byte_ref); wr_loop k s rb it (n + 1) }) }"

text \<open>
  A turn ends with \<open>Returned\<close> and the byte count, or \<open>Suspended\<close> with the iterator and the count at
  the call of \<^verbatim>\<open>suspend_current_and_run_next\<close>.
\<close>

datatype turn = Returned usize | Suspended UserBufferIterator usize

partial_function (option) pipe_read_turn :: "bool \<Rightarrow> mm \<Rightarrow> PipeRingBuffer \<Rightarrow> UserBufferIterator \<Rightarrow> usize \<Rightarrow>
    (turn \<times> mm \<times> PipeRingBuffer) option" where
  "pipe_read_turn closed s rb it n =
     (let loop_read = available_read rb
      in if loop_read = 0 then
           do { rassert (rb_write_end rb \<noteq> None);
                Some (if closed then Returned n else Suspended it n, s, rb) }
         else
           do { (done, s, rb, it, n) \<leftarrow> rd_loop (unat loop_read) s rb it n;
                if done then Some (Returned n, s, rb) else pipe_read_turn closed s rb it n })"

partial_function (option) pipe_write_turn :: "mm \<Rightarrow> PipeRingBuffer \<Rightarrow> UserBufferIterator \<Rightarrow> usize \<Rightarrow>
    (turn \<times> PipeRingBuffer) option" where
  "pipe_write_turn s rb it n =
     (let loop_write = available_write rb
      in if loop_write = 0 then Some (Suspended it n, rb)
         else
           do { (done, rb, it, n) \<leftarrow> wr_loop (unat loop_write) s rb it n;
                if done then Some (Returned n, rb) else pipe_write_turn s rb it n })"

subsection \<open>The ring buffer is a queue\<close>

definition rb_len :: "PipeRingBuffer \<Rightarrow> nat" where
  "rb_len rb = (let h = unat (rb_head rb); t = unat (rb_tail rb)
     in if rb_status rb = EMPTY then 0 else if h < t then t - h else t + 32 - h)"

definition rb_ok :: "PipeRingBuffer \<Rightarrow> bool" where
  "rb_ok rb \<longleftrightarrow> length (rb_arr rb) = 32 \<and> unat (rb_head rb) < 32 \<and> unat (rb_tail rb) < 32 \<and>
     (rb_status rb = NORMAL \<longleftrightarrow> rb_head rb \<noteq> rb_tail rb)"

definition rb_items :: "PipeRingBuffer \<Rightarrow> u8 list" where
  "rb_items rb = map (\<lambda>i. rb_arr rb ! ((unat (rb_head rb) + i) mod 32)) [0..<rb_len rb]"

lemma length_rb_items [simp]: "length (rb_items rb) = rb_len rb"
  by (simp add: rb_items_def)

lemma mod_32: "x < 64 \<Longrightarrow> x mod 32 = (if x < 32 then x else x - 32)" for x :: nat
  by (simp add: mod_if)

lemma unat_next_32: "unat w < 32 \<Longrightarrow> unat ((w + 1) mod 32) = (unat w + 1) mod 32" for w :: usize
proof -
  assume w: "unat w < 32"
  then have "unat (w + 1) = unat w + 1" using unat_plus_simple [of w 1] by (simp add: no_olen_add_nat)
  then show ?thesis by (simp add: unat_mod_distrib)
qed

lemma rb_len_le: "rb_ok rb \<Longrightarrow> rb_len rb \<le> 32"
  by (auto simp: rb_len_def rb_ok_def Let_def)

lemma rb_len_full: "rb_ok rb \<Longrightarrow> rb_status rb = FULL \<longleftrightarrow> rb_len rb = 32"
  by (cases "rb_status rb") (auto simp: rb_len_def rb_ok_def Let_def word_unat_eq_iff)

lemma available_read_len: "rb_ok rb \<Longrightarrow> unat (available_read rb) = rb_len rb"
proof -
  assume ok: "rb_ok rb"
  have "unat (rb_tail rb - rb_head rb) = unat (rb_tail rb) - unat (rb_head rb)" if "rb_tail rb > rb_head rb"
    using that by (simp add: unat_sub_if_size word_less_nat_alt)
  moreover have "unat (rb_tail rb + 32 - rb_head rb) = unat (rb_tail rb) + 32 - unat (rb_head rb)"
  proof -
    have "unat (rb_tail rb + 32) = unat (rb_tail rb) + 32"
      using ok unat_plus_simple [of "rb_tail rb" 32] by (simp add: rb_ok_def no_olen_add_nat)
    then show ?thesis using ok by (simp add: unat_sub_if_size rb_ok_def)
  qed
  ultimately show ?thesis
    by (simp add: available_read_def rb_len_def RING_BUFFER_SIZE_def Let_def word_less_nat_alt)
qed

lemma available_write_len: "rb_ok rb \<Longrightarrow> unat (available_write rb) = 32 - rb_len rb"
proof -
  assume ok: "rb_ok rb"
  have "unat (32 - available_read rb) = 32 - rb_len rb"
    using available_read_len [OF ok] rb_len_le [OF ok] by (simp add: unat_sub_if_size)
  then show ?thesis using rb_len_full [OF ok] by (simp add: available_write_def RING_BUFFER_SIZE_def)
qed

lemma write_byte_ok:
  assumes ok: "rb_ok rb" and room: "rb_len rb < 32"
  shows "\<exists>rb'. write_byte rb b = Some rb' \<and> rb_ok rb' \<and> rb_items rb' = rb_items rb @ [b] \<and> rb_write_end rb' = rb_write_end rb"
proof -
  define h t where "h = unat (rb_head rb)" and "t = unat (rb_tail rb)"
  have ht: "h < 32" "t < 32" "length (rb_arr rb) = 32" using ok by (auto simp: rb_ok_def h_def t_def)
  have st: "rb_status rb \<noteq> FULL" using rb_len_full [OF ok] room by simp
  have len: "rb_len rb = (if rb_status rb = EMPTY then 0 else if h < t then t - h else t + 32 - h)"
    by (simp add: rb_len_def h_def t_def Let_def)
  have eq: "rb_status rb = EMPTY \<longleftrightarrow> h = t"
    using ok st by (cases "rb_status rb") (auto simp: rb_ok_def h_def t_def word_unat_eq_iff)
  have tl: "t = (h + rb_len rb) mod 32" using ht len eq by (auto simp: mod_32)
  define rb' where "rb' = (let rb1 = rb\<lparr>rb_status := NORMAL, rb_arr := (rb_arr rb)[t := b], rb_tail := (rb_tail rb + 1) mod 32\<rparr>
    in if rb_tail rb1 = rb_head rb1 then rb1\<lparr>rb_status := FULL\<rparr> else rb1)"
  have w: "write_byte rb b = Some rb'"
    using ht by (simp add: write_byte_def rb'_def RING_BUFFER_SIZE_def Let_def t_def)
  have t': "unat ((rb_tail rb + 1) mod 32) = (t + 1) mod 32" using ht by (simp add: unat_next_32 t_def)
  have f: "rb_arr rb' = (rb_arr rb)[t := b]" "rb_head rb' = rb_head rb" "unat (rb_tail rb') = (t + 1) mod 32"
    "rb_status rb' = (if h = (t + 1) mod 32 then FULL else NORMAL)" "rb_write_end rb' = rb_write_end rb"
    using t' by (auto simp: rb'_def Let_def h_def word_unat_eq_iff)
  have ok': "rb_ok rb'" using f ht by (auto simp: rb_ok_def h_def word_unat_eq_iff)
  have len': "rb_len rb' = Suc (rb_len rb)"
    using f ht len eq room by (auto simp: rb_len_def [of rb'] Let_def h_def [symmetric] mod_32 split: if_splits)
  have ne: "t \<noteq> (h + i) mod 32" if "i < rb_len rb" for i
    using tl that room ht by (auto simp: mod_32 split: if_splits)
  have "(rb_arr rb)[t := b] ! ((h + i) mod 32) = rb_arr rb ! ((h + i) mod 32)" if "i < rb_len rb" for i
    by (rule nth_list_update_neq [OF ne [OF that]])
  moreover have "(rb_arr rb)[t := b] ! ((h + rb_len rb) mod 32) = b" using tl ht by simp
  ultimately have "rb_items rb' = rb_items rb @ [b]"
    unfolding rb_items_def f(1,2) len' h_def [symmetric] by simp
  then show ?thesis using w ok' f by blast
qed

lemma read_byte_ok:
  assumes ok: "rb_ok rb" and ne: "rb_items rb = c # cs"
  shows "\<exists>rb'. read_byte rb = Some (c, rb') \<and> rb_ok rb' \<and> rb_items rb' = cs \<and> rb_write_end rb' = rb_write_end rb"
proof -
  define h t where "h = unat (rb_head rb)" and "t = unat (rb_tail rb)"
  have ht: "h < 32" "t < 32" "length (rb_arr rb) = 32" using ok by (auto simp: rb_ok_def h_def t_def)
  have pos: "0 < rb_len rb" using arg_cong [OF ne, of length] by simp
  then have st: "rb_status rb \<noteq> EMPTY" by (auto simp: rb_len_def)
  have len: "rb_len rb = (if h < t then t - h else t + 32 - h)"
    using st by (simp add: rb_len_def h_def t_def Let_def)
  define rb' where "rb' = (let rb1 = rb\<lparr>rb_status := NORMAL, rb_head := (rb_head rb + 1) mod 32\<rparr>
    in if rb_head rb1 = rb_tail rb1 then rb1\<lparr>rb_status := EMPTY\<rparr> else rb1)"
  have r: "read_byte rb = Some (rb_arr rb ! h, rb')"
    using ht by (simp add: read_byte_def rb'_def RING_BUFFER_SIZE_def Let_def h_def)
  have h': "unat ((rb_head rb + 1) mod 32) = (h + 1) mod 32" using ht by (simp add: unat_next_32 h_def)
  have f: "rb_arr rb' = rb_arr rb" "unat (rb_head rb') = (h + 1) mod 32" "rb_tail rb' = rb_tail rb"
    "rb_status rb' = (if (h + 1) mod 32 = t then EMPTY else NORMAL)" "rb_write_end rb' = rb_write_end rb"
    using h' by (auto simp: rb'_def Let_def t_def word_unat_eq_iff)
  have ok': "rb_ok rb'" using f ht by (auto simp: rb_ok_def t_def word_unat_eq_iff)
  have len': "Suc (rb_len rb') = rb_len rb"
    using f ht len by (auto simp: rb_len_def [of rb'] Let_def t_def [symmetric] mod_32 split: if_splits)
  have "rb_items rb = map (\<lambda>i. rb_arr rb ! ((h + i) mod 32)) (0 # map Suc [0..<rb_len rb'])"
    using len' by (simp add: rb_items_def h_def map_Suc_upt flip: upt_conv_Cons)
  also have "\<dots> = rb_arr rb ! h # rb_items rb'"
    using f ht by (simp add: rb_items_def mod_simps add_ac)
  finally show ?thesis using r ok' f ne by simp
qed

interpretation ring: fifo rb_ok rb_items 32 write_byte read_byte
proof
  show "\<exists>s'. write_byte s a = Some s' \<and> rb_ok s' \<and> rb_items s' = rb_items s @ [a]" if "rb_ok s" "length (rb_items s) < 32" for s a
    using write_byte_ok [OF that(1), of a] that(2) by auto
  show "\<exists>s'. read_byte s = Some (a, s') \<and> rb_ok s' \<and> rb_items s' = as" if "rb_ok s" "rb_items s = a # as" for s a as
    using read_byte_ok [OF that] by auto
qed

lemma rb_new_ok: "rb_ok (set_write_end rb_new w) \<and> rb_items (set_write_end rb_new w) = []"
  by (simp add: rb_ok_def rb_items_def rb_len_def rb_new_def set_write_end_def RING_BUFFER_SIZE_def)

subsection \<open>The turns\<close>

lemma rd_loop_ok:
  assumes "rb_ok rb" and "ubi_ok it" and "k \<le> rb_len rb"
  shows "\<exists>rb' it'. rd_loop k s rb it n =
      Some (length (ubi_rest it) < k, store_bytes s (ubi_rest it) (take k (rb_items rb)), rb', it',
            n + word_of_nat (min k (length (ubi_rest it)))) \<and>
    rb_ok rb' \<and> rb_items rb' = drop (min k (length (ubi_rest it))) (rb_items rb) \<and> rb_write_end rb' = rb_write_end rb \<and>
    ubi_ok it' \<and> ubi_rest it' = drop k (ubi_rest it)"
  using assms
proof (induction k arbitrary: s rb it n)
  case 0
  then show ?case by (cases "ubi_rest it") simp_all
next
  case (Suc k)
  obtain it1 where it1: "ubi_next it = Some (if ubi_rest it = [] then None else Some (hd (ubi_rest it)), it1)"
    "ubi_ok it1" "ubi_rest it1 = tl (ubi_rest it)"
    using ubi_next_ok [OF Suc.prems(2)] by blast
  show ?case
  proof (cases "ubi_rest it")
    case Nil
    then show ?thesis using it1 Suc.prems by (auto simp: it1(3))
  next
    case (Cons a as)
    obtain c cs where cs: "rb_items rb = c # cs"
      using Suc.prems(3) length_rb_items [of rb] by (cases "rb_items rb") auto
    obtain rb1 where rb1: "read_byte rb = Some (c, rb1)" "rb_ok rb1" "rb_items rb1 = cs" "rb_write_end rb1 = rb_write_end rb"
      using read_byte_ok [OF Suc.prems(1) cs] by blast
    have "k \<le> rb_len rb1" using Suc.prems(3) cs rb1(3) length_rb_items [of rb] length_rb_items [of rb1] by simp
    from Suc.IH [OF rb1(2) it1(2) this, of "phys_byte_set s a c" "n + 1"]
    show ?thesis using Cons it1 cs rb1 by (auto simp: min_def add_ac)
  qed
qed

lemma wr_loop_ok:
  assumes "rb_ok rb" and "ubi_ok it" and "k + rb_len rb \<le> 32"
  shows "\<exists>rb' it'. wr_loop k s rb it n =
      Some (length (ubi_rest it) < k, rb', it', n + word_of_nat (min k (length (ubi_rest it)))) \<and>
    rb_ok rb' \<and> rb_items rb' = rb_items rb @ map (phys_byte s) (take k (ubi_rest it)) \<and> rb_write_end rb' = rb_write_end rb \<and>
    ubi_ok it' \<and> ubi_rest it' = drop k (ubi_rest it)"
  using assms
proof (induction k arbitrary: rb it n)
  case 0
  then show ?case by simp
next
  case (Suc k)
  obtain it1 where it1: "ubi_next it = Some (if ubi_rest it = [] then None else Some (hd (ubi_rest it)), it1)"
    "ubi_ok it1" "ubi_rest it1 = tl (ubi_rest it)"
    using ubi_next_ok [OF Suc.prems(2)] by blast
  show ?case
  proof (cases "ubi_rest it")
    case Nil
    then show ?thesis using it1 Suc.prems by (auto simp: it1(3))
  next
    case (Cons a as)
    obtain rb1 where rb1: "write_byte rb (phys_byte s a) = Some rb1" "rb_ok rb1"
      "rb_items rb1 = rb_items rb @ [phys_byte s a]" "rb_write_end rb1 = rb_write_end rb"
      using write_byte_ok [OF Suc.prems(1), of "phys_byte s a"] Suc.prems(3) by auto
    have "k + rb_len rb1 \<le> 32" using Suc.prems(3) arg_cong [OF rb1(3), of length] by simp
    from Suc.IH [OF rb1(2) it1(2) this, of "n + 1"]
    show ?thesis using Cons it1 rb1 by (auto simp: min_def add_ac)
  qed
qed

text \<open>
  A read turn takes from the ring buffer what the user buffer can hold.  It returns when the user
  buffer was too small for the bytes in the ring buffer or the write end is closed, and suspends
  otherwise: a user buffer that is filled exactly is not enough to return.
\<close>

lemma pipe_read_turn_ok:
  assumes "rb_ok rb" and "ubi_ok it" and "rb_write_end rb \<noteq> None"
  defines "k \<equiv> min (rb_len rb) (length (ubi_rest it))"
  shows "\<exists>rb' it'. pipe_read_turn closed s rb it n =
      Some (if closed \<or> length (ubi_rest it) < rb_len rb then Returned (n + word_of_nat k) else Suspended it' (n + word_of_nat k),
            store_bytes s (ubi_rest it) (rb_items rb), rb') \<and>
    rb_ok rb' \<and> rb_items rb' = drop k (rb_items rb) \<and> rb_write_end rb' = rb_write_end rb \<and>
    ubi_ok it' \<and> ubi_rest it' = drop k (ubi_rest it)"
proof (cases "rb_len rb = 0")
  case True
  then have "available_read rb = 0" using available_read_len [OF assms(1)] by (simp add: unat_eq_zero)
  moreover have "rb_items rb = []" using True by (simp add: rb_items_def)
  ultimately show ?thesis using assms True
    by (subst pipe_read_turn.simps) (cases "ubi_rest it", auto simp: Let_def)
next
  case False
  let ?l = "rb_len rb"
  have al: "available_read rb \<noteq> 0" "unat (available_read rb) = ?l"
    using available_read_len [OF assms(1)] False by auto
  obtain rb1 it1 where r: "rd_loop ?l s rb it n =
      Some (length (ubi_rest it) < ?l, store_bytes s (ubi_rest it) (rb_items rb), rb1, it1, n + word_of_nat k)"
    "rb_ok rb1" "rb_items rb1 = drop k (rb_items rb)" "rb_write_end rb1 = rb_write_end rb"
    "ubi_ok it1" "ubi_rest it1 = drop ?l (ubi_rest it)"
    using rd_loop_ok [OF assms(1,2), of ?l s n] by (auto simp: k_def)
  have turn: "pipe_read_turn closed s rb it n =
    (if length (ubi_rest it) < ?l then Some (Returned (n + word_of_nat k), store_bytes s (ubi_rest it) (rb_items rb), rb1)
     else pipe_read_turn closed (store_bytes s (ubi_rest it) (rb_items rb)) rb1 it1 (n + word_of_nat k))"
    using al r(1) by (subst pipe_read_turn.simps) (simp add: Let_def)
  show ?thesis
  proof (cases "length (ubi_rest it) < ?l")
    case True
    then show ?thesis using turn r by (auto simp: k_def)
  next
    case False
    then have k: "k = ?l" by (simp add: k_def)
    then have "rb_items rb1 = []" using r(3) by simp
    then have "rb_len rb1 = 0" using length_rb_items [of rb1] by simp
    then have "available_read rb1 = 0" using available_read_len [OF r(2)] by (simp add: unat_eq_zero)
    then have "pipe_read_turn closed (store_bytes s (ubi_rest it) (rb_items rb)) rb1 it1 (n + word_of_nat k) =
      Some (if closed then Returned (n + word_of_nat k) else Suspended it1 (n + word_of_nat k),
            store_bytes s (ubi_rest it) (rb_items rb), rb1)"
      using r(4) assms(3) by (subst pipe_read_turn.simps) (simp add: Let_def)
    then show ?thesis using turn r False k by auto
  qed
qed

text \<open>
  A write turn moves what fits.  It returns when there was more room than bytes; a write that fills
  the ring buffer exactly suspends although every byte has been written.
\<close>

lemma pipe_write_turn_ok:
  assumes "rb_ok rb" and "ubi_ok it"
  defines "k \<equiv> min (32 - rb_len rb) (length (ubi_rest it))"
  shows "\<exists>rb' it'. pipe_write_turn s rb it n =
      Some (if length (ubi_rest it) < 32 - rb_len rb then Returned (n + word_of_nat k) else Suspended it' (n + word_of_nat k), rb') \<and>
    rb_ok rb' \<and> rb_items rb' = rb_items rb @ map (phys_byte s) (take k (ubi_rest it)) \<and> rb_write_end rb' = rb_write_end rb \<and>
    ubi_ok it' \<and> ubi_rest it' = drop k (ubi_rest it)"
proof (cases "rb_len rb = 32")
  case True
  then have "available_write rb = 0" using available_write_len [OF assms(1)] by (simp add: unat_eq_zero)
  then show ?thesis using assms True by (subst pipe_write_turn.simps) (auto simp: Let_def)
next
  case False
  let ?l = "32 - rb_len rb"
  have lt: "rb_len rb < 32" using False rb_len_le [OF assms(1)] by simp
  have al: "available_write rb \<noteq> 0" "unat (available_write rb) = ?l"
    using available_write_len [OF assms(1)] lt by auto
  obtain rb1 it1 where r: "wr_loop ?l s rb it n =
      Some (length (ubi_rest it) < ?l, rb1, it1, n + word_of_nat k)"
    "rb_ok rb1" "rb_items rb1 = rb_items rb @ map (phys_byte s) (take ?l (ubi_rest it))" "rb_write_end rb1 = rb_write_end rb"
    "ubi_ok it1" "ubi_rest it1 = drop ?l (ubi_rest it)"
    using wr_loop_ok [OF assms(1,2), of ?l s n] lt by (auto simp: k_def)
  have turn: "pipe_write_turn s rb it n =
    (if length (ubi_rest it) < ?l then Some (Returned (n + word_of_nat k), rb1)
     else pipe_write_turn s rb1 it1 (n + word_of_nat k))"
    using al r(1) by (subst pipe_write_turn.simps) (simp add: Let_def)
  show ?thesis
  proof (cases "length (ubi_rest it) < ?l")
    case True
    then show ?thesis using turn r by (auto simp: k_def)
  next
    case False
    then have k: "k = ?l" by (simp add: k_def)
    then have "rb_len rb1 = 32" using arg_cong [OF r(3), of length] lt False by simp
    then have "available_write rb1 = 0" using available_write_len [OF r(2)] by (simp add: unat_eq_zero)
    then have "pipe_write_turn s rb1 it1 (n + word_of_nat k) = Some (Suspended it1 (n + word_of_nat k), rb1)"
      by (subst pipe_write_turn.simps) (simp add: Let_def)
    then show ?thesis using turn r False k by auto
  qed
qed

subsection \<open>The byte stream\<close>

text \<open>
  A history of turns of readers and writers, each with the physical memory, the iterator and the
  count it starts with; memory may change in any way between two turns.  A trace collects the bytes
  that the write turns took out of user memory and the bytes that user memory holds after the read
  turns at the addresses they passed.
\<close>

datatype pipe_event =
  WriteTurn mm UserBufferIterator usize
| ReadTurn bool mm UserBufferIterator usize

fun turn_count :: "turn \<Rightarrow> usize" where
  "turn_count (Returned n) = n"
| "turn_count (Suspended it n) = n"

fun pipe_trace :: "PipeRingBuffer \<Rightarrow> pipe_event list \<Rightarrow> (u8 list \<times> u8 list \<times> PipeRingBuffer) option" where
  "pipe_trace rb [] = Some ([], [], rb)"
| "pipe_trace rb (WriteTurn s it n # evs) =
     do { (t, rb) \<leftarrow> pipe_write_turn s rb it n;
          let bs = map (phys_byte s) (take (unat (turn_count t - n)) (ubi_rest it));
          (w, r, rb) \<leftarrow> pipe_trace rb evs;
          Some (bs @ w, r, rb) }"
| "pipe_trace rb (ReadTurn closed s it n # evs) =
     do { (t, s', rb) \<leftarrow> pipe_read_turn closed s rb it n;
          let bs = map (phys_byte s') (take (unat (turn_count t - n)) (ubi_rest it));
          (w, r, rb) \<leftarrow> pipe_trace rb evs;
          Some (w, bs @ r, rb) }"

fun event_ok :: "pipe_event \<Rightarrow> bool" where
  "event_ok (WriteTurn s it n) = ubi_ok it"
| "event_ok (ReadTurn closed s it n) \<longleftrightarrow> ubi_ok it \<and> distinct (ubi_rest it) \<and> pages_ok s"

lemma unat_count: "k \<le> 32 \<Longrightarrow> unat (n + word_of_nat k - n :: usize) = k"
  by (simp add: unat_of_nat)

lemma pipe_trace_ok:
  assumes "rb_ok rb" and "rb_write_end rb \<noteq> None" and "list_all event_ok evs"
  shows "\<exists>w r rb'. pipe_trace rb evs = Some (w, r, rb') \<and> rb_ok rb' \<and> rb_items rb @ w = r @ rb_items rb'"
  using assms
proof (induction rb evs rule: pipe_trace.induct)
  case (1 rb)
  then show ?case by simp
next
  case (2 rb s it n evs)
  let ?k = "min (32 - rb_len rb) (length (ubi_rest it))"
  have "ubi_ok it" using "2.prems"(3) by simp
  let ?t = "\<lambda>it'. if length (ubi_rest it) < 32 - rb_len rb then Returned (n + word_of_nat ?k) else Suspended it' (n + word_of_nat ?k)"
  from pipe_write_turn_ok [OF "2.prems"(1) \<open>ubi_ok it\<close>, of s n] obtain it1 rb1 where
    t1: "pipe_write_turn s rb it n = Some (?t it1, rb1)"
    "rb_ok rb1" "rb_items rb1 = rb_items rb @ map (phys_byte s) (take ?k (ubi_rest it))" "rb_write_end rb1 = rb_write_end rb"
    by blast
  define t where "t = ?t it1"
  note t = t1(1) [folded t_def] t_def t1(2-4)
  have c: "turn_count t = n + word_of_nat ?k" by (simp add: t_def)
  have k: "unat (turn_count t - n) = ?k" unfolding c by (rule unat_count) simp
  obtain w r rb' where "pipe_trace rb1 evs = Some (w, r, rb')" "rb_ok rb'" "rb_items rb1 @ w = r @ rb_items rb'"
    using "2.IH" [OF t(1) refl refl t(3)] t(5) "2.prems" by auto
  then show ?case using t(1,4) k by (simp add: Let_def)
next
  case (3 rb closed s it n evs)
  let ?k = "min (rb_len rb) (length (ubi_rest it))"
  have ev: "ubi_ok it" "distinct (ubi_rest it)" "pages_ok s" using "3.prems" by auto
  let ?t = "\<lambda>it'. if closed \<or> length (ubi_rest it) < rb_len rb then Returned (n + word_of_nat ?k) else Suspended it' (n + word_of_nat ?k)"
  from pipe_read_turn_ok [OF "3.prems"(1) ev(1) "3.prems"(2), of closed s n] obtain it1 rb1 where
    t1: "pipe_read_turn closed s rb it n = Some (?t it1, store_bytes s (ubi_rest it) (rb_items rb), rb1)"
    "rb_ok rb1" "rb_items rb1 = drop ?k (rb_items rb)" "rb_write_end rb1 = rb_write_end rb"
    by blast
  define t where "t = ?t it1"
  note t = t1(1) [folded t_def] t_def t1(2-4)
  have c: "turn_count t = n + word_of_nat ?k" by (simp add: t_def)
  have k: "unat (turn_count t - n) = ?k" unfolding c by (rule unat_count) (use rb_len_le [OF "3.prems"(1)] in simp)
  have "map (phys_byte (store_bytes s (ubi_rest it) (rb_items rb))) (take ?k (ubi_rest it)) = take ?k (rb_items rb)"
    using store_inside [OF ev(3,2), of "rb_items rb"]
    by (cases "rb_len rb \<le> length (ubi_rest it)") (simp_all add: min_def)
  moreover obtain w r rb' where "pipe_trace rb1 evs = Some (w, r, rb')" "rb_ok rb'" "rb_items rb1 @ w = r @ rb_items rb'"
    using "3.IH" [OF t(1) refl refl refl t(3)] t(5) "3.prems" by auto
  ultimately show ?case using t(1,4) k by (simp add: Let_def) (metis append_assoc append_take_drop_id)
qed

text \<open>
  C9 (refinement).  A pipe implements a byte stream: whatever the order of the turns of its readers and
  writers, every turn ends, and the bytes delivered to the readers' memory so far, followed by the
  bytes in the ring buffer, are exactly the bytes taken from the writers' memory, in order.
\<close>
theorem pipe_is_stream:
  assumes "list_all event_ok evs"
  shows "\<exists>w r rb. pipe_trace (set_write_end rb_new f) evs = Some (w, r, rb) \<and> w = r @ rb_items rb \<and> length (rb_items rb) \<le> 32"
proof -
  have "rb_write_end (set_write_end rb_new f) \<noteq> None" by (simp add: set_write_end_def)
  from pipe_trace_ok [OF conjunct1 [OF rb_new_ok] this assms] show ?thesis using rb_new_ok [of f] rb_len_le by fastforce
qed

theorem pipe_is_stream_witness:
  "\<exists>w r rb. pipe_trace (set_write_end rb_new 7)
      [WriteTurn example_mm (ub_into_iter [(0x5000, 40)]) 0, ReadTurn False example_mm (ub_into_iter [(0x6000, 8)]) 0] =
      Some (w, r, rb) \<and> w = r @ rb_items rb"
proof -
  have "ub_addrs [(0x6000, 8)] = run_addrs 0x6000 8" by (simp add: ub_addrs_def slice_addrs_def run_addrs_def)
  then have "list_all event_ok [WriteTurn example_mm (ub_into_iter [(0x5000, 40)]) 0,
      ReadTurn False example_mm (ub_into_iter [(0x6000, 8)]) 0]"
    using ub_into_iter_ok [of "[(0x5000, 40)]"] ub_into_iter_ok [of "[(0x6000, 8)]"] distinct_run_addrs [of 8 "0x6000"]
    by (simp add: mm_ok_pages [OF example_mm_ok(1)])
  from pipe_is_stream [OF this, of 7] show ?thesis by blast
qed

end
