(* ===== verification/Trap_Context.thy ===== *)
theory Trap_Context
  imports User_Mem
begin

text \<open>
  The trap context (os8-ref/src/trap/context.rs): the registers of an application that the trampoline
  saves at the start of a page.  In memory it is 37 little-endian 64-bit words in the order of the
  \<^verbatim>\<open>repr(C)\<close> struct.  The value of the \<^verbatim>\<open>sstatus\<close> register is an argument of \<open>app_init_context\<close>;
  \<^verbatim>\<open>set_spp\<close> is the one of the \<^verbatim>\<open>riscv\<close> crate (ci-user/riscv/src/register/sstatus.rs).
\<close>

datatype SPP = Supervisor | User

definition set_spp :: "usize \<Rightarrow> SPP \<Rightarrow> usize" where
  "set_spp sstatus val = (if val = Supervisor then set_bit 8 sstatus else unset_bit 8 sstatus)"

record TrapContext =
  tc_x :: "usize list"
  tc_sstatus :: usize
  tc_sepc :: usize
  tc_kernel_satp :: usize
  tc_kernel_sp :: usize
  tc_trap_handler :: usize

definition set_sp :: "TrapContext \<Rightarrow> usize \<Rightarrow> TrapContext" where
  "set_sp cx sp = cx\<lparr>tc_x := (tc_x cx)[2 := sp]\<rparr>"

definition app_init_context :: "usize \<Rightarrow> usize \<Rightarrow> usize \<Rightarrow> usize \<Rightarrow> usize \<Rightarrow> usize \<Rightarrow> TrapContext" where
  "app_init_context sstatus entry_pc sp kernel_satp kernel_sp handler =
     (let sstatus = set_spp sstatus User;
          cx = \<lparr>tc_x = replicate 32 0, tc_sstatus = sstatus, tc_sepc = entry_pc, tc_kernel_satp = kernel_satp,
                tc_kernel_sp = kernel_sp, tc_trap_handler = handler\<rparr>
      in set_sp cx sp)"

subsection \<open>Layout in memory\<close>

definition tc_words :: "TrapContext \<Rightarrow> usize list" where
  "tc_words cx = tc_x cx @ [tc_sstatus cx, tc_sepc cx, tc_kernel_satp cx, tc_kernel_sp cx, tc_trap_handler cx]"

definition tc_of_words :: "usize list \<Rightarrow> TrapContext" where
  "tc_of_words ws = \<lparr>tc_x = take 32 ws, tc_sstatus = ws ! 32, tc_sepc = ws ! 33, tc_kernel_satp = ws ! 34,
     tc_kernel_sp = ws ! 35, tc_trap_handler = ws ! 36\<rparr>"

definition word_bytes :: "usize \<Rightarrow> u8 list" where
  "word_bytes w = le_bytes 8 (unat w)"

definition bytes_word :: "u8 list \<Rightarrow> usize" where
  "bytes_word bs = word_of_nat (un_le bs)"

definition tc_bytes :: "TrapContext \<Rightarrow> u8 list" where
  "tc_bytes cx = concat (map word_bytes (tc_words cx))"

definition tc_of_bytes :: "u8 list \<Rightarrow> TrapContext" where
  "tc_of_bytes bs = tc_of_words (map (\<lambda>k. bytes_word (take 8 (drop (8 * k) bs))) [0..<37])"

text \<open>Access to the context at the start of page \<open>ppn\<close>, through \<^verbatim>\<open>PhysPageNum::get_mut\<close>.\<close>

definition TC_SIZE :: nat where "TC_SIZE = 296"

definition read_trap_cx :: "mm \<Rightarrow> PhysPageNum \<Rightarrow> TrapContext option" where
  "read_trap_cx s ppn = map_option tc_of_bytes (get_ref s (pa_of_ppn ppn) TC_SIZE)"

definition write_trap_cx :: "mm \<Rightarrow> PhysPageNum \<Rightarrow> TrapContext \<Rightarrow> mm option" where
  "write_trap_cx s ppn cx = get_mut s (pa_of_ppn ppn) (tc_bytes cx)"

subsection \<open>Round trip\<close>

lemma bytes_word_bytes [simp]: "bytes_word (word_bytes w) = w"
proof -
  have "unat w < 2 ^ 64" using unsigned_less [of w] by simp
  then show ?thesis by (simp add: bytes_word_def word_bytes_def un_le_le_bytes)
qed

lemma length_word_bytes [simp]: "length (word_bytes w) = 8"
  by (simp add: word_bytes_def)

lemma length_usize_bytes [simp]: "length (concat (map word_bytes ws)) = 8 * length ws"
  by (induction ws) auto

lemma nth_words_bytes: "k < length ws \<Longrightarrow> take 8 (drop (8 * k) (concat (map word_bytes ws))) = word_bytes (ws ! k)"
proof (induction ws arbitrary: k)
  case (Cons w ws)
  then show ?case by (cases k) auto
qed simp

lemma tc_of_words_words: "length (tc_x cx) = 32 \<Longrightarrow> tc_of_words (tc_words cx) = cx"
  by (simp add: tc_of_words_def tc_words_def nth_append)

lemma tc_bytes_inverse: "length (tc_x cx) = 32 \<Longrightarrow> tc_of_bytes (tc_bytes cx) = cx"
proof -
  assume l: "length (tc_x cx) = 32"
  then have n: "length (tc_words cx) = 37" by (simp add: tc_words_def)
  have "map (\<lambda>k. bytes_word (take 8 (drop (8 * k) (tc_bytes cx)))) [0..<37] = map (\<lambda>k. tc_words cx ! k) [0..<37]"
    using n by (intro map_cong) (auto simp: tc_bytes_def nth_words_bytes)
  also have "\<dots> = tc_words cx" using n by (metis map_nth)
  finally show ?thesis using l by (simp add: tc_of_bytes_def tc_of_words_words)
qed

lemma length_tc_bytes: "length (tc_x cx) = 32 \<Longrightarrow> length (tc_bytes cx) = TC_SIZE"
  by (simp add: tc_bytes_def tc_words_def TC_SIZE_def)

lemma read_write_trap_cx:
  assumes "pages_ok s" and "length (tc_x cx) = 32" and "pa_of_ppn ppn \<noteq> 0"
  shows "\<exists>s'. write_trap_cx s ppn cx = Some s' \<and> read_trap_cx s' ppn = Some cx \<and> pages_ok s' \<and> falloc s' = falloc s"
proof -
  have "read_phys (write_phys s (pa_of_ppn ppn) (tc_bytes cx)) (pa_of_ppn ppn) TC_SIZE = tc_bytes cx"
    using read_write_phys [OF assms(1), of "tc_bytes cx" "pa_of_ppn ppn"] length_tc_bytes [OF assms(2)]
    by (simp add: TC_SIZE_def)
  then show ?thesis using assms tc_bytes_inverse [OF assms(2)]
    by (simp add: write_trap_cx_def read_trap_cx_def get_mut_def get_ref_def write_phys_store)
qed

end
