(* ===== verification/Kernel_State.thy ===== *)
theory Kernel_State
  imports Memory_Set Vfs Timers Pipe Trap_Context
begin

text \<open>
  The state of the kernel and the resources of tasks (os8-ref/src/task/id.rs, task.rs, context.rs,
  manager.rs, processor.rs and the structs of process.rs).

  Reference counting.  An \<^verbatim>\<open>Arc\<close> or \<^verbatim>\<open>Weak\<close> is a position in one of the kernel's tables (\<open>pcbs\<close>, \<open>tcbs\<close>,
  \<open>files\<close>, \<open>rings\<close>, ...); entries are never moved.  Upgrading a \<^verbatim>\<open>Weak\<close> process reference succeeds while
  the process is live.  The strong count of a process, a task or a file is the number of places that
  refer to it: the tables, the queues, and the locals of suspended kernel functions.  Where the source
  drops a reference, the model tests whether the count has become zero and then runs the destructors
  of the source (\<^verbatim>\<open>PidHandle\<close>, \<^verbatim>\<open>KernelStack\<close>, \<^verbatim>\<open>TaskUserRes\<close>, frames).  References in wait queues need not
  be counted: a waiting task is also referred to by a local of its own \<^verbatim>\<open>block_current_and_run_next\<close>.

  Control flow.  \<^verbatim>\<open>__switch\<close> saves the place where a task continues.  That place is a list of \<open>frame\<close>s,
  the innermost kernel function first, each with the locals it still needs; a fresh task starts in
  \<^verbatim>\<open>trap_return\<close>.  A kernel path runs without interruption until it enters user mode (the processor has
  a current task) or switches away (it has none).
\<close>

subsection \<open>Files\<close>

record OSInode =
  oi_readable :: bool
  oi_writable :: bool
  oi_offset :: nat
  oi_inode :: Inode

datatype File = Stdin | Stdout | PipeEnd Pipe | Regular OSInode

subsection \<open>Tasks and processes\<close>

datatype frame =
  FBlocked nat
| FMutexSpin nat
| FRelock nat
| FPipeRead nat UserBufferIterator usize
| FPipeWrite nat UserBufferIterator usize
| FStdinRead UserBuffer
| FHold "nat list" "nat list"
| FConst usize
| FSyscall
| FTrap

datatype resume = ResumeNone | GotoTrapReturn | ResumeAt "frame list"

record TaskContext =
  cx_ra :: resume
  cx_sp :: usize

definition zero_init :: TaskContext where
  "zero_init = \<lparr>cx_ra = ResumeNone, cx_sp = 0\<rparr>"

definition goto_trap_return :: "usize \<Rightarrow> TaskContext" where
  "goto_trap_return kstack_ptr = \<lparr>cx_ra = GotoTrapReturn, cx_sp = kstack_ptr\<rparr>"

datatype TaskStatus = UnInit | Ready | Running | Blocking

record TaskUserRes =
  r_tid :: nat
  r_ustack_base :: usize
  r_process :: nat

record TaskControlBlock =
  t_process :: nat
  t_kernel_stack :: usize
  t_trap_cx_ppn :: PhysPageNum
  t_task_cx :: TaskContext
  t_status :: TaskStatus
  t_exit_code :: "32 word option"
  t_res :: "TaskUserRes option"
  t_live :: bool

record ProcessControlBlock =
  p_pid :: nat
  p_zombie :: bool
  p_memory_set :: MemorySet
  p_parent :: "nat option"
  p_children :: "nat list"
  p_exit_code :: "32 word"
  p_fd_table :: "nat option list"
  p_tasks :: "nat option list"
  p_res_allocator :: RecycleAllocator
  p_mutexes :: "nat option list"
  p_semaphores :: "nat option list"
  p_condvars :: "nat option list"
  p_live :: bool

subsection \<open>Synchronization objects\<close>

datatype Mutex = MutexSpin bool | MutexBlocking bool "nat list"

record Semaphore =
  sem_count :: usize
  sem_wait :: "nat list"

type_synonym Condvar = "nat list"

subsection \<open>The kernel\<close>

record kernel =
  kmm :: mm
  kspace :: MemorySet
  pid_allocator :: RecycleAllocator
  kstack_allocator :: RecycleAllocator
  pcbs :: "ProcessControlBlock list"
  tcbs :: "TaskControlBlock list"
  ready_queue :: "nat list"
  cpu :: "nat option"
  ktimers :: "TimerCondVar list"
  mutexes :: "Mutex list"
  semaphores :: "Semaphore list"
  condvars :: "Condvar list"
  files :: "File list"
  rings :: "PipeRingBuffer list"
  kfs :: EasyFileSystem
  kdisk :: disk
  initproc :: "nat option"
  console_in :: "usize list"
  console_out :: "u8 list"
  next_trigger :: usize
  restore_args :: "usize \<times> usize"

text \<open>
  What the kernel takes from outside the crate: the entry address of the trap handler, the
  trampoline, the value of the \<^verbatim>\<open>sstatus\<close> register and the ELF reader.
\<close>

record machine =
  m_trap_handler :: usize
  m_trampoline :: usize
  m_sstatus :: usize
  m_parse :: "u8 list \<Rightarrow> ElfFile option"

definition get_proc :: "kernel \<Rightarrow> nat \<Rightarrow> ProcessControlBlock option" where
  "get_proc k p = (if p < length (pcbs k) \<and> p_live (pcbs k ! p) then Some (pcbs k ! p) else None)"

definition upd_proc :: "kernel \<Rightarrow> nat \<Rightarrow> (ProcessControlBlock \<Rightarrow> ProcessControlBlock) \<Rightarrow> kernel" where
  "upd_proc k p f = k\<lparr>pcbs := (pcbs k)[p := f (pcbs k ! p)]\<rparr>"

definition get_tcb :: "kernel \<Rightarrow> nat \<Rightarrow> TaskControlBlock option" where
  "get_tcb k t = index (tcbs k) t"

definition upd_tcb :: "kernel \<Rightarrow> nat \<Rightarrow> (TaskControlBlock \<Rightarrow> TaskControlBlock) \<Rightarrow> kernel" where
  "upd_tcb k t f = k\<lparr>tcbs := (tcbs k)[t := f (tcbs k ! t)]\<rparr>"

subsection \<open>Strong counts\<close>

fun frame_procs :: "frame \<Rightarrow> nat list" where
  "frame_procs (FHold ps fs) = ps"
| "frame_procs _ = []"

fun frame_files :: "frame \<Rightarrow> nat list" where
  "frame_files (FHold ps fs) = fs"
| "frame_files _ = []"

fun frame_tasks :: "frame \<Rightarrow> nat list" where
  "frame_tasks (FBlocked t) = [t]"
| "frame_tasks _ = []"

fun resume_frames :: "resume \<Rightarrow> frame list" where
  "resume_frames (ResumeAt fs) = fs"
| "resume_frames _ = []"

definition all_frames :: "kernel \<Rightarrow> frame list" where
  "all_frames k = concat (map (\<lambda>t. resume_frames (cx_ra (t_task_cx t))) (tcbs k))"

definition live_procs :: "kernel \<Rightarrow> ProcessControlBlock list" where
  "live_procs k = filter p_live (pcbs k)"

definition somes :: "'a option list \<Rightarrow> 'a list" where
  "somes xs = concat (map (\<lambda>x. case x of None \<Rightarrow> [] | Some a \<Rightarrow> [a]) xs)"

definition proc_refs :: "kernel \<Rightarrow> nat list" where
  "proc_refs k = somes [initproc k] @ concat (map p_children (live_procs k)) @ concat (map frame_procs (all_frames k))"

definition task_refs :: "kernel \<Rightarrow> nat list" where
  "task_refs k = somes [cpu k] @ ready_queue k @ map tm_task (ktimers k) @
     concat (map (\<lambda>p. somes (p_tasks p)) (live_procs k)) @ concat (map frame_tasks (all_frames k))"

definition file_refs :: "kernel \<Rightarrow> nat list" where
  "file_refs k = concat (map (\<lambda>p. somes (p_fd_table p)) (live_procs k)) @ concat (map frame_files (all_frames k))"

subsection \<open>The ready queue and the processor\<close>

definition tm_add :: "nat list \<Rightarrow> nat \<Rightarrow> nat list" where
  "tm_add q task = q @ [task]"

definition tm_fetch :: "nat list \<Rightarrow> nat option \<times> nat list" where
  "tm_fetch q = (case q of [] \<Rightarrow> (None, []) | t # ts \<Rightarrow> (Some t, ts))"

text \<open>The ready queue is a queue without a bound.\<close>

interpretation ready: fifo "\<lambda>_. True" "\<lambda>q. q" c "\<lambda>q t. Some (tm_add q t)"
    "\<lambda>q. case tm_fetch q of (None, _) \<Rightarrow> None | (Some t, q) \<Rightarrow> Some (t, q)" for c
  by unfold_locales (auto simp: tm_add_def tm_fetch_def)

definition add_task :: "kernel \<Rightarrow> nat \<Rightarrow> kernel" where
  "add_task k task = k\<lparr>ready_queue := tm_add (ready_queue k) task\<rparr>"

definition fetch_task :: "kernel \<Rightarrow> nat option \<times> kernel" where
  "fetch_task k = (let (t, q) = tm_fetch (ready_queue k) in (t, k\<lparr>ready_queue := q\<rparr>))"

definition take_current_task :: "kernel \<Rightarrow> nat option \<times> kernel" where
  "take_current_task k = (cpu k, k\<lparr>cpu := None\<rparr>)"

definition current_task :: "kernel \<Rightarrow> nat option" where
  "current_task k = cpu k"

definition current_process :: "kernel \<Rightarrow> nat option" where
  "current_process k =
     do { t \<leftarrow> current_task k; tcb \<leftarrow> get_tcb k t; _ \<leftarrow> get_proc k (t_process tcb); Some (t_process tcb) }"

definition get_user_token :: "kernel \<Rightarrow> nat \<Rightarrow> usize option" where
  "get_user_token k t =
     do { tcb \<leftarrow> get_tcb k t; p \<leftarrow> get_proc k (t_process tcb); Some (ms_token (p_memory_set p)) }"

definition current_user_token :: "kernel \<Rightarrow> usize option" where
  "current_user_token k = do { t \<leftarrow> current_task k; get_user_token k t }"

definition current_trap_cx_ppn :: "kernel \<Rightarrow> PhysPageNum option" where
  "current_trap_cx_ppn k = do { t \<leftarrow> current_task k; tcb \<leftarrow> get_tcb k t; Some (t_trap_cx_ppn tcb) }"

text \<open>
  Leaving the processor: the task's context is saved and the idle control flow of \<^verbatim>\<open>run_tasks\<close> goes on.
\<close>

definition schedule :: "kernel \<Rightarrow> nat \<Rightarrow> resume \<Rightarrow> kernel" where
  "schedule k t r = upd_tcb k t (\<lambda>tcb. tcb\<lparr>t_task_cx := (t_task_cx tcb)\<lparr>cx_ra := r\<rparr>\<rparr>)"

definition block_current_and_run_next :: "kernel \<Rightarrow> frame list \<Rightarrow> kernel option" where
  "block_current_and_run_next k fs =
     (let (task, k) = take_current_task k
      in do { t \<leftarrow> task;
              _ \<leftarrow> get_tcb k t;
              let k = upd_tcb k t (\<lambda>tcb. tcb\<lparr>t_status := Blocking\<rparr>);
              Some (schedule k t (ResumeAt (FBlocked t # fs))) })"

definition suspend_current_and_run_next :: "kernel \<Rightarrow> frame list \<Rightarrow> kernel option" where
  "suspend_current_and_run_next k fs =
     (let (task, k) = take_current_task k
      in do { t \<leftarrow> task;
              _ \<leftarrow> get_tcb k t;
              let k = upd_tcb k t (\<lambda>tcb. tcb\<lparr>t_status := Ready\<rparr>);
              let k = add_task k t;
              Some (schedule k t (ResumeAt fs)) })"

end
