(* ===== verification/Task_Res.thy ===== *)
theory Task_Res
  imports Kernel_State
begin

text \<open>
  The resources of tasks and processes and their destructors (os8-ref/src/task/id.rs, task.rs): pids,
  kernel stacks in the kernel space, and per thread a user stack and a trap context page in the
  process's address space.  The
  destructors of processes terminate because each destroys a live process or drops a finite list of tasks.
\<close>

subsection \<open>Pids and kernel stacks\<close>

definition pid_alloc :: "kernel \<Rightarrow> nat \<times> kernel" where
  "pid_alloc k = (let (pid, a) = ra_alloc (pid_allocator k) in (pid, k\<lparr>pid_allocator := a\<rparr>))"

definition pid_drop :: "kernel \<Rightarrow> nat \<Rightarrow> kernel option" where
  "pid_drop k pid = do { a \<leftarrow> ra_dealloc (pid_allocator k) pid; Some (k\<lparr>pid_allocator := a\<rparr>) }"

definition kernel_stack_position :: "usize \<Rightarrow> usize \<times> usize" where
  "kernel_stack_position kstack_id =
     (let top = TRAMPOLINE - kstack_id * (KERNEL_STACK_SIZE + PAGE_SIZE);
          bottom = top - KERNEL_STACK_SIZE
      in (bottom, top))"

definition kstack_alloc :: "kernel \<Rightarrow> (usize \<times> kernel) option" where
  "kstack_alloc k =
     do { let (i, a) = ra_alloc (kstack_allocator k);
          let k = k\<lparr>kstack_allocator := a\<rparr>;
          let kstack_id = word_of_nat i;
          let (bottom, top) = kernel_stack_position kstack_id;
          (ks, s) \<leftarrow> insert_framed_area (kspace k) (kmm k) bottom top (MP_R OR MP_W);
          Some (kstack_id, k\<lparr>kspace := ks, kmm := s\<rparr>) }"

definition kernel_stack_drop :: "kernel \<Rightarrow> usize \<Rightarrow> kernel option" where
  "kernel_stack_drop k kstack_id =
     do { let (bottom, _) = kernel_stack_position kstack_id;
          vpn \<leftarrow> vpn_of_va bottom;
          (ks, s) \<leftarrow> remove_area_with_start_vpn (kspace k) (kmm k) vpn;
          Some (k\<lparr>kspace := ks, kmm := s\<rparr>) }"

definition get_top :: "usize \<Rightarrow> usize" where
  "get_top kstack_id = snd (kernel_stack_position kstack_id)"

subsection \<open>User resources of a thread\<close>

definition trap_cx_bottom_from_tid :: "nat \<Rightarrow> usize" where
  "trap_cx_bottom_from_tid tid = TRAP_CONTEXT - word_of_nat tid * PAGE_SIZE"

definition ustack_bottom_from_tid :: "usize \<Rightarrow> nat \<Rightarrow> usize" where
  "ustack_bottom_from_tid ustack_base tid = ustack_base + word_of_nat tid * (PAGE_SIZE + USER_STACK_SIZE)"

definition alloc_tid :: "kernel \<Rightarrow> nat \<Rightarrow> (nat \<times> kernel) option" where
  "alloc_tid k p =
     do { pcb \<leftarrow> get_proc k p;
          let (tid, a) = ra_alloc (p_res_allocator pcb);
          Some (tid, upd_proc k p (\<lambda>pcb. pcb\<lparr>p_res_allocator := a\<rparr>)) }"

definition dealloc_tid :: "kernel \<Rightarrow> nat \<Rightarrow> nat \<Rightarrow> kernel option" where
  "dealloc_tid k p tid =
     do { pcb \<leftarrow> get_proc k p;
          a \<leftarrow> ra_dealloc (p_res_allocator pcb) tid;
          Some (upd_proc k p (\<lambda>pcb. pcb\<lparr>p_res_allocator := a\<rparr>)) }"

text \<open>Operations on the address space of a process.\<close>

definition proc_insert_area :: "kernel \<Rightarrow> nat \<Rightarrow> usize \<Rightarrow> usize \<Rightarrow> u8 \<Rightarrow> kernel option" where
  "proc_insert_area k p a b perm =
     do { pcb \<leftarrow> get_proc k p;
          (ms, s) \<leftarrow> insert_framed_area (p_memory_set pcb) (kmm k) a b perm;
          Some (upd_proc (k\<lparr>kmm := s\<rparr>) p (\<lambda>pcb. pcb\<lparr>p_memory_set := ms\<rparr>)) }"

definition proc_remove_area :: "kernel \<Rightarrow> nat \<Rightarrow> VirtAddr \<Rightarrow> kernel option" where
  "proc_remove_area k p a =
     do { pcb \<leftarrow> get_proc k p;
          vpn \<leftarrow> vpn_of_va a;
          (ms, s) \<leftarrow> remove_area_with_start_vpn (p_memory_set pcb) (kmm k) vpn;
          Some (upd_proc (k\<lparr>kmm := s\<rparr>) p (\<lambda>pcb. pcb\<lparr>p_memory_set := ms\<rparr>)) }"

definition alloc_user_res :: "kernel \<Rightarrow> TaskUserRes \<Rightarrow> kernel option" where
  "alloc_user_res k res =
     do { let ustack_bottom = ustack_bottom_from_tid (r_ustack_base res) (r_tid res);
          let ustack_top = ustack_bottom + USER_STACK_SIZE;
          k \<leftarrow> proc_insert_area k (r_process res) ustack_bottom ustack_top (MP_R OR MP_W OR MP_U);
          let trap_cx_bottom = trap_cx_bottom_from_tid (r_tid res);
          let trap_cx_top = trap_cx_bottom + PAGE_SIZE;
          proc_insert_area k (r_process res) trap_cx_bottom trap_cx_top (MP_R OR MP_W) }"

definition dealloc_user_res :: "kernel \<Rightarrow> TaskUserRes \<Rightarrow> kernel option" where
  "dealloc_user_res k res =
     do { k \<leftarrow> proc_remove_area k (r_process res) (ustack_bottom_from_tid (r_ustack_base res) (r_tid res));
          proc_remove_area k (r_process res) (trap_cx_bottom_from_tid (r_tid res)) }"

definition TaskUserRes_new :: "kernel \<Rightarrow> nat \<Rightarrow> usize \<Rightarrow> bool \<Rightarrow> (TaskUserRes \<times> kernel) option" where
  "TaskUserRes_new k p ustack_base alloc_res =
     do { (tid, k) \<leftarrow> alloc_tid k p;
          let res = \<lparr>r_tid = tid, r_ustack_base = ustack_base, r_process = p\<rparr>;
          k \<leftarrow> (if alloc_res then alloc_user_res k res else Some k);
          Some (res, k) }"

text \<open>Dropping the resources, which fails once the process is gone.\<close>

definition res_drop :: "kernel \<Rightarrow> TaskUserRes \<Rightarrow> kernel option" where
  "res_drop k res = do { k \<leftarrow> dealloc_tid k (r_process res) (r_tid res); dealloc_user_res k res }"

definition trap_cx_user_va :: "TaskUserRes \<Rightarrow> usize" where
  "trap_cx_user_va res = trap_cx_bottom_from_tid (r_tid res)"

definition trap_cx_ppn :: "kernel \<Rightarrow> TaskUserRes \<Rightarrow> PhysPageNum option" where
  "trap_cx_ppn k res =
     do { pcb \<leftarrow> get_proc k (r_process res);
          vpn \<leftarrow> vpn_of_va (trap_cx_bottom_from_tid (r_tid res));
          pte \<leftarrow> ms_translate (p_memory_set pcb) (kmm k) vpn;
          Some (pte_ppn pte) }"

definition ustack_top :: "TaskUserRes \<Rightarrow> usize" where
  "ustack_top res = ustack_bottom_from_tid (r_ustack_base res) (r_tid res) + USER_STACK_SIZE"

definition current_trap_cx_user_va :: "kernel \<Rightarrow> usize option" where
  "current_trap_cx_user_va k =
     do { t \<leftarrow> current_task k; tcb \<leftarrow> get_tcb k t; res \<leftarrow> t_res tcb; Some (trap_cx_user_va res) }"

subsection \<open>Task control blocks\<close>

definition TaskControlBlock_new :: "kernel \<Rightarrow> nat \<Rightarrow> usize \<Rightarrow> bool \<Rightarrow> (nat \<times> kernel) option" where
  "TaskControlBlock_new k p ustack_base alloc_res =
     do { (res, k) \<leftarrow> TaskUserRes_new k p ustack_base alloc_res;
          ppn \<leftarrow> trap_cx_ppn k res;
          (kernel_stack, k) \<leftarrow> kstack_alloc k;
          let kstack_top = get_top kernel_stack;
          let tcb = \<lparr>t_process = p, t_kernel_stack = kernel_stack, t_trap_cx_ppn = ppn,
                     t_task_cx = goto_trap_return kstack_top, t_status = Ready, t_exit_code = None,
                     t_res = Some res, t_live = True\<rparr>;
          Some (length (tcbs k), k\<lparr>tcbs := tcbs k @ [tcb]\<rparr>) }"

text \<open>The destructor of a task: its kernel stack, then its user resources.\<close>

definition task_destroy :: "kernel \<Rightarrow> nat \<Rightarrow> kernel option" where
  "task_destroy k t =
     do { tcb \<leftarrow> get_tcb k t;
          k \<leftarrow> kernel_stack_drop k (t_kernel_stack tcb);
          let k = upd_tcb k t (\<lambda>tcb. tcb\<lparr>t_live := False, t_res := None\<rparr>);
          (case t_res tcb of None \<Rightarrow> Some k | Some res \<Rightarrow> res_drop k res) }"

text \<open>Dropping one reference to a task, after the reference has been removed from the state.\<close>

definition drop_task :: "kernel \<Rightarrow> nat \<Rightarrow> kernel option" where
  "drop_task k t =
     do { tcb \<leftarrow> get_tcb k t;
          if t_live tcb \<and> t \<notin> set (task_refs k) then task_destroy k t else Some k }"

fun drop_tasks :: "kernel \<Rightarrow> nat list \<Rightarrow> kernel option" where
  "drop_tasks k [] = Some k"
| "drop_tasks k (t # ts) = do { k \<leftarrow> drop_task k t; drop_tasks k ts }"

lemma p_live_upd_proc: "(\<And>pcb. p_live (f pcb) = p_live pcb) \<Longrightarrow> map p_live (pcbs (upd_proc k p f)) = map p_live (pcbs k)"
  by (cases "p < length (pcbs k)") (auto intro!: nth_equalityI simp: upd_proc_def nth_list_update split: if_splits)

named_theorems keeps_live \<open>operations that neither create nor destroy processes\<close>

lemma proc_remove_area_live [keeps_live]: "proc_remove_area k p a = Some k' \<Longrightarrow> map p_live (pcbs k') = map p_live (pcbs k)"
  by (auto simp: proc_remove_area_def p_live_upd_proc split: bind_splits)

lemma dealloc_tid_live [keeps_live]: "dealloc_tid k p tid = Some k' \<Longrightarrow> map p_live (pcbs k') = map p_live (pcbs k)"
  by (auto simp: dealloc_tid_def p_live_upd_proc split: bind_splits)

lemma res_drop_live [keeps_live]: "res_drop k res = Some k' \<Longrightarrow> map p_live (pcbs k') = map p_live (pcbs k)"
  by (auto simp: res_drop_def dealloc_user_res_def dest!: proc_remove_area_live dealloc_tid_live split: bind_splits)

lemma kernel_stack_drop_pcbs: "kernel_stack_drop k i = Some k' \<Longrightarrow> pcbs k' = pcbs k"
  by (auto simp: kernel_stack_drop_def split: bind_splits prod.splits)

lemma task_destroy_live [keeps_live]: "task_destroy k t = Some k' \<Longrightarrow> map p_live (pcbs k') = map p_live (pcbs k)"
  by (auto simp: task_destroy_def upd_tcb_def Let_def dest!: kernel_stack_drop_pcbs res_drop_live split: bind_splits option.splits)

lemma drop_tasks_live [keeps_live]: "drop_tasks k ts = Some k' \<Longrightarrow> map p_live (pcbs k') = map p_live (pcbs k)"
  by (induction k ts rule: drop_tasks.induct)
    (auto simp: drop_task_def dest!: task_destroy_live split: bind_splits if_splits)

text \<open>
  The destructor of a process: its pid and its address space, then its children and its tasks, which
  are left to the caller as items to drop.
\<close>

datatype drop_item = DropProc nat | DropTasks "nat list"

definition process_destroy :: "kernel \<Rightarrow> nat \<Rightarrow> (drop_item list \<times> kernel) option" where
  "process_destroy k p =
     do { pcb \<leftarrow> get_proc k p;
          let k = upd_proc k p (\<lambda>pcb. pcb\<lparr>p_live := False\<rparr>);
          k \<leftarrow> pid_drop k (p_pid pcb);
          s \<leftarrow> ms_drop (p_memory_set pcb) (kmm k);
          Some (map DropProc (p_children pcb) @ [DropTasks (somes (p_tasks pcb))], k\<lparr>kmm := s\<rparr>) }"

definition live_count :: "kernel \<Rightarrow> nat" where
  "live_count k = length (filter (\<lambda>b. b) (map p_live (pcbs k)))"

lemma drop_tasks_count: "drop_tasks k ts = Some k' \<Longrightarrow> live_count k' = live_count k"
  using drop_tasks_live [of k ts k'] by (simp only: live_count_def)

lemma process_destroy_live: "process_destroy k p = Some (w, k') \<Longrightarrow> live_count k' < live_count k"
proof -
  assume d: "process_destroy k p = Some (w, k')"
  then have p: "p < length (pcbs k)" "p_live (pcbs k ! p)"
    by (auto simp: process_destroy_def get_proc_def split: if_splits bind_splits)
  have "pcbs k' = (pcbs k)[p := (pcbs k ! p)\<lparr>p_live := False\<rparr>]"
    using d by (auto simp: process_destroy_def pid_drop_def upd_proc_def split: bind_splits)
  then have l: "map p_live (pcbs k') = (map p_live (pcbs k))[p := False]" by (simp add: map_update)
  have "length (filter (\<lambda>b. b) (xs[i := False])) < length (filter (\<lambda>b. b) xs)" if "i < length xs" "xs ! i" for xs i
    using that
  proof (induction xs arbitrary: i)
    case (Cons x xs)
    then show ?case by (cases i) auto
  qed simp
  from this [of p "map p_live (pcbs k)"] show ?thesis using p l by (simp add: live_count_def)
qed

function drop_items :: "kernel \<Rightarrow> drop_item list \<Rightarrow> kernel option" where
  "drop_items k [] = Some k"
| "drop_items k (DropTasks ts # w) =
     (case drop_tasks k ts of None \<Rightarrow> None | Some k' \<Rightarrow> drop_items k' w)"
| "drop_items k (DropProc p # w) =
     (if p \<in> set (proc_refs k) \<or> get_proc k p = None then drop_items k w
      else case process_destroy k p of None \<Rightarrow> None | Some (items, k') \<Rightarrow> drop_items k' (items @ w))"
  by pat_completeness auto
termination
  by (relation "inv_image (less_than <*lex*> less_than) (\<lambda>(k, w). (live_count k, length w))")
    (auto dest: drop_tasks_count process_destroy_live)

text \<open>Dropping one reference to a process, after the reference has been removed from the state.\<close>

definition drop_process :: "kernel \<Rightarrow> nat \<Rightarrow> kernel option" where
  "drop_process k p = drop_items k [DropProc p]"

end
