(* ===== verification/Os_File.thy ===== *)
theory Os_File
  imports Task_Res
begin

text \<open>
  Open files (os8-ref/src/fs/inode.rs, stdio.rs, mod.rs and the \<^verbatim>\<open>File\<close> implementation of pipe.rs) over
  the file system of \<open>Vfs\<close>, the ring buffers of \<open>Pipe\<close> and the console.  A \<^verbatim>\<open>read\<close> or \<^verbatim>\<open>write\<close> either
  returns or switches to another task with a frame that continues it; \<open>outcome\<close> tells which.

  Strings.  \<^verbatim>\<open>translated_str\<close> makes one character of each byte, so a byte above 127 becomes two bytes of
  the UTF-8 string; \<open>str_bytes\<close> is that encoding, \<open>from_utf8\<close> the validation of the standard library
  (\<open>utf8_ok\<close> of theory Layout).
\<close>

subsection \<open>Strings\<close>

definition str_bytes :: "u8 list \<Rightarrow> u8 list" where
  "str_bytes cs = concat (map (\<lambda>c. if c < 0x80 then [c] else [0xC0 OR drop_bit 6 c, 0x80 OR (c AND 0x3F)]) cs)"

definition from_utf8 :: "u8 list \<Rightarrow> u8 list option" where
  "from_utf8 bs = (if utf8_ok bs then Some bs else None)"

subsection \<open>Inodes\<close>

definition OSInode_new :: "bool \<Rightarrow> bool \<Rightarrow> Inode \<Rightarrow> OSInode" where
  "OSInode_new r w inode = \<lparr>oi_readable = r, oi_writable = w, oi_offset = 0, oi_inode = inode\<rparr>"

partial_function (option) read_all_loop :: "disk \<Rightarrow> Inode \<Rightarrow> nat \<Rightarrow> u8 list \<Rightarrow> u8 list \<Rightarrow> (u8 list \<times> nat) option" where
  "read_all_loop d inode offset buffer v =
     do { (len, buffer) \<leftarrow> vfs_read_at d inode offset buffer;
          if len = 0 then Some (v, offset)
          else read_all_loop d inode (offset + len) buffer (v @ take len buffer) }"

definition read_all :: "disk \<Rightarrow> OSInode \<Rightarrow> (u8 list \<times> OSInode) option" where
  "read_all d f =
     do { (v, offset) \<leftarrow> read_all_loop d (oi_inode f) (oi_offset f) (replicate 512 0) [];
          Some (v, f\<lparr>oi_offset := offset\<rparr>) }"

definition WRONLY :: "32 word" where "WRONLY = push_bit 0 1"
definition RDWR :: "32 word" where "RDWR = push_bit 1 1"
definition CREATE :: "32 word" where "CREATE = push_bit 9 1"
definition TRUNC :: "32 word" where "TRUNC = push_bit 10 1"
definition RDONLY :: "32 word" where "RDONLY = 0"

definition OpenFlags_from_bits :: "32 word \<Rightarrow> 32 word option" where
  "OpenFlags_from_bits b = (if b AND NOT (WRONLY OR RDWR OR CREATE OR TRUNC) = 0 then Some b else None)"

definition flag_contains :: "32 word \<Rightarrow> 32 word \<Rightarrow> bool" where
  "flag_contains a b \<longleftrightarrow> a AND b = b"

definition read_write :: "32 word \<Rightarrow> bool \<times> bool" where
  "read_write flags =
     (if flags = 0 then (True, False)
      else if flag_contains flags WRONLY then (False, True)
      else (True, True))"

definition open_file :: "EasyFileSystem \<Rightarrow> disk \<Rightarrow> u8 list \<Rightarrow> 32 word \<Rightarrow> (OSInode option \<times> disk) option" where
  "open_file fs d name flags =
     do { let (r, w) = read_write flags;
          found \<leftarrow> vfs_find fs d (root_inode fs) name;
          if flag_contains flags CREATE then
            (case found of
               Some inode \<Rightarrow> do { d \<leftarrow> vfs_clear fs d inode; Some (Some (OSInode_new r w inode), d) }
             | None \<Rightarrow>
                 do { (created, d) \<leftarrow> vfs_create fs d (root_inode fs) name;
                      Some (map_option (OSInode_new r w) created, d) })
          else
            (case found of
               Some inode \<Rightarrow>
                 do { d \<leftarrow> (if flag_contains flags TRUNC then vfs_clear fs d inode else Some d);
                      Some (Some (OSInode_new r w inode), d) }
             | None \<Rightarrow> Some (None, d)) }"

text \<open>The slices of a user buffer are read into and written from one after the other.\<close>

fun inode_read_loop :: "disk \<Rightarrow> mm \<Rightarrow> Inode \<Rightarrow> nat \<Rightarrow> nat \<Rightarrow> mslice list \<Rightarrow> (nat \<times> nat \<times> mm) option" where
  "inode_read_loop d s inode offset tot [] = Some (tot, offset, s)"
| "inode_read_loop d s inode offset tot ((a, n) # bufs) =
     do { (read_size, bs) \<leftarrow> vfs_read_at d inode offset (read_phys s a n);
          let s = write_phys s a bs;
          if read_size = 0 then Some (tot, offset, s)
          else inode_read_loop d s inode (offset + read_size) (tot + read_size) bufs }"

definition inode_read :: "disk \<Rightarrow> mm \<Rightarrow> OSInode \<Rightarrow> UserBuffer \<Rightarrow> (nat \<times> OSInode \<times> mm) option" where
  "inode_read d s f buf =
     do { (tot, offset, s) \<leftarrow> inode_read_loop d s (oi_inode f) (oi_offset f) 0 buf;
          Some (tot, f\<lparr>oi_offset := offset\<rparr>, s) }"

fun inode_write_loop :: "EasyFileSystem \<Rightarrow> disk \<Rightarrow> mm \<Rightarrow> Inode \<Rightarrow> nat \<Rightarrow> nat \<Rightarrow> mslice list \<Rightarrow> (nat \<times> nat \<times> disk) option" where
  "inode_write_loop fs d s inode offset tot [] = Some (tot, offset, d)"
| "inode_write_loop fs d s inode offset tot ((a, n) # bufs) =
     do { (write_size, d) \<leftarrow> vfs_write_at fs d inode offset (read_phys s a n);
          rassert (write_size = n);
          inode_write_loop fs d s inode (offset + write_size) (tot + write_size) bufs }"

definition inode_write :: "EasyFileSystem \<Rightarrow> disk \<Rightarrow> mm \<Rightarrow> OSInode \<Rightarrow> UserBuffer \<Rightarrow> (nat \<times> OSInode \<times> disk) option" where
  "inode_write fs d s f buf =
     do { (tot, offset, d) \<leftarrow> inode_write_loop fs d s (oi_inode f) (oi_offset f) 0 buf;
          Some (tot, f\<lparr>oi_offset := offset\<rparr>, d) }"

subsection \<open>Pipes and the console as files\<close>

datatype outcome = Return usize kernel | Switched kernel

definition readable :: "File \<Rightarrow> bool" where
  "readable f = (case f of Stdin \<Rightarrow> True | Stdout \<Rightarrow> False | PipeEnd p \<Rightarrow> p_readable p | Regular i \<Rightarrow> oi_readable i)"

definition writable :: "File \<Rightarrow> bool" where
  "writable f = (case f of Stdin \<Rightarrow> False | Stdout \<Rightarrow> True | PipeEnd p \<Rightarrow> p_writable p | Regular i \<Rightarrow> oi_writable i)"

text \<open>The read end, then the write end, which the ring buffer refers to weakly.\<close>

definition make_pipe :: "kernel \<Rightarrow> nat \<times> nat \<times> kernel" where
  "make_pipe k =
     (let buffer = length (rings k);
          read_end = length (files k);
          write_end = Suc read_end
      in (read_end, write_end,
          k\<lparr>rings := rings k @ [set_write_end rb_new write_end],
            files := files k @ [PipeEnd (read_end_with_buffer buffer), PipeEnd (write_end_with_buffer buffer)]\<rparr>))"

definition all_write_ends_closed :: "kernel \<Rightarrow> PipeRingBuffer \<Rightarrow> bool" where
  "all_write_ends_closed k rb = (case rb_write_end rb of None \<Rightarrow> False | Some w \<Rightarrow> w \<notin> set (file_refs k))"

text \<open>
  The loops of \<^verbatim>\<open>Pipe::read\<close> and \<^verbatim>\<open>Pipe::write\<close> from the start of an iteration.  The running kernel path
  itself refers only to the read end while it asks for the write ends.
\<close>

definition pipe_read :: "kernel \<Rightarrow> frame list \<Rightarrow> nat \<Rightarrow> UserBufferIterator \<Rightarrow> usize \<Rightarrow> outcome option" where
  "pipe_read k fs b it n =
     do { rb \<leftarrow> index (rings k) b;
          (t, s, rb) \<leftarrow> pipe_read_turn (all_write_ends_closed k rb) (kmm k) rb it n;
          let k = k\<lparr>kmm := s, rings := (rings k)[b := rb]\<rparr>;
          (case t of
             Returned n \<Rightarrow> Some (Return n k)
           | Suspended it n \<Rightarrow> map_option Switched (suspend_current_and_run_next k (FPipeRead b it n # fs))) }"

definition pipe_write :: "kernel \<Rightarrow> frame list \<Rightarrow> nat \<Rightarrow> UserBufferIterator \<Rightarrow> usize \<Rightarrow> outcome option" where
  "pipe_write k fs b it n =
     do { rb \<leftarrow> index (rings k) b;
          (t, rb) \<leftarrow> pipe_write_turn (kmm k) rb it n;
          let k = k\<lparr>rings := (rings k)[b := rb]\<rparr>;
          (case t of
             Returned n \<Rightarrow> Some (Return n k)
           | Suspended it n \<Rightarrow> map_option Switched (suspend_current_and_run_next k (FPipeWrite b it n # fs))) }"

text \<open>The console: no character is the value 0.\<close>

definition console_getchar :: "kernel \<Rightarrow> usize \<times> kernel" where
  "console_getchar k = (case console_in k of [] \<Rightarrow> (0, k) | c # cs \<Rightarrow> (c, k\<lparr>console_in := cs\<rparr>))"

definition stdin_read_loop :: "kernel \<Rightarrow> frame list \<Rightarrow> UserBuffer \<Rightarrow> outcome option" where
  "stdin_read_loop k fs buf =
     (let (c, k) = console_getchar k
      in if c = 0 then map_option Switched (suspend_current_and_run_next k (FStdinRead buf # fs))
         else do { (a, _) \<leftarrow> index buf 0;
                   Some (Return 1 (k\<lparr>kmm := phys_byte_set (kmm k) a (ucast c)\<rparr>)) })"

definition stdin_read :: "kernel \<Rightarrow> frame list \<Rightarrow> UserBuffer \<Rightarrow> outcome option" where
  "stdin_read k fs buf = do { rassert (ub_len buf = 1); stdin_read_loop k fs buf }"

fun stdout_loop :: "kernel \<Rightarrow> mslice list \<Rightarrow> kernel option" where
  "stdout_loop k [] = Some k"
| "stdout_loop k ((a, n) # bufs) =
     do { str \<leftarrow> from_utf8 (read_phys (kmm k) a n);
          stdout_loop (k\<lparr>console_out := console_out k @ str\<rparr>) bufs }"

definition stdout_write :: "kernel \<Rightarrow> UserBuffer \<Rightarrow> outcome option" where
  "stdout_write k buf = do { k \<leftarrow> stdout_loop k buf; Some (Return (ub_len buf) k) }"

subsection \<open>The \<open>File\<close> trait\<close>

definition file_read :: "kernel \<Rightarrow> frame list \<Rightarrow> nat \<Rightarrow> UserBuffer \<Rightarrow> outcome option" where
  "file_read k fs f buf =
     do { file \<leftarrow> index (files k) f;
          (case file of
             Stdin \<Rightarrow> stdin_read k fs buf
           | Stdout \<Rightarrow> None
           | PipeEnd p \<Rightarrow> do { rassert (p_readable p); pipe_read k fs (p_buffer p) (ub_into_iter buf) 0 }
           | Regular i \<Rightarrow>
               do { (n, i, s) \<leftarrow> inode_read (kdisk k) (kmm k) i buf;
                    Some (Return (word_of_nat n) (k\<lparr>kmm := s, files := (files k)[f := Regular i]\<rparr>)) }) }"

definition file_write :: "kernel \<Rightarrow> frame list \<Rightarrow> nat \<Rightarrow> UserBuffer \<Rightarrow> outcome option" where
  "file_write k fs f buf =
     do { file \<leftarrow> index (files k) f;
          (case file of
             Stdin \<Rightarrow> None
           | Stdout \<Rightarrow> stdout_write k buf
           | PipeEnd p \<Rightarrow> do { rassert (p_writable p); pipe_write k fs (p_buffer p) (ub_into_iter buf) 0 }
           | Regular i \<Rightarrow>
               do { (n, i, d) \<leftarrow> inode_write (kfs k) (kdisk k) (kmm k) i buf;
                    Some (Return (word_of_nat n) (k\<lparr>kdisk := d, files := (files k)[f := Regular i]\<rparr>)) }) }"

end
