(* ===== verification/Sync.thy ===== *)
theory Sync
  imports Os_File
begin

text \<open>
  Mutexes, semaphores and condition variables (os8-ref/src/sync/).  \<^verbatim>\<open>UPSafeCell\<close> gives exclusive access
  to the value it holds, which is what state passing expresses.  An operation that may block takes
  the frames \<open>fs\<close> of its callers, which become part of the place where the task continues.
\<close>

definition MutexSpin_new :: Mutex where "MutexSpin_new = MutexSpin False"

definition MutexBlocking_new :: Mutex where "MutexBlocking_new = MutexBlocking False []"

definition set_mutex :: "kernel \<Rightarrow> nat \<Rightarrow> Mutex \<Rightarrow> kernel" where
  "set_mutex k m v = k\<lparr>mutexes := (mutexes k)[m := v]\<rparr>"

definition spin_lock :: "kernel \<Rightarrow> nat \<Rightarrow> bool \<Rightarrow> frame list \<Rightarrow> outcome option" where
  "spin_lock k m locked fs =
     (if locked then map_option Switched (suspend_current_and_run_next k (FMutexSpin m # fs))
      else Some (Return 0 (set_mutex k m (MutexSpin True))))"

definition blocking_lock :: "kernel \<Rightarrow> nat \<Rightarrow> bool \<Rightarrow> nat list \<Rightarrow> frame list \<Rightarrow> outcome option" where
  "blocking_lock k m locked q fs =
     (if locked then
        do { t \<leftarrow> current_task k;
             let k = set_mutex k m (MutexBlocking locked (q @ [t]));
             map_option Switched (block_current_and_run_next k fs) }
      else Some (Return 0 (set_mutex k m (MutexBlocking True q))))"

definition mutex_lock :: "kernel \<Rightarrow> nat \<Rightarrow> frame list \<Rightarrow> outcome option" where
  "mutex_lock k m fs =
     do { mutex \<leftarrow> index (mutexes k) m;
          (case mutex of
             MutexSpin locked \<Rightarrow> spin_lock k m locked fs
           | MutexBlocking locked q \<Rightarrow> blocking_lock k m locked q fs) }"

definition blocking_unlock :: "kernel \<Rightarrow> nat \<Rightarrow> bool \<Rightarrow> nat list \<Rightarrow> kernel option" where
  "blocking_unlock k m locked q =
     do { rassert locked;
          (case q of
             t # q \<Rightarrow> Some (add_task (set_mutex k m (MutexBlocking locked q)) t)
           | [] \<Rightarrow> Some (set_mutex k m (MutexBlocking False q))) }"

definition mutex_unlock :: "kernel \<Rightarrow> nat \<Rightarrow> kernel option" where
  "mutex_unlock k m =
     do { mutex \<leftarrow> index (mutexes k) m;
          (case mutex of
             MutexSpin locked \<Rightarrow> Some (set_mutex k m (MutexSpin False))
           | MutexBlocking locked q \<Rightarrow> blocking_unlock k m locked q) }"

definition Semaphore_new :: "usize \<Rightarrow> Semaphore" where
  "Semaphore_new res_count = \<lparr>sem_count = res_count, sem_wait = []\<rparr>"

definition sem_up :: "kernel \<Rightarrow> nat \<Rightarrow> kernel option" where
  "sem_up k i =
     do { s \<leftarrow> index (semaphores k) i;
          let s = s\<lparr>sem_count := sem_count s + 1\<rparr>;
          (if sint (sem_count s) \<le> 0 then
             (case sem_wait s of
                t # q \<Rightarrow> Some (add_task (k\<lparr>semaphores := (semaphores k)[i := s\<lparr>sem_wait := q\<rparr>]\<rparr>) t)
              | [] \<Rightarrow> Some (k\<lparr>semaphores := (semaphores k)[i := s]\<rparr>))
           else Some (k\<lparr>semaphores := (semaphores k)[i := s]\<rparr>)) }"

definition sem_down :: "kernel \<Rightarrow> nat \<Rightarrow> frame list \<Rightarrow> outcome option" where
  "sem_down k i fs =
     do { s \<leftarrow> index (semaphores k) i;
          let s = s\<lparr>sem_count := sem_count s - 1\<rparr>;
          (if sint (sem_count s) < 0 then
             do { t \<leftarrow> current_task k;
                  let k = k\<lparr>semaphores := (semaphores k)[i := s\<lparr>sem_wait := sem_wait s @ [t]\<rparr>]\<rparr>;
                  map_option Switched (block_current_and_run_next k fs) }
           else Some (Return 0 (k\<lparr>semaphores := (semaphores k)[i := s]\<rparr>))) }"

definition Condvar_new :: Condvar where "Condvar_new = []"

definition condvar_signal :: "kernel \<Rightarrow> nat \<Rightarrow> kernel option" where
  "condvar_signal k c =
     do { q \<leftarrow> index (condvars k) c;
          (case q of
             t # q \<Rightarrow> Some (add_task (k\<lparr>condvars := (condvars k)[c := q]\<rparr>) t)
           | [] \<Rightarrow> Some k) }"

definition condvar_wait :: "kernel \<Rightarrow> nat \<Rightarrow> nat \<Rightarrow> frame list \<Rightarrow> outcome option" where
  "condvar_wait k c m fs =
     do { k \<leftarrow> mutex_unlock k m;
          q \<leftarrow> index (condvars k) c;
          t \<leftarrow> current_task k;
          let k = k\<lparr>condvars := (condvars k)[c := q @ [t]]\<rparr>;
          map_option Switched (block_current_and_run_next k (FRelock m # fs)) }"

end
