(* ===== verification/Process.thy ===== *)
theory Process
  imports Sync
begin

text \<open>
  Processes (os8-ref/src/task/process.rs, mod.rs): creation from an ELF file, \<^verbatim>\<open>exec\<close>, \<^verbatim>\<open>fork\<close> and
  exit, with the ownership of pids, address spaces, kernel stacks and files that they pass around.
\<close>

subsection \<open>Process control blocks\<close>

definition alloc_fd :: "nat option list \<Rightarrow> nat \<times> nat option list" where
  "alloc_fd tbl =
     (case find_idx (\<lambda>f. f = None) tbl of
        Some fd \<Rightarrow> (fd, tbl)
      | None \<Rightarrow> (length tbl, tbl @ [None]))"

definition thread_count :: "ProcessControlBlock \<Rightarrow> nat" where
  "thread_count pcb = length (p_tasks pcb)"

definition get_task :: "ProcessControlBlock \<Rightarrow> nat \<Rightarrow> nat option" where
  "get_task pcb tid = do { t \<leftarrow> index (p_tasks pcb) tid; t }"

definition pcb_new :: "nat \<Rightarrow> MemorySet \<Rightarrow> nat option \<Rightarrow> nat option list \<Rightarrow> ProcessControlBlock" where
  "pcb_new pid ms parent fds =
     \<lparr>p_pid = pid, p_zombie = False, p_memory_set = ms, p_parent = parent, p_children = [], p_exit_code = 0,
      p_fd_table = fds, p_tasks = [], p_res_allocator = RecycleAllocator_new, p_mutexes = [], p_semaphores = [],
      p_condvars = [], p_live = True\<rparr>"

definition kernel_token :: "kernel \<Rightarrow> usize" where
  "kernel_token k = ms_token (kspace k)"

definition set_trap_cx :: "kernel \<Rightarrow> nat \<Rightarrow> TrapContext \<Rightarrow> kernel option" where
  "set_trap_cx k t cx =
     do { tcb \<leftarrow> get_tcb k t;
          s \<leftarrow> write_trap_cx (kmm k) (t_trap_cx_ppn tcb) cx;
          Some (k\<lparr>kmm := s\<rparr>) }"

definition get_trap_cx :: "kernel \<Rightarrow> nat \<Rightarrow> TrapContext option" where
  "get_trap_cx k t = do { tcb \<leftarrow> get_tcb k t; read_trap_cx (kmm k) (t_trap_cx_ppn tcb) }"

definition Process_new :: "machine \<Rightarrow> kernel \<Rightarrow> u8 list \<Rightarrow> (nat \<times> kernel) option" where
  "Process_new m k elf_data =
     do { (ms, s, ustack_base, entry_point) \<leftarrow> from_elf (m_parse m) (m_trampoline m) (kmm k) elf_data;
          let k = k\<lparr>kmm := s\<rparr>;
          let (pid, k) = pid_alloc k;
          let n = length (files k);
          let k = k\<lparr>files := files k @ [Stdin, Stdout, Stdout]\<rparr>;
          let p = length (pcbs k);
          let k = k\<lparr>pcbs := pcbs k @ [pcb_new pid ms None [Some n, Some (n + 1), Some (n + 2)]]\<rparr>;
          (t, k) \<leftarrow> TaskControlBlock_new k p ustack_base True;
          tcb \<leftarrow> get_tcb k t;
          res \<leftarrow> t_res tcb;
          let ustack_top = ustack_top res;
          let kernel_stack_top = get_top (t_kernel_stack tcb);
          k \<leftarrow> set_trap_cx k t (app_init_context (m_sstatus m) entry_point ustack_top (kernel_token k) kernel_stack_top (m_trap_handler m));
          let k = upd_proc k p (\<lambda>pcb. pcb\<lparr>p_tasks := p_tasks pcb @ [Some t]\<rparr>);
          Some (p, add_task k t) }"

subsection \<open>Exec\<close>

text \<open>The pointers to the argument strings, translated before anything is written through them.\<close>

fun argv_addrs :: "mm \<Rightarrow> usize \<Rightarrow> usize \<Rightarrow> nat list \<Rightarrow> PhysAddr list option" where
  "argv_addrs s token argv_base [] = Some []"
| "argv_addrs s token argv_base (i # is) =
     do { pa \<leftarrow> pt_translate_va (pt_from_token token) s (argv_base + word_of_nat i * 8);
          rassert (pa \<noteq> 0);
          as \<leftarrow> argv_addrs s token argv_base is;
          Some (pa # as) }"

fun push_chars :: "mm \<Rightarrow> usize \<Rightarrow> usize \<Rightarrow> u8 list \<Rightarrow> (mm \<times> usize) option" where
  "push_chars s token p [] = Some (s, p)"
| "push_chars s token p (c # cs) = do { s \<leftarrow> translated_refmut s token p [c]; push_chars s token (p + 1) cs }"

fun push_args :: "mm \<Rightarrow> usize \<Rightarrow> usize \<Rightarrow> (PhysAddr \<times> u8 list) list \<Rightarrow> (mm \<times> usize) option" where
  "push_args s token user_sp [] = Some (s, user_sp)"
| "push_args s token user_sp ((slot_pa, arg) # args) =
     do { let user_sp = user_sp - (word_of_nat (length arg) + 1);
          let s = write_phys s slot_pa (word_bytes user_sp);
          (s, p) \<leftarrow> push_chars s token user_sp arg;
          s \<leftarrow> translated_refmut s token p [0];
          push_args s token user_sp args }"

definition exec :: "machine \<Rightarrow> kernel \<Rightarrow> nat \<Rightarrow> u8 list \<Rightarrow> u8 list list \<Rightarrow> kernel option" where
  "exec m k p elf_data args =
     do { pcb \<leftarrow> get_proc k p;
          rassert (thread_count pcb = 1);
          (ms, s, ustack_base, entry_point) \<leftarrow> from_elf (m_parse m) (m_trampoline m) (kmm k) elf_data;
          let new_token = ms_token ms;
          s \<leftarrow> ms_drop (p_memory_set pcb) s;
          let k = upd_proc (k\<lparr>kmm := s\<rparr>) p (\<lambda>pcb. pcb\<lparr>p_memory_set := ms\<rparr>);
          t \<leftarrow> get_task pcb 0;
          tcb \<leftarrow> get_tcb k t;
          res \<leftarrow> t_res tcb;
          let res = res\<lparr>r_ustack_base := ustack_base\<rparr>;
          k \<leftarrow> alloc_user_res k res;
          ppn \<leftarrow> trap_cx_ppn k res;
          let k = upd_tcb k t (\<lambda>tcb. tcb\<lparr>t_res := Some res, t_trap_cx_ppn := ppn\<rparr>);
          let user_sp = ustack_top res;
          let user_sp = user_sp - (word_of_nat (length args) + 1) * 8;
          let argv_base = user_sp;
          argv \<leftarrow> argv_addrs (kmm k) new_token argv_base [0..<Suc (length args)];
          let s = write_phys (kmm k) (argv ! length args) (word_bytes 0);
          (s, user_sp) \<leftarrow> push_args s new_token user_sp (zip argv args);
          let user_sp = user_sp - user_sp mod 8;
          let cx = app_init_context (m_sstatus m) entry_point user_sp (kernel_token k) (get_top (t_kernel_stack tcb)) (m_trap_handler m);
          let cx = cx\<lparr>tc_x := (tc_x cx)[10 := word_of_nat (length args), 11 := argv_base]\<rparr>;
          set_trap_cx (k\<lparr>kmm := s\<rparr>) t cx }"

subsection \<open>Fork\<close>

definition fork :: "machine \<Rightarrow> kernel \<Rightarrow> nat \<Rightarrow> (nat \<times> kernel) option" where
  "fork m k p =
     do { parent \<leftarrow> get_proc k p;
          rassert (thread_count parent = 1);
          (ms, s) \<leftarrow> from_existed_user (m_trampoline m) (p_memory_set parent) (kmm k);
          let k = k\<lparr>kmm := s\<rparr>;
          let (pid, k) = pid_alloc k;
          let new_fd_table = p_fd_table parent;
          let child = length (pcbs k);
          let k = k\<lparr>pcbs := pcbs k @ [pcb_new pid ms (Some p) new_fd_table]\<rparr>;
          let k = upd_proc k p (\<lambda>pcb. pcb\<lparr>p_children := p_children pcb @ [child]\<rparr>);
          t0 \<leftarrow> get_task parent 0;
          tcb0 \<leftarrow> get_tcb k t0;
          res0 \<leftarrow> t_res tcb0;
          (t, k) \<leftarrow> TaskControlBlock_new k child (r_ustack_base res0) False;
          let k = upd_proc k child (\<lambda>pcb. pcb\<lparr>p_tasks := p_tasks pcb @ [Some t]\<rparr>);
          tcb \<leftarrow> get_tcb k t;
          cx \<leftarrow> get_trap_cx k t;
          k \<leftarrow> set_trap_cx k t (cx\<lparr>tc_kernel_sp := get_top (t_kernel_stack tcb)\<rparr>);
          Some (child, add_task k t) }"

definition getpid :: "kernel \<Rightarrow> nat \<Rightarrow> nat option" where
  "getpid k p = map_option p_pid (get_proc k p)"

subsection \<open>Exit\<close>

fun reparent :: "kernel \<Rightarrow> nat \<Rightarrow> nat list \<Rightarrow> kernel option" where
  "reparent k ip [] = Some k"
| "reparent k ip (c # cs) =
     do { _ \<leftarrow> get_proc k c;
          let k = upd_proc k c (\<lambda>pcb. pcb\<lparr>p_parent := Some ip\<rparr>);
          reparent (upd_proc k ip (\<lambda>pcb. pcb\<lparr>p_children := p_children pcb @ [c]\<rparr>)) ip cs }"

text \<open>Taking the resources of all threads, then dropping them.\<close>

fun take_res :: "kernel \<Rightarrow> nat list \<Rightarrow> TaskUserRes list \<times> kernel" where
  "take_res k [] = ([], k)"
| "take_res k (t # ts) =
     (let (rs, k') = take_res (upd_tcb k t (\<lambda>tcb. tcb\<lparr>t_res := None\<rparr>)) ts
      in (case t_res (tcbs k ! t) of None \<Rightarrow> rs | Some r \<Rightarrow> r # rs, k'))"

fun drop_res :: "kernel \<Rightarrow> TaskUserRes list \<Rightarrow> kernel option" where
  "drop_res k [] = Some k"
| "drop_res k (r # rs) = do { k \<leftarrow> res_drop k r; drop_res k rs }"

fun drop_all_procs :: "kernel \<Rightarrow> nat list \<Rightarrow> kernel option" where
  "drop_all_procs k [] = Some k"
| "drop_all_procs k (p # ps) = do { k \<leftarrow> drop_process k p; drop_all_procs k ps }"

text \<open>
  The main thread ends the process.  \<^verbatim>\<open>INITPROC\<close> and the process are borrowed at the same time, so the
  exit of the initial process panics.
\<close>

definition exit_process :: "kernel \<Rightarrow> nat \<Rightarrow> 32 word \<Rightarrow> kernel option" where
  "exit_process k p exit_code =
     do { pcb \<leftarrow> get_proc k p;
          let k = upd_proc k p (\<lambda>pcb. pcb\<lparr>p_zombie := True, p_exit_code := exit_code\<rparr>);
          ip \<leftarrow> initproc k;
          rassert (ip \<noteq> p);
          k \<leftarrow> reparent k ip (p_children pcb);
          let (recycle_res, k) = take_res k (somes (p_tasks pcb));
          k \<leftarrow> drop_res k recycle_res;
          let k = upd_proc k p (\<lambda>pcb. pcb\<lparr>p_children := []\<rparr>);
          k \<leftarrow> drop_all_procs k (p_children pcb);
          pcb \<leftarrow> get_proc k p;
          (ms, s) \<leftarrow> recycle_data_pages (p_memory_set pcb) (kmm k);
          Some (upd_proc (k\<lparr>kmm := s\<rparr>) p (\<lambda>pcb. pcb\<lparr>p_memory_set := ms, p_fd_table := []\<rparr>)) }"

definition exit_current_and_run_next :: "kernel \<Rightarrow> 32 word \<Rightarrow> kernel option" where
  "exit_current_and_run_next k exit_code =
     (let (task, k) = take_current_task k
      in do { t \<leftarrow> task;
              tcb \<leftarrow> get_tcb k t;
              let p = t_process tcb;
              _ \<leftarrow> get_proc k p;
              res \<leftarrow> t_res tcb;
              let tid = r_tid res;
              let k = upd_tcb k t (\<lambda>tcb. tcb\<lparr>t_exit_code := Some exit_code, t_res := None\<rparr>);
              k \<leftarrow> res_drop k res;
              k \<leftarrow> drop_task k t;
              k \<leftarrow> (if tid = 0 then exit_process k p exit_code else Some k);
              drop_process k p })"

end
