(* ===== verification/Syscalls.thy ===== *)
theory Syscalls
  imports Process
begin

text \<open>
  System calls, traps and the scheduling loop (os8-ref/src/syscall/, trap/mod.rs, task/processor.rs).
  A system call either returns a value (\<open>Return\<close>) or leaves the processor (\<open>Switched\<close>); the frames it
  passes down say what remains to be done when the task runs again.  The time is an argument of the
  calls that read the clock.  Diagnostic messages (a killed application, an empty ready queue) are not
  part of the state.
\<close>

subsection \<open>Files\<close>

definition fd_lookup :: "kernel \<Rightarrow> usize \<Rightarrow> (nat \<times> nat option) option" where
  "fd_lookup k fd =
     do { p \<leftarrow> current_process k;
          pcb \<leftarrow> get_proc k p;
          Some (p, if length (p_fd_table pcb) \<le> unat fd then None else p_fd_table pcb ! unat fd) }"

definition sys_write :: "kernel \<Rightarrow> frame list \<Rightarrow> usize \<Rightarrow> usize \<Rightarrow> usize \<Rightarrow> outcome option" where
  "sys_write k fs fd buf len =
     do { token \<leftarrow> current_user_token k;
          (p, file) \<leftarrow> fd_lookup k fd;
          (case file of
             None \<Rightarrow> Some (Return (- 1) k)
           | Some f \<Rightarrow>
               do { ub \<leftarrow> translated_byte_buffer (kmm k) token buf len;
                    file_write k (FHold [p] [f] # fs) f ub }) }"

definition sys_read :: "kernel \<Rightarrow> frame list \<Rightarrow> usize \<Rightarrow> usize \<Rightarrow> usize \<Rightarrow> outcome option" where
  "sys_read k fs fd buf len =
     do { token \<leftarrow> current_user_token k;
          (p, file) \<leftarrow> fd_lookup k fd;
          (case file of
             None \<Rightarrow> Some (Return (- 1) k)
           | Some f \<Rightarrow>
               do { ub \<leftarrow> translated_byte_buffer (kmm k) token buf len;
                    file_read k (FHold [p] [f] # fs) f ub }) }"

definition install_fd :: "kernel \<Rightarrow> nat \<Rightarrow> nat \<Rightarrow> (nat \<times> kernel) option" where
  "install_fd k p f =
     do { pcb \<leftarrow> get_proc k p;
          let (fd, tbl) = alloc_fd (p_fd_table pcb);
          Some (fd, upd_proc k p (\<lambda>pcb. pcb\<lparr>p_fd_table := tbl[fd := Some f]\<rparr>)) }"

definition sys_open :: "kernel \<Rightarrow> usize \<Rightarrow> 32 word \<Rightarrow> outcome option" where
  "sys_open k path flags =
     do { p \<leftarrow> current_process k;
          token \<leftarrow> current_user_token k;
          name \<leftarrow> translated_str (kmm k) token path;
          flags \<leftarrow> OpenFlags_from_bits flags;
          (inode, d) \<leftarrow> open_file (kfs k) (kdisk k) (str_bytes name) flags;
          let k = k\<lparr>kdisk := d\<rparr>;
          (case inode of
             None \<Rightarrow> Some (Return (- 1) k)
           | Some i \<Rightarrow>
               do { let f = length (files k);
                    let k = k\<lparr>files := files k @ [Regular i]\<rparr>;
                    (fd, k) \<leftarrow> install_fd k p f;
                    Some (Return (word_of_nat fd) k) }) }"

definition sys_close :: "kernel \<Rightarrow> usize \<Rightarrow> outcome option" where
  "sys_close k fd =
     do { (p, file) \<leftarrow> fd_lookup k fd;
          (case file of
             None \<Rightarrow> Some (Return (- 1) k)
           | Some f \<Rightarrow> Some (Return 0 (upd_proc k p (\<lambda>pcb. pcb\<lparr>p_fd_table := (p_fd_table pcb)[unat fd := None]\<rparr>)))) }"

definition sys_pipe :: "kernel \<Rightarrow> usize \<Rightarrow> outcome option" where
  "sys_pipe k pipe =
     do { p \<leftarrow> current_process k;
          token \<leftarrow> current_user_token k;
          let (pipe_read, pipe_write, k) = make_pipe k;
          (read_fd, k) \<leftarrow> install_fd k p pipe_read;
          (write_fd, k) \<leftarrow> install_fd k p pipe_write;
          s \<leftarrow> translated_refmut (kmm k) token pipe (word_bytes (word_of_nat read_fd));
          s \<leftarrow> translated_refmut s token (pipe + 8) (word_bytes (word_of_nat write_fd));
          Some (Return 0 (k\<lparr>kmm := s\<rparr>)) }"

definition sys_dup :: "kernel \<Rightarrow> usize \<Rightarrow> outcome option" where
  "sys_dup k fd =
     do { (p, file) \<leftarrow> fd_lookup k fd;
          (case file of
             None \<Rightarrow> Some (Return (- 1) k)
           | Some f \<Rightarrow> do { (new_fd, k) \<leftarrow> install_fd k p f; Some (Return (word_of_nat new_fd) k) }) }"

definition sys_fstat :: "usize \<Rightarrow> usize \<Rightarrow> usize" where "sys_fstat fd st = - 1"
definition sys_linkat :: "usize \<Rightarrow> usize \<Rightarrow> usize" where "sys_linkat old_name new_name = - 1"
definition sys_unlinkat :: "usize \<Rightarrow> usize" where "sys_unlinkat name = - 1"

subsection \<open>Processes\<close>

definition sys_exit :: "kernel \<Rightarrow> 32 word \<Rightarrow> outcome option" where
  "sys_exit k exit_code = map_option Switched (exit_current_and_run_next k exit_code)"

definition sys_yield :: "kernel \<Rightarrow> frame list \<Rightarrow> outcome option" where
  "sys_yield k fs = map_option Switched (suspend_current_and_run_next k (FConst 0 # fs))"

definition sys_getpid :: "kernel \<Rightarrow> outcome option" where
  "sys_getpid k = do { p \<leftarrow> current_process k; pid \<leftarrow> getpid k p; Some (Return (word_of_nat pid) k) }"

definition sys_fork :: "machine \<Rightarrow> kernel \<Rightarrow> outcome option" where
  "sys_fork m k =
     do { p \<leftarrow> current_process k;
          (child, k) \<leftarrow> fork m k p;
          new_pid \<leftarrow> getpid k child;
          pcb \<leftarrow> get_proc k child;
          t \<leftarrow> get_task pcb 0;
          cx \<leftarrow> get_trap_cx k t;
          k \<leftarrow> set_trap_cx k t (cx\<lparr>tc_x := (tc_x cx)[10 := 0]\<rparr>);
          Some (Return (word_of_nat new_pid) k) }"

partial_function (option) exec_args :: "mm \<Rightarrow> usize \<Rightarrow> usize \<Rightarrow> u8 list list option" where
  "exec_args s token args =
     do { bs \<leftarrow> translated_ref s token args 8;
          let arg_str_ptr = bytes_word bs;
          if arg_str_ptr = 0 then Some []
          else do { arg \<leftarrow> translated_str s token arg_str_ptr;
                    rest \<leftarrow> exec_args s token (args + 8);
                    Some (arg # rest) } }"

definition sys_exec :: "machine \<Rightarrow> kernel \<Rightarrow> usize \<Rightarrow> usize \<Rightarrow> outcome option" where
  "sys_exec m k path args =
     do { token \<leftarrow> current_user_token k;
          name \<leftarrow> translated_str (kmm k) token path;
          args_vec \<leftarrow> exec_args (kmm k) token args;
          (inode, d) \<leftarrow> open_file (kfs k) (kdisk k) (str_bytes name) RDONLY;
          let k = k\<lparr>kdisk := d\<rparr>;
          (case inode of
             None \<Rightarrow> Some (Return (- 1) k)
           | Some app_inode \<Rightarrow>
               do { (all_data, _) \<leftarrow> read_all (kdisk k) app_inode;
                    p \<leftarrow> current_process k;
                    k \<leftarrow> exec m k p all_data (map str_bytes args_vec);
                    Some (Return (word_of_nat (length args_vec)) k) }) }"

definition pid_matches :: "kernel \<Rightarrow> usize \<Rightarrow> nat \<Rightarrow> bool" where
  "pid_matches k pid c \<longleftrightarrow> pid = - 1 \<or> pid = word_of_nat (p_pid (pcbs k ! c))"

definition sys_waitpid :: "kernel \<Rightarrow> usize \<Rightarrow> usize \<Rightarrow> outcome option" where
  "sys_waitpid k pid exit_code_ptr =
     do { p \<leftarrow> current_process k;
          pcb \<leftarrow> get_proc k p;
          if \<not> list_ex (pid_matches k pid) (p_children pcb) then Some (Return (- 1) k)
          else case find_idx (\<lambda>c. p_zombie (pcbs k ! c) \<and> pid_matches k pid c) (p_children pcb) of
            None \<Rightarrow> Some (Return (- 2) k)
          | Some idx \<Rightarrow>
              do { let child = p_children pcb ! idx;
                   let k = upd_proc k p (\<lambda>pcb. pcb\<lparr>p_children := take idx (p_children pcb) @ drop (Suc idx) (p_children pcb)\<rparr>);
                   rassert (child \<notin> set (proc_refs k));
                   found_pid \<leftarrow> getpid k child;
                   let exit_code = p_exit_code (pcbs k ! child);
                   s \<leftarrow> translated_refmut (kmm k) (ms_token (p_memory_set pcb)) exit_code_ptr (le_bytes 4 (unat exit_code));
                   k \<leftarrow> drop_process (k\<lparr>kmm := s\<rparr>) child;
                   Some (Return (word_of_nat found_pid) k) } }"

definition sys_get_time :: "kernel \<Rightarrow> usize \<Rightarrow> usize \<Rightarrow> outcome option" where
  "sys_get_time k mtime ts =
     do { let us = get_time_us mtime;
          token \<leftarrow> current_user_token k;
          s \<leftarrow> translated_refmut (kmm k) token ts (word_bytes (us div 1000000) @ word_bytes (us mod 1000000));
          Some (Return 0 (k\<lparr>kmm := s\<rparr>)) }"

definition sys_task_info :: "usize \<Rightarrow> usize" where "sys_task_info ti = - 1"
definition sys_set_priority :: "usize \<Rightarrow> usize" where "sys_set_priority prio = - 1"
definition sys_mmap :: "usize \<Rightarrow> usize \<Rightarrow> usize \<Rightarrow> usize" where "sys_mmap start len port = - 1"
definition sys_munmap :: "usize \<Rightarrow> usize \<Rightarrow> usize" where "sys_munmap start len = - 1"
definition sys_spawn :: "usize \<Rightarrow> usize" where "sys_spawn path = - 1"

subsection \<open>Synchronization\<close>

definition sys_sleep :: "kernel \<Rightarrow> frame list \<Rightarrow> usize \<Rightarrow> usize \<Rightarrow> outcome option" where
  "sys_sleep k fs mtime ms =
     do { let expire = get_time_ms mtime + ms;
          t \<leftarrow> current_task k;
          let k = k\<lparr>ktimers := add_timer (ktimers k) expire t\<rparr>;
          map_option Switched (block_current_and_run_next k (FConst 0 # fs)) }"

text \<open>The first free slot of a table, or a new one at its end.\<close>

definition fill_slot :: "'a option list \<Rightarrow> 'a \<Rightarrow> nat \<times> 'a option list" where
  "fill_slot tbl x =
     (case find_idx (\<lambda>i. i = None) tbl of
        Some i \<Rightarrow> (i, tbl[i := Some x])
      | None \<Rightarrow> (length tbl, tbl @ [Some x]))"

definition slot_ref :: "'a option list \<Rightarrow> usize \<Rightarrow> 'a option" where
  "slot_ref tbl i = do { x \<leftarrow> index tbl (unat i); x }"

definition sys_mutex_create :: "kernel \<Rightarrow> bool \<Rightarrow> outcome option" where
  "sys_mutex_create k blocking =
     do { p \<leftarrow> current_process k;
          pcb \<leftarrow> get_proc k p;
          let m = length (mutexes k);
          let k = k\<lparr>mutexes := mutexes k @ [if \<not> blocking then MutexSpin_new else MutexBlocking_new]\<rparr>;
          let (i, tbl) = fill_slot (p_mutexes pcb) m;
          Some (Return (word_of_nat i) (upd_proc k p (\<lambda>pcb. pcb\<lparr>p_mutexes := tbl\<rparr>))) }"

definition sys_mutex_lock :: "kernel \<Rightarrow> frame list \<Rightarrow> usize \<Rightarrow> outcome option" where
  "sys_mutex_lock k fs mutex_id =
     do { p \<leftarrow> current_process k;
          pcb \<leftarrow> get_proc k p;
          m \<leftarrow> slot_ref (p_mutexes pcb) mutex_id;
          mutex_lock k m (FConst 0 # fs) }"

definition sys_mutex_unlock :: "kernel \<Rightarrow> usize \<Rightarrow> outcome option" where
  "sys_mutex_unlock k mutex_id =
     do { p \<leftarrow> current_process k;
          pcb \<leftarrow> get_proc k p;
          m \<leftarrow> slot_ref (p_mutexes pcb) mutex_id;
          k \<leftarrow> mutex_unlock k m;
          Some (Return 0 k) }"

definition sys_semaphore_create :: "kernel \<Rightarrow> usize \<Rightarrow> outcome option" where
  "sys_semaphore_create k res_count =
     do { p \<leftarrow> current_process k;
          pcb \<leftarrow> get_proc k p;
          let s = length (semaphores k);
          let k = k\<lparr>semaphores := semaphores k @ [Semaphore_new res_count]\<rparr>;
          let (i, tbl) = fill_slot (p_semaphores pcb) s;
          Some (Return (word_of_nat i) (upd_proc k p (\<lambda>pcb. pcb\<lparr>p_semaphores := tbl\<rparr>))) }"

definition sys_semaphore_up :: "kernel \<Rightarrow> usize \<Rightarrow> outcome option" where
  "sys_semaphore_up k sem_id =
     do { p \<leftarrow> current_process k;
          pcb \<leftarrow> get_proc k p;
          s \<leftarrow> slot_ref (p_semaphores pcb) sem_id;
          k \<leftarrow> sem_up k s;
          Some (Return 0 k) }"

text \<open>\<^verbatim>\<open>process\<close> is not dropped before the call that blocks, so a blocked task refers to its process.\<close>

definition sys_semaphore_down :: "kernel \<Rightarrow> frame list \<Rightarrow> usize \<Rightarrow> outcome option" where
  "sys_semaphore_down k fs sem_id =
     do { p \<leftarrow> current_process k;
          pcb \<leftarrow> get_proc k p;
          s \<leftarrow> slot_ref (p_semaphores pcb) sem_id;
          sem_down k s (FHold [p] [] # FConst 0 # fs) }"

definition sys_condvar_create :: "kernel \<Rightarrow> outcome option" where
  "sys_condvar_create k =
     do { p \<leftarrow> current_process k;
          pcb \<leftarrow> get_proc k p;
          let c = length (condvars k);
          let k = k\<lparr>condvars := condvars k @ [Condvar_new]\<rparr>;
          let (i, tbl) = fill_slot (p_condvars pcb) c;
          Some (Return (word_of_nat i) (upd_proc k p (\<lambda>pcb. pcb\<lparr>p_condvars := tbl\<rparr>))) }"

definition sys_condvar_signal :: "kernel \<Rightarrow> usize \<Rightarrow> outcome option" where
  "sys_condvar_signal k condvar_id =
     do { p \<leftarrow> current_process k;
          pcb \<leftarrow> get_proc k p;
          c \<leftarrow> slot_ref (p_condvars pcb) condvar_id;
          k \<leftarrow> condvar_signal k c;
          Some (Return 0 k) }"

definition sys_condvar_wait :: "kernel \<Rightarrow> frame list \<Rightarrow> usize \<Rightarrow> usize \<Rightarrow> outcome option" where
  "sys_condvar_wait k fs condvar_id mutex_id =
     do { p \<leftarrow> current_process k;
          pcb \<leftarrow> get_proc k p;
          c \<leftarrow> slot_ref (p_condvars pcb) condvar_id;
          m \<leftarrow> slot_ref (p_mutexes pcb) mutex_id;
          condvar_wait k c m (FHold [p] [] # FConst 0 # fs) }"

definition sys_enable_deadlock_detect :: "usize \<Rightarrow> usize" where "sys_enable_deadlock_detect enabled = - 1"

subsection \<open>Threads\<close>

definition sys_thread_create :: "machine \<Rightarrow> kernel \<Rightarrow> usize \<Rightarrow> usize \<Rightarrow> outcome option" where
  "sys_thread_create m k entry_pc arg =
     do { t \<leftarrow> current_task k;
          tcb \<leftarrow> get_tcb k t;
          let p = t_process tcb;
          _ \<leftarrow> get_proc k p;
          res \<leftarrow> t_res tcb;
          (new, k) \<leftarrow> TaskControlBlock_new k p (r_ustack_base res) True;
          new_tcb \<leftarrow> get_tcb k new;
          new_res \<leftarrow> t_res new_tcb;
          let tid = r_tid new_res;
          let cx = app_init_context (m_sstatus m) entry_pc (ustack_top new_res) (kernel_token k)
                     (get_top (t_kernel_stack new_tcb)) (m_trap_handler m);
          k \<leftarrow> set_trap_cx k new (cx\<lparr>tc_x := (tc_x cx)[10 := arg]\<rparr>);
          pcb \<leftarrow> get_proc k p;
          let tasks = p_tasks pcb @ replicate (Suc tid - length (p_tasks pcb)) None;
          let k = upd_proc k p (\<lambda>pcb. pcb\<lparr>p_tasks := tasks[tid := Some new]\<rparr>);
          k \<leftarrow> (case tasks ! tid of None \<Rightarrow> Some k | Some old \<Rightarrow> drop_task k old);
          Some (Return (word_of_nat tid) (add_task k new)) }"

definition sys_gettid :: "kernel \<Rightarrow> outcome option" where
  "sys_gettid k =
     do { t \<leftarrow> current_task k;
          tcb \<leftarrow> get_tcb k t;
          res \<leftarrow> t_res tcb;
          Some (Return (word_of_nat (r_tid res)) k) }"

definition sys_waittid :: "kernel \<Rightarrow> usize \<Rightarrow> (32 word \<times> kernel) option" where
  "sys_waittid k tid =
     do { t \<leftarrow> current_task k;
          tcb \<leftarrow> get_tcb k t;
          let p = t_process tcb;
          pcb \<leftarrow> get_proc k p;
          res \<leftarrow> t_res tcb;
          if r_tid res = unat tid then Some (- 1, k)
          else do {
            waited \<leftarrow> index (p_tasks pcb) (unat tid);
            (case waited of
               None \<Rightarrow> Some (- 1, k)
             | Some w \<Rightarrow>
                 do { wtcb \<leftarrow> get_tcb k w;
                      (case t_exit_code wtcb of
                         None \<Rightarrow> Some (- 2, k)
                       | Some exit_code \<Rightarrow>
                           do { let k = upd_proc k p (\<lambda>pcb. pcb\<lparr>p_tasks := (p_tasks pcb)[unat tid := None]\<rparr>);
                                k \<leftarrow> drop_task k w;
                                Some (exit_code, k) }) }) } }"

subsection \<open>Dispatch\<close>

text \<open>The numbers of the system calls.\<close>

definition SYSCALL_DUP :: usize where "SYSCALL_DUP = 24"
definition SYSCALL_UNLINKAT :: usize where "SYSCALL_UNLINKAT = 35"
definition SYSCALL_LINKAT :: usize where "SYSCALL_LINKAT = 37"
definition SYSCALL_OPEN :: usize where "SYSCALL_OPEN = 56"
definition SYSCALL_CLOSE :: usize where "SYSCALL_CLOSE = 57"
definition SYSCALL_PIPE :: usize where "SYSCALL_PIPE = 59"
definition SYSCALL_READ :: usize where "SYSCALL_READ = 63"
definition SYSCALL_WRITE :: usize where "SYSCALL_WRITE = 64"
definition SYSCALL_FSTAT :: usize where "SYSCALL_FSTAT = 80"
definition SYSCALL_EXIT :: usize where "SYSCALL_EXIT = 93"
definition SYSCALL_SLEEP :: usize where "SYSCALL_SLEEP = 101"
definition SYSCALL_YIELD :: usize where "SYSCALL_YIELD = 124"
definition SYSCALL_GET_TIME :: usize where "SYSCALL_GET_TIME = 169"
definition SYSCALL_GETPID :: usize where "SYSCALL_GETPID = 172"
definition SYSCALL_GETTID :: usize where "SYSCALL_GETTID = 178"
definition SYSCALL_FORK :: usize where "SYSCALL_FORK = 220"
definition SYSCALL_EXEC :: usize where "SYSCALL_EXEC = 221"
definition SYSCALL_WAITPID :: usize where "SYSCALL_WAITPID = 260"
definition SYSCALL_SPAWN :: usize where "SYSCALL_SPAWN = 400"
definition SYSCALL_MUNMAP :: usize where "SYSCALL_MUNMAP = 215"
definition SYSCALL_MMAP :: usize where "SYSCALL_MMAP = 222"
definition SYSCALL_SET_PRIORITY :: usize where "SYSCALL_SET_PRIORITY = 140"
definition SYSCALL_TASK_INFO :: usize where "SYSCALL_TASK_INFO = 410"
definition SYSCALL_THREAD_CREATE :: usize where "SYSCALL_THREAD_CREATE = 460"
definition SYSCALL_WAITTID :: usize where "SYSCALL_WAITTID = 462"
definition SYSCALL_MUTEX_CREATE :: usize where "SYSCALL_MUTEX_CREATE = 463"
definition SYSCALL_MUTEX_LOCK :: usize where "SYSCALL_MUTEX_LOCK = 464"
definition SYSCALL_MUTEX_UNLOCK :: usize where "SYSCALL_MUTEX_UNLOCK = 466"
definition SYSCALL_SEMAPHORE_CREATE :: usize where "SYSCALL_SEMAPHORE_CREATE = 467"
definition SYSCALL_SEMAPHORE_UP :: usize where "SYSCALL_SEMAPHORE_UP = 468"
definition SYSCALL_ENABLE_DEADLOCK_DETECT :: usize where "SYSCALL_ENABLE_DEADLOCK_DETECT = 469"
definition SYSCALL_SEMAPHORE_DOWN :: usize where "SYSCALL_SEMAPHORE_DOWN = 470"
definition SYSCALL_CONDVAR_CREATE :: usize where "SYSCALL_CONDVAR_CREATE = 471"
definition SYSCALL_CONDVAR_SIGNAL :: usize where "SYSCALL_CONDVAR_SIGNAL = 472"
definition SYSCALL_CONDVAR_WAIT :: usize where "SYSCALL_CONDVAR_WAIT = 473"

lemmas syscall_numbers = SYSCALL_DUP_def SYSCALL_UNLINKAT_def SYSCALL_LINKAT_def SYSCALL_OPEN_def SYSCALL_CLOSE_def SYSCALL_PIPE_def SYSCALL_READ_def SYSCALL_WRITE_def SYSCALL_FSTAT_def SYSCALL_EXIT_def SYSCALL_SLEEP_def SYSCALL_YIELD_def SYSCALL_GET_TIME_def SYSCALL_GETPID_def SYSCALL_GETTID_def SYSCALL_FORK_def SYSCALL_EXEC_def SYSCALL_WAITPID_def SYSCALL_SPAWN_def SYSCALL_MUNMAP_def SYSCALL_MMAP_def SYSCALL_SET_PRIORITY_def SYSCALL_TASK_INFO_def SYSCALL_THREAD_CREATE_def SYSCALL_WAITTID_def SYSCALL_MUTEX_CREATE_def SYSCALL_MUTEX_LOCK_def SYSCALL_MUTEX_UNLOCK_def SYSCALL_SEMAPHORE_CREATE_def SYSCALL_SEMAPHORE_UP_def SYSCALL_ENABLE_DEADLOCK_DETECT_def SYSCALL_SEMAPHORE_DOWN_def SYSCALL_CONDVAR_CREATE_def SYSCALL_CONDVAR_SIGNAL_def SYSCALL_CONDVAR_WAIT_def

datatype sysargs = Args usize usize usize usize

fun ret :: "kernel \<Rightarrow> usize \<Rightarrow> outcome option" where
  "ret k v = Some (Return v k)"

fun syscall :: "machine \<Rightarrow> kernel \<Rightarrow> frame list \<Rightarrow> usize \<Rightarrow> usize \<Rightarrow> sysargs \<Rightarrow> outcome option" where
  "syscall m k fs mtime syscall_id (Args a0 a1 a2 a3) =
     (if syscall_id = SYSCALL_DUP then sys_dup k a0
      else if syscall_id = SYSCALL_LINKAT then ret k (sys_linkat a1 a3)
      else if syscall_id = SYSCALL_UNLINKAT then ret k (sys_unlinkat a1)
      else if syscall_id = SYSCALL_OPEN then sys_open k a1 (ucast a2)
      else if syscall_id = SYSCALL_CLOSE then sys_close k a0
      else if syscall_id = SYSCALL_PIPE then sys_pipe k a0
      else if syscall_id = SYSCALL_READ then sys_read k fs a0 a1 a2
      else if syscall_id = SYSCALL_WRITE then sys_write k fs a0 a1 a2
      else if syscall_id = SYSCALL_FSTAT then ret k (sys_fstat a0 a1)
      else if syscall_id = SYSCALL_EXIT then sys_exit k (ucast a0)
      else if syscall_id = SYSCALL_SLEEP then sys_sleep k fs mtime a0
      else if syscall_id = SYSCALL_YIELD then sys_yield k fs
      else if syscall_id = SYSCALL_GETPID then sys_getpid k
      else if syscall_id = SYSCALL_GETTID then sys_gettid k
      else if syscall_id = SYSCALL_FORK then sys_fork m k
      else if syscall_id = SYSCALL_EXEC then sys_exec m k a0 a1
      else if syscall_id = SYSCALL_WAITPID then sys_waitpid k a0 a1
      else if syscall_id = SYSCALL_GET_TIME then sys_get_time k mtime a0
      else if syscall_id = SYSCALL_MMAP then ret k (sys_mmap a0 a1 a2)
      else if syscall_id = SYSCALL_MUNMAP then ret k (sys_munmap a0 a1)
      else if syscall_id = SYSCALL_SET_PRIORITY then ret k (sys_set_priority a0)
      else if syscall_id = SYSCALL_TASK_INFO then ret k (sys_task_info a0)
      else if syscall_id = SYSCALL_SPAWN then ret k (sys_spawn a0)
      else if syscall_id = SYSCALL_THREAD_CREATE then sys_thread_create m k a0 a1
      else if syscall_id = SYSCALL_WAITTID then map_option (\<lambda>(v, k). Return (scast v) k) (sys_waittid k a0)
      else if syscall_id = SYSCALL_MUTEX_CREATE then sys_mutex_create k (a0 = 1)
      else if syscall_id = SYSCALL_MUTEX_LOCK then sys_mutex_lock k fs a0
      else if syscall_id = SYSCALL_MUTEX_UNLOCK then sys_mutex_unlock k a0
      else if syscall_id = SYSCALL_SEMAPHORE_CREATE then sys_semaphore_create k a0
      else if syscall_id = SYSCALL_SEMAPHORE_UP then sys_semaphore_up k a0
      else if syscall_id = SYSCALL_ENABLE_DEADLOCK_DETECT then ret k (sys_enable_deadlock_detect a0)
      else if syscall_id = SYSCALL_SEMAPHORE_DOWN then sys_semaphore_down k fs a0
      else if syscall_id = SYSCALL_CONDVAR_CREATE then sys_condvar_create k
      else if syscall_id = SYSCALL_CONDVAR_SIGNAL then sys_condvar_signal k a0
      else if syscall_id = SYSCALL_CONDVAR_WAIT then sys_condvar_wait k fs a0 a1
      else None)"

declare syscall.simps [simp del]

subsection \<open>Traps\<close>

datatype cause =
  UserEnvCall usize
| StoreFault | StorePageFault | InstructionFault | InstructionPageFault | LoadFault | LoadPageFault
| IllegalInstruction
| SupervisorTimer usize usize
| OtherTrap

text \<open>The last step of a trap: the arguments of \<^verbatim>\<open>__restore\<close>, after which the task runs in user mode.\<close>

definition trap_return :: "kernel \<Rightarrow> kernel option" where
  "trap_return k =
     do { trap_cx_ptr \<leftarrow> current_trap_cx_user_va k;
          user_satp \<leftarrow> current_user_token k;
          Some (k\<lparr>restore_args := (trap_cx_ptr, user_satp)\<rparr>) }"

definition upd_trap_cx :: "kernel \<Rightarrow> (TrapContext \<Rightarrow> TrapContext) \<Rightarrow> kernel option" where
  "upd_trap_cx k f =
     do { t \<leftarrow> current_task k;
          cx \<leftarrow> get_trap_cx k t;
          set_trap_cx k t (f cx) }"

definition syscall_return :: "kernel \<Rightarrow> usize \<Rightarrow> kernel option" where
  "syscall_return k result =
     do { k \<leftarrow> upd_trap_cx k (\<lambda>cx. cx\<lparr>tc_x := (tc_x cx)[10 := result]\<rparr>); trap_return k }"

definition user_env_call :: "machine \<Rightarrow> kernel \<Rightarrow> usize \<Rightarrow> kernel option" where
  "user_env_call m k mtime =
     do { k \<leftarrow> upd_trap_cx k (\<lambda>cx. cx\<lparr>tc_sepc := tc_sepc cx + 4\<rparr>);
          t \<leftarrow> current_task k;
          cx \<leftarrow> get_trap_cx k t;
          let x = tc_x cx;
          r \<leftarrow> syscall m k [FSyscall] mtime (x ! 17) (Args (x ! 10) (x ! 11) (x ! 12) (x ! 13));
          (case r of Return v k \<Rightarrow> syscall_return k v | Switched k \<Rightarrow> Some k) }"

definition wake_sleepers :: "kernel \<Rightarrow> usize \<Rightarrow> kernel" where
  "wake_sleepers k mtime =
     (let (woken, left) = check_timer (get_time_ms mtime) (ktimers k)
      in foldl add_task (k\<lparr>ktimers := left\<rparr>) woken)"

definition trap_handler :: "machine \<Rightarrow> kernel \<Rightarrow> cause \<Rightarrow> kernel option" where
  "trap_handler m k c =
     (case c of
        UserEnvCall mtime \<Rightarrow> user_env_call m k mtime
      | IllegalInstruction \<Rightarrow> exit_current_and_run_next k (- 3)
      | SupervisorTimer t1 t2 \<Rightarrow>
          suspend_current_and_run_next (wake_sleepers (k\<lparr>next_trigger := set_next_trigger t1\<rparr>) t2) [FTrap]
      | OtherTrap \<Rightarrow> None
      | _ \<Rightarrow> exit_current_and_run_next k (- 2))"

subsection \<open>The scheduling loop\<close>

text \<open>
  Returning through the frames of a task that runs again, with the value of the innermost call.
  \<open>on_return\<close> continues after a call that may leave the processor again.
\<close>

definition on_return :: "(kernel \<Rightarrow> usize \<Rightarrow> kernel option) \<Rightarrow> outcome option \<Rightarrow> kernel option" where
  "on_return f r = do { r \<leftarrow> r; (case r of Return v k \<Rightarrow> f k v | Switched k \<Rightarrow> Some k) }"

fun run_frames :: "kernel \<Rightarrow> frame list \<Rightarrow> usize \<Rightarrow> kernel option" where
  "run_frames k [] v = trap_return k"
| "run_frames k (FSyscall # fs) v = syscall_return k v"
| "run_frames k (FTrap # fs) v = trap_return k"
| "run_frames k (FConst c # fs) v = run_frames k fs c"
| "run_frames k (FBlocked t # fs) v = do { k \<leftarrow> drop_task k t; run_frames k fs v }"
| "run_frames k (FHold ps fl # fs) v = do { k \<leftarrow> drop_all_procs k ps; run_frames k fs v }"
| "run_frames k (FMutexSpin m # fs) v = on_return (\<lambda>k v. run_frames k fs v) (mutex_lock k m fs)"
| "run_frames k (FRelock m # fs) v = on_return (\<lambda>k v. run_frames k fs v) (mutex_lock k m fs)"
| "run_frames k (FPipeRead b it n # fs) v = on_return (\<lambda>k v. run_frames k fs v) (pipe_read k fs b it n)"
| "run_frames k (FPipeWrite b it n # fs) v = on_return (\<lambda>k v. run_frames k fs v) (pipe_write k fs b it n)"
| "run_frames k (FStdinRead buf # fs) v = on_return (\<lambda>k v. run_frames k fs v) (stdin_read_loop k fs buf)"

text \<open>One iteration of \<^verbatim>\<open>run_tasks\<close>: a task is taken from the ready queue and continues where it left.\<close>

definition run_next :: "kernel \<Rightarrow> kernel option" where
  "run_next k =
     (case fetch_task k of
        (None, k) \<Rightarrow> Some k
      | (Some t, k) \<Rightarrow>
          do { tcb \<leftarrow> get_tcb k t;
               let k = upd_tcb k t (\<lambda>tcb. tcb\<lparr>t_status := Running\<rparr>);
               let k = k\<lparr>cpu := Some t\<rparr>;
               let r = cx_ra (t_task_cx tcb);
               let k = schedule k t ResumeNone;
               (case r of
                  GotoTrapReturn \<Rightarrow> trap_return k
                | ResumeAt fs \<Rightarrow> run_frames k fs 0
                | ResumeNone \<Rightarrow> None) })"

subsection \<open>Starting up\<close>

text \<open>The initial process runs the file \<^verbatim>\<open>ch8b_initproc\<close>.\<close>

definition ascii :: "string \<Rightarrow> u8 list" where
  "ascii s = map (\<lambda>c. of_char c) s"

definition add_initproc :: "machine \<Rightarrow> kernel \<Rightarrow> kernel option" where
  "add_initproc m k =
     do { (inode, d) \<leftarrow> open_file (kfs k) (kdisk k) (ascii ''ch8b_initproc'') RDONLY;
          inode \<leftarrow> inode;
          (v, _) \<leftarrow> read_all d inode;
          (p, k) \<leftarrow> Process_new m (k\<lparr>kdisk := d\<rparr>) v;
          Some (k\<lparr>initproc := Some p\<rparr>) }"

text \<open>The first use of \<^verbatim>\<open>ROOT_INODE\<close> opens the file system.\<close>

definition open_root :: "kernel \<Rightarrow> kernel option" where
  "open_root k = do { fs \<leftarrow> efs_open (kdisk k); Some (k\<lparr>kfs := fs\<rparr>) }"

text \<open>What \<^verbatim>\<open>list_apps\<close> prints: a line per file between two lines of stars.\<close>

definition list_apps :: "kernel \<Rightarrow> kernel option" where
  "list_apps k =
     do { apps \<leftarrow> vfs_ls (kdisk k) (root_inode (kfs k));
          Some (k\<lparr>console_out := console_out k @ ascii ''/**** APPS ****'' @ [10] @
                   concat (map (\<lambda>app. app @ [10]) apps) @ ascii ''**************/'' @ [10]\<rparr>) }"

definition clear_bss :: "usize \<Rightarrow> usize \<Rightarrow> mm \<Rightarrow> mm" where
  "clear_bss sbss end_bss s = write_phys s sbss (replicate (unat (end_bss - sbss)) 0)"

text \<open>Frames, then the kernel space, whose first use builds it; activating it is a register write.\<close>

definition mm_init :: "linker \<Rightarrow> mm \<Rightarrow> (MemorySet \<times> mm) option" where
  "mm_init ld s = new_kernel ld (init_frame_allocator (ekernel ld) s)"

text \<open>
  The start of the kernel, up to the scheduling loop: memory, the kernel space and its self test, the
  first timer interrupt, the list of applications and the initial process.  \<open>k0\<close> holds the empty
  tables and the state of memory and the devices.
\<close>

definition rust_main :: "machine \<Rightarrow> linker \<Rightarrow> usize \<Rightarrow> usize \<Rightarrow> kernel \<Rightarrow> kernel option" where
  "rust_main m ld sbss mtime k0 =
     do { let s = clear_bss sbss (ebss ld) (kmm k0);
          (ks, s) \<leftarrow> mm_init ld s;
          _ \<leftarrow> remap_test ld ks s;
          let k = k0\<lparr>kmm := s, kspace := ks, next_trigger := set_next_trigger mtime\<rparr>;
          k \<leftarrow> open_root k;
          k \<leftarrow> list_apps k;
          add_initproc m k }"

end
