(* ===== verification/Kernel_Typing.thy ===== *)
theory Kernel_Typing
  imports Syscalls
begin

text \<open>
  A typing of the kernel state, in the sense of the references that the Rust types guarantee: every
  reference held in a table, a queue, a file, a saved frame or a timer denotes an entry of the table it
  belongs to, and every pipe buffer is a well-formed ring buffer with a write end.  Here the operations
  on tasks, files, locks and processes are shown to preserve the typing, to remove no table entry and to
  change the ready queue only by appending tasks (\<open>good\<close>).
\<close>

subsection \<open>The typing\<close>

definition refs_in :: "nat option list \<Rightarrow> nat \<Rightarrow> bool" where
  "refs_in tbl n \<longleftrightarrow> (\<forall>r. Some r \<in> set tbl \<longrightarrow> r < n)"

fun frame_ty :: "kernel \<Rightarrow> frame \<Rightarrow> bool" where
  "frame_ty k (FBlocked t) = (t < length (tcbs k))"
| "frame_ty k (FMutexSpin m) = (m < length (mutexes k))"
| "frame_ty k (FRelock m) = (m < length (mutexes k))"
| "frame_ty k (FPipeRead b it n) = (b < length (rings k))"
| "frame_ty k (FPipeWrite b it n) = (b < length (rings k))"
| "frame_ty k (FHold ps fs) \<longleftrightarrow> (\<forall>p \<in> set ps. p < length (pcbs k)) \<and> (\<forall>f \<in> set fs. f < length (files k))"
| "frame_ty k _ = True"

definition pcb_ty :: "kernel \<Rightarrow> ProcessControlBlock \<Rightarrow> bool" where
  "pcb_ty k p \<longleftrightarrow>
     (\<forall>c \<in> set (p_children p). c < length (pcbs k)) \<and> refs_in [p_parent p] (length (pcbs k)) \<and>
     refs_in (p_fd_table p) (length (files k)) \<and> refs_in (p_tasks p) (length (tcbs k)) \<and>
     refs_in (p_mutexes p) (length (mutexes k)) \<and> refs_in (p_semaphores p) (length (semaphores k)) \<and>
     refs_in (p_condvars p) (length (condvars k))"

definition tcb_ty :: "kernel \<Rightarrow> TaskControlBlock \<Rightarrow> bool" where
  "tcb_ty k t \<longleftrightarrow> t_process t < length (pcbs k) \<and> (\<forall>f \<in> set (resume_frames (cx_ra (t_task_cx t))). frame_ty k f)"

fun mutex_ty :: "kernel \<Rightarrow> Mutex \<Rightarrow> bool" where
  "mutex_ty k (MutexSpin l) = True"
| "mutex_ty k (MutexBlocking l q) = (\<forall>t \<in> set q. t < length (tcbs k))"

fun file_ty :: "kernel \<Rightarrow> File \<Rightarrow> bool" where
  "file_ty k (PipeEnd p) = (p_buffer p < length (rings k))"
| "file_ty k _ = True"

definition ring_ty :: "kernel \<Rightarrow> PipeRingBuffer \<Rightarrow> bool" where
  "ring_ty k rb \<longleftrightarrow> rb_ok rb \<and> (\<exists>w. rb_write_end rb = Some w \<and> w < length (files k))"

definition kernel_ty :: "kernel \<Rightarrow> bool" where
  "kernel_ty k \<longleftrightarrow>
     (\<forall>p \<in> set (pcbs k). pcb_ty k p) \<and> (\<forall>t \<in> set (tcbs k). tcb_ty k t) \<and>
     (\<forall>t \<in> set (ready_queue k). t < length (tcbs k)) \<and> refs_in [cpu k] (length (tcbs k)) \<and>
     (\<forall>t \<in> set (ktimers k). tm_task t < length (tcbs k)) \<and>
     (\<forall>m \<in> set (mutexes k). mutex_ty k m) \<and>
     (\<forall>s \<in> set (semaphores k). \<forall>t \<in> set (sem_wait s). t < length (tcbs k)) \<and>
     (\<forall>q \<in> set (condvars k). \<forall>t \<in> set q. t < length (tcbs k)) \<and>
     (\<forall>f \<in> set (files k). file_ty k f) \<and> (\<forall>r \<in> set (rings k). ring_ty k r) \<and>
     refs_in [initproc k] (length (pcbs k))"

text \<open>Tables only grow, and the ready queue is only appended to.\<close>

definition grows :: "kernel \<Rightarrow> kernel \<Rightarrow> bool" where
  "grows k k' \<longleftrightarrow>
     length (pcbs k) \<le> length (pcbs k') \<and> length (tcbs k) \<le> length (tcbs k') \<and> length (files k) \<le> length (files k') \<and>
     length (rings k) \<le> length (rings k') \<and> length (mutexes k) \<le> length (mutexes k') \<and>
     length (semaphores k) \<le> length (semaphores k') \<and> length (condvars k) \<le> length (condvars k') \<and>
     (\<exists>q. ready_queue k' = ready_queue k @ q)"

definition good :: "kernel \<Rightarrow> kernel \<Rightarrow> bool" where
  "good k k' \<longleftrightarrow> kernel_ty k' \<and> grows k k'"

lemma grows_refl [simp]: "grows k k"
  by (simp add: grows_def)

lemma grows_trans: "grows a b \<Longrightarrow> grows b c \<Longrightarrow> grows a c"
  by (auto simp: grows_def)

lemma goodI: "kernel_ty k' \<Longrightarrow> grows k k' \<Longrightarrow> good k k'"
  by (simp add: good_def)

lemma good_refl: "kernel_ty k \<Longrightarrow> good k k"
  by (simp add: good_def)

lemma good_trans: "good a b \<Longrightarrow> good b c \<Longrightarrow> good a c"
  by (auto simp: good_def intro: grows_trans)

lemma good_ty: "good k k' \<Longrightarrow> kernel_ty k'"
  by (simp add: good_def)

subsection \<open>Updates\<close>

text \<open>The fields that hold no references.\<close>

lemma ty_cong:
  assumes "length (pcbs k') = length (pcbs k)" "length (tcbs k') = length (tcbs k)" "length (files k') = length (files k)"
    "length (rings k') = length (rings k)" "length (mutexes k') = length (mutexes k)"
    "length (semaphores k') = length (semaphores k)" "length (condvars k') = length (condvars k)"
  shows "frame_ty k' f = frame_ty k f" "pcb_ty k' p = pcb_ty k p" "tcb_ty k' t = tcb_ty k t" "mutex_ty k' m = mutex_ty k m"
    "file_ty k' fl = file_ty k fl" "ring_ty k' r = ring_ty k r"
proof -
  show f: "frame_ty k' f = frame_ty k f" for f using assms by (cases f) auto
  show "pcb_ty k' p = pcb_ty k p" using assms by (simp add: pcb_ty_def)
  show "tcb_ty k' t = tcb_ty k t" using assms f by (simp add: tcb_ty_def)
  show "mutex_ty k' m = mutex_ty k m" using assms by (cases m) auto
  show "file_ty k' fl = file_ty k fl" using assms by (cases fl) auto
  show "ring_ty k' r = ring_ty k r" using assms by (simp add: ring_ty_def)
qed

lemma ty_mono:
  assumes "grows k k'"
  shows "frame_ty k f \<Longrightarrow> frame_ty k' f" "pcb_ty k p \<Longrightarrow> pcb_ty k' p" "tcb_ty k t \<Longrightarrow> tcb_ty k' t"
    "mutex_ty k m \<Longrightarrow> mutex_ty k' m" "file_ty k fl \<Longrightarrow> file_ty k' fl" "ring_ty k r \<Longrightarrow> ring_ty k' r"
proof -
  show f: "frame_ty k f \<Longrightarrow> frame_ty k' f" for f using assms by (cases f) (auto simp: grows_def)
  show "pcb_ty k p \<Longrightarrow> pcb_ty k' p" using assms by (auto simp: pcb_ty_def grows_def refs_in_def dest: order_less_le_trans)
  show "tcb_ty k t \<Longrightarrow> tcb_ty k' t" using assms f by (auto simp: tcb_ty_def grows_def)
  show "mutex_ty k m \<Longrightarrow> mutex_ty k' m" using assms by (cases m) (auto simp: grows_def)
  show "file_ty k fl \<Longrightarrow> file_ty k' fl" using assms by (cases fl) (auto simp: grows_def)
  show "ring_ty k r \<Longrightarrow> ring_ty k' r" using assms by (auto simp: ring_ty_def grows_def)
qed

lemma good_plain [simp]:
  "good k (k'\<lparr>kmm := a\<rparr>) = good k k'" "good k (k'\<lparr>kspace := b\<rparr>) = good k k'" "good k (k'\<lparr>pid_allocator := c\<rparr>) = good k k'"
  "good k (k'\<lparr>kstack_allocator := d\<rparr>) = good k k'" "good k (k'\<lparr>kdisk := e\<rparr>) = good k k'"
  "good k (k'\<lparr>console_in := g\<rparr>) = good k k'" "good k (k'\<lparr>console_out := h\<rparr>) = good k k'"
  "good k (k'\<lparr>next_trigger := i\<rparr>) = good k k'" "good k (k'\<lparr>restore_args := j\<rparr>) = good k k'"
  by (simp_all add: good_def grows_def kernel_ty_def ty_cong [of "kmm_update _ _"] ty_cong [of "kspace_update _ _"]
      ty_cong [of "pid_allocator_update _ _"] ty_cong [of "kstack_allocator_update _ _"] ty_cong [of "kdisk_update _ _"]
      ty_cong [of "console_in_update _ _"] ty_cong [of "console_out_update _ _"] ty_cong [of "next_trigger_update _ _"]
      ty_cong [of "restore_args_update _ _"])

lemma kernel_ty_plain [simp]:
  "kernel_ty (k\<lparr>kmm := a\<rparr>) = kernel_ty k" "kernel_ty (k\<lparr>kspace := b\<rparr>) = kernel_ty k" "kernel_ty (k\<lparr>kdisk := e\<rparr>) = kernel_ty k"
  "kernel_ty (k\<lparr>pid_allocator := c\<rparr>) = kernel_ty k" "kernel_ty (k\<lparr>kstack_allocator := d\<rparr>) = kernel_ty k"
  "kernel_ty (k\<lparr>console_in := g\<rparr>) = kernel_ty k" "kernel_ty (k\<lparr>console_out := h\<rparr>) = kernel_ty k"
  "kernel_ty (k\<lparr>next_trigger := i\<rparr>) = kernel_ty k" "kernel_ty (k\<lparr>restore_args := j\<rparr>) = kernel_ty k"
  using good_plain [where k = k and k' = k] by (simp_all add: good_def grows_def)

text \<open>The tables keep their lengths under the two update functions.\<close>

lemma upd_proc_fields [simp]:
  "length (pcbs (upd_proc k p f)) = length (pcbs k)" "tcbs (upd_proc k p f) = tcbs k" "files (upd_proc k p f) = files k"
  "rings (upd_proc k p f) = rings k" "mutexes (upd_proc k p f) = mutexes k" "semaphores (upd_proc k p f) = semaphores k"
  "condvars (upd_proc k p f) = condvars k" "ready_queue (upd_proc k p f) = ready_queue k" "cpu (upd_proc k p f) = cpu k"
  "ktimers (upd_proc k p f) = ktimers k" "initproc (upd_proc k p f) = initproc k" "kmm (upd_proc k p f) = kmm k"
  "kspace (upd_proc k p f) = kspace k"
  by (simp_all add: upd_proc_def)

lemma upd_tcb_fields [simp]:
  "length (tcbs (upd_tcb k t f)) = length (tcbs k)" "pcbs (upd_tcb k t f) = pcbs k" "files (upd_tcb k t f) = files k"
  "rings (upd_tcb k t f) = rings k" "mutexes (upd_tcb k t f) = mutexes k" "semaphores (upd_tcb k t f) = semaphores k"
  "condvars (upd_tcb k t f) = condvars k" "ready_queue (upd_tcb k t f) = ready_queue k" "cpu (upd_tcb k t f) = cpu k"
  "ktimers (upd_tcb k t f) = ktimers k" "initproc (upd_tcb k t f) = initproc k" "kmm (upd_tcb k t f) = kmm k"
  "kspace (upd_tcb k t f) = kspace k"
  by (simp_all add: upd_tcb_def)

lemma good_upd_proc:
  assumes "kernel_ty k" and "\<And>pcb. pcb_ty k pcb \<Longrightarrow> pcb_ty k (f pcb)"
  shows "good k (upd_proc k p f)"
proof -
  have "\<forall>q \<in> set (pcbs (upd_proc k p f)). pcb_ty k q"
  proof (cases "p < length (pcbs k)")
    case True
    then have "pcb_ty k (f (pcbs k ! p))" using assms by (simp add: kernel_ty_def)
    then show ?thesis using assms(1) set_update_subset_insert [of "pcbs k" p "f (pcbs k ! p)"]
      by (auto simp: kernel_ty_def upd_proc_def)
  next
    case False
    then show ?thesis using assms(1) by (simp add: kernel_ty_def upd_proc_def list_update_beyond)
  qed
  then show ?thesis using assms(1)
    by (simp add: good_def grows_def kernel_ty_def ty_cong [of "upd_proc k p f" k])
qed

lemma good_upd_tcb:
  assumes "kernel_ty k" and "\<And>tcb. tcb_ty k tcb \<Longrightarrow> tcb_ty k (f tcb)"
  shows "good k (upd_tcb k t f)"
proof -
  have "\<forall>q \<in> set (tcbs (upd_tcb k t f)). tcb_ty k q"
  proof (cases "t < length (tcbs k)")
    case True
    then have "tcb_ty k (f (tcbs k ! t))" using assms by (simp add: kernel_ty_def)
    then show ?thesis using assms(1) set_update_subset_insert [of "tcbs k" t "f (tcbs k ! t)"]
      by (auto simp: kernel_ty_def upd_tcb_def)
  next
    case False
    then show ?thesis using assms(1) by (simp add: kernel_ty_def upd_tcb_def list_update_beyond)
  qed
  then show ?thesis using assms(1)
    by (simp add: good_def grows_def kernel_ty_def ty_cong [of "upd_tcb k t f" k])
qed

lemma good_add_task: "kernel_ty k \<Longrightarrow> t < length (tcbs k) \<Longrightarrow> good k (add_task k t)"
  by (simp add: good_def grows_def kernel_ty_def add_task_def tm_add_def ty_cong [of "ready_queue_update _ _"])

lemma good_idle: "kernel_ty k \<Longrightarrow> good k (k\<lparr>cpu := None\<rparr>)"
  by (simp add: good_def grows_def kernel_ty_def refs_in_def ty_cong [of "cpu_update _ _"])

lemma good_cpu: "kernel_ty k \<Longrightarrow> t < length (tcbs k) \<Longrightarrow> good k (k\<lparr>cpu := Some t\<rparr>)"
  by (simp add: good_def grows_def kernel_ty_def refs_in_def ty_cong [of "cpu_update _ _"])

lemma good_timers: "kernel_ty k \<Longrightarrow> (\<And>t. t \<in> set ts \<Longrightarrow> tm_task t < length (tcbs k)) \<Longrightarrow> good k (k\<lparr>ktimers := ts\<rparr>)"
  by (simp add: good_def grows_def kernel_ty_def ty_cong [of "ktimers_update _ _"])

text \<open>New entries at the end of a table.\<close>

lemma kernel_ty_mono:
  assumes "grows k k'" and "kernel_ty k"
  shows "\<forall>p \<in> set (pcbs k). pcb_ty k' p" "\<forall>t \<in> set (tcbs k). tcb_ty k' t" "\<forall>m \<in> set (mutexes k). mutex_ty k' m"
    "\<forall>f \<in> set (files k). file_ty k' f" "\<forall>r \<in> set (rings k). ring_ty k' r"
  using assms ty_mono [OF assms(1)] by (auto simp: kernel_ty_def)

lemma good_new_pcb:
  assumes "kernel_ty k" and "pcb_ty (k\<lparr>pcbs := pcbs k @ [x]\<rparr>) x"
  shows "good k (k\<lparr>pcbs := pcbs k @ [x]\<rparr>)"
proof -
  have g: "grows k (k\<lparr>pcbs := pcbs k @ [x]\<rparr>)" by (simp add: grows_def)
  show ?thesis using kernel_ty_mono [OF g assms(1)] assms g unfolding good_def kernel_ty_def refs_in_def by auto
qed

lemma good_new_tcb:
  assumes "kernel_ty k" and "tcb_ty (k\<lparr>tcbs := tcbs k @ [x]\<rparr>) x"
  shows "good k (k\<lparr>tcbs := tcbs k @ [x]\<rparr>)"
proof -
  have g: "grows k (k\<lparr>tcbs := tcbs k @ [x]\<rparr>)" by (simp add: grows_def)
  show ?thesis using kernel_ty_mono [OF g assms(1)] assms g unfolding good_def kernel_ty_def refs_in_def by (auto simp: less_Suc_eq)
qed

lemma good_new_files:
  assumes "kernel_ty k" and "\<forall>x \<in> set xs. file_ty k x"
  shows "good k (k\<lparr>files := files k @ xs\<rparr>)"
proof -
  have g: "grows k (k\<lparr>files := files k @ xs\<rparr>)" by (simp add: grows_def)
  show ?thesis using kernel_ty_mono [OF g assms(1)] assms g ty_mono(5) [OF g] unfolding good_def kernel_ty_def by auto
qed

lemma good_new_mutex: "kernel_ty k \<Longrightarrow> mutex_ty k x \<Longrightarrow> good k (k\<lparr>mutexes := mutexes k @ [x]\<rparr>)"
proof -
  assume a: "kernel_ty k" "mutex_ty k x"
  have g: "grows k (k\<lparr>mutexes := mutexes k @ [x]\<rparr>)" by (simp add: grows_def)
  show ?thesis using kernel_ty_mono [OF g a(1)] a g ty_mono(4) [OF g] unfolding good_def kernel_ty_def by auto
qed

lemma good_new_semaphore: "kernel_ty k \<Longrightarrow> sem_wait x = [] \<Longrightarrow> good k (k\<lparr>semaphores := semaphores k @ [x]\<rparr>)"
proof -
  assume a: "kernel_ty k" "sem_wait x = []"
  have g: "grows k (k\<lparr>semaphores := semaphores k @ [x]\<rparr>)" by (simp add: grows_def)
  show ?thesis using kernel_ty_mono [OF g a(1)] a g unfolding good_def kernel_ty_def by auto
qed

lemma good_new_condvar: "kernel_ty k \<Longrightarrow> good k (k\<lparr>condvars := condvars k @ [[]]\<rparr>)"
proof -
  assume a: "kernel_ty k"
  have g: "grows k (k\<lparr>condvars := condvars k @ [[]]\<rparr>)" by (simp add: grows_def)
  show ?thesis using kernel_ty_mono [OF g a] a g unfolding good_def kernel_ty_def by auto
qed

text \<open>Changes of one entry.\<close>

lemma good_set_mutex: "kernel_ty k \<Longrightarrow> mutex_ty k v \<Longrightarrow> good k (set_mutex k m v)"
  using set_update_subset_insert [of "mutexes k" m v]
  by (auto simp: good_def grows_def kernel_ty_def set_mutex_def ty_cong [of "mutexes_update _ _"])

lemma good_set_semaphore:
  "kernel_ty k \<Longrightarrow> \<forall>t \<in> set (sem_wait s). t < length (tcbs k) \<Longrightarrow> good k (k\<lparr>semaphores := (semaphores k)[i := s]\<rparr>)"
  using set_update_subset_insert [of "semaphores k" i s]
  by (auto simp: good_def grows_def kernel_ty_def ty_cong [of "semaphores_update _ _"])

lemma good_set_condvar:
  "kernel_ty k \<Longrightarrow> \<forall>t \<in> set q. t < length (tcbs k) \<Longrightarrow> good k (k\<lparr>condvars := (condvars k)[i := q]\<rparr>)"
  using set_update_subset_insert [of "condvars k" i q]
  by (auto simp: good_def grows_def kernel_ty_def ty_cong [of "condvars_update _ _"])

lemma good_set_file: "kernel_ty k \<Longrightarrow> file_ty k f \<Longrightarrow> good k (k\<lparr>files := (files k)[i := f]\<rparr>)"
  using set_update_subset_insert [of "files k" i f]
  by (auto simp: good_def grows_def kernel_ty_def ty_cong [of "files_update _ _"])

lemma good_set_ring: "kernel_ty k \<Longrightarrow> ring_ty k r \<Longrightarrow> good k (k\<lparr>rings := (rings k)[i := r]\<rparr>)"
  using set_update_subset_insert [of "rings k" i r]
  by (auto simp: good_def grows_def kernel_ty_def ty_cong [of "rings_update _ _"])

subsection \<open>Lookups\<close>

definition frames_ty :: "kernel \<Rightarrow> frame list \<Rightarrow> bool" where
  "frames_ty k fs \<longleftrightarrow> (\<forall>f \<in> set fs. frame_ty k f)"

lemma frames_ty_simps [simp]: "frames_ty k []" "frames_ty k (f # fs) \<longleftrightarrow> frame_ty k f \<and> frames_ty k fs"
  by (simp_all add: frames_ty_def)

lemma frames_ty_mono: "good k k' \<Longrightarrow> frames_ty k fs \<Longrightarrow> frames_ty k' fs"
  using ty_mono(1) by (auto simp: frames_ty_def good_def)

lemma get_tcb_ty: "kernel_ty k \<Longrightarrow> get_tcb k t = Some tcb \<Longrightarrow> t < length (tcbs k) \<and> tcb_ty k tcb"
  by (auto simp: get_tcb_def index_Some kernel_ty_def)

lemma get_proc_ty: "kernel_ty k \<Longrightarrow> get_proc k p = Some pcb \<Longrightarrow> p < length (pcbs k) \<and> pcb_ty k pcb"
  by (auto simp: get_proc_def kernel_ty_def split: if_splits)

lemma current_task_ty: "kernel_ty k \<Longrightarrow> current_task k = Some t \<Longrightarrow> t < length (tcbs k)"
  by (auto simp: current_task_def kernel_ty_def refs_in_def)

lemma current_process_ty: "current_process k = Some p \<Longrightarrow> p < length (pcbs k)"
  by (auto simp: current_process_def get_proc_def split: bind_splits if_splits)

lemma refs_in_update: "refs_in tbl n \<Longrightarrow> refs_in [x] n \<Longrightarrow> refs_in (tbl[i := x]) n"
  using set_update_subset_insert [of tbl i x] by (auto simp: refs_in_def)

lemma refs_in_simps [simp]:
  "refs_in [] n" "refs_in (x # xs) n \<longleftrightarrow> (\<forall>r. x = Some r \<longrightarrow> r < n) \<and> refs_in xs n"
  "refs_in (xs @ ys) n \<longleftrightarrow> refs_in xs n \<and> refs_in ys n" "refs_in (replicate i None) n"
  by (auto simp: refs_in_def)

lemma refs_in_index: "refs_in tbl n \<Longrightarrow> index tbl i = Some (Some r) \<Longrightarrow> r < n"
  by (auto simp: refs_in_def index_Some)

lemma refs_in_somes: "refs_in tbl n \<Longrightarrow> r \<in> set (somes tbl) \<Longrightarrow> r < n"
  by (auto simp: refs_in_def somes_def split: option.splits)

subsection \<open>Task resources\<close>

lemma good_schedule: "kernel_ty k \<Longrightarrow> frames_ty k (resume_frames r) \<Longrightarrow> good k (schedule k t r)"
  unfolding schedule_def by (rule good_upd_tcb) (auto simp: tcb_ty_def frames_ty_def)

lemma block_good:
  assumes k: "kernel_ty k" and fs: "frames_ty k fs" and b: "block_current_and_run_next k fs = Some k'"
  shows "good k k'"
proof -
  obtain t where t: "cpu k = Some t" and k': "k' = schedule (upd_tcb (k\<lparr>cpu := None\<rparr>) t (\<lambda>tcb. tcb\<lparr>t_status := Blocking\<rparr>)) t (ResumeAt (FBlocked t # fs))"
    using b by (auto simp: block_current_and_run_next_def take_current_task_def Let_def split: bind_splits)
  let ?k1 = "k\<lparr>cpu := None\<rparr>" let ?k2 = "upd_tcb ?k1 t (\<lambda>tcb. tcb\<lparr>t_status := Blocking\<rparr>)"
  have 1: "good k ?k1" by (rule good_idle [OF k])
  have 2: "good ?k1 ?k2" by (rule good_upd_tcb [OF good_ty [OF 1]]) (simp add: tcb_ty_def)
  note 12 = good_trans [OF 1 2]
  have "frames_ty ?k2 (FBlocked t # fs)"
    using frames_ty_mono [OF 12 fs] current_task_ty [OF k] t by (simp add: current_task_def)
  then have "good ?k2 k'" unfolding k' by (intro good_schedule good_ty [OF 2]) simp
  with 12 show ?thesis by (rule good_trans)
qed

lemma suspend_good:
  assumes k: "kernel_ty k" and fs: "frames_ty k fs" and b: "suspend_current_and_run_next k fs = Some k'"
  shows "good k k'"
proof -
  obtain t where t: "cpu k = Some t" and k': "k' = schedule (add_task (upd_tcb (k\<lparr>cpu := None\<rparr>) t (\<lambda>tcb. tcb\<lparr>t_status := Ready\<rparr>)) t) t (ResumeAt fs)"
    using b by (auto simp: suspend_current_and_run_next_def take_current_task_def Let_def split: bind_splits)
  let ?k1 = "k\<lparr>cpu := None\<rparr>" let ?k2 = "upd_tcb ?k1 t (\<lambda>tcb. tcb\<lparr>t_status := Ready\<rparr>)"
  have 1: "good k ?k1" by (rule good_idle [OF k])
  have 2: "good ?k1 ?k2" by (rule good_upd_tcb [OF good_ty [OF 1]]) (simp add: tcb_ty_def)
  have 3: "good ?k2 (add_task ?k2 t)"
    using current_task_ty [OF k] t by (intro good_add_task good_ty [OF 2]) (simp add: current_task_def)
  note 123 = good_trans [OF good_trans [OF 1 2] 3]
  have "good (add_task ?k2 t) k'" unfolding k'
    using frames_ty_mono [OF 123 fs] by (intro good_schedule good_ty [OF 3]) simp
  with 123 show ?thesis by (rule good_trans)
qed

named_theorems good_ops \<open>operations that keep the typing\<close>

lemma alloc_tid_good [good_ops]: "kernel_ty k \<Longrightarrow> alloc_tid k p = Some (i, k') \<Longrightarrow> good k k'"
  by (auto simp: alloc_tid_def split_beta split: bind_splits intro!: good_upd_proc) (simp add: pcb_ty_def)

lemma dealloc_tid_good [good_ops]: "kernel_ty k \<Longrightarrow> dealloc_tid k p i = Some k' \<Longrightarrow> good k k'"
  by (auto simp: dealloc_tid_def split: bind_splits intro!: good_upd_proc) (simp add: pcb_ty_def)

lemma good_upd_ms:
  assumes "kernel_ty k"
  shows "good k (upd_proc (k\<lparr>kmm := s\<rparr>) p (\<lambda>pcb. pcb\<lparr>p_memory_set := ms\<rparr>))"
proof -
  have "good (k\<lparr>kmm := s\<rparr>) (upd_proc (k\<lparr>kmm := s\<rparr>) p (\<lambda>pcb. pcb\<lparr>p_memory_set := ms\<rparr>))"
    using assms by (intro good_upd_proc) (simp_all add: pcb_ty_def)
  moreover have "good k (k\<lparr>kmm := s\<rparr>)" using assms by (simp add: good_refl)
  ultimately show ?thesis by (blast intro: good_trans)
qed

lemma proc_insert_area_good [good_ops]: "kernel_ty k \<Longrightarrow> proc_insert_area k p a b perm = Some k' \<Longrightarrow> good k k'"
  by (auto simp: proc_insert_area_def good_upd_ms split: bind_splits)

lemma proc_remove_area_good [good_ops]: "kernel_ty k \<Longrightarrow> proc_remove_area k p a = Some k' \<Longrightarrow> good k k'"
  by (auto simp: proc_remove_area_def good_upd_ms split: bind_splits)

lemma alloc_user_res_good [good_ops]: "kernel_ty k \<Longrightarrow> alloc_user_res k r = Some k' \<Longrightarrow> good k k'"
  unfolding alloc_user_res_def by (auto simp: Let_def split: bind_splits) (meson good_ty good_trans proc_insert_area_good)

lemma dealloc_user_res_good [good_ops]: "kernel_ty k \<Longrightarrow> dealloc_user_res k r = Some k' \<Longrightarrow> good k k'"
  unfolding dealloc_user_res_def by (auto split: bind_splits) (meson good_ty good_trans proc_remove_area_good)

lemma res_drop_good [good_ops]: "kernel_ty k \<Longrightarrow> res_drop k r = Some k' \<Longrightarrow> good k k'"
  unfolding res_drop_def by (auto split: bind_splits) (meson good_ty good_trans dealloc_tid_good dealloc_user_res_good)

lemma TaskUserRes_new_good [good_ops]:
  "kernel_ty k \<Longrightarrow> TaskUserRes_new k p u b = Some (r, k') \<Longrightarrow> good k k' \<and> r_process r = p"
  unfolding TaskUserRes_new_def
  by (auto simp: Let_def split: bind_splits if_splits) (meson good_ty good_trans alloc_tid_good alloc_user_res_good)+

lemma kstack_alloc_good [good_ops]: "kernel_ty k \<Longrightarrow> kstack_alloc k = Some (i, k') \<Longrightarrow> good k k'"
  by (auto simp: kstack_alloc_def split_beta Let_def good_refl split: bind_splits)

lemma kernel_stack_drop_good [good_ops]: "kernel_ty k \<Longrightarrow> kernel_stack_drop k i = Some k' \<Longrightarrow> good k k'"
  by (auto simp: kernel_stack_drop_def split_beta Let_def good_refl split: bind_splits)

lemma pid_drop_good [good_ops]: "kernel_ty k \<Longrightarrow> pid_drop k i = Some k' \<Longrightarrow> good k k'"
  by (auto simp: pid_drop_def good_refl split: bind_splits)

lemma pid_alloc_good [good_ops]: "kernel_ty k \<Longrightarrow> pid_alloc k = (i, k') \<Longrightarrow> good k k'"
  by (auto simp: pid_alloc_def good_refl split_beta Let_def)

lemma TaskControlBlock_new_good:
  assumes k: "kernel_ty k" and n: "TaskControlBlock_new k p u b = Some (t, k')"
  shows "good k k' \<and> t = length (tcbs k') - 1 \<and> t < length (tcbs k')"
proof -
  obtain res k1 ppn ks k2 where 1: "TaskUserRes_new k p u b = Some (res, k1)" and 2: "kstack_alloc k1 = Some (ks, k2)"
    and k': "k' = k2\<lparr>tcbs := tcbs k2 @ [\<lparr>t_process = p, t_kernel_stack = ks, t_trap_cx_ppn = ppn,
       t_task_cx = goto_trap_return (get_top ks), t_status = Ready, t_exit_code = None, t_res = Some res, t_live = True\<rparr>]\<rparr>"
    and t: "t = length (tcbs k2)"
    using n by (auto simp: TaskControlBlock_new_def Let_def split: bind_splits)
  have p: "p < length (pcbs k)"
    using 1 by (auto simp: TaskUserRes_new_def alloc_tid_def get_proc_def split: bind_splits if_splits)
  have g: "good k k2" using TaskUserRes_new_good [OF k 1] kstack_alloc_good [OF _ 2] good_ty good_trans by blast
  then have "p < length (pcbs k2)" using p by (auto simp: good_def grows_def)
  then have "good k2 k'" unfolding k' by (intro good_new_tcb good_ty [OF g]) (simp add: tcb_ty_def goto_trap_return_def)
  then show ?thesis using g good_trans t k' by auto
qed

lemma task_destroy_good [good_ops]:
  assumes k: "kernel_ty k" and d: "task_destroy k t = Some k'"
  shows "good k k'"
proof -
  obtain tcb k1 where t: "get_tcb k t = Some tcb" and 1: "kernel_stack_drop k (t_kernel_stack tcb) = Some k1"
    using d by (auto simp: task_destroy_def split: bind_splits)
  have 2: "(case t_res tcb of None \<Rightarrow> Some (upd_tcb k1 t (\<lambda>tcb. tcb\<lparr>t_live := False, t_res := None\<rparr>))
      | Some res \<Rightarrow> res_drop (upd_tcb k1 t (\<lambda>tcb. tcb\<lparr>t_live := False, t_res := None\<rparr>)) res) = Some k'"
    using d by (simp add: task_destroy_def Let_def t 1)
  let ?k2 = "upd_tcb k1 t (\<lambda>tcb. tcb\<lparr>t_live := False, t_res := None\<rparr>)"
  have g1: "good k k1" by (rule kernel_stack_drop_good [OF k 1])
  have "good k1 ?k2" by (rule good_upd_tcb [OF good_ty [OF g1]]) (simp add: tcb_ty_def)
  note g2 = good_trans [OF g1 this]
  show ?thesis using 2 g2 res_drop_good [OF good_ty [OF g2]] by (auto split: option.splits intro: good_trans)
qed

lemma drop_task_good [good_ops]: "kernel_ty k \<Longrightarrow> drop_task k t = Some k' \<Longrightarrow> good k k'"
  by (auto simp: drop_task_def good_refl task_destroy_good split: bind_splits if_splits)

lemma drop_tasks_good [good_ops]: "kernel_ty k \<Longrightarrow> drop_tasks k ts = Some k' \<Longrightarrow> good k k'"
proof (induction k ts rule: drop_tasks.induct)
  case (2 k t ts)
  then obtain k1 where "drop_task k t = Some k1" "drop_tasks k1 ts = Some k'" by (auto split: bind_splits)
  then show ?case using 2 drop_task_good good_ty good_trans by blast
qed (simp add: good_refl)

lemma process_destroy_good [good_ops]:
  assumes k: "kernel_ty k" and d: "process_destroy k p = Some (w, k')"
  shows "good k k'"
proof -
  let ?k1 = "upd_proc k p (\<lambda>pcb. pcb\<lparr>p_live := False\<rparr>)"
  have g: "good k ?k1" by (rule good_upd_proc [OF k]) (simp add: pcb_ty_def)
  then show ?thesis using d pid_drop_good [OF good_ty [OF g]] good_trans [OF g]
    by (auto simp: process_destroy_def Let_def split: bind_splits)
qed

lemma drop_items_good [good_ops]: "kernel_ty k \<Longrightarrow> drop_items k w = Some k' \<Longrightarrow> good k k'"
proof (induction k w rule: drop_items.induct)
  case (2 k ts w)
  then obtain k1 where k1: "drop_tasks k ts = Some k1" "drop_items k1 w = Some k'" by (auto split: option.splits)
  then have "good k k1" using 2(2) drop_tasks_good by blast
  then show ?case using 2(1) [OF k1(1) good_ty k1(2)] good_trans by blast
next
  case (3 k p w)
  then show ?case
  proof (cases "p \<in> set (proc_refs k) \<or> get_proc k p = None")
    case False
    then obtain items k1 where d: "process_destroy k p = Some (items, k1)" "drop_items k1 (items @ w) = Some k'"
      using 3(4) by (auto split: option.splits)
    then have "good k k1" using process_destroy_good 3(3) by blast
    then show ?thesis using 3(2) [OF False d(1)] d(2) good_ty good_trans by blast
  qed simp
qed (simp add: good_refl)

lemma drop_process_good [good_ops]: "kernel_ty k \<Longrightarrow> drop_process k p = Some k' \<Longrightarrow> good k k'"
  unfolding drop_process_def by (rule drop_items_good)

lemma drop_all_procs_good [good_ops]: "kernel_ty k \<Longrightarrow> drop_all_procs k ps = Some k' \<Longrightarrow> good k k'"
proof (induction k ps rule: drop_all_procs.induct)
  case (2 k p ps)
  then obtain k1 where "drop_process k p = Some k1" "drop_all_procs k1 ps = Some k'" by (auto split: bind_splits)
  then show ?case using 2 drop_process_good good_ty good_trans by blast
qed (simp add: good_refl)

subsection \<open>Files\<close>

fun outcome_ty :: "kernel \<Rightarrow> outcome \<Rightarrow> bool" where
  "outcome_ty k (Return v k') = good k k'"
| "outcome_ty k (Switched k') = good k k'"

lemma outcome_ty_trans: "good k k1 \<Longrightarrow> outcome_ty k1 r \<Longrightarrow> outcome_ty k r"
  by (cases r) (auto intro: good_trans)

lemma suspend_ty:
  "good k k1 \<Longrightarrow> frames_ty k1 fs \<Longrightarrow> map_option Switched (suspend_current_and_run_next k1 fs) = Some r \<Longrightarrow> outcome_ty k r"
proof -
  assume g: "good k k1" and f: "frames_ty k1 fs" and "map_option Switched (suspend_current_and_run_next k1 fs) = Some r"
  then obtain k2 where k2: "suspend_current_and_run_next k1 fs = Some k2" "r = Switched k2" by auto
  show ?thesis unfolding k2(2) using good_trans [OF g suspend_good [OF good_ty [OF g] f k2(1)]] by simp
qed

lemma block_ty:
  "good k k1 \<Longrightarrow> frames_ty k1 fs \<Longrightarrow> map_option Switched (block_current_and_run_next k1 fs) = Some r \<Longrightarrow> outcome_ty k r"
proof -
  assume g: "good k k1" and f: "frames_ty k1 fs" and "map_option Switched (block_current_and_run_next k1 fs) = Some r"
  then obtain k2 where k2: "block_current_and_run_next k1 fs = Some k2" "r = Switched k2" by auto
  show ?thesis unfolding k2(2) using good_trans [OF g block_good [OF good_ty [OF g] f k2(1)]] by simp
qed

lemma rd_loop_keeps:
  "rd_loop j s rb it n = Some (fin, s', rb', it', n') \<Longrightarrow> rb_ok rb \<Longrightarrow> j \<le> rb_len rb \<Longrightarrow>
   rb_ok rb' \<and> rb_write_end rb' = rb_write_end rb \<and> (\<not> fin \<longrightarrow> rb_len rb' = rb_len rb - j)"
proof (induction j arbitrary: s rb it n)
  case (Suc j)
  then obtain r it1 where r: "ubi_next it = Some (r, it1)" by (auto split: bind_splits)
  show ?case
  proof (cases r)
    case (Some a)
    obtain c cs where cs: "rb_items rb = c # cs"
      using Suc.prems(3) length_rb_items [of rb] by (cases "rb_items rb") auto
    obtain rb1 where rb1: "read_byte rb = Some (c, rb1)" "rb_ok rb1" "rb_items rb1 = cs" "rb_write_end rb1 = rb_write_end rb"
      using read_byte_ok [OF Suc.prems(2) cs] by blast
    have "rb_len rb = Suc (rb_len rb1)" using cs rb1(3) length_rb_items by (metis length_Cons)
    then show ?thesis using Suc.IH [of "phys_byte_set s a c" rb1 it1 "n + 1"] Suc.prems Some r rb1 by simp
  qed (use Suc r in auto)
qed auto

lemma wr_loop_keeps:
  "wr_loop j s rb it n = Some (fin, rb', it', n') \<Longrightarrow> rb_ok rb \<Longrightarrow> j + rb_len rb \<le> 32 \<Longrightarrow>
   rb_ok rb' \<and> rb_write_end rb' = rb_write_end rb \<and> (\<not> fin \<longrightarrow> rb_len rb' = rb_len rb + j)"
proof (induction j arbitrary: rb it n)
  case (Suc j)
  then obtain r it1 where r: "ubi_next it = Some (r, it1)" by (auto split: bind_splits)
  show ?case
  proof (cases r)
    case (Some a)
    obtain rb1 where rb1: "write_byte rb (phys_byte s a) = Some rb1" "rb_ok rb1"
      "rb_items rb1 = rb_items rb @ [phys_byte s a]" "rb_write_end rb1 = rb_write_end rb"
      using write_byte_ok [OF Suc.prems(2), of "phys_byte s a"] Suc.prems(3) by auto
    have "rb_len rb1 = Suc (rb_len rb)" using arg_cong [OF rb1(3), of length] by simp
    then show ?thesis using Suc.IH [of rb1 it1 "n + 1"] Suc.prems Some r rb1 by simp
  qed (use Suc r in auto)
qed auto

lemma pipe_read_turn_keeps:
  assumes ok: "rb_ok rb" and t: "pipe_read_turn closed s rb it n = Some (r, s', rb')"
  shows "rb_ok rb' \<and> rb_write_end rb' = rb_write_end rb"
proof (cases "rb_len rb = 0")
  case True
  then have "available_read rb = 0" using available_read_len [OF ok] by (simp add: unat_eq_zero)
  then show ?thesis using t ok by (subst (asm) pipe_read_turn.simps) (auto simp: Let_def assert_bind)
next
  case False
  then have a: "available_read rb \<noteq> 0" "unat (available_read rb) = rb_len rb" using available_read_len [OF ok] by auto
  obtain fin s1 rb1 it1 n1 where l: "rd_loop (rb_len rb) s rb it n = Some (fin, s1, rb1, it1, n1)"
    and c: "(if fin then Some (Returned n1, s1, rb1) else pipe_read_turn closed s1 rb1 it1 n1) = Some (r, s', rb')"
    using t a by (subst (asm) pipe_read_turn.simps) (auto simp: Let_def split: bind_splits)
  note k = rd_loop_keeps [OF l ok order_refl]
  show ?thesis
  proof (cases fin)
    case True
    then show ?thesis using c k by simp
  next
    case False
    then have "available_read rb1 = 0" using k available_read_len [of rb1] by (simp add: unat_eq_zero)
    then show ?thesis using c k False by (subst (asm) pipe_read_turn.simps) (auto simp: Let_def assert_bind)
  qed
qed

lemma pipe_write_turn_keeps:
  assumes ok: "rb_ok rb" and t: "pipe_write_turn s rb it n = Some (r, rb')"
  shows "rb_ok rb' \<and> rb_write_end rb' = rb_write_end rb"
proof (cases "rb_len rb = 32")
  case True
  then have "available_write rb = 0" using available_write_len [OF ok] by (simp add: unat_eq_zero)
  then show ?thesis using t ok by (subst (asm) pipe_write_turn.simps) (auto simp: Let_def)
next
  case False
  then have lt: "rb_len rb < 32" using rb_len_le [OF ok] by simp
  then have a: "available_write rb \<noteq> 0" "unat (available_write rb) = 32 - rb_len rb" using available_write_len [OF ok] by auto
  obtain fin rb1 it1 n1 where l: "wr_loop (32 - rb_len rb) s rb it n = Some (fin, rb1, it1, n1)"
    and c: "(if fin then Some (Returned n1, rb1) else pipe_write_turn s rb1 it1 n1) = Some (r, rb')"
    using t a by (subst (asm) pipe_write_turn.simps) (auto simp: Let_def split: bind_splits)
  have k: "rb_ok rb1 \<and> rb_write_end rb1 = rb_write_end rb \<and> (\<not> fin \<longrightarrow> rb_len rb1 = 32)"
    using wr_loop_keeps [OF l ok] lt by simp
  show ?thesis
  proof (cases fin)
    case True
    then show ?thesis using c k by simp
  next
    case False
    then have "available_write rb1 = 0" using k available_write_len [of rb1] by (simp add: unat_eq_zero)
    then show ?thesis using c k False by (subst (asm) pipe_write_turn.simps) (auto simp: Let_def)
  qed
qed

lemma pipe_read_ty:
  assumes k: "kernel_ty k" and fs: "frames_ty k fs" and b: "b < length (rings k)" and r: "pipe_read k fs b it n = Some r"
  shows "outcome_ty k r"
proof -
  obtain t s rb where t: "pipe_read_turn (all_write_ends_closed k (rings k ! b)) (kmm k) (rings k ! b) it n = Some (t, s, rb)"
    and c: "(case t of Returned n \<Rightarrow> Some (Return n (k\<lparr>kmm := s, rings := (rings k)[b := rb]\<rparr>))
      | Suspended it n \<Rightarrow> map_option Switched (suspend_current_and_run_next (k\<lparr>kmm := s, rings := (rings k)[b := rb]\<rparr>) (FPipeRead b it n # fs))) = Some r"
    using r b by (auto simp: pipe_read_def Let_def split: bind_splits)
  have "ring_ty k (rings k ! b)" using k b by (simp add: kernel_ty_def)
  then have "ring_ty k rb" using pipe_read_turn_keeps [OF _ t] by (auto simp: ring_ty_def)
  then have g: "good k (k\<lparr>kmm := s, rings := (rings k)[b := rb]\<rparr>)"
    using good_set_ring [of "k\<lparr>kmm := s\<rparr>" rb b] k by (simp add: ring_ty_def good_def grows_def)
  have "frames_ty (k\<lparr>kmm := s, rings := (rings k)[b := rb]\<rparr>) (FPipeRead b it' n' # fs)" for it' n'
    using frames_ty_mono [OF g fs] b by simp
  from suspend_ty [OF g this] show ?thesis using c g by (cases t) (simp_all del: map_option_eq_Some, auto)
qed

lemma pipe_write_ty:
  assumes k: "kernel_ty k" and fs: "frames_ty k fs" and b: "b < length (rings k)" and r: "pipe_write k fs b it n = Some r"
  shows "outcome_ty k r"
proof -
  obtain t rb where t: "pipe_write_turn (kmm k) (rings k ! b) it n = Some (t, rb)"
    and c: "(case t of Returned n \<Rightarrow> Some (Return n (k\<lparr>rings := (rings k)[b := rb]\<rparr>))
      | Suspended it n \<Rightarrow> map_option Switched (suspend_current_and_run_next (k\<lparr>rings := (rings k)[b := rb]\<rparr>) (FPipeWrite b it n # fs))) = Some r"
    using r b by (auto simp: pipe_write_def Let_def split: bind_splits)
  have "ring_ty k (rings k ! b)" using k b by (simp add: kernel_ty_def)
  then have "ring_ty k rb" using pipe_write_turn_keeps [OF _ t] by (auto simp: ring_ty_def)
  then have g: "good k (k\<lparr>rings := (rings k)[b := rb]\<rparr>)" by (rule good_set_ring [OF k])
  have "frames_ty (k\<lparr>rings := (rings k)[b := rb]\<rparr>) (FPipeWrite b it' n' # fs)" for it' n'
    using frames_ty_mono [OF g fs] b by simp
  from suspend_ty [OF g this] show ?thesis using c g by (cases t) (simp_all del: map_option_eq_Some, auto)
qed

lemma stdin_read_loop_ty:
  assumes k: "kernel_ty k" and fs: "frames_ty k fs" and r: "stdin_read_loop k fs buf = Some r"
  shows "outcome_ty k r"
proof -
  obtain c k1 where c: "console_getchar k = (c, k1)" by fastforce
  then have g: "good k k1" using k by (auto simp: console_getchar_def good_refl split: list.splits)
  have "frames_ty k1 (FStdinRead buf # fs)" using frames_ty_mono [OF g fs] by simp
  then show ?thesis using r c g suspend_ty [OF g, of "FStdinRead buf # fs" r]
    by (auto simp: stdin_read_loop_def simp del: map_option_eq_Some split: if_splits bind_splits)
qed

lemma stdout_loop_good: "kernel_ty k \<Longrightarrow> stdout_loop k bufs = Some k' \<Longrightarrow> good k k'"
proof (induction k bufs rule: stdout_loop.induct)
  case (2 k a n bufs)
  then obtain str where "stdout_loop (k\<lparr>console_out := console_out k @ str\<rparr>) bufs = Some k'" "from_utf8 (read_phys (kmm k) a n) = Some str"
    by (auto split: bind_splits)
  then have "good (k\<lparr>console_out := console_out k @ str\<rparr>) k'" using 2 by simp
  then show ?case by (simp add: good_def grows_def)
qed (simp add: good_refl)

lemma file_read_ty:
  assumes k: "kernel_ty k" and fs: "frames_ty k fs" and r: "file_read k fs f buf = Some r"
  shows "outcome_ty k r"
proof -
  obtain fl where f: "f < length (files k)" "files k ! f = fl" using r by (auto simp: file_read_def index_Some split: bind_splits)
  then have ty: "file_ty k fl" using k by (auto simp: kernel_ty_def)
  show ?thesis
  proof (cases fl)
    case (PipeEnd p)
    then show ?thesis using r f ty pipe_read_ty [OF k fs] by (auto simp: file_read_def assert_bind)
  next
    case (Regular i)
    have "good k (k\<lparr>kmm := s, files := (files k)[f := Regular j]\<rparr>)" for s j
      using good_set_file [of "k\<lparr>kmm := s\<rparr>" "Regular j" f] k by (simp add: good_def grows_def)
    then show ?thesis using r f Regular by (auto simp: file_read_def split: bind_splits)
  qed (use r f stdin_read_loop_ty [OF k fs] in \<open>auto simp: file_read_def stdin_read_def assert_bind\<close>)
qed

lemma file_write_ty:
  assumes k: "kernel_ty k" and fs: "frames_ty k fs" and r: "file_write k fs f buf = Some r"
  shows "outcome_ty k r"
proof -
  obtain fl where f: "f < length (files k)" "files k ! f = fl" using r by (auto simp: file_write_def index_Some split: bind_splits)
  then have ty: "file_ty k fl" using k by (auto simp: kernel_ty_def)
  show ?thesis
  proof (cases fl)
    case (PipeEnd p)
    then show ?thesis using r f ty pipe_write_ty [OF k fs] by (auto simp: file_write_def assert_bind)
  next
    case (Regular i)
    have "good k (k\<lparr>kdisk := d, files := (files k)[f := Regular j]\<rparr>)" for d j
      using good_set_file [of "k\<lparr>kdisk := d\<rparr>" "Regular j" f] k by (simp add: good_def grows_def)
    then show ?thesis using r f Regular by (auto simp: file_write_def split: bind_splits)
  qed (use r f stdout_loop_good [OF k] in \<open>auto simp: file_write_def stdout_write_def split: bind_splits\<close>)
qed

subsection \<open>Synchronization\<close>

lemma mutex_lock_ty:
  assumes k: "kernel_ty k" and fs: "frames_ty k fs" and r: "mutex_lock k m fs = Some r"
  shows "outcome_ty k r"
proof -
  obtain mutex where m: "m < length (mutexes k)" "mutexes k ! m = mutex" using r by (auto simp: mutex_lock_def index_Some split: bind_splits)
  then have ty: "mutex_ty k mutex" using k by (auto simp: kernel_ty_def)
  show ?thesis
  proof (cases mutex)
    case (MutexSpin l)
    have "outcome_ty k r" if l
      using that r m MutexSpin suspend_ty [OF good_refl [OF k], of "FMutexSpin m # fs" r] fs
      by (simp add: mutex_lock_def spin_lock_def del: map_option_eq_Some)
    moreover have "good k (set_mutex k m (MutexSpin True))" by (rule good_set_mutex [OF k]) simp
    ultimately show ?thesis using r m MutexSpin by (cases l) (auto simp: mutex_lock_def spin_lock_def)
  next
    case (MutexBlocking l q)
    show ?thesis
    proof (cases l)
      case True
      obtain t where t: "current_task k = Some t"
        and b: "map_option Switched (block_current_and_run_next (set_mutex k m (MutexBlocking l (q @ [t]))) fs) = Some r"
        using r m MutexBlocking True by (auto simp: mutex_lock_def blocking_lock_def Let_def simp del: map_option_eq_Some split: bind_splits)
      have g: "good k (set_mutex k m (MutexBlocking l (q @ [t])))"
        using ty MutexBlocking current_task_ty [OF k t] by (intro good_set_mutex [OF k]) auto
      from block_ty [OF g frames_ty_mono [OF g fs] b] show ?thesis .
    next
      case False
      have "good k (set_mutex k m (MutexBlocking True q))" using ty MutexBlocking by (intro good_set_mutex [OF k]) simp
      then show ?thesis using r m MutexBlocking False by (auto simp: mutex_lock_def blocking_lock_def)
    qed
  qed
qed

lemma mutex_unlock_good [good_ops]:
  assumes k: "kernel_ty k" and r: "mutex_unlock k m = Some k'"
  shows "good k k'"
proof -
  obtain mutex where m: "m < length (mutexes k)" "mutexes k ! m = mutex" using r by (auto simp: mutex_unlock_def index_Some split: bind_splits)
  then have ty: "mutex_ty k mutex" using k by (auto simp: kernel_ty_def)
  show ?thesis
  proof (cases mutex)
    case (MutexSpin l)
    then show ?thesis using r m by (auto simp: mutex_unlock_def intro: good_set_mutex [OF k])
  next
    case (MutexBlocking l q)
    show ?thesis
    proof (cases q)
      case Nil
      then show ?thesis using r m MutexBlocking by (auto simp: mutex_unlock_def blocking_unlock_def assert_bind intro: good_set_mutex [OF k])
    next
      case (Cons t ts)
      have g: "good k (set_mutex k m (MutexBlocking l ts))" using ty MutexBlocking Cons by (intro good_set_mutex [OF k]) simp
      have "good (set_mutex k m (MutexBlocking l ts)) (add_task (set_mutex k m (MutexBlocking l ts)) t)"
        using ty MutexBlocking Cons by (intro good_add_task good_ty [OF g]) (simp add: set_mutex_def)
      from good_trans [OF g this] show ?thesis using r m MutexBlocking Cons by (auto simp: mutex_unlock_def blocking_unlock_def assert_bind)
    qed
  qed
qed

lemma sem_up_good [good_ops]:
  assumes k: "kernel_ty k" and r: "sem_up k i = Some k'"
  shows "good k k'"
proof -
  obtain s where s: "index (semaphores k) i = Some s" using r by (auto simp: sem_up_def split: bind_splits)
  then have w: "\<forall>t \<in> set (sem_wait s). t < length (tcbs k)" using k by (auto simp: kernel_ty_def index_Some)
  let ?s = "s\<lparr>sem_count := sem_count s + 1\<rparr>"
  have g: "good k (k\<lparr>semaphores := (semaphores k)[i := ?s\<lparr>sem_wait := q\<rparr>]\<rparr>)" if "set q \<subseteq> set (sem_wait s)" for q
    using w that by (intro good_set_semaphore [OF k]) auto
  have g0: "good k (k\<lparr>semaphores := (semaphores k)[i := ?s]\<rparr>)" using w by (intro good_set_semaphore [OF k]) auto
  show ?thesis
  proof (cases "sint (sem_count ?s) \<le> 0 \<and> sem_wait s \<noteq> []")
    case True
    then obtain t q where q: "sem_wait s = t # q" by (cases "sem_wait s") auto
    let ?k = "k\<lparr>semaphores := (semaphores k)[i := ?s\<lparr>sem_wait := q\<rparr>]\<rparr>"
    have 1: "good k ?k" using g [of q] q by auto
    have "good ?k (add_task ?k t)" using w q by (intro good_add_task good_ty [OF 1]) simp
    from good_trans [OF 1 this] show ?thesis using r s q True by (auto simp: sem_up_def Let_def)
  next
    case False
    then show ?thesis using r s g0 by (auto simp: sem_up_def Let_def split: if_splits list.splits)
  qed
qed

lemma sem_down_ty:
  assumes k: "kernel_ty k" and fs: "frames_ty k fs" and r: "sem_down k i fs = Some r"
  shows "outcome_ty k r"
proof -
  obtain s where s: "index (semaphores k) i = Some s" using r by (auto simp: sem_down_def split: bind_splits)
  then have w: "\<forall>t \<in> set (sem_wait s). t < length (tcbs k)" using k by (auto simp: kernel_ty_def index_Some)
  let ?s = "s\<lparr>sem_count := sem_count s - 1\<rparr>"
  show ?thesis
  proof (cases "sint (sem_count ?s) < 0")
    case True
    obtain t where t: "current_task k = Some t"
      and b: "map_option Switched (block_current_and_run_next (k\<lparr>semaphores := (semaphores k)[i := ?s\<lparr>sem_wait := sem_wait s @ [t]\<rparr>]\<rparr>) fs) = Some r"
      using r s True by (auto simp: sem_down_def Let_def simp del: map_option_eq_Some split: bind_splits)
    have g: "good k (k\<lparr>semaphores := (semaphores k)[i := ?s\<lparr>sem_wait := sem_wait s @ [t]\<rparr>]\<rparr>)"
      using w current_task_ty [OF k t] by (intro good_set_semaphore [OF k]) auto
    from block_ty [OF g frames_ty_mono [OF g fs] b] show ?thesis .
  next
    case False
    have "good k (k\<lparr>semaphores := (semaphores k)[i := ?s]\<rparr>)" using w by (intro good_set_semaphore [OF k]) auto
    then show ?thesis using r s False by (auto simp: sem_down_def Let_def)
  qed
qed

lemma condvar_signal_good [good_ops]:
  assumes k: "kernel_ty k" and r: "condvar_signal k c = Some k'"
  shows "good k k'"
proof -
  obtain q where q: "index (condvars k) c = Some q" using r by (auto simp: condvar_signal_def split: bind_splits)
  then have w: "\<forall>t \<in> set q. t < length (tcbs k)" using k by (auto simp: kernel_ty_def index_Some)
  show ?thesis
  proof (cases q)
    case Nil
    then show ?thesis using r q good_refl [OF k] by (auto simp: condvar_signal_def)
  next
    case (Cons t ts)
    have g: "good k (k\<lparr>condvars := (condvars k)[c := ts]\<rparr>)" using w Cons by (intro good_set_condvar [OF k]) auto
    have "good (k\<lparr>condvars := (condvars k)[c := ts]\<rparr>) (add_task (k\<lparr>condvars := (condvars k)[c := ts]\<rparr>) t)"
      using w Cons by (intro good_add_task good_ty [OF g]) simp
    from good_trans [OF g this] show ?thesis using r q Cons by (auto simp: condvar_signal_def)
  qed
qed

lemma condvar_wait_ty:
  assumes k: "kernel_ty k" and fs: "frames_ty k fs" and m: "m < length (mutexes k)" and r: "condvar_wait k c m fs = Some r"
  shows "outcome_ty k r"
proof -
  obtain k1 q t where u: "mutex_unlock k m = Some k1" and q: "index (condvars k1) c = Some q" and t: "current_task k1 = Some t"
    and b: "map_option Switched (block_current_and_run_next (k1\<lparr>condvars := (condvars k1)[c := q @ [t]]\<rparr>) (FRelock m # fs)) = Some r"
    using r by (auto simp: condvar_wait_def Let_def simp del: map_option_eq_Some split: bind_splits)
  have 1: "good k k1" by (rule mutex_unlock_good [OF k u])
  note k1 = good_ty [OF 1]
  have "\<forall>t \<in> set q. t < length (tcbs k1)" using q k1 by (auto simp: kernel_ty_def index_Some)
  then have "good k1 (k1\<lparr>condvars := (condvars k1)[c := q @ [t]]\<rparr>)"
    using current_task_ty [OF k1 t] by (intro good_set_condvar [OF k1]) auto
  note g = good_trans [OF 1 this]
  have "frames_ty (k1\<lparr>condvars := (condvars k1)[c := q @ [t]]\<rparr>) (FRelock m # fs)"
    using frames_ty_mono [OF g fs] m 1 by (auto simp: good_def grows_def)
  from block_ty [OF g this b] show ?thesis .
qed

subsection \<open>Processes\<close>

lemma set_trap_cx_good [good_ops]: "kernel_ty k \<Longrightarrow> set_trap_cx k t cx = Some k' \<Longrightarrow> good k k'"
  by (auto simp: set_trap_cx_def good_refl split: bind_splits)

lemma good_add_main_task:
  "kernel_ty k \<Longrightarrow> t < length (tcbs k) \<Longrightarrow> good k (upd_proc k p (\<lambda>pcb. pcb\<lparr>p_tasks := p_tasks pcb @ [Some t]\<rparr>))"
  by (intro good_upd_proc) (simp_all add: pcb_ty_def)

lemma good_add_child:
  "kernel_ty k \<Longrightarrow> c < length (pcbs k) \<Longrightarrow> good k (upd_proc k p (\<lambda>pcb. pcb\<lparr>p_children := p_children pcb @ [c]\<rparr>))"
  by (intro good_upd_proc) (auto simp: pcb_ty_def)

lemma good_lengths: "good k k' \<Longrightarrow> t < length (tcbs k) \<Longrightarrow> t < length (tcbs k')" "good k k' \<Longrightarrow> p < length (pcbs k) \<Longrightarrow> p < length (pcbs k')"
  "good k k' \<Longrightarrow> f < length (files k) \<Longrightarrow> f < length (files k')"
  by (auto simp: good_def grows_def)

lemma Process_new_good:
  assumes k: "kernel_ty k" and n: "Process_new m k elf = Some (p, k')"
  shows "good k k' \<and> p < length (pcbs k')"
proof -
  obtain ms s ub pid k1 t k3 cx k4 where pid: "pid_alloc (k\<lparr>kmm := s\<rparr>) = (pid, k1)"
    and t: "TaskControlBlock_new (k1\<lparr>files := files k1 @ [Stdin, Stdout, Stdout],
        pcbs := pcbs k1 @ [pcb_new pid ms None [Some (length (files k1)), Some (length (files k1) + 1), Some (length (files k1) + 2)]]\<rparr>)
        (length (pcbs k1)) ub True = Some (t, k3)"
    and cx: "set_trap_cx k3 t cx = Some k4"
    and k': "k' = add_task (upd_proc k4 (length (pcbs k1)) (\<lambda>pcb. pcb\<lparr>p_tasks := p_tasks pcb @ [Some t]\<rparr>)) t"
    and p: "p = length (pcbs k1)"
    using n by (auto simp: Process_new_def Let_def split: bind_splits prod.splits)
  let ?k2 = "k1\<lparr>files := files k1 @ [Stdin, Stdout, Stdout]\<rparr>"
  let ?x = "pcb_new pid ms None [Some (length (files k1)), Some (length (files k1) + 1), Some (length (files k1) + 2)]"
  have 1: "good k k1" using pid_alloc_good [OF _ pid] k by (simp add: good_def grows_def)
  have 2: "good k1 ?k2" by (rule good_new_files [OF good_ty [OF 1]]) simp
  have "good ?k2 (?k2\<lparr>pcbs := pcbs ?k2 @ [?x]\<rparr>)"
    by (rule good_new_pcb [OF good_ty [OF 2]]) (simp add: pcb_ty_def pcb_new_def)
  note 3 = good_trans [OF good_trans [OF 1 2] this]
  have t': "TaskControlBlock_new (?k2\<lparr>pcbs := pcbs ?k2 @ [?x]\<rparr>) (length (pcbs k1)) ub True = Some (t, k3)" using t by simp
  have 4: "good (?k2\<lparr>pcbs := pcbs ?k2 @ [?x]\<rparr>) k3 \<and> t < length (tcbs k3)"
    using TaskControlBlock_new_good [OF good_ty [OF 3] t'] by blast
  have 5: "good k3 k4" using set_trap_cx_good [OF _ cx] 4 good_ty by blast
  then have lt: "t < length (tcbs k4)" using 4 good_lengths(1) by blast
  let ?k5 = "upd_proc k4 (length (pcbs k1)) (\<lambda>pcb. pcb\<lparr>p_tasks := p_tasks pcb @ [Some t]\<rparr>)"
  have 6: "good k4 ?k5" by (rule good_add_main_task [OF good_ty [OF 5] lt])
  have 7: "good ?k5 k'" unfolding k' using lt by (intro good_add_task good_ty [OF 6]) simp
  have g: "good (?k2\<lparr>pcbs := pcbs ?k2 @ [?x]\<rparr>) k'" using 4 5 6 7 good_trans by blast
  then have "p < length (pcbs k')" unfolding p by (rule good_lengths(2)) simp
  then show ?thesis using good_trans [OF 3 g] by simp
qed

lemma exec_good [good_ops]:
  assumes k: "kernel_ty k" and n: "exec m k p elf args = Some k'"
  shows "good k k'"
proof -
  obtain ms s t res k1 ppn s' cx where
    1: "alloc_user_res (upd_proc (k\<lparr>kmm := s\<rparr>) p (\<lambda>pcb. pcb\<lparr>p_memory_set := ms\<rparr>)) res = Some k1"
    and 2: "set_trap_cx ((upd_tcb k1 t (\<lambda>tcb. tcb\<lparr>t_res := Some res, t_trap_cx_ppn := ppn\<rparr>))\<lparr>kmm := s'\<rparr>) t cx = Some k'"
    using n by (auto simp: exec_def Let_def split: bind_splits)
  have g1: "good k k1" using alloc_user_res_good [OF good_ty [OF good_upd_ms [OF k]] 1] good_trans [OF good_upd_ms [OF k]] by blast
  have "good k1 (upd_tcb k1 t (\<lambda>tcb. tcb\<lparr>t_res := Some res, t_trap_cx_ppn := ppn\<rparr>))"
    by (rule good_upd_tcb [OF good_ty [OF g1]]) (simp add: tcb_ty_def)
  note g2 = good_trans [OF g1 this]
  let ?k2 = "(upd_tcb k1 t (\<lambda>tcb. tcb\<lparr>t_res := Some res, t_trap_cx_ppn := ppn\<rparr>))\<lparr>kmm := s'\<rparr>"
  have "good k ?k2" using g2 by simp
  then show ?thesis using set_trap_cx_good [OF good_ty 2] good_trans by blast
qed

lemma fork_good:
  assumes k: "kernel_ty k" and n: "fork m k p = Some (c, k')"
  shows "good k k' \<and> c < length (pcbs k')"
proof -
  obtain parent ms s pid k1 ub t k3 cx k4 where par: "get_proc k p = Some parent" and pid: "pid_alloc (k\<lparr>kmm := s\<rparr>) = (pid, k1)"
    and t: "TaskControlBlock_new (upd_proc (k1\<lparr>pcbs := pcbs k1 @ [pcb_new pid ms (Some p) (p_fd_table parent)]\<rparr>) p
        (\<lambda>pcb. pcb\<lparr>p_children := p_children pcb @ [length (pcbs k1)]\<rparr>)) (length (pcbs k1)) ub False = Some (t, k3)"
    and cx: "set_trap_cx (upd_proc k3 (length (pcbs k1)) (\<lambda>pcb. pcb\<lparr>p_tasks := p_tasks pcb @ [Some t]\<rparr>)) t cx = Some k4"
    and k': "k' = add_task k4 t" and c: "c = length (pcbs k1)"
    using n by (auto simp: fork_def Let_def split: bind_splits prod.splits)
  have 1: "good k k1" using pid_alloc_good [OF _ pid] k by (simp add: good_def grows_def)
  have par_ty: "p < length (pcbs k)" "pcb_ty k parent" using get_proc_ty [OF k par] by auto
  let ?x = "pcb_new pid ms (Some p) (p_fd_table parent)"
  let ?k2 = "k1\<lparr>pcbs := pcbs k1 @ [?x]\<rparr>"
  have "pcb_ty k1 parent" using par_ty(2) ty_mono(2) 1 by (auto simp: good_def)
  then have "pcb_ty ?k2 ?x" using good_lengths(2) [OF 1 par_ty(1)] by (simp add: pcb_ty_def pcb_new_def)
  then have "good k1 ?k2" by (rule good_new_pcb [OF good_ty [OF 1]])
  note 2 = good_trans [OF 1 this]
  let ?k2' = "upd_proc ?k2 p (\<lambda>pcb. pcb\<lparr>p_children := p_children pcb @ [length (pcbs k1)]\<rparr>)"
  have "good ?k2 ?k2'" by (rule good_add_child [OF good_ty [OF 2]]) simp
  note 3 = good_trans [OF 2 this]
  have 4: "good ?k2' k3 \<and> t < length (tcbs k3)" using TaskControlBlock_new_good [OF good_ty [OF 3] t] by blast
  let ?k3 = "upd_proc k3 (length (pcbs k1)) (\<lambda>pcb. pcb\<lparr>p_tasks := p_tasks pcb @ [Some t]\<rparr>)"
  have 5: "good k3 ?k3" using 4 good_ty by (intro good_add_main_task) auto
  have 6: "good ?k3 k4" by (rule set_trap_cx_good [OF good_ty [OF 5] cx])
  have "t < length (tcbs k4)" using 4 good_lengths(1) [OF good_trans [OF 5 6]] by blast
  then have 7: "good k4 k'" unfolding k' by (intro good_add_task good_ty [OF 6])
  have g: "good ?k2' k'" using 4 5 6 7 good_trans by blast
  then have "c < length (pcbs k')" unfolding c by (rule good_lengths(2)) simp
  then show ?thesis using good_trans [OF 3 g] by simp
qed

lemma reparent_good:
  "kernel_ty k \<Longrightarrow> ip < length (pcbs k) \<Longrightarrow> reparent k ip cs = Some k' \<Longrightarrow> good k k'"
proof (induction k ip cs rule: reparent.induct)
  case (2 k ip c cs)
  let ?k1 = "upd_proc k c (\<lambda>pcb. pcb\<lparr>p_parent := Some ip\<rparr>)"
  let ?k2 = "upd_proc ?k1 ip (\<lambda>pcb. pcb\<lparr>p_children := p_children pcb @ [c]\<rparr>)"
  have c: "c < length (pcbs k)" using 2(4) by (auto simp: get_proc_def split: bind_splits if_splits)
  have 1: "good k ?k1" using 2(3) by (intro good_upd_proc [OF 2(2)]) (simp add: pcb_ty_def)
  have "good ?k1 ?k2" using c by (intro good_add_child good_ty [OF 1]) simp
  note g = good_trans [OF 1 this]
  obtain pcb where "get_proc k c = Some pcb" and r: "reparent ?k2 ip cs = Some k'"
    using 2(4) by (auto simp: Let_def split: bind_splits)
  then show ?case using 2(1) [OF _ refl good_ty [OF g] _ r] 2(3) good_trans [OF g] by simp
qed (simp add: good_refl)

lemma take_res_good: "kernel_ty k \<Longrightarrow> take_res k ts = (rs, k') \<Longrightarrow> good k k'"
proof (induction k ts arbitrary: rs k' rule: take_res.induct)
  case (2 k t ts)
  let ?k1 = "upd_tcb k t (\<lambda>tcb. tcb\<lparr>t_res := None\<rparr>)"
  have g: "good k ?k1" by (rule good_upd_tcb [OF 2(2)]) (simp add: tcb_ty_def)
  obtain rs1 k2 where "take_res ?k1 ts = (rs1, k2)" by fastforce
  then show ?case using 2(1) [OF good_ty [OF g]] 2(3) good_trans [OF g] by (auto simp: Let_def)
qed (simp add: good_refl)

lemma drop_res_good: "kernel_ty k \<Longrightarrow> drop_res k rs = Some k' \<Longrightarrow> good k k'"
proof (induction k rs rule: drop_res.induct)
  case (2 k r rs)
  then obtain k1 where "res_drop k r = Some k1" "drop_res k1 rs = Some k'" by (auto split: bind_splits)
  then show ?case using 2 res_drop_good good_ty good_trans by blast
qed (simp add: good_refl)

lemma exit_process_good:
  assumes k: "kernel_ty k" and n: "exit_process k p code = Some k'"
  shows "good k k'"
proof -
  let ?k1 = "upd_proc k p (\<lambda>pcb. pcb\<lparr>p_zombie := True, p_exit_code := code\<rparr>)"
  obtain pcb ip k2 where pcb: "get_proc k p = Some pcb" and ip: "initproc k = Some ip" "ip \<noteq> p"
    and 2: "reparent ?k1 ip (p_children pcb) = Some k2"
    using n by (auto simp: exit_process_def Let_def assert_bind split: bind_splits)
  obtain rs k3 where 3: "take_res k2 (somes (p_tasks pcb)) = (rs, k3)" by fastforce
  note sofar = exit_process_def Let_def pcb ip 2 3
  obtain k4 where 4: "drop_res k3 rs = Some k4" using n by (auto simp: sofar split: bind_splits)
  let ?k4 = "upd_proc k4 p (\<lambda>pcb. pcb\<lparr>p_children := []\<rparr>)"
  obtain k5 where 5: "drop_all_procs ?k4 (p_children pcb) = Some k5" using n by (auto simp: sofar 4 split: bind_splits)
  obtain ms s where k': "k' = upd_proc (k5\<lparr>kmm := s\<rparr>) p (\<lambda>pcb. pcb\<lparr>p_memory_set := ms, p_fd_table := []\<rparr>)"
    using n by (auto simp: sofar 4 5 split: bind_splits)
  have g1: "good k ?k1" by (rule good_upd_proc [OF k]) (simp add: pcb_ty_def)
  have "ip < length (pcbs ?k1)" using ip(1) k by (auto simp: kernel_ty_def)
  then have g2: "good ?k1 k2" by (rule reparent_good [OF good_ty [OF g1] _ 2])
  have g3: "good k2 k3" by (rule take_res_good [OF good_ty [OF g2] 3])
  have g4: "good k3 k4" by (rule drop_res_good [OF good_ty [OF g3] 4])
  have g5: "good k4 ?k4" by (rule good_upd_proc [OF good_ty [OF g4]]) (simp add: pcb_ty_def)
  have g6: "good ?k4 k5" by (rule drop_all_procs_good [OF good_ty [OF g5] 5])
  have "kernel_ty (k5\<lparr>kmm := s\<rparr>)" using good_ty [OF g6] by simp
  then have "good (k5\<lparr>kmm := s\<rparr>) k'" unfolding k' by (rule good_upd_proc) (simp add: pcb_ty_def)
  then have g7: "good k5 k'" by (simp add: good_def grows_def)
  show ?thesis using g1 g2 g3 g4 g5 g6 g7 good_trans by blast
qed

lemma exit_current_good [good_ops]:
  assumes k: "kernel_ty k" and n: "exit_current_and_run_next k code = Some k'"
  shows "good k k'"
proof -
  let ?k0 = "k\<lparr>cpu := None\<rparr>"
  obtain t tcb res pcb where t: "cpu k = Some t" "get_tcb ?k0 t = Some tcb" "t_res tcb = Some res" "get_proc ?k0 (t_process tcb) = Some pcb"
    using n by (auto simp: exit_current_and_run_next_def take_current_task_def Let_def split: bind_splits)
  note sofar = exit_current_and_run_next_def take_current_task_def Let_def t
  let ?k1 = "upd_tcb ?k0 t (\<lambda>tcb. tcb\<lparr>t_exit_code := Some code, t_res := None\<rparr>)"
  obtain k2 k3 where 2: "res_drop ?k1 res = Some k2" and 3: "drop_task k2 t = Some k3"
    using n by (auto simp: sofar split: bind_splits)
  obtain k4 where 4: "(if r_tid res = 0 then exit_process k3 (t_process tcb) code else Some k3) = Some k4"
    and 5: "drop_process k4 (t_process tcb) = Some k'" using n by (simp add: sofar 2 3 split: bind_splits)
  have g0: "good k ?k0" by (rule good_idle [OF k])
  have g1: "good ?k0 ?k1" by (rule good_upd_tcb [OF good_ty [OF g0]]) (simp add: tcb_ty_def)
  have g2: "good ?k1 k2" by (rule res_drop_good [OF good_ty [OF g1] 2])
  have g3: "good k2 k3" by (rule drop_task_good [OF good_ty [OF g2] 3])
  have g4: "good k3 k4" using 4 exit_process_good [OF good_ty [OF g3]] good_refl [OF good_ty [OF g3]] by (auto split: if_splits)
  have g5: "good k4 k'" by (rule drop_process_good [OF good_ty [OF g4] 5])
  show ?thesis using g0 g1 g2 g3 g4 g5 good_trans by blast
qed

end
