(* ===== verification/Kernel_Example.thy ===== *)
theory Kernel_Example
  imports Syscalls
begin

text \<open>
  A small kernel state on which the theorems about the whole kernel are applied: one process with its
  threads, no files besides the standard ones, and an empty address space.  A state is built from the
  saved contexts of the threads.
\<close>

definition ex_ms :: MemorySet where
  "ex_ms = \<lparr>page_table = \<lparr>root_ppn = 5, pt_frames = []\<rparr>, areas = []\<rparr>"

definition ex_pcb :: "nat list \<Rightarrow> ProcessControlBlock" where
  "ex_pcb ts = \<lparr>p_pid = 0, p_zombie = False, p_memory_set = ex_ms, p_parent = None, p_children = [], p_exit_code = 0,
     p_fd_table = [Some 0, Some 1], p_tasks = map Some ts, p_res_allocator = \<lparr>current = length ts, recycled = []\<rparr>,
     p_mutexes = [], p_semaphores = [], p_condvars = [], p_live = True\<rparr>"

definition ex_tcb :: "nat \<Rightarrow> resume \<Rightarrow> TaskControlBlock" where
  "ex_tcb tid ra = \<lparr>t_process = 0, t_kernel_stack = word_of_nat tid, t_trap_cx_ppn = 6, t_task_cx = \<lparr>cx_ra = ra, cx_sp = 0\<rparr>,
     t_status = Ready, t_exit_code = None, t_res = Some \<lparr>r_tid = tid, r_ustack_base = 0, r_process = 0\<rparr>, t_live = True\<rparr>"

definition ex_kernel :: "resume list \<Rightarrow> kernel" where
  "ex_kernel rs = \<lparr>
     kmm = \<lparr>pages = (\<lambda>_. replicate 4096 0), falloc = \<lparr>fcurrent = 100, fend = 200, frecycled = []\<rparr>\<rparr>,
     kspace = ex_ms, pid_allocator = \<lparr>current = 1, recycled = []\<rparr>, kstack_allocator = \<lparr>current = length rs, recycled = []\<rparr>,
     pcbs = [ex_pcb [0..<length rs]], tcbs = map (\<lambda>i. ex_tcb i (rs ! i)) [0..<length rs],
     ready_queue = [0..<length rs], cpu = None, ktimers = [], mutexes = [], semaphores = [], condvars = [],
     files = [Stdin, Stdout], rings = [],
     kfs = \<lparr>inode_bitmap = \<lparr>start_block_id = 1, blocks = 1\<rparr>, data_bitmap = \<lparr>start_block_id = 3, blocks = 1\<rparr>,
       inode_area_start_block = 2, data_area_start_block = 4\<rparr>,
     kdisk = (\<lambda>_. replicate 512 0), initproc = Some 0, console_in = [], console_out = [], next_trigger = 0,
     restore_args = (0, 0)\<rparr>"

definition ex_machine :: machine where
  "ex_machine = \<lparr>m_trap_handler = 0x80201000, m_trampoline = 0x80200000, m_sstatus = 0, m_parse = (\<lambda>_. None)\<rparr>"

lemmas ex_defs = ex_ms_def ex_pcb_def ex_tcb_def ex_kernel_def

end
