(* ===== verification/Kernel_Steps.thy ===== *)
theory Kernel_Steps
  imports Kernel_Typing Kernel_Example
begin

text \<open>
  The kernel as a step relation: what user mode and the devices do, a trap, and one turn of the
  scheduling loop.  Every system call, every trap and every turn of the loop preserves the typing of
  the kernel state and changes the ready queue only by taking its first task and by appending tasks;
  and under timer interrupts alone ready tasks are dispatched one after the other.
\<close>

subsection \<open>System calls\<close>

lemma fd_lookup_ty:
  "kernel_ty k \<Longrightarrow> fd_lookup k fd = Some (p, r) \<Longrightarrow> p < length (pcbs k) \<and> (\<forall>f. r = Some f \<longrightarrow> f < length (files k))"
  by (auto simp: fd_lookup_def dest!: current_process_ty get_proc_ty split: bind_splits if_splits)
    (auto simp: pcb_ty_def refs_in_def intro: nth_mem dest!: sym [of "_ ! _"])

lemma sys_write_ty:
  assumes k: "kernel_ty k" and fs: "frames_ty k fs" and r: "sys_write k fs fd buf len = Some r"
  shows "outcome_ty k r"
proof -
  obtain token p fl where t: "current_user_token k = Some token" "fd_lookup k fd = Some (p, fl)"
    using r by (auto simp: sys_write_def split: bind_splits)
  have fl: "p < length (pcbs k) \<and> (\<forall>f. fl = Some f \<longrightarrow> f < length (files k))" by (rule fd_lookup_ty [OF k t(2)])
  show ?thesis
  proof (cases fl)
    case None
    then show ?thesis using r t good_refl [OF k] by (auto simp: sys_write_def)
  next
    case (Some f)
    have "frames_ty k (FHold [p] [f] # fs)" using fl Some fs by simp
    from file_write_ty [OF k this] show ?thesis using r t Some by (auto simp: sys_write_def split: bind_splits)
  qed
qed

lemma sys_read_ty:
  assumes k: "kernel_ty k" and fs: "frames_ty k fs" and r: "sys_read k fs fd buf len = Some r"
  shows "outcome_ty k r"
proof -
  obtain token p fl where t: "current_user_token k = Some token" "fd_lookup k fd = Some (p, fl)"
    using r by (auto simp: sys_read_def split: bind_splits)
  have fl: "p < length (pcbs k) \<and> (\<forall>f. fl = Some f \<longrightarrow> f < length (files k))" by (rule fd_lookup_ty [OF k t(2)])
  show ?thesis
  proof (cases fl)
    case None
    then show ?thesis using r t good_refl [OF k] by (auto simp: sys_read_def)
  next
    case (Some f)
    have "frames_ty k (FHold [p] [f] # fs)" using fl Some fs by simp
    from file_read_ty [OF k this] show ?thesis using r t Some by (auto simp: sys_read_def split: bind_splits)
  qed
qed

lemma alloc_fd_refs: "alloc_fd tbl = (fd, tbl') \<Longrightarrow> refs_in tbl n \<Longrightarrow> refs_in tbl' n"
  by (auto simp: alloc_fd_def split: option.splits)

lemma install_fd_good:
  assumes k: "kernel_ty k" and f: "f < length (files k)" and i: "install_fd k p f = Some (fd, k')"
  shows "good k k'"
proof -
  obtain pcb tbl where pcb: "get_proc k p = Some pcb" and a: "alloc_fd (p_fd_table pcb) = (fd, tbl)"
    and k': "k' = upd_proc k p (\<lambda>pcb. pcb\<lparr>p_fd_table := tbl[fd := Some f]\<rparr>)"
    using i by (auto simp: install_fd_def Let_def split: bind_splits prod.splits)
  have "refs_in (tbl[fd := Some f]) (length (files k))"
    using alloc_fd_refs [OF a] get_proc_ty [OF k pcb] f by (intro refs_in_update) (auto simp: pcb_ty_def)
  then show ?thesis unfolding k' by (intro good_upd_proc [OF k]) (simp add: pcb_ty_def)
qed

lemma sys_open_ty:
  assumes k: "kernel_ty k" and r: "sys_open k path flags = Some r"
  shows "outcome_ty k r"
proof -
  obtain p token name fl inode d where o: "current_process k = Some p" "current_user_token k = Some token"
    "translated_str (kmm k) token path = Some name" "OpenFlags_from_bits flags = Some fl"
    "open_file (kfs k) (kdisk k) (str_bytes name) fl = Some (inode, d)"
    using r by (auto simp: sys_open_def split: bind_splits)
  show ?thesis
  proof (cases inode)
    case None
    then show ?thesis using r o good_refl [OF k] by (auto simp: sys_open_def)
  next
    case (Some i)
    obtain fd k' where i: "install_fd (k\<lparr>kdisk := d, files := files k @ [Regular i]\<rparr>) p (length (files k)) = Some (fd, k')"
      and r': "r = Return (word_of_nat fd) k'" using r o Some by (auto simp: sys_open_def Let_def split: bind_splits)
    have g: "good k (k\<lparr>kdisk := d, files := files k @ [Regular i]\<rparr>)"
      using good_new_files [of "k\<lparr>kdisk := d\<rparr>" "[Regular i]"] k by (simp add: good_def grows_def)
    have "good (k\<lparr>kdisk := d, files := files k @ [Regular i]\<rparr>) k'" by (rule install_fd_good [OF good_ty [OF g] _ i]) simp
    then show ?thesis using good_trans [OF g] r' by simp
  qed
qed

lemma sys_close_ty:
  assumes k: "kernel_ty k" and r: "sys_close k fd = Some r"
  shows "outcome_ty k r"
proof -
  have "good k (upd_proc k p (\<lambda>pcb. pcb\<lparr>p_fd_table := (p_fd_table pcb)[unat fd := None]\<rparr>))" for p
    by (rule good_upd_proc [OF k]) (auto simp: pcb_ty_def intro!: refs_in_update)
  then show ?thesis using r good_refl [OF k] by (auto simp: sys_close_def split: bind_splits option.splits)
qed

lemma make_pipe_good:
  assumes k: "kernel_ty k" and m: "make_pipe k = (a, b, k')"
  shows "good k k' \<and> a < length (files k') \<and> b < length (files k')"
proof -
  have k': "k' = k\<lparr>rings := rings k @ [set_write_end rb_new (Suc (length (files k)))],
      files := files k @ [PipeEnd (read_end_with_buffer (length (rings k))), PipeEnd (write_end_with_buffer (length (rings k)))]\<rparr>"
    and ab: "a = length (files k)" "b = Suc (length (files k))" using m by (auto simp: make_pipe_def Let_def)
  have g: "grows k k'" by (simp add: k' grows_def)
  have "ring_ty k' (set_write_end rb_new (Suc (length (files k))))"
    using rb_new_ok by (simp add: ring_ty_def k') (simp add: set_write_end_def)
  moreover have "file_ty k' (PipeEnd (read_end_with_buffer (length (rings k))))" "file_ty k' (PipeEnd (write_end_with_buffer (length (rings k))))"
    by (simp_all add: k' read_end_with_buffer_def write_end_with_buffer_def)
  ultimately show ?thesis
    using kernel_ty_mono [OF g k] k g ab unfolding good_def kernel_ty_def by (simp add: k')
qed

lemma sys_pipe_ty:
  assumes k: "kernel_ty k" and r: "sys_pipe k ptr = Some r"
  shows "outcome_ty k r"
proof -
  obtain p a b k1 fd1 k2 fd2 k3 s where 1: "make_pipe k = (a, b, k1)" and 2: "install_fd k1 p a = Some (fd1, k2)"
    and 3: "install_fd k2 p b = Some (fd2, k3)" and r': "r = Return 0 (k3\<lparr>kmm := s\<rparr>)"
    using r by (auto simp: sys_pipe_def Let_def split: bind_splits prod.splits)
  have g1: "good k k1" "a < length (files k1)" "b < length (files k1)" using make_pipe_good [OF k 1] by auto
  have g2: "good k1 k2" by (rule install_fd_good [OF good_ty [OF g1(1)] g1(2) 2])
  have g3: "good k2 k3" by (rule install_fd_good [OF good_ty [OF g2] good_lengths(3) [OF g2 g1(3)] 3])
  show ?thesis using good_trans [OF g1(1) good_trans [OF g2 g3]] r' by simp
qed

lemma sys_dup_ty:
  assumes k: "kernel_ty k" and r: "sys_dup k fd = Some r"
  shows "outcome_ty k r"
proof -
  obtain p fl where t: "fd_lookup k fd = Some (p, fl)" using r by (auto simp: sys_dup_def split: bind_splits)
  show ?thesis
  proof (cases fl)
    case None
    then show ?thesis using r t good_refl [OF k] by (auto simp: sys_dup_def)
  next
    case (Some f)
    then have "f < length (files k)" using fd_lookup_ty [OF k t] by simp
    from install_fd_good [OF k this] show ?thesis using r t Some by (auto simp: sys_dup_def split: bind_splits)
  qed
qed

lemma sys_fork_ty:
  assumes k: "kernel_ty k" and r: "sys_fork m k = Some r"
  shows "outcome_ty k r"
proof -
  obtain p c k1 t cx k2 pid where 1: "fork m k p = Some (c, k1)" and 2: "set_trap_cx k1 t cx = Some k2" and r': "r = Return (word_of_nat pid) k2"
    using r by (auto simp: sys_fork_def split: bind_splits)
  have g: "good k k1" using fork_good [OF k 1] by simp
  show ?thesis using good_trans [OF g set_trap_cx_good [OF good_ty [OF g] 2]] r' by simp
qed

lemma sys_exec_ty:
  assumes k: "kernel_ty k" and r: "sys_exec m k path args = Some r"
  shows "outcome_ty k r"
proof -
  obtain token name av inode d where o: "current_user_token k = Some token" "translated_str (kmm k) token path = Some name"
    "exec_args (kmm k) token args = Some av" "open_file (kfs k) (kdisk k) (str_bytes name) RDONLY = Some (inode, d)"
    using r by (auto simp: sys_exec_def split: bind_splits)
  have g: "good k (k\<lparr>kdisk := d\<rparr>)" using good_refl [OF k] by simp
  show ?thesis
  proof (cases inode)
    case None
    then show ?thesis using r o g by (auto simp: sys_exec_def)
  next
    case (Some i)
    then obtain p elf k1 where e: "exec m (k\<lparr>kdisk := d\<rparr>) p elf (map str_bytes av) = Some k1" and r': "r = Return (word_of_nat (length av)) k1"
      using r o by (auto simp: sys_exec_def Let_def split: bind_splits)
    show ?thesis using good_trans [OF g exec_good [OF good_ty [OF g] e]] r' by simp
  qed
qed

lemma good_remove_child:
  "kernel_ty k \<Longrightarrow> good k (upd_proc k p (\<lambda>pcb. pcb\<lparr>p_children := take i (p_children pcb) @ drop (Suc i) (p_children pcb)\<rparr>))"
  by (intro good_upd_proc) (auto simp: pcb_ty_def dest!: in_set_takeD in_set_dropD)

lemma sys_waitpid_ty:
  assumes k: "kernel_ty k" and r: "sys_waitpid k pid ptr = Some r"
  shows "outcome_ty k r"
proof -
  obtain p pcb where p: "current_process k = Some p" "get_proc k p = Some pcb"
    using r by (auto simp: sys_waitpid_def split: bind_splits)
  let ?found = "find_idx (\<lambda>c. p_zombie (pcbs k ! c) \<and> pid_matches k pid c) (p_children pcb)"
  consider "\<not> list_ex (pid_matches k pid) (p_children pcb)" | "list_ex (pid_matches k pid) (p_children pcb)" "?found = None"
    | i where "list_ex (pid_matches k pid) (p_children pcb)" "?found = Some i" by fastforce
  then show ?thesis
  proof cases
    case 3
    let ?k1 = "upd_proc k p (\<lambda>pcb. pcb\<lparr>p_children := take i (p_children pcb) @ drop (Suc i) (p_children pcb)\<rparr>)"
    obtain s c k2 n where d: "drop_process (?k1\<lparr>kmm := s\<rparr>) c = Some k2" and r': "r = Return n k2"
      using r p 3 by (auto simp: sys_waitpid_def Let_def assert_bind split: bind_splits)
    have g: "good k (?k1\<lparr>kmm := s\<rparr>)" using good_remove_child [OF k] by simp
    show ?thesis using good_trans [OF g drop_process_good [OF good_ty [OF g] d]] r' by simp
  qed (use r p good_refl [OF k] in \<open>auto simp: sys_waitpid_def\<close>)
qed

lemma sift_up_mset: "pos < length xs \<Longrightarrow> mset (sift_up le xs pos) = mset xs"
proof (induction le xs pos rule: sift_up.induct)
  case (1 le xs pos)
  show ?case
  proof (cases "pos = 0 \<or> le (xs ! pos) (xs ! ((pos - 1) div 2))")
    case True
    then show ?thesis by (subst sift_up.simps) (auto simp: Let_def)
  next
    case False
    let ?p = "(pos - 1) div 2"
    have p: "?p < length xs" using 1(2) False by auto
    have "mset (sift_up le (swap_at xs pos ?p) ?p) = mset (swap_at xs pos ?p)" using 1(1) [OF _ refl] False p by auto
    also have "\<dots> = mset xs" using mset_swap_at [OF 1(2) p] .
    finally show ?thesis using False by (subst sift_up.simps) (simp add: Let_def)
  qed
qed

lemma sift_bottom_mset:
  "pos < length xs \<Longrightarrow> mset (fst (sift_bottom le xs pos)) = mset xs \<and> snd (sift_bottom le xs pos) < length xs"
proof (induction le xs pos rule: sift_bottom.induct)
  case (1 le xs pos)
  let ?c = "if le (xs ! (2 * pos + 1)) (xs ! (2 * pos + 1 + 1)) then 2 * pos + 1 + 1 else 2 * pos + 1"
  consider "2 * pos + 1 + 2 \<le> length xs" | "\<not> 2 * pos + 1 + 2 \<le> length xs" "2 * pos + 1 + 1 = length xs"
    | "\<not> 2 * pos + 1 + 2 \<le> length xs" "2 * pos + 1 + 1 \<noteq> length xs" by blast
  then show ?case
  proof cases
    case 1
    then have c: "?c < length xs" by auto
    have e: "sift_bottom le xs pos = sift_bottom le (swap_at xs pos ?c) ?c" using 1 by (subst sift_bottom.simps) (simp add: Let_def)
    have "?c < length (swap_at xs pos ?c)" using c by simp
    from "1.IH" [OF refl 1 refl this] show ?thesis unfolding e using mset_swap_at [OF "1.prems" c] by simp
  next
    case 2
    then show ?thesis using mset_swap_at [OF "1.prems", of "2 * pos + 1"] by (subst (1 2) sift_bottom.simps) (simp add: Let_def)
  next
    case 3
    then show ?thesis using "1.prems" by (subst (1 2) sift_bottom.simps) (simp add: Let_def)
  qed
qed

lemma heap_push_mset: "mset (heap_push le h x) = add_mset x (mset h)"
  by (simp add: heap_push_def sift_up_mset)

lemma heap_push_set: "set (heap_push le h x) = insert x (set h)"
  using arg_cong [OF heap_push_mset, of set_mset] by simp

lemma heap_pop_mset: "heap_pop le xs = Some (x, ys) \<Longrightarrow> mset xs = add_mset x (mset ys)"
proof (cases "butlast xs = []")
  case True
  assume h: "heap_pop le xs = Some (x, ys)"
  then have "xs \<noteq> []" by (auto simp: heap_pop_def)
  then have "xs = butlast xs @ [last xs]" by simp
  then have "xs = [last xs]" using True by simp
  then show ?thesis using h True by (cases xs) (auto simp: heap_pop_def)
next
  case False
  assume h: "heap_pop le xs = Some (x, ys)"
  let ?z = "(butlast xs)[0 := last xs]"
  have ne: "xs \<noteq> []" using False by auto
  obtain d p where dp: "sift_bottom le ?z 0 = (d, p)" by fastforce
  have d: "mset d = mset ?z" "p < length d"
    using sift_bottom_mset [of 0 ?z le] length_sift_bottom [of le ?z 0] False dp by (simp_all add: length_greater_0_conv [symmetric] del: length_greater_0_conv)
  have "x = butlast xs ! 0" and y: "mset ys = mset ?z" using h ne False dp d by (auto simp: heap_pop_def Let_def sift_up_mset)
  moreover obtain b bs where b: "butlast xs = b # bs" using False by (cases "butlast xs") auto
  moreover have "mset xs = mset (butlast xs @ [last xs])" using ne by simp
  ultimately show ?thesis by simp
qed

lemma heap_pop_first: "heap_pop le xs = Some (x, ys) \<Longrightarrow> x = xs ! 0"
proof (cases xs rule: rev_cases)
  case (snoc zs z)
  assume "heap_pop le xs = Some (x, ys)"
  then show ?thesis using snoc by (cases zs) (auto simp: heap_pop_def Let_def split: prod.splits)
qed (simp add: heap_pop_def)

lemma check_timer_mset: "check_timer now ts = (woken, left) \<Longrightarrow> image_mset tm_task (mset ts) = mset woken + image_mset tm_task (mset left)"
proof (induction now ts arbitrary: woken left rule: check_timer.induct)
  case (1 now ts)
  show ?case
  proof (cases "ts = [] \<or> \<not> expire_ms (ts ! 0) \<le> now")
    case True
    then have "check_timer now ts = ([], ts)" by (subst check_timer.simps) (auto simp: heap_peek_def)
    then show ?thesis using "1.prems" by simp
  next
    case False
    then have pk: "heap_peek ts = Some (ts ! 0)" by (simp add: heap_peek_def)
    obtain x rest where p: "heap_pop timer_le ts = Some (x, rest)"
      using False by (cases "heap_pop timer_le ts") (auto simp: heap_pop_def Let_def split: if_splits prod.splits)
    obtain w l where w: "check_timer now rest = (w, l)" by fastforce
    have x: "x = ts ! 0" using heap_pop_first [OF p] .
    have "check_timer now ts = (tm_task (ts ! 0) # w, l)" using pk p w False by (subst check_timer.simps) simp
    moreover have "image_mset tm_task (mset rest) = mset w + image_mset tm_task (mset l)"
      using "1.IH" [OF pk _ p refl w] False by simp
    ultimately show ?thesis using "1.prems" heap_pop_mset [OF p] x by simp
  qed
qed

lemma sys_sleep_ty:
  assumes k: "kernel_ty k" and fs: "frames_ty k fs" and r: "sys_sleep k fs now ms = Some r"
  shows "outcome_ty k r"
proof -
  obtain t where t: "current_task k = Some t"
    and b: "map_option Switched (block_current_and_run_next (k\<lparr>ktimers := add_timer (ktimers k) (get_time_ms now + ms) t\<rparr>) (FConst 0 # fs)) = Some r"
    using r by (auto simp: sys_sleep_def Let_def simp del: map_option_eq_Some split: bind_splits)
  have g: "good k (k\<lparr>ktimers := add_timer (ktimers k) (get_time_ms now + ms) t\<rparr>)"
    using current_task_ty [OF k t] k
    by (intro good_timers [OF k]) (auto simp: add_timer_def kernel_ty_def heap_push_set)
  show ?thesis using block_ty [OF g _ b] frames_ty_mono [OF g fs] by simp
qed

lemma fill_slot_refs: "fill_slot tbl x = (i, tbl') \<Longrightarrow> refs_in tbl n \<Longrightarrow> x < n \<Longrightarrow> refs_in tbl' n"
  by (auto simp: fill_slot_def intro!: refs_in_update split: option.splits)

lemma refs_in_mono: "refs_in tbl n \<Longrightarrow> n \<le> n' \<Longrightarrow> refs_in tbl n'"
  by (auto simp: refs_in_def)

lemma sys_mutex_create_ty:
  assumes k: "kernel_ty k" and r: "sys_mutex_create k b = Some r"
  shows "outcome_ty k r"
proof -
  let ?x = "if \<not> b then MutexSpin_new else MutexBlocking_new"
  obtain p pcb i tbl where pcb: "get_proc k p = Some pcb" and f: "fill_slot (p_mutexes pcb) (length (mutexes k)) = (i, tbl)"
    and r': "r = Return (word_of_nat i) (upd_proc (k\<lparr>mutexes := mutexes k @ [?x]\<rparr>) p (\<lambda>pcb. pcb\<lparr>p_mutexes := tbl\<rparr>))"
    using r by (auto simp: sys_mutex_create_def Let_def simp del: if_not_P if_P split: bind_splits prod.splits)
  have g: "good k (k\<lparr>mutexes := mutexes k @ [?x]\<rparr>)"
    by (rule good_new_mutex [OF k]) (simp add: MutexSpin_new_def MutexBlocking_new_def)
  have "refs_in (p_mutexes pcb) (length (mutexes k))" using get_proc_ty [OF k pcb] by (simp add: pcb_ty_def)
  then have "refs_in (p_mutexes pcb) (Suc (length (mutexes k)))" by (rule refs_in_mono) simp
  then have "refs_in tbl (Suc (length (mutexes k)))" by (rule fill_slot_refs [OF f]) simp
  then have "good (k\<lparr>mutexes := mutexes k @ [?x]\<rparr>) (upd_proc (k\<lparr>mutexes := mutexes k @ [?x]\<rparr>) p (\<lambda>pcb. pcb\<lparr>p_mutexes := tbl\<rparr>))"
    by (intro good_upd_proc [OF good_ty [OF g]]) (simp add: pcb_ty_def)
  from good_trans [OF g this] show ?thesis using r' by simp
qed

lemma sys_semaphore_create_ty:
  assumes k: "kernel_ty k" and r: "sys_semaphore_create k c = Some r"
  shows "outcome_ty k r"
proof -
  let ?k1 = "k\<lparr>semaphores := semaphores k @ [Semaphore_new c]\<rparr>"
  obtain p pcb i tbl where pcb: "get_proc k p = Some pcb" and f: "fill_slot (p_semaphores pcb) (length (semaphores k)) = (i, tbl)"
    and r': "r = Return (word_of_nat i) (upd_proc ?k1 p (\<lambda>pcb. pcb\<lparr>p_semaphores := tbl\<rparr>))"
    using r by (auto simp: sys_semaphore_create_def Let_def split: bind_splits prod.splits)
  have g: "good k ?k1" by (rule good_new_semaphore [OF k]) (simp add: Semaphore_new_def)
  have "refs_in (p_semaphores pcb) (length (semaphores k))" using get_proc_ty [OF k pcb] by (simp add: pcb_ty_def)
  then have "refs_in (p_semaphores pcb) (Suc (length (semaphores k)))" by (rule refs_in_mono) simp
  then have "refs_in tbl (Suc (length (semaphores k)))" by (rule fill_slot_refs [OF f]) simp
  then have "good ?k1 (upd_proc ?k1 p (\<lambda>pcb. pcb\<lparr>p_semaphores := tbl\<rparr>))"
    by (intro good_upd_proc [OF good_ty [OF g]]) (simp add: pcb_ty_def)
  from good_trans [OF g this] show ?thesis using r' by simp
qed

lemma sys_condvar_create_ty:
  assumes k: "kernel_ty k" and r: "sys_condvar_create k = Some r"
  shows "outcome_ty k r"
proof -
  let ?k1 = "k\<lparr>condvars := condvars k @ [[]]\<rparr>"
  obtain p pcb i tbl where pcb: "get_proc k p = Some pcb" and f: "fill_slot (p_condvars pcb) (length (condvars k)) = (i, tbl)"
    and r': "r = Return (word_of_nat i) (upd_proc ?k1 p (\<lambda>pcb. pcb\<lparr>p_condvars := tbl\<rparr>))"
    using r by (auto simp: sys_condvar_create_def Condvar_new_def Let_def split: bind_splits prod.splits)
  have g: "good k ?k1" by (rule good_new_condvar [OF k])
  have "refs_in (p_condvars pcb) (length (condvars k))" using get_proc_ty [OF k pcb] by (simp add: pcb_ty_def)
  then have "refs_in (p_condvars pcb) (Suc (length (condvars k)))" by (rule refs_in_mono) simp
  then have "refs_in tbl (Suc (length (condvars k)))" by (rule fill_slot_refs [OF f]) simp
  then have "good ?k1 (upd_proc ?k1 p (\<lambda>pcb. pcb\<lparr>p_condvars := tbl\<rparr>))"
    by (intro good_upd_proc [OF good_ty [OF g]]) (simp add: pcb_ty_def)
  from good_trans [OF g this] show ?thesis using r' by simp
qed

lemma sys_exit_ty: "kernel_ty k \<Longrightarrow> sys_exit k code = Some r \<Longrightarrow> outcome_ty k r"
  by (auto simp: sys_exit_def dest: exit_current_good)

lemma sys_yield_ty:
  assumes k: "kernel_ty k" and fs: "frames_ty k fs" and r: "sys_yield k fs = Some r"
  shows "outcome_ty k r"
proof -
  have "frames_ty k (FConst 0 # fs)" using fs by simp
  from suspend_ty [OF good_refl [OF k] this] show ?thesis using r by (simp add: sys_yield_def del: map_option_eq_Some)
qed

lemma sys_getpid_ty: "kernel_ty k \<Longrightarrow> sys_getpid k = Some r \<Longrightarrow> outcome_ty k r"
  by (auto simp: sys_getpid_def good_refl split: bind_splits)

lemma sys_gettid_ty: "kernel_ty k \<Longrightarrow> sys_gettid k = Some r \<Longrightarrow> outcome_ty k r"
  by (auto simp: sys_gettid_def good_refl split: bind_splits)

lemma sys_get_time_ty: "kernel_ty k \<Longrightarrow> sys_get_time k mtime ts = Some r \<Longrightarrow> outcome_ty k r"
  by (auto simp: sys_get_time_def good_refl Let_def split: bind_splits)

lemma slot_ref_lt: "slot_ref tbl i = Some r \<Longrightarrow> refs_in tbl n \<Longrightarrow> r < n"
  by (auto simp: slot_ref_def refs_in_def index_Some split: bind_splits)

lemma sys_mutex_lock_ty:
  assumes k: "kernel_ty k" and fs: "frames_ty k fs" and r: "sys_mutex_lock k fs i = Some r"
  shows "outcome_ty k r"
proof -
  obtain m where l: "mutex_lock k m (FConst 0 # fs) = Some r" using r by (auto simp: sys_mutex_lock_def split: bind_splits)
  show ?thesis using mutex_lock_ty [OF k _ l] fs by simp
qed

lemma sys_mutex_unlock_ty: "kernel_ty k \<Longrightarrow> sys_mutex_unlock k i = Some r \<Longrightarrow> outcome_ty k r"
  by (auto simp: sys_mutex_unlock_def dest: mutex_unlock_good split: bind_splits)

lemma sys_semaphore_up_ty: "kernel_ty k \<Longrightarrow> sys_semaphore_up k i = Some r \<Longrightarrow> outcome_ty k r"
  by (auto simp: sys_semaphore_up_def dest: sem_up_good split: bind_splits)

lemma sys_semaphore_down_ty:
  assumes k: "kernel_ty k" and fs: "frames_ty k fs" and r: "sys_semaphore_down k fs i = Some r"
  shows "outcome_ty k r"
proof -
  obtain p s where p: "current_process k = Some p" and l: "sem_down k s (FHold [p] [] # FConst 0 # fs) = Some r"
    using r by (auto simp: sys_semaphore_down_def split: bind_splits)
  show ?thesis using sem_down_ty [OF k _ l] fs current_process_ty [OF p] by simp
qed

lemma sys_condvar_signal_ty: "kernel_ty k \<Longrightarrow> sys_condvar_signal k i = Some r \<Longrightarrow> outcome_ty k r"
  by (auto simp: sys_condvar_signal_def dest: condvar_signal_good split: bind_splits)

lemma sys_condvar_wait_ty:
  assumes k: "kernel_ty k" and fs: "frames_ty k fs" and r: "sys_condvar_wait k fs i j = Some r"
  shows "outcome_ty k r"
proof -
  obtain p pcb c m where p: "current_process k = Some p" "get_proc k p = Some pcb" and m: "slot_ref (p_mutexes pcb) j = Some m"
    and l: "condvar_wait k c m (FHold [p] [] # FConst 0 # fs) = Some r"
    using r by (auto simp: sys_condvar_wait_def split: bind_splits)
  have "m < length (mutexes k)" using slot_ref_lt [OF m] get_proc_ty [OF k p(2)] by (simp add: pcb_ty_def)
  then show ?thesis using condvar_wait_ty [OF k _ _ l] fs current_process_ty [OF p(1)] by simp
qed

lemma sys_thread_create_ty:
  assumes k: "kernel_ty k" and r: "sys_thread_create m k pc arg = Some r"
  shows "outcome_ty k r"
proof -
  note sofar = sys_thread_create_def Let_def
  obtain t tcb res new k1 where t: "current_task k = Some t" "get_tcb k t = Some tcb" "t_res tcb = Some res"
    and 1: "TaskControlBlock_new k (t_process tcb) (r_ustack_base res) True = Some (new, k1)"
    using r by (auto simp: sofar split: bind_splits)
  obtain new_tcb new_res where n: "get_tcb k1 new = Some new_tcb" "t_res new_tcb = Some new_res"
    using r by (auto simp: sofar t 1 split: bind_splits)
  obtain cx k2 pcb where 2: "set_trap_cx k1 new cx = Some k2" and p: "get_proc k2 (t_process tcb) = Some pcb"
    and r2: "do { let tasks = p_tasks pcb @ replicate (Suc (r_tid new_res) - length (p_tasks pcb)) None;
          let k = upd_proc k2 (t_process tcb) (\<lambda>pcb. pcb\<lparr>p_tasks := tasks[r_tid new_res := Some new]\<rparr>);
          k \<leftarrow> (case tasks ! r_tid new_res of None \<Rightarrow> Some k | Some old \<Rightarrow> drop_task k old);
          Some (Return (word_of_nat (r_tid new_res)) (add_task k new)) } = Some r"
    using r by (auto simp: sofar t 1 n split: bind_splits)
  let ?tasks = "p_tasks pcb @ replicate (Suc (r_tid new_res) - length (p_tasks pcb)) None"
  let ?k3 = "upd_proc k2 (t_process tcb) (\<lambda>pcb. pcb\<lparr>p_tasks := ?tasks[r_tid new_res := Some new]\<rparr>)"
  obtain k4 where 4: "(case ?tasks ! r_tid new_res of None \<Rightarrow> Some ?k3 | Some old \<Rightarrow> drop_task ?k3 old) = Some k4"
    and r': "r = Return (word_of_nat (r_tid new_res)) (add_task k4 new)"
    using r2 by (auto simp: Let_def split: bind_splits)
  have g1: "good k k1" and new: "new < length (tcbs k1)" using TaskControlBlock_new_good [OF k 1] by auto
  have g2: "good k1 k2" by (rule set_trap_cx_good [OF good_ty [OF g1] 2])
  have new2: "new < length (tcbs k2)" using good_lengths(1) [OF g2 new] .
  have "refs_in (p_tasks pcb) (length (tcbs k2))" using get_proc_ty [OF good_ty [OF g2] p] by (simp add: pcb_ty_def)
  then have "refs_in (?tasks[r_tid new_res := Some new]) (length (tcbs k2))" using new2 by (intro refs_in_update) auto
  then have g3: "good k2 ?k3" by (intro good_upd_proc [OF good_ty [OF g2]]) (simp add: pcb_ty_def)
  have g4: "good ?k3 k4" using 4 good_ty [OF g3] by (auto intro: good_refl drop_task_good split: option.splits)
  have "new < length (tcbs k4)" using good_lengths(1) [OF g4] good_lengths(1) [OF g3 new2] by simp
  then have "good k4 (add_task k4 new)" by (rule good_add_task [OF good_ty [OF g4]])
  then show ?thesis unfolding r' using good_trans [OF good_trans [OF good_trans [OF good_trans [OF g1 g2] g3] g4]] by simp
qed

lemma sys_waittid_good:
  assumes k: "kernel_ty k" and r: "sys_waittid k tid = Some (v, k')"
  shows "good k k'"
proof -
  have g: "good k (upd_proc k p (\<lambda>pcb. pcb\<lparr>p_tasks := (p_tasks pcb)[i := None]\<rparr>))" for p i
    by (intro good_upd_proc [OF k]) (auto simp: pcb_ty_def intro: refs_in_update)
  show ?thesis using r k good_trans [OF g drop_task_good [OF good_ty [OF g]]]
    by (auto simp: sys_waittid_def Let_def good_refl split: bind_splits if_splits option.splits)
qed

lemma if_SomeE: "(if b then x else y) = Some r \<Longrightarrow> (b \<Longrightarrow> x = Some r \<Longrightarrow> R) \<Longrightarrow> (\<not> b \<Longrightarrow> y = Some r \<Longrightarrow> R) \<Longrightarrow> R"
  by (cases b) auto

lemma syscall_ty:
  assumes k: "kernel_ty k" and fs: "frames_ty k fs" and r: "syscall m k fs mtime i a = Some r"
  shows "outcome_ty k r"
proof (cases a)
  case (Args a0 a1 a2 a3)
  have w: "outcome_ty k r" if "map_option (\<lambda>(v, k). Return (scast v) k) (sys_waittid k a0) = Some r" for r
    using that sys_waittid_good [OF k] by auto
  have c: "outcome_ty k r" if "ret k v = Some r" for v r using that good_refl [OF k] by auto
  note ty = c w sys_dup_ty [OF k] sys_open_ty [OF k] sys_close_ty [OF k] sys_pipe_ty [OF k] sys_read_ty [OF k fs]
    sys_write_ty [OF k fs] sys_exit_ty [OF k] sys_sleep_ty [OF k fs] sys_yield_ty [OF k fs] sys_getpid_ty [OF k]
    sys_gettid_ty [OF k] sys_fork_ty [OF k] sys_exec_ty [OF k] sys_waitpid_ty [OF k] sys_get_time_ty [OF k]
    sys_thread_create_ty [OF k] sys_mutex_create_ty [OF k] sys_mutex_lock_ty [OF k fs] sys_mutex_unlock_ty [OF k]
    sys_semaphore_create_ty [OF k] sys_semaphore_up_ty [OF k] sys_semaphore_down_ty [OF k fs] sys_condvar_create_ty [OF k]
    sys_condvar_signal_ty [OF k] sys_condvar_wait_ty [OF k fs]
  show ?thesis using r unfolding Args syscall.simps
    by (elim if_SomeE) (erule ty | simp)+
qed

subsection \<open>Traps and the scheduling loop\<close>

lemma trap_return_good [good_ops]: "kernel_ty k \<Longrightarrow> trap_return k = Some k' \<Longrightarrow> good k k'"
  by (auto simp: trap_return_def good_refl split: bind_splits)

lemma upd_trap_cx_good [good_ops]: "kernel_ty k \<Longrightarrow> upd_trap_cx k f = Some k' \<Longrightarrow> good k k'"
  by (auto simp: upd_trap_cx_def dest: set_trap_cx_good split: bind_splits)

lemma syscall_return_good [good_ops]:
  assumes k: "kernel_ty k" and r: "syscall_return k v = Some k'"
  shows "good k k'"
proof -
  obtain k1 f where 1: "upd_trap_cx k f = Some k1" and 2: "trap_return k1 = Some k'"
    using r by (auto simp: syscall_return_def split: bind_splits)
  have g: "good k k1" by (rule upd_trap_cx_good [OF k 1])
  show ?thesis by (rule good_trans [OF g trap_return_good [OF good_ty [OF g] 2]])
qed

lemma user_env_call_good:
  assumes k: "kernel_ty k" and r: "user_env_call m k mtime = Some k'"
  shows "good k k'"
proof -
  obtain k1 f i a o' where 1: "upd_trap_cx k f = Some k1" and 2: "syscall m k1 [FSyscall] mtime i a = Some o'"
    and 3: "(case o' of Return v k \<Rightarrow> syscall_return k v | Switched k \<Rightarrow> Some k) = Some k'"
    using r by (auto simp: user_env_call_def Let_def split: bind_splits)
  have g: "good k k1" by (rule upd_trap_cx_good [OF k 1])
  have o: "outcome_ty k1 o'" using syscall_ty [OF good_ty [OF g] _ 2] by simp
  have "good k1 k'"
  proof (cases o')
    case (Return v k2)
    then have g2: "good k1 k2" and "syscall_return k2 v = Some k'" using o 3 by simp_all
    then show ?thesis using good_trans [OF g2 syscall_return_good [OF good_ty [OF g2]]] by simp
  qed (use o 3 in simp)
  then show ?thesis by (rule good_trans [OF g])
qed

lemma add_tasks_good:
  "kernel_ty k \<Longrightarrow> (\<And>t. t \<in> set ts \<Longrightarrow> t < length (tcbs k)) \<Longrightarrow> good k (foldl add_task k ts)"
proof (induction ts arbitrary: k)
  case (Cons t ts)
  have g: "good k (add_task k t)" using Cons.prems by (intro good_add_task) auto
  have "good (add_task k t) (foldl add_task (add_task k t) ts)"
    using Cons.prems good_lengths(1) [OF g] by (intro Cons.IH good_ty [OF g]) auto
  then show ?case using good_trans [OF g] by simp
qed (simp add: good_refl)

lemma wake_sleepers_good:
  assumes k: "kernel_ty k"
  shows "good k (wake_sleepers k mtime)"
proof -
  obtain woken left where c: "check_timer (get_time_ms mtime) (ktimers k) = (woken, left)" by fastforce
  have "set woken \<union> tm_task ` set left = tm_task ` set (ktimers k)"
    using arg_cong [OF check_timer_mset [OF c], of set_mset] by simp
  moreover have "\<forall>t \<in> set (ktimers k). tm_task t < length (tcbs k)" using k by (simp add: kernel_ty_def)
  ultimately have "\<forall>t \<in> set woken \<union> tm_task ` set left. t < length (tcbs k)" by simp
  then have l: "\<forall>t \<in> set left. tm_task t < length (tcbs k)" and w: "\<forall>t \<in> set woken. t < length (tcbs k)" by simp_all
  have g: "good k (k\<lparr>ktimers := left\<rparr>)" using l by (intro good_timers [OF k]) simp
  have "good (k\<lparr>ktimers := left\<rparr>) (foldl add_task (k\<lparr>ktimers := left\<rparr>) woken)"
    using w by (intro add_tasks_good good_ty [OF g]) simp
  then show ?thesis using good_trans [OF g] c by (simp add: wake_sleepers_def)
qed

lemma trap_handler_good:
  assumes k: "kernel_ty k" and r: "trap_handler m k c = Some k'"
  shows "good k k'"
proof (cases c)
  case (SupervisorTimer t1 t2)
  let ?k1 = "k\<lparr>next_trigger := set_next_trigger t1\<rparr>"
  have "kernel_ty ?k1" using k by simp
  then have g: "good ?k1 (wake_sleepers ?k1 t2)" by (rule wake_sleepers_good)
  have "suspend_current_and_run_next (wake_sleepers ?k1 t2) [FTrap] = Some k'" using r SupervisorTimer by (simp add: trap_handler_def)
  from suspend_good [OF good_ty [OF g] _ this] have "good (wake_sleepers ?k1 t2) k'" by simp
  from good_trans [OF g this] have "good ?k1 k'" .
  moreover have "good k ?k1" using good_refl [OF k] by simp
  ultimately show ?thesis by (rule good_trans [rotated])
qed (use r k user_env_call_good exit_current_good in \<open>auto simp: trap_handler_def\<close>)

lemma resume_good:
  assumes "on_return (\<lambda>k. run_frames k fs) r = Some k'" and fs: "frames_ty k fs" and "\<And>o'. r = Some o' \<Longrightarrow> outcome_ty k o'"
    and step: "\<And>x v k'. kernel_ty x \<Longrightarrow> frames_ty x fs \<Longrightarrow> run_frames x fs v = Some k' \<Longrightarrow> good x k'"
  shows "good k k'"
proof -
  have "good k k'" if "good k k1" and "run_frames k1 fs v = Some k'" for k1 v
    using good_trans [OF that(1) step [OF good_ty [OF that(1)] frames_ty_mono [OF that(1) fs] that(2)]] .
  then show ?thesis using assms by (auto simp: on_return_def split: bind_splits outcome.splits)
qed

lemma run_frames_good:
  "kernel_ty k \<Longrightarrow> frames_ty k fs \<Longrightarrow> run_frames k fs v = Some k' \<Longrightarrow> good k k'"
proof (induction k fs v arbitrary: k' rule: run_frames.induct)
  case (5 k t fs v)
  then obtain k1 where d: "drop_task k t = Some k1" "run_frames k1 fs v = Some k'" by (auto split: bind_splits)
  have g: "good k k1" using drop_task_good d 5 by blast
  have "frames_ty k1 fs" using frames_ty_mono [OF g] 5 by simp
  then show ?case using good_trans [OF g "5.IH" [OF d(1) good_ty [OF g] _ d(2)]] by simp
next
  case (6 k ps fl fs v)
  then obtain k1 where d: "drop_all_procs k ps = Some k1" "run_frames k1 fs v = Some k'" by (auto split: bind_splits)
  have g: "good k k1" using drop_all_procs_good d 6 by blast
  have "frames_ty k1 fs" using frames_ty_mono [OF g] 6 by simp
  then show ?case using good_trans [OF g "6.IH" [OF d(1) good_ty [OF g] _ d(2)]] by simp
next
  case (7 k m fs v)
  then have "on_return (\<lambda>k. run_frames k fs) (mutex_lock k m fs) = Some k'" and f: "frames_ty k fs" by simp_all
  then show ?case by (rule resume_good) (use 7 f mutex_lock_ty in blast)+
next
  case (8 k m fs v)
  then have "on_return (\<lambda>k. run_frames k fs) (mutex_lock k m fs) = Some k'" and f: "frames_ty k fs" by simp_all
  then show ?case by (rule resume_good) (use 8 f mutex_lock_ty in blast)+
next
  case (9 k b it n fs v)
  then have "on_return (\<lambda>k. run_frames k fs) (pipe_read k fs b it n) = Some k'" and f: "frames_ty k fs" and "b < length (rings k)" by simp_all
  then show ?case by (auto intro: resume_good 9 pipe_read_ty)
next
  case (10 k b it n fs v)
  then have "on_return (\<lambda>k. run_frames k fs) (pipe_write k fs b it n) = Some k'" and f: "frames_ty k fs" and "b < length (rings k)" by simp_all
  then show ?case by (auto intro: resume_good 10 pipe_write_ty)
next
  case (11 k buf fs v)
  then have "on_return (\<lambda>k. run_frames k fs) (stdin_read_loop k fs buf) = Some k'" and f: "frames_ty k fs" by simp_all
  then show ?case by (auto intro: resume_good 11 stdin_read_loop_ty)
qed (auto dest: trap_return_good syscall_return_good)

text \<open>One turn of the loop takes the first task of the ready queue and appends tasks to the rest.\<close>

lemma run_next_good:
  assumes k: "kernel_ty k" and q: "ready_queue k = t # ts" and r: "run_next k = Some k'"
  shows "good (k\<lparr>ready_queue := ts\<rparr>) k'"
proof -
  let ?k1 = "k\<lparr>ready_queue := ts\<rparr>"
  have k1: "kernel_ty ?k1" using k q by (simp add: kernel_ty_def ty_cong [of "ready_queue_update _ _"])
  obtain tcb where t: "get_tcb ?k1 t = Some tcb"
    and c: "(case cx_ra (t_task_cx tcb) of
        GotoTrapReturn \<Rightarrow> trap_return (schedule ((upd_tcb ?k1 t (\<lambda>tcb. tcb\<lparr>t_status := Running\<rparr>))\<lparr>cpu := Some t\<rparr>) t ResumeNone)
      | ResumeAt fs \<Rightarrow> run_frames (schedule ((upd_tcb ?k1 t (\<lambda>tcb. tcb\<lparr>t_status := Running\<rparr>))\<lparr>cpu := Some t\<rparr>) t ResumeNone) fs 0
      | ResumeNone \<Rightarrow> None) = Some k'"
    using r q by (auto simp: run_next_def fetch_task_def tm_fetch_def Let_def split: bind_splits)
  let ?k2 = "upd_tcb ?k1 t (\<lambda>tcb. tcb\<lparr>t_status := Running\<rparr>)"
  have g2: "good ?k1 ?k2" by (intro good_upd_tcb [OF k1]) (simp add: tcb_ty_def)
  have tl: "t < length (tcbs ?k1)" and tt: "tcb_ty ?k1 tcb" using get_tcb_ty [OF k1 t] by auto
  have g3: "good ?k2 (?k2\<lparr>cpu := Some t\<rparr>)" by (rule good_cpu [OF good_ty [OF g2] good_lengths(1) [OF g2 tl]])
  let ?k4 = "schedule (?k2\<lparr>cpu := Some t\<rparr>) t ResumeNone"
  have g4: "good (?k2\<lparr>cpu := Some t\<rparr>) ?k4" by (rule good_schedule [OF good_ty [OF g3]]) simp
  have g: "good ?k1 ?k4" using good_trans [OF good_trans [OF g2 g3] g4] .
  have "good ?k4 k'"
  proof (cases "cx_ra (t_task_cx tcb)")
    case (ResumeAt fs)
    then have "frames_ty ?k1 fs" using tt by (simp add: tcb_ty_def frames_ty_def)
    then show ?thesis using run_frames_good [OF good_ty [OF g] frames_ty_mono [OF g]] c ResumeAt by simp
  qed (use c trap_return_good [OF good_ty [OF g]] in simp_all)
  then show ?thesis by (rule good_trans [OF g])
qed

subsection \<open>The step relation\<close>

text \<open>
  A step carries the tasks it dispatches.  In user mode the program may change any byte of memory; the
  console may receive input at any time.
\<close>

inductive kstep :: "machine \<Rightarrow> kernel \<Rightarrow> nat list \<Rightarrow> kernel \<Rightarrow> bool" for m where
  user: "cpu k = Some t \<Longrightarrow> kstep m k [] (k\<lparr>kmm := (kmm k)\<lparr>pages := ps\<rparr>\<rparr>)"
| input: "kstep m k [] (k\<lparr>console_in := console_in k @ cs\<rparr>)"
| trap: "cpu k = Some t \<Longrightarrow> trap_handler m k c = Some k' \<Longrightarrow> kstep m k [] k'"
| idle: "cpu k = None \<Longrightarrow> ready_queue k = [] \<Longrightarrow> run_next k = Some k' \<Longrightarrow> kstep m k [] k'"
| dispatch: "cpu k = None \<Longrightarrow> ready_queue k = t # ts \<Longrightarrow> run_next k = Some k' \<Longrightarrow> kstep m k [t] k'"

inductive ksteps :: "machine \<Rightarrow> kernel \<Rightarrow> nat list \<Rightarrow> kernel \<Rightarrow> bool" for m where
  none: "ksteps m k [] k"
| more: "kstep m k ds k1 \<Longrightarrow> ksteps m k1 es k' \<Longrightarrow> ksteps m k (ds @ es) k'"

lemma kstep_keeps:
  assumes "kstep m k ds k'" and "kernel_ty k"
  shows "kernel_ty k' \<and> (\<exists>q. ready_queue k @ q = ds @ ready_queue k')"
  using assms
proof (cases rule: kstep.cases)
  case (trap t c)
  then have "good k k'" using trap_handler_good assms(2) by blast
  then show ?thesis using trap by (auto simp: good_def grows_def)
next
  case idle
  then have "k' = k" by (cases k) (simp add: run_next_def fetch_task_def tm_fetch_def)
  then show ?thesis using assms(2) idle by simp
next
  case (dispatch t ts)
  then have "good (k\<lparr>ready_queue := ts\<rparr>) k'" using run_next_good assms(2) by blast
  then show ?thesis using dispatch by (auto simp: good_def grows_def)
qed simp_all

lemma ksteps_keeps:
  "ksteps m k ds k' \<Longrightarrow> kernel_ty k \<Longrightarrow> kernel_ty k' \<and> (\<exists>q. ready_queue k @ q = ds @ ready_queue k')"
proof (induction rule: ksteps.induct)
  case (more k ds k1 es k')
  obtain q where k1: "kernel_ty k1" and q: "ready_queue k @ q = ds @ ready_queue k1"
    using kstep_keeps [OF more.hyps(1) more.prems] by blast
  obtain q' where k': "kernel_ty k'" and q': "ready_queue k1 @ q' = es @ ready_queue k'" using more.IH [OF k1] by blast
  have "ready_queue k @ (q @ q') = (ds @ es) @ ready_queue k'" using q q' by (metis append.assoc)
  then show ?case using k' by blast
qed simp

text \<open>The start of the kernel establishes the typing.\<close>

definition empty_tables :: "kernel \<Rightarrow> bool" where
  "empty_tables k \<longleftrightarrow> pcbs k = [] \<and> tcbs k = [] \<and> ready_queue k = [] \<and> cpu k = None \<and> ktimers k = [] \<and> mutexes k = [] \<and>
     semaphores k = [] \<and> condvars k = [] \<and> files k = [] \<and> rings k = [] \<and> initproc k = None"

lemma empty_tables_ty: "empty_tables k \<Longrightarrow> kernel_ty k"
  by (simp add: empty_tables_def kernel_ty_def)

lemma rust_main_ty:
  assumes k0: "empty_tables k0" and r: "rust_main m ld sbss mtime k0 = Some k"
  shows "kernel_ty k"
proof -
  obtain ks s f o' where i: "add_initproc m (k0\<lparr>kmm := s, kspace := ks, next_trigger := set_next_trigger mtime, kfs := f, console_out := o'\<rparr>) = Some k"
    using r by (auto simp: rust_main_def open_root_def list_apps_def Let_def split: bind_splits)
  let ?k1 = "k0\<lparr>kmm := s, kspace := ks, next_trigger := set_next_trigger mtime, kfs := f, console_out := o'\<rparr>"
  have k1: "kernel_ty ?k1" using k0 by (intro empty_tables_ty) (simp add: empty_tables_def)
  obtain d v p k2 where n: "Process_new m (?k1\<lparr>kdisk := d\<rparr>) v = Some (p, k2)" and k: "k = k2\<lparr>initproc := Some p\<rparr>"
    using i by (auto simp: add_initproc_def split: bind_splits)
  have "kernel_ty (?k1\<lparr>kdisk := d\<rparr>)" using k1 by simp
  from Process_new_good [OF this n] show ?thesis
    unfolding k by (auto simp: good_def kernel_ty_def ty_cong [of "initproc_update _ _"])
qed

subsection \<open>Fairness\<close>

text \<open>A task that was preempted, or has not run yet, with its user resources and a live process.\<close>

definition preempted :: "kernel \<Rightarrow> nat \<Rightarrow> bool" where
  "preempted k t \<longleftrightarrow> t < length (tcbs k) \<and> t_res (tcbs k ! t) \<noteq> None \<and>
     (cx_ra (t_task_cx (tcbs k ! t)) = GotoTrapReturn \<or> cx_ra (t_task_cx (tcbs k ! t)) = ResumeAt [FTrap]) \<and>
     get_proc k (t_process (tcbs k ! t)) \<noteq> None"

text \<open>
  A turn: the scheduler dispatches a task, the task runs in user mode until the timer interrupts it,
  and the trap handler takes the processor away.
\<close>

fun turns :: "machine \<Rightarrow> kernel \<Rightarrow> ((PhysAddr \<Rightarrow> u8 list) \<times> usize \<times> usize) list \<Rightarrow> kernel option" where
  "turns m k [] = Some k"
| "turns m k ((ps, t1, t2) # us) =
     do { k \<leftarrow> run_next k;
          k \<leftarrow> trap_handler m (k\<lparr>kmm := (kmm k)\<lparr>pages := ps\<rparr>\<rparr>) (SupervisorTimer t1 t2);
          turns m k us }"

lemma run_next_preempted:
  assumes q: "ready_queue k = t # ts" and t: "preempted k t"
  shows "\<exists>a. run_next k = Some (k\<lparr>ready_queue := ts, cpu := Some t,
           tcbs := (tcbs k)[t := (tcbs k ! t)\<lparr>t_status := Running, t_task_cx := (t_task_cx (tcbs k ! t))\<lparr>cx_ra := ResumeNone\<rparr>\<rparr>],
           restore_args := a\<rparr>)"
proof -
  let ?k = "k\<lparr>ready_queue := ts, cpu := Some t,
           tcbs := (tcbs k)[t := (tcbs k ! t)\<lparr>t_status := Running, t_task_cx := (t_task_cx (tcbs k ! t))\<lparr>cx_ra := ResumeNone\<rparr>\<rparr>]\<rparr>"
  have l: "t < length (tcbs k)" using t by (simp add: preempted_def)
  obtain a where a: "trap_return ?k = Some (?k\<lparr>restore_args := a\<rparr>)"
    using t by (auto simp: preempted_def trap_return_def current_trap_cx_user_va_def current_user_token_def get_user_token_def
        current_task_def get_tcb_def get_proc_def index_def split: if_splits)
  have "run_next k = trap_return ?k"
    using t l q by (auto simp: preempted_def run_next_def fetch_task_def tm_fetch_def get_tcb_def index_def upd_tcb_def schedule_def Let_def)
  then show ?thesis using a by (intro exI [of _ a]) simp
qed

lemma wake_sleepers_fields:
  "\<exists>ts left. wake_sleepers k mtime = k\<lparr>ktimers := left, ready_queue := ready_queue k @ ts\<rparr>"
proof -
  have "foldl add_task k ts = k\<lparr>ready_queue := ready_queue k @ ts\<rparr>" for k ts
    by (induction ts arbitrary: k) (simp_all add: add_task_def tm_add_def)
  then show ?thesis by (auto simp: wake_sleepers_def split: prod.splits)
qed

lemma turn_ok:
  assumes q: "ready_queue k = t # ts" and t: "preempted k t"
  shows "\<exists>k1 k2 ws. run_next k = Some k1 \<and> cpu k1 = Some t \<and>
    trap_handler m (k1\<lparr>kmm := (kmm k1)\<lparr>pages := ps\<rparr>\<rparr>) (SupervisorTimer t1 t2) = Some k2 \<and>
    cpu k2 = None \<and> ready_queue k2 = ts @ ws @ [t] \<and> (\<forall>t'. preempted k t' \<longrightarrow> preempted k2 t')"
proof -
  obtain a where r: "run_next k = Some (k\<lparr>ready_queue := ts, cpu := Some t,
           tcbs := (tcbs k)[t := (tcbs k ! t)\<lparr>t_status := Running, t_task_cx := (t_task_cx (tcbs k ! t))\<lparr>cx_ra := ResumeNone\<rparr>\<rparr>],
           restore_args := a\<rparr>)" (is "_ = Some ?k1") using run_next_preempted [OF q t] by blast
  let ?k = "?k1\<lparr>kmm := (kmm ?k1)\<lparr>pages := ps\<rparr>, next_trigger := set_next_trigger t1\<rparr>"
  obtain ws left where w: "wake_sleepers ?k t2 = ?k\<lparr>ktimers := left, ready_queue := ready_queue ?k @ ws\<rparr>"
    using wake_sleepers_fields by blast
  have l: "t < length (tcbs k)" using t by (simp add: preempted_def)
  obtain k2 where k2: "suspend_current_and_run_next (wake_sleepers ?k t2) [FTrap] = Some k2"
    and f: "cpu k2 = None" "ready_queue k2 = ts @ ws @ [t]" "pcbs k2 = pcbs k"
      "tcbs k2 = (tcbs k)[t := (tcbs k ! t)\<lparr>t_status := Ready, t_task_cx := (t_task_cx (tcbs k ! t))\<lparr>cx_ra := ResumeAt [FTrap]\<rparr>\<rparr>]"
    unfolding w using l by (simp add: suspend_current_and_run_next_def take_current_task_def get_tcb_def index_def
        upd_tcb_def add_task_def tm_add_def schedule_def Let_def)
  have "preempted k2 t'" if "preempted k t'" for t'
    using that f by (cases "t' = t") (auto simp: preempted_def get_proc_def split: if_splits)
  then show ?thesis using r k2 f by (intro exI [of _ ?k1] exI [of _ k2] exI [of _ ws]) (simp add: trap_handler_def)
qed

lemma turns_ok:
  assumes "cpu k = None" and "length us < length (ready_queue k)"
    and "\<forall>t \<in> set (take (Suc (length us)) (ready_queue k)). preempted k t"
  shows "\<exists>k1 k2. turns m k us = Some k1 \<and> run_next k1 = Some k2 \<and> cpu k2 = Some (ready_queue k ! length us)"
  using assms
proof (induction us arbitrary: k)
  case Nil
  then obtain t ts where q: "ready_queue k = t # ts" by (cases "ready_queue k") auto
  then show ?case using turn_ok [OF q, of undefined undefined undefined undefined] Nil.prems by auto
next
  case (Cons u us)
  obtain ps t1 t2 where u: "u = (ps, t1, t2)" by (cases u)
  obtain t ts where q: "ready_queue k = t # ts" using Cons.prems by (cases "ready_queue k") auto
  then have t: "preempted k t" using Cons.prems by simp
  obtain k1 k2 ws where s: "run_next k = Some k1" "trap_handler m (k1\<lparr>kmm := (kmm k1)\<lparr>pages := ps\<rparr>\<rparr>) (SupervisorTimer t1 t2) = Some k2"
    "cpu k2 = None" "ready_queue k2 = ts @ ws @ [t]" "\<And>t'. preempted k t' \<Longrightarrow> preempted k2 t'"
    using turn_ok [OF q t, of m ps t1 t2] by blast
  have n: "length us < length ts" using Cons.prems q by simp
  have "\<exists>k3 k4. turns m k2 us = Some k3 \<and> run_next k3 = Some k4 \<and> cpu k4 = Some (ready_queue k2 ! length us)"
    using s n q Cons.prems by (intro Cons.IH) auto
  then show ?case using s n q by (simp add: u nth_append)
qed

subsection \<open>Properties\<close>

lemma ex_kernel_ty: "kernel_ty (ex_kernel [GotoTrapReturn, ResumeAt [FTrap], GotoTrapReturn])"
  by (simp add: ex_defs kernel_ty_def pcb_ty_def tcb_ty_def)

lemma ex_preempted:
  "t \<in> set (ready_queue (ex_kernel [GotoTrapReturn, ResumeAt [FTrap], GotoTrapReturn])) \<Longrightarrow>
   preempted (ex_kernel [GotoTrapReturn, ResumeAt [FTrap], GotoTrapReturn]) t"
  by (auto simp: ex_defs preempted_def get_proc_def nth_Cons split: nat.splits)

text \<open>A run of the example: the first task is dispatched and preempted, then the second is dispatched.\<close>

lemma ex_run: "\<exists>k. ksteps ex_machine (ex_kernel [GotoTrapReturn, ResumeAt [FTrap], GotoTrapReturn]) [0, 1] k"
proof -
  let ?k = "ex_kernel [GotoTrapReturn, ResumeAt [FTrap], GotoTrapReturn]"
  have q: "ready_queue ?k = 0 # [1, 2]" and c: "cpu ?k = None" by (simp_all add: ex_defs)
  have p: "preempted ?k 0" "preempted ?k 1" using ex_preempted [of 0] ex_preempted [of 1] by (simp_all add: q)
  let ?u = "\<lambda>k1. k1\<lparr>kmm := (kmm k1)\<lparr>pages := (\<lambda>_. replicate 4096 1)\<rparr>\<rparr>"
  obtain k1 k2 ws where r: "run_next ?k = Some k1" "cpu k1 = Some 0" "trap_handler ex_machine (?u k1) (SupervisorTimer 10 20) = Some k2"
    "cpu k2 = None" "ready_queue k2 = [1, 2] @ ws @ [0]" "preempted k2 1"
    using turn_ok [OF q p(1)] p(2) by metis
  have q2: "ready_queue k2 = 1 # 2 # ws @ [0]" and u: "cpu (?u k1) = Some 0" using r by simp_all
  obtain k3 where k3: "run_next k2 = Some k3" using run_next_preempted [OF q2 r(6)] by auto
  have "ksteps ex_machine ?k ([0] @ [] @ [] @ [1] @ []) k3"
    by (rule ksteps.more [OF kstep.dispatch [OF c q r(1)]], rule ksteps.more [OF kstep.user [OF r(2)]],
        rule ksteps.more [OF kstep.trap [OF u r(3)]], rule ksteps.more [OF kstep.dispatch [OF r(4) q2 k3]], rule ksteps.none)
  then show ?thesis by auto
qed

text \<open>
  C8 (liveness).  Preemption is fair: when each of the first n + 1 tasks of the ready queue has been preempted
  by the timer or has not started yet, has its user resources and a live process, then after n turns,
  in which the dispatched task does anything to memory until the timer interrupts it, no step has
  failed and the next dispatch gives the processor to the task that was at position n.
\<close>

theorem ready_task_is_dispatched:
  assumes "cpu k = None" and "n < length (ready_queue k)" and "length us = n"
    and "\<forall>t \<in> set (take (Suc n) (ready_queue k)). preempted k t"
  shows "\<exists>k1 k2. turns m k us = Some k1 \<and> run_next k1 = Some k2 \<and> cpu k2 = Some (ready_queue k ! n)"
  using turns_ok [of k us m] assms by simp

theorem ready_task_is_dispatched_witness:
  "\<exists>k1 k2. turns ex_machine (ex_kernel [GotoTrapReturn, ResumeAt [FTrap], GotoTrapReturn])
       [(\<lambda>_. replicate 4096 1, 10, 20), (\<lambda>_. replicate 4096 2, 30, 40)] = Some k1 \<and>
     run_next k1 = Some k2 \<and> cpu k2 = Some 2"
proof -
  let ?k = "ex_kernel [GotoTrapReturn, ResumeAt [FTrap], GotoTrapReturn]"
  have q: "ready_queue ?k = [0, 1, 2]" "cpu ?k = None" by (simp_all add: ex_defs)
  have "\<forall>t \<in> set (take (Suc 2) (ready_queue ?k)). preempted ?k t" using ex_preempted by (auto simp: q dest: in_set_takeD)
  from ready_task_is_dispatched [OF q(2) _ _ this, of "[(\<lambda>_. replicate 4096 1, 10, 20), (\<lambda>_. replicate 4096 2, 30, 40)]" ex_machine]
  show ?thesis by (simp add: q del: turns.simps)
qed

end
