(* ===== verification/Task_Places.thy ===== *)
theory Task_Places
  imports Kernel_Steps
begin

text \<open>
  Where the tasks are.  A task that has not exited is either on the processor, in the ready queue, in
  the wait queue of one mutex, semaphore or condition variable, or asleep in the timer heap; a task that
  has exited is in none of these places.  Every step of the kernel keeps this: no task is lost, none is
  queued twice, and none comes back after its exit.

  Most operations do not touch these places (\<open>quiet\<close>).  The others move a task from one place to another,
  add a new one or take the exiting one away (\<open>balanced\<close>).
\<close>

subsection \<open>Places\<close>

fun mutex_queue :: "Mutex \<Rightarrow> nat list" where
  "mutex_queue (MutexSpin l) = []"
| "mutex_queue (MutexBlocking l q) = q"

definition waiting :: "kernel \<Rightarrow> nat list" where
  "waiting k = concat (map mutex_queue (mutexes k)) @ concat (map sem_wait (semaphores k)) @ concat (condvars k) @ map tm_task (ktimers k)"

definition task_places :: "kernel \<Rightarrow> nat list" where
  "task_places k = somes [cpu k] @ ready_queue k @ waiting k"

definition unfinished :: "kernel \<Rightarrow> nat list" where
  "unfinished k = filter (\<lambda>t. t_exit_code (tcbs k ! t) = None) [0..<length (tcbs k)]"

definition each_task_once :: "kernel \<Rightarrow> bool" where
  "each_task_once k \<longleftrightarrow> distinct (task_places k) \<and> set (task_places k) = set (unfinished k)"

lemma each_task_once_mset: "each_task_once k \<longleftrightarrow> mset (task_places k) = mset (unfinished k)"
proof -
  have "distinct (unfinished k)" by (simp add: unfinished_def)
  then show ?thesis unfolding each_task_once_def
    by (metis mset_eq_imp_distinct_iff mset_eq_setD set_eq_iff_mset_eq_distinct)
qed

subsection \<open>Quiet operations\<close>

definition quiet :: "kernel \<Rightarrow> kernel \<Rightarrow> bool" where
  "quiet k k' \<longleftrightarrow> cpu k' = cpu k \<and> ready_queue k' = ready_queue k \<and> waiting k' = waiting k \<and>
     map t_exit_code (tcbs k') = map t_exit_code (tcbs k)"

lemma quiet_refl [simp]: "quiet k k"
  by (simp add: quiet_def)

lemma quiet_trans: "quiet a b \<Longrightarrow> quiet b c \<Longrightarrow> quiet a c"
  by (simp add: quiet_def)

lemma quiet_plain [simp]:
  "quiet k (k'\<lparr>kmm := a\<rparr>) = quiet k k'" "quiet k (k'\<lparr>kspace := b\<rparr>) = quiet k k'" "quiet k (k'\<lparr>pid_allocator := c\<rparr>) = quiet k k'"
  "quiet k (k'\<lparr>kstack_allocator := d\<rparr>) = quiet k k'" "quiet k (k'\<lparr>kdisk := e\<rparr>) = quiet k k'"
  "quiet k (k'\<lparr>console_in := g\<rparr>) = quiet k k'" "quiet k (k'\<lparr>console_out := h\<rparr>) = quiet k k'"
  "quiet k (k'\<lparr>next_trigger := i\<rparr>) = quiet k k'" "quiet k (k'\<lparr>restore_args := j\<rparr>) = quiet k k'"
  "quiet k (k'\<lparr>files := l\<rparr>) = quiet k k'" "quiet k (k'\<lparr>rings := r\<rparr>) = quiet k k'" "quiet k (k'\<lparr>pcbs := p\<rparr>) = quiet k k'"
  "quiet k (k'\<lparr>initproc := q\<rparr>) = quiet k k'" "quiet k (upd_proc k' n f) = quiet k k'"
  by (simp_all add: quiet_def waiting_def)

lemma quiet_upd_tcb [simp]: "(\<And>tcb. t_exit_code (f tcb) = t_exit_code tcb) \<Longrightarrow> quiet k (upd_tcb k' t f) = quiet k k'"
proof -
  assume f: "\<And>tcb. t_exit_code (f tcb) = t_exit_code tcb"
  have "map t_exit_code (tcbs (upd_tcb k' t f)) = map t_exit_code (tcbs k')"
    by (cases "t < length (tcbs k')") (auto intro!: nth_equalityI simp: upd_tcb_def nth_list_update f split: if_splits)
  then show ?thesis by (simp add: quiet_def waiting_def)
qed

lemma quiet_schedule [simp]: "quiet k (schedule k' t r) = quiet k k'"
  by (simp add: schedule_def)

lemma quiet_from_plain [simp]:
  "quiet (k\<lparr>kmm := a\<rparr>) k' = quiet k k'" "quiet (k\<lparr>kdisk := b\<rparr>) k' = quiet k k'" "quiet (k\<lparr>console_out := c\<rparr>) k' = quiet k k'"
  "quiet (upd_proc k n f) k' = quiet k k'" "quiet (k\<lparr>files := d\<rparr>) k' = quiet k k'" "quiet (k\<lparr>pcbs := e\<rparr>) k' = quiet k k'"
  by (simp_all add: quiet_def waiting_def)

lemma quiet_from_upd_tcb [simp]: "(\<And>tcb. t_exit_code (f tcb) = t_exit_code tcb) \<Longrightarrow> quiet (upd_tcb k t f) k' = quiet k k'"
  using quiet_upd_tcb [of f k k t] by (auto simp: quiet_def)

named_theorems quiet_ops \<open>operations that leave every task where it is\<close>

lemma alloc_tid_quiet [quiet_ops]: "alloc_tid k p = Some (i, k') \<Longrightarrow> quiet k k'"
  by (auto simp: alloc_tid_def split_beta split: bind_splits)

lemma dealloc_tid_quiet [quiet_ops]: "dealloc_tid k p i = Some k' \<Longrightarrow> quiet k k'"
  by (auto simp: dealloc_tid_def split: bind_splits)

lemma proc_insert_area_quiet [quiet_ops]: "proc_insert_area k p a b perm = Some k' \<Longrightarrow> quiet k k'"
  by (auto simp: proc_insert_area_def split: bind_splits)

lemma proc_remove_area_quiet [quiet_ops]: "proc_remove_area k p a = Some k' \<Longrightarrow> quiet k k'"
  by (auto simp: proc_remove_area_def split: bind_splits)

lemma alloc_user_res_quiet [quiet_ops]: "alloc_user_res k r = Some k' \<Longrightarrow> quiet k k'"
  unfolding alloc_user_res_def by (auto simp: Let_def split: bind_splits) (meson quiet_trans proc_insert_area_quiet)

lemma dealloc_user_res_quiet [quiet_ops]: "dealloc_user_res k r = Some k' \<Longrightarrow> quiet k k'"
  unfolding dealloc_user_res_def by (auto split: bind_splits) (meson quiet_trans proc_remove_area_quiet)

lemma res_drop_quiet [quiet_ops]: "res_drop k r = Some k' \<Longrightarrow> quiet k k'"
  unfolding res_drop_def by (auto split: bind_splits) (meson quiet_trans dealloc_tid_quiet dealloc_user_res_quiet)

lemma TaskUserRes_new_quiet [quiet_ops]: "TaskUserRes_new k p u b = Some (r, k') \<Longrightarrow> quiet k k'"
  unfolding TaskUserRes_new_def
  by (auto simp: Let_def split: bind_splits if_splits) (meson quiet_trans alloc_tid_quiet alloc_user_res_quiet)+

lemma kstack_alloc_quiet [quiet_ops]: "kstack_alloc k = Some (i, k') \<Longrightarrow> quiet k k'"
  by (auto simp: kstack_alloc_def split_beta Let_def split: bind_splits)

lemma kernel_stack_drop_quiet [quiet_ops]: "kernel_stack_drop k i = Some k' \<Longrightarrow> quiet k k'"
  by (auto simp: kernel_stack_drop_def split_beta Let_def split: bind_splits)

lemma pid_drop_quiet [quiet_ops]: "pid_drop k i = Some k' \<Longrightarrow> quiet k k'"
  by (auto simp: pid_drop_def split: bind_splits)

lemma pid_alloc_quiet [quiet_ops]: "pid_alloc k = (i, k') \<Longrightarrow> quiet k k'"
  by (auto simp: pid_alloc_def split_beta Let_def)

lemma task_destroy_quiet [quiet_ops]:
  assumes d: "task_destroy k t = Some k'"
  shows "quiet k k'"
proof -
  obtain tcb k1 where t: "get_tcb k t = Some tcb" and 1: "kernel_stack_drop k (t_kernel_stack tcb) = Some k1"
    using d by (auto simp: task_destroy_def split: bind_splits)
  let ?k2 = "upd_tcb k1 t (\<lambda>tcb. tcb\<lparr>t_live := False, t_res := None\<rparr>)"
  have "quiet ?k2 k'" using d res_drop_quiet [of ?k2] by (auto simp: task_destroy_def Let_def t 1 split: option.splits)
  moreover have "quiet k ?k2" using kernel_stack_drop_quiet [OF 1] by simp
  ultimately show ?thesis by (blast intro: quiet_trans)
qed

lemma drop_task_quiet [quiet_ops]: "drop_task k t = Some k' \<Longrightarrow> quiet k k'"
  by (auto simp: drop_task_def task_destroy_quiet split: bind_splits if_splits)

lemma drop_tasks_quiet [quiet_ops]: "drop_tasks k ts = Some k' \<Longrightarrow> quiet k k'"
proof (induction k ts rule: drop_tasks.induct)
  case (2 k t ts)
  then obtain k1 where "drop_task k t = Some k1" "drop_tasks k1 ts = Some k'" by (auto split: bind_splits)
  then show ?case using 2 drop_task_quiet quiet_trans by blast
qed simp

lemma process_destroy_quiet [quiet_ops]: "process_destroy k p = Some (w, k') \<Longrightarrow> quiet k k'"
  by (auto simp: process_destroy_def Let_def dest: pid_drop_quiet split: bind_splits)

lemma drop_items_quiet [quiet_ops]: "drop_items k w = Some k' \<Longrightarrow> quiet k k'"
proof (induction k w rule: drop_items.induct)
  case (2 k ts w)
  then obtain k1 where k1: "drop_tasks k ts = Some k1" "drop_items k1 w = Some k'" by (auto split: option.splits)
  show ?case by (rule quiet_trans [OF drop_tasks_quiet [OF k1(1)] 2(1) [OF k1]])
next
  case (3 k p w)
  show ?case
  proof (cases "p \<in> set (proc_refs k) \<or> get_proc k p = None")
    case False
    then obtain items k1 where d: "process_destroy k p = Some (items, k1)" "drop_items k1 (items @ w) = Some k'"
      using 3(3) by (auto split: option.splits)
    show ?thesis by (rule quiet_trans [OF process_destroy_quiet [OF d(1)] 3(2) [OF False d(1) refl d(2)]])
  qed (use 3 in simp)
qed simp

lemma drop_process_quiet [quiet_ops]: "drop_process k p = Some k' \<Longrightarrow> quiet k k'"
  unfolding drop_process_def by (rule drop_items_quiet)

lemma drop_all_procs_quiet [quiet_ops]: "drop_all_procs k ps = Some k' \<Longrightarrow> quiet k k'"
proof (induction k ps rule: drop_all_procs.induct)
  case (2 k p ps)
  then obtain k1 where "drop_process k p = Some k1" "drop_all_procs k1 ps = Some k'" by (auto split: bind_splits)
  then show ?case using 2 drop_process_quiet quiet_trans by blast
qed simp

lemma set_trap_cx_quiet [quiet_ops]: "set_trap_cx k t cx = Some k' \<Longrightarrow> quiet k k'"
  by (auto simp: set_trap_cx_def split: bind_splits)

lemma reparent_quiet [quiet_ops]: "reparent k ip cs = Some k' \<Longrightarrow> quiet k k'"
  by (induction k ip cs rule: reparent.induct) (auto simp: Let_def split: bind_splits)

lemma take_res_quiet [quiet_ops]: "take_res k ts = (rs, k') \<Longrightarrow> quiet k k'"
  by (induction k ts arbitrary: rs k' rule: take_res.induct) (auto simp: Let_def split: prod.splits)

lemma drop_res_quiet [quiet_ops]: "drop_res k rs = Some k' \<Longrightarrow> quiet k k'"
proof (induction k rs rule: drop_res.induct)
  case (2 k r rs)
  then obtain k1 where "res_drop k r = Some k1" "drop_res k1 rs = Some k'" by (auto split: bind_splits)
  then show ?case using 2 res_drop_quiet quiet_trans by blast
qed simp

lemma exit_process_quiet [quiet_ops]:
  assumes n: "exit_process k p code = Some k'"
  shows "quiet k k'"
proof -
  let ?k1 = "upd_proc k p (\<lambda>pcb. pcb\<lparr>p_zombie := True, p_exit_code := code\<rparr>)"
  obtain pcb ip k2 where pcb: "get_proc k p = Some pcb" and ip: "initproc k = Some ip" "ip \<noteq> p"
    and 2: "reparent ?k1 ip (p_children pcb) = Some k2"
    using n by (auto simp: exit_process_def Let_def assert_bind split: bind_splits)
  obtain rs k3 where 3: "take_res k2 (somes (p_tasks pcb)) = (rs, k3)" by fastforce
  note sofar = exit_process_def Let_def pcb ip 2 3
  obtain k4 where 4: "drop_res k3 rs = Some k4" using n by (auto simp: sofar split: bind_splits)
  let ?k4 = "upd_proc k4 p (\<lambda>pcb. pcb\<lparr>p_children := []\<rparr>)"
  obtain k5 where 5: "drop_all_procs ?k4 (p_children pcb) = Some k5" using n by (auto simp: sofar 4 split: bind_splits)
  have "quiet k5 k'" using n by (auto simp: sofar 4 5 split: bind_splits)
  moreover have "quiet k k2" using reparent_quiet [OF 2] by simp
  moreover have "quiet k4 k5" using drop_all_procs_quiet [OF 5] by simp
  ultimately show ?thesis using take_res_quiet [OF 3] drop_res_quiet [OF 4] quiet_trans by blast
qed

lemma exec_quiet [quiet_ops]:
  assumes n: "exec m k p elf args = Some k'"
  shows "quiet k k'"
proof -
  obtain ms s t res k1 ppn s' cx where
    1: "alloc_user_res (upd_proc (k\<lparr>kmm := s\<rparr>) p (\<lambda>pcb. pcb\<lparr>p_memory_set := ms\<rparr>)) res = Some k1"
    and 2: "set_trap_cx ((upd_tcb k1 t (\<lambda>tcb. tcb\<lparr>t_res := Some res, t_trap_cx_ppn := ppn\<rparr>))\<lparr>kmm := s'\<rparr>) t cx = Some k'"
    using n by (auto simp: exec_def Let_def split: bind_splits)
  have "quiet k k1" using alloc_user_res_quiet [OF 1] by simp
  moreover have "quiet k1 k'" using set_trap_cx_quiet [OF 2] by simp
  ultimately show ?thesis by (rule quiet_trans)
qed

subsection \<open>Operations that move tasks\<close>

text \<open>
  The places gain a task exactly when a task is created, and lose one exactly when a task exits.
\<close>

definition balanced :: "kernel \<Rightarrow> kernel \<Rightarrow> bool" where
  "balanced k k' \<longleftrightarrow> mset (task_places k') + mset (unfinished k) = mset (task_places k) + mset (unfinished k')"

lemma balanced_refl [simp]: "balanced k k"
  by (simp add: balanced_def)

lemma balanced_trans: "balanced a b \<Longrightarrow> balanced b c \<Longrightarrow> balanced a c"
proof -
  assume 1: "balanced a b" and 2: "balanced b c"
  let ?p = "\<lambda>k. mset (task_places k)" and ?u = "\<lambda>k. mset (unfinished k)"
  have "(?p c + ?u a) + ?u b = (?p c + ?u b) + ?u a" by (simp only: union_ac)
  also have "\<dots> = (?p b + ?u a) + ?u c" using 2 by (simp only: balanced_def union_ac)
  also have "\<dots> = (?p a + ?u c) + ?u b" using 1 by (simp only: balanced_def union_ac)
  finally show ?thesis unfolding balanced_def by (simp only: add_right_cancel)
qed

lemma balanced_once: "balanced k k' \<Longrightarrow> each_task_once k \<Longrightarrow> each_task_once k'"
  by (simp add: balanced_def each_task_once_mset)

lemma unfinished_cong: "map t_exit_code (tcbs k') = map t_exit_code (tcbs k) \<Longrightarrow> unfinished k' = unfinished k"
proof -
  assume m: "map t_exit_code (tcbs k') = map t_exit_code (tcbs k)"
  have l: "length (tcbs k') = length (tcbs k)" using arg_cong [OF m, of length] by simp
  have "t_exit_code (tcbs k' ! t) = t_exit_code (tcbs k ! t)" if "t < length (tcbs k)" for t
    using arg_cong [OF m, of "\<lambda>xs. xs ! t"] that l by simp
  then show ?thesis unfolding unfinished_def l by (intro filter_cong) auto
qed

lemma quiet_places: "quiet k k' \<Longrightarrow> task_places k' = task_places k \<and> unfinished k' = unfinished k"
  using unfinished_cong [of k' k] by (simp add: quiet_def task_places_def)

lemma quiet_balanced: "quiet k k' \<Longrightarrow> balanced k k'"
  using quiet_places [of k k'] by (simp add: balanced_def)

lemma quiet_balanced_trans: "quiet a b \<Longrightarrow> balanced b c \<Longrightarrow> balanced a c"
  by (rule balanced_trans [OF quiet_balanced])

lemma balanced_quiet_trans: "balanced a b \<Longrightarrow> quiet b c \<Longrightarrow> balanced a c"
  by (rule balanced_trans [OF _ quiet_balanced])

lemma places_plain [simp]:
  "task_places (k\<lparr>kmm := a\<rparr>) = task_places k" "task_places (k\<lparr>kdisk := b\<rparr>) = task_places k" "task_places (k\<lparr>rings := c\<rparr>) = task_places k"
  "task_places (k\<lparr>files := d\<rparr>) = task_places k" "task_places (k\<lparr>next_trigger := e\<rparr>) = task_places k"
  "task_places (k\<lparr>console_in := g\<rparr>) = task_places k" "task_places (upd_proc k n f) = task_places k"
  "unfinished (k\<lparr>kmm := a\<rparr>) = unfinished k" "unfinished (k\<lparr>kdisk := b\<rparr>) = unfinished k" "unfinished (k\<lparr>rings := c\<rparr>) = unfinished k"
  "unfinished (k\<lparr>files := d\<rparr>) = unfinished k" "unfinished (k\<lparr>next_trigger := e\<rparr>) = unfinished k"
  "unfinished (k\<lparr>console_in := g\<rparr>) = unfinished k" "unfinished (upd_proc k n f) = unfinished k"
  by (simp_all add: task_places_def waiting_def unfinished_def)

lemma balanced_plain [simp]:
  "balanced k (k'\<lparr>kmm := a\<rparr>) = balanced k k'" "balanced k (k'\<lparr>kdisk := b\<rparr>) = balanced k k'" "balanced k (k'\<lparr>rings := c\<rparr>) = balanced k k'"
  "balanced k (k'\<lparr>files := d\<rparr>) = balanced k k'" "balanced k (upd_proc k' n f) = balanced k k'"
  "balanced (k\<lparr>kmm := a\<rparr>) k' = balanced k k'" "balanced (k\<lparr>kdisk := b\<rparr>) k' = balanced k k'" "balanced (k\<lparr>rings := c\<rparr>) k' = balanced k k'"
  "balanced (k\<lparr>files := d\<rparr>) k' = balanced k k'" "balanced (upd_proc k n f) k' = balanced k k'"
  "balanced (k\<lparr>next_trigger := e\<rparr>) k' = balanced k k'"
  by (simp_all add: balanced_def)

text \<open>A task is added to a place, or taken from it.\<close>

definition gains :: "nat multiset \<Rightarrow> kernel \<Rightarrow> kernel \<Rightarrow> bool" where
  "gains ts k k' \<longleftrightarrow> mset (task_places k') = mset (task_places k) + ts \<and> unfinished k' = unfinished k"

lemma gains_balanced: "gains {#} k k' \<Longrightarrow> balanced k k'"
  by (simp add: gains_def balanced_def)

lemma gains_loses: "gains ts k k1 \<Longrightarrow> gains ts k' k1 \<Longrightarrow> balanced k k'"
  by (auto simp: gains_def balanced_def)

lemma quiet_gains: "gains ts k k1 \<Longrightarrow> quiet k1 k' \<Longrightarrow> gains ts k k'"
  by (simp add: gains_def quiet_places)

lemma add_task_gains: "gains {#t#} k (add_task k t)"
  by (simp add: gains_def add_task_def tm_add_def task_places_def waiting_def unfinished_def)

lemma idle_gains: "cpu k = Some t \<Longrightarrow> gains {#t#} (k\<lparr>cpu := None\<rparr>) k"
  by (simp add: gains_def task_places_def waiting_def unfinished_def somes_def)

lemma mset_concat_update:
  "i < length xs \<Longrightarrow> mset (concat (map f (xs[i := v]))) + mset (f (xs ! i)) = mset (concat (map f xs)) + mset (f v)"
proof (induction xs arbitrary: i)
  case (Cons x xs)
  then show ?case by (cases i) (auto simp: union_ac dest: Cons.IH)
qed simp

text \<open>Replacing a wait queue.\<close>

lemma set_mutex_gains:
  assumes "m < length (mutexes k)" and "mset (mutex_queue v) = mset (mutex_queue (mutexes k ! m)) + ts"
  shows "gains ts k (set_mutex k m v)"
  using mset_concat_update [OF assms(1), of mutex_queue v] assms(2)
  by (simp add: gains_def set_mutex_def task_places_def waiting_def unfinished_def union_ac)

lemma set_mutex_loses:
  assumes "m < length (mutexes k)" and "mset (mutex_queue (mutexes k ! m)) = mset (mutex_queue v) + ts"
  shows "gains ts (set_mutex k m v) k"
  using mset_concat_update [OF assms(1), of mutex_queue v] assms(2)
  by (simp add: gains_def set_mutex_def task_places_def waiting_def unfinished_def union_ac)

lemma set_semaphore_gains:
  assumes "i < length (semaphores k)" and "mset (sem_wait s) = mset (sem_wait (semaphores k ! i)) + ts"
  shows "gains ts k (k\<lparr>semaphores := (semaphores k)[i := s]\<rparr>)"
  using mset_concat_update [OF assms(1), of sem_wait s] assms(2)
  by (simp add: gains_def task_places_def waiting_def unfinished_def union_ac)

lemma set_semaphore_loses:
  assumes "i < length (semaphores k)" and "mset (sem_wait (semaphores k ! i)) = mset (sem_wait s) + ts"
  shows "gains ts (k\<lparr>semaphores := (semaphores k)[i := s]\<rparr>) k"
  using mset_concat_update [OF assms(1), of sem_wait s] assms(2)
  by (simp add: gains_def task_places_def waiting_def unfinished_def union_ac)

lemma set_condvar_gains:
  assumes "i < length (condvars k)" and "mset q = mset (condvars k ! i) + ts"
  shows "gains ts k (k\<lparr>condvars := (condvars k)[i := q]\<rparr>)"
  using mset_concat_update [OF assms(1), of "\<lambda>q. q" q] assms(2)
  by (simp add: gains_def task_places_def waiting_def unfinished_def union_ac)

lemma set_condvar_loses:
  assumes "i < length (condvars k)" and "mset (condvars k ! i) = mset q + ts"
  shows "gains ts (k\<lparr>condvars := (condvars k)[i := q]\<rparr>) k"
  using mset_concat_update [OF assms(1), of "\<lambda>q. q" q] assms(2)
  by (simp add: gains_def task_places_def waiting_def unfinished_def union_ac)

text \<open>Leaving the processor for a queue.\<close>

lemma suspend_balanced:
  assumes "suspend_current_and_run_next k fs = Some k'"
  shows "balanced k k'"
proof -
  obtain t where t: "cpu k = Some t" and k': "k' = schedule (add_task (upd_tcb (k\<lparr>cpu := None\<rparr>) t (\<lambda>tcb. tcb\<lparr>t_status := Ready\<rparr>)) t) t (ResumeAt fs)"
    using assms by (auto simp: suspend_current_and_run_next_def take_current_task_def Let_def split: bind_splits)
  let ?k0 = "k\<lparr>cpu := None\<rparr>" let ?k1 = "upd_tcb ?k0 t (\<lambda>tcb. tcb\<lparr>t_status := Ready\<rparr>)"
  have "gains {#t#} ?k1 k'" unfolding k' by (rule quiet_gains [OF add_task_gains]) simp
  moreover have "quiet ?k0 ?k1" by simp
  note quiet_places [OF this]
  ultimately have "gains {#t#} ?k0 k'" by (simp add: gains_def)
  with idle_gains [OF t] show ?thesis by (auto simp: gains_def balanced_def)
qed

lemma block_loses:
  assumes "block_current_and_run_next k fs = Some k'"
  shows "\<exists>t. cpu k = Some t \<and> gains {#t#} k' k"
proof -
  obtain t where t: "cpu k = Some t" and k': "k' = schedule (upd_tcb (k\<lparr>cpu := None\<rparr>) t (\<lambda>tcb. tcb\<lparr>t_status := Blocking\<rparr>)) t (ResumeAt (FBlocked t # fs))"
    using assms by (auto simp: block_current_and_run_next_def take_current_task_def Let_def split: bind_splits)
  have "quiet (k\<lparr>cpu := None\<rparr>) k'" unfolding k' by simp
  then have "gains {#t#} k' k" using idle_gains [OF t] by (simp add: gains_def quiet_places)
  with t show ?thesis by blast
qed

lemma queue_and_block:
  assumes g: "gains {#t#} k k1" and c: "cpu k1 = Some t" and b: "block_current_and_run_next k1 fs = Some k'"
  shows "balanced k k'"
  using block_loses [OF b] c gains_loses [OF g] by auto

fun outcome_balanced :: "kernel \<Rightarrow> outcome \<Rightarrow> bool" where
  "outcome_balanced k (Return v k') = balanced k k'"
| "outcome_balanced k (Switched k') = balanced k k'"

lemma outcome_balanced_plain [simp]:
  "outcome_balanced (k\<lparr>kmm := a\<rparr>) r = outcome_balanced k r" "outcome_balanced (k\<lparr>rings := c\<rparr>) r = outcome_balanced k r"
  "outcome_balanced (k\<lparr>kdisk := b\<rparr>) r = outcome_balanced k r"
  by (cases r; simp)+

lemma outcome_balanced_trans: "balanced k k1 \<Longrightarrow> outcome_balanced k1 r \<Longrightarrow> outcome_balanced k r"
  by (cases r) (auto intro: balanced_trans)

lemma suspend_outcome: "map_option Switched (suspend_current_and_run_next k fs) = Some r \<Longrightarrow> outcome_balanced k r"
  using suspend_balanced by auto

lemma queue_and_block_outcome:
  "gains {#t#} k k1 \<Longrightarrow> cpu k1 = Some t \<Longrightarrow> map_option Switched (block_current_and_run_next k1 fs) = Some r \<Longrightarrow> outcome_balanced k r"
  using queue_and_block by auto

subsection \<open>Files, locks and processes\<close>

lemma pipe_read_balanced: "pipe_read k fs b it n = Some r \<Longrightarrow> outcome_balanced k r"
  by (auto simp: pipe_read_def Let_def simp del: map_option_eq_Some split: bind_splits turn.splits dest!: suspend_outcome)

lemma pipe_write_balanced: "pipe_write k fs b it n = Some r \<Longrightarrow> outcome_balanced k r"
  by (auto simp: pipe_write_def Let_def simp del: map_option_eq_Some split: bind_splits turn.splits dest!: suspend_outcome)

lemma stdin_read_loop_balanced: "stdin_read_loop k fs buf = Some r \<Longrightarrow> outcome_balanced k r"
proof -
  assume r: "stdin_read_loop k fs buf = Some r"
  obtain c k1 where c: "console_getchar k = (c, k1)" by fastforce
  then have "quiet k k1" by (auto simp: console_getchar_def split: list.splits)
  then have b: "balanced k k1" by (rule quiet_balanced)
  then have "outcome_balanced k1 r"
    using r c by (auto simp: stdin_read_loop_def simp del: map_option_eq_Some split: if_splits bind_splits dest!: suspend_outcome)
  with b show ?thesis by (rule outcome_balanced_trans)
qed

lemma stdout_loop_quiet [quiet_ops]: "stdout_loop k bufs = Some k' \<Longrightarrow> quiet k k'"
  by (induction k bufs rule: stdout_loop.induct) (auto split: bind_splits)

lemma file_read_balanced: "file_read k fs f buf = Some r \<Longrightarrow> outcome_balanced k r"
  by (auto simp: file_read_def stdin_read_def assert_bind split: bind_splits File.splits
      dest: pipe_read_balanced stdin_read_loop_balanced)

lemma file_write_balanced: "file_write k fs f buf = Some r \<Longrightarrow> outcome_balanced k r"
  by (auto simp: file_write_def stdout_write_def assert_bind split: bind_splits File.splits
      dest: pipe_write_balanced stdout_loop_quiet [THEN quiet_balanced])

lemma mutex_lock_balanced:
  assumes r: "mutex_lock k m fs = Some r"
  shows "outcome_balanced k r"
proof -
  obtain mutex where m: "m < length (mutexes k)" "mutexes k ! m = mutex" using r by (auto simp: mutex_lock_def index_Some split: bind_splits)
  show ?thesis
  proof (cases mutex)
    case (MutexSpin l)
    have "gains {#} k (set_mutex k m (MutexSpin True))" using m MutexSpin by (intro set_mutex_gains) auto
    then show ?thesis using r m MutexSpin
      by (cases l) (auto simp: mutex_lock_def spin_lock_def gains_balanced dest: suspend_balanced)
  next
    case (MutexBlocking l q)
    show ?thesis
    proof (cases l)
      case True
      obtain t where t: "cpu k = Some t"
        and b: "map_option Switched (block_current_and_run_next (set_mutex k m (MutexBlocking l (q @ [t]))) fs) = Some r"
        using r m MutexBlocking True
        by (auto simp: mutex_lock_def blocking_lock_def current_task_def Let_def simp del: map_option_eq_Some split: bind_splits)
      have "gains {#t#} k (set_mutex k m (MutexBlocking l (q @ [t])))" using m MutexBlocking by (intro set_mutex_gains) auto
      from queue_and_block_outcome [OF this _ b] show ?thesis using t by (simp add: set_mutex_def)
    next
      case False
      have "gains {#} k (set_mutex k m (MutexBlocking True q))" using m MutexBlocking by (intro set_mutex_gains) auto
      then show ?thesis using r m MutexBlocking False by (auto simp: mutex_lock_def blocking_lock_def gains_balanced)
    qed
  qed
qed

text \<open>A task taken from a queue is made ready.\<close>

lemma wake_balanced: "gains {#t#} k1 k \<Longrightarrow> balanced k (add_task k1 t)"
  using add_task_gains [of t k1] by (auto simp: gains_def balanced_def)

lemma mutex_unlock_balanced:
  assumes r: "mutex_unlock k m = Some k'"
  shows "balanced k k'"
proof -
  obtain mutex where m: "m < length (mutexes k)" "mutexes k ! m = mutex" using r by (auto simp: mutex_unlock_def index_Some split: bind_splits)
  show ?thesis
  proof (cases mutex)
    case (MutexSpin l)
    have "gains {#} k (set_mutex k m (MutexSpin False))" using m MutexSpin by (intro set_mutex_gains) auto
    then show ?thesis using r m MutexSpin by (auto simp: mutex_unlock_def gains_balanced)
  next
    case (MutexBlocking l q)
    show ?thesis
    proof (cases q)
      case Nil
      have "gains {#} k (set_mutex k m (MutexBlocking False []))" using m MutexBlocking Nil by (intro set_mutex_gains) auto
      then show ?thesis using r m MutexBlocking Nil by (auto simp: mutex_unlock_def blocking_unlock_def assert_bind gains_balanced)
    next
      case (Cons t ts)
      have "gains {#t#} (set_mutex k m (MutexBlocking l ts)) k" using m MutexBlocking Cons by (intro set_mutex_loses) auto
      then show ?thesis using r m MutexBlocking Cons by (auto simp: mutex_unlock_def blocking_unlock_def assert_bind wake_balanced)
    qed
  qed
qed

lemma sem_up_balanced:
  assumes r: "sem_up k i = Some k'"
  shows "balanced k k'"
proof -
  obtain s where s: "i < length (semaphores k)" "semaphores k ! i = s" using r by (auto simp: sem_up_def index_Some split: bind_splits)
  let ?s = "s\<lparr>sem_count := sem_count s + 1\<rparr>"
  show ?thesis
  proof (cases "sint (sem_count ?s) \<le> 0 \<and> sem_wait s \<noteq> []")
    case True
    then obtain t q where q: "sem_wait s = t # q" by (cases "sem_wait s") auto
    have "gains {#t#} (k\<lparr>semaphores := (semaphores k)[i := ?s\<lparr>sem_wait := q\<rparr>]\<rparr>) k" using s q by (intro set_semaphore_loses) auto
    then show ?thesis using r s q True by (auto simp: sem_up_def Let_def wake_balanced)
  next
    case False
    have "gains {#} k (k\<lparr>semaphores := (semaphores k)[i := ?s]\<rparr>)" using s by (intro set_semaphore_gains) auto
    then show ?thesis using r s False by (auto simp: sem_up_def Let_def gains_balanced split: if_splits list.splits)
  qed
qed

lemma sem_down_balanced:
  assumes r: "sem_down k i fs = Some r"
  shows "outcome_balanced k r"
proof -
  obtain s where s: "i < length (semaphores k)" "semaphores k ! i = s" using r by (auto simp: sem_down_def index_Some split: bind_splits)
  let ?s = "s\<lparr>sem_count := sem_count s - 1\<rparr>"
  show ?thesis
  proof (cases "sint (sem_count ?s) < 0")
    case True
    obtain t where t: "cpu k = Some t"
      and b: "map_option Switched (block_current_and_run_next (k\<lparr>semaphores := (semaphores k)[i := ?s\<lparr>sem_wait := sem_wait s @ [t]\<rparr>]\<rparr>) fs) = Some r"
      using r s True by (auto simp: sem_down_def current_task_def Let_def simp del: map_option_eq_Some split: bind_splits)
    have "gains {#t#} k (k\<lparr>semaphores := (semaphores k)[i := ?s\<lparr>sem_wait := sem_wait s @ [t]\<rparr>]\<rparr>)" using s by (intro set_semaphore_gains) auto
    from queue_and_block_outcome [OF this _ b] show ?thesis using t by simp
  next
    case False
    have "gains {#} k (k\<lparr>semaphores := (semaphores k)[i := ?s]\<rparr>)" using s by (intro set_semaphore_gains) auto
    then show ?thesis using r s False by (auto simp: sem_down_def Let_def gains_balanced)
  qed
qed

lemma condvar_signal_balanced:
  assumes r: "condvar_signal k c = Some k'"
  shows "balanced k k'"
proof -
  obtain q where q: "c < length (condvars k)" "condvars k ! c = q" using r by (auto simp: condvar_signal_def index_Some split: bind_splits)
  show ?thesis
  proof (cases q)
    case (Cons t ts)
    have "gains {#t#} (k\<lparr>condvars := (condvars k)[c := ts]\<rparr>) k" using q Cons by (intro set_condvar_loses) auto
    then show ?thesis using r q Cons by (auto simp: condvar_signal_def wake_balanced)
  qed (use r q in \<open>auto simp: condvar_signal_def\<close>)
qed

lemma condvar_wait_balanced:
  assumes r: "condvar_wait k c m fs = Some r"
  shows "outcome_balanced k r"
proof -
  obtain k1 q t where u: "mutex_unlock k m = Some k1" and q: "c < length (condvars k1)" "condvars k1 ! c = q" and t: "cpu k1 = Some t"
    and b: "map_option Switched (block_current_and_run_next (k1\<lparr>condvars := (condvars k1)[c := q @ [t]]\<rparr>) (FRelock m # fs)) = Some r"
    using r by (auto simp: condvar_wait_def current_task_def index_Some Let_def simp del: map_option_eq_Some split: bind_splits)
  have "gains {#t#} k1 (k1\<lparr>condvars := (condvars k1)[c := q @ [t]]\<rparr>)" using q by (intro set_condvar_gains) auto
  from queue_and_block_outcome [OF this _ b] have "outcome_balanced k1 r" using t by simp
  with mutex_unlock_balanced [OF u] show ?thesis by (rule outcome_balanced_trans)
qed

text \<open>A new task enters the ready queue.\<close>

lemma TaskControlBlock_new_places:
  assumes n: "TaskControlBlock_new k p u b = Some (t, k')"
  shows "task_places k' = task_places k \<and> mset (unfinished k') = mset (unfinished k) + {#t#}"
proof -
  obtain res k1 ppn ks k2 where 1: "TaskUserRes_new k p u b = Some (res, k1)" and 2: "kstack_alloc k1 = Some (ks, k2)"
    and k': "k' = k2\<lparr>tcbs := tcbs k2 @ [\<lparr>t_process = p, t_kernel_stack = ks, t_trap_cx_ppn = ppn,
       t_task_cx = goto_trap_return (get_top ks), t_status = Ready, t_exit_code = None, t_res = Some res, t_live = True\<rparr>]\<rparr>"
    and t: "t = length (tcbs k2)"
    using n by (auto simp: TaskControlBlock_new_def Let_def split: bind_splits)
  have "quiet k k2" using TaskUserRes_new_quiet [OF 1] kstack_alloc_quiet [OF 2] by (rule quiet_trans)
  note q = quiet_places [OF this]
  have "unfinished k' = unfinished k2 @ [t]" unfolding unfinished_def k' t by (auto simp: nth_append intro!: filter_cong)
  moreover have "task_places k' = task_places k2" by (simp add: k' task_places_def waiting_def)
  ultimately show ?thesis using q by simp
qed

lemma new_task_balanced:
  assumes "TaskControlBlock_new k p u b = Some (t, k1)" and "quiet k1 k2"
  shows "balanced k (add_task k2 t)"
  using TaskControlBlock_new_places [OF assms(1)] quiet_places [OF assms(2)] add_task_gains [of t k2]
  by (auto simp: balanced_def gains_def)

lemma Process_new_balanced:
  assumes n: "Process_new m k elf = Some (p, k')"
  shows "balanced k k'"
proof -
  obtain ms s ub pid k1 t k3 cx k4 where pid: "pid_alloc (k\<lparr>kmm := s\<rparr>) = (pid, k1)"
    and t: "TaskControlBlock_new (k1\<lparr>files := files k1 @ [Stdin, Stdout, Stdout],
        pcbs := pcbs k1 @ [pcb_new pid ms None [Some (length (files k1)), Some (length (files k1) + 1), Some (length (files k1) + 2)]]\<rparr>)
        (length (pcbs k1)) ub True = Some (t, k3)"
    and cx: "set_trap_cx k3 t cx = Some k4"
    and k': "k' = add_task (upd_proc k4 (length (pcbs k1)) (\<lambda>pcb. pcb\<lparr>p_tasks := p_tasks pcb @ [Some t]\<rparr>)) t"
    using n by (auto simp: Process_new_def Let_def split: bind_splits prod.splits)
  have "quiet k (k1\<lparr>files := files k1 @ [Stdin, Stdout, Stdout],
        pcbs := pcbs k1 @ [pcb_new pid ms None [Some (length (files k1)), Some (length (files k1) + 1), Some (length (files k1) + 2)]]\<rparr>)"
    using pid_alloc_quiet [OF pid] by simp
  moreover have "balanced (k1\<lparr>files := files k1 @ [Stdin, Stdout, Stdout],
        pcbs := pcbs k1 @ [pcb_new pid ms None [Some (length (files k1)), Some (length (files k1) + 1), Some (length (files k1) + 2)]]\<rparr>) k'"
    unfolding k' by (rule new_task_balanced [OF t]) (use set_trap_cx_quiet [OF cx] in simp)
  ultimately show ?thesis by (rule quiet_balanced_trans)
qed

lemma fork_balanced:
  assumes n: "fork m k p = Some (c, k')"
  shows "balanced k k'"
proof -
  obtain parent ms s pid k1 ub t k3 cx k4 where "get_proc k p = Some parent" and pid: "pid_alloc (k\<lparr>kmm := s\<rparr>) = (pid, k1)"
    and t: "TaskControlBlock_new (upd_proc (k1\<lparr>pcbs := pcbs k1 @ [pcb_new pid ms (Some p) (p_fd_table parent)]\<rparr>) p
        (\<lambda>pcb. pcb\<lparr>p_children := p_children pcb @ [length (pcbs k1)]\<rparr>)) (length (pcbs k1)) ub False = Some (t, k3)"
    and cx: "set_trap_cx (upd_proc k3 (length (pcbs k1)) (\<lambda>pcb. pcb\<lparr>p_tasks := p_tasks pcb @ [Some t]\<rparr>)) t cx = Some k4"
    and k': "k' = add_task k4 t"
    using n by (auto simp: fork_def Let_def split: bind_splits prod.splits)
  let ?k2 = "upd_proc (k1\<lparr>pcbs := pcbs k1 @ [pcb_new pid ms (Some p) (p_fd_table parent)]\<rparr>) p
        (\<lambda>pcb. pcb\<lparr>p_children := p_children pcb @ [length (pcbs k1)]\<rparr>)"
  have "quiet k ?k2" using pid_alloc_quiet [OF pid] by simp
  moreover have "balanced ?k2 k'" unfolding k' by (rule new_task_balanced [OF t]) (use set_trap_cx_quiet [OF cx] in simp)
  ultimately show ?thesis by (rule quiet_balanced_trans)
qed

text \<open>An exit takes the running task out of the places and out of the unfinished tasks.\<close>

lemma finish_unfinished:
  assumes t: "t < length (tcbs k)" "t_exit_code (tcbs k ! t) = None" and f: "t_exit_code (f (tcbs k ! t)) = Some c"
  shows "mset (unfinished k) = mset (unfinished (upd_tcb k t f)) + {#t#}"
proof -
  have *: "unfinished (upd_tcb k t f) = filter (\<lambda>i. i \<noteq> t) (unfinished k)"
    unfolding unfinished_def filter_filter using f t by (intro filter_cong) (auto simp: upd_tcb_def nth_list_update split: if_splits)
  have "distinct (unfinished k)" "t \<in> set (unfinished k)" using t by (auto simp: unfinished_def)
  then have "count (mset (unfinished k)) t = 1" by (simp add: distinct_count_atmost_1)
  then show ?thesis unfolding * by (intro multiset_eqI) (auto simp: mset_filter)
qed

lemma exit_current_once:
  assumes once: "each_task_once k" and n: "exit_current_and_run_next k code = Some k'"
  shows "each_task_once k'"
proof -
  let ?k0 = "k\<lparr>cpu := None\<rparr>"
  obtain t tcb res pcb where t: "cpu k = Some t" "get_tcb ?k0 t = Some tcb" "t_res tcb = Some res" "get_proc ?k0 (t_process tcb) = Some pcb"
    using n by (auto simp: exit_current_and_run_next_def take_current_task_def Let_def split: bind_splits)
  note sofar = exit_current_and_run_next_def take_current_task_def Let_def t
  let ?k1 = "upd_tcb ?k0 t (\<lambda>tcb. tcb\<lparr>t_exit_code := Some code, t_res := None\<rparr>)"
  obtain k2 k3 where 2: "res_drop ?k1 res = Some k2" and 3: "drop_task k2 t = Some k3"
    using n by (auto simp: sofar split: bind_splits)
  obtain k4 where 4: "(if r_tid res = 0 then exit_process k3 (t_process tcb) code else Some k3) = Some k4"
    and 5: "drop_process k4 (t_process tcb) = Some k'" using n by (simp add: sofar 2 3 split: bind_splits)
  have "quiet k3 k4" using 4 exit_process_quiet by (auto split: if_splits)
  then have q: "quiet ?k1 k'"
    using res_drop_quiet [OF 2] drop_task_quiet [OF 3] drop_process_quiet [OF 5] by (blast intro: quiet_trans)
  have "t \<in> set (task_places k)" using t(1) by (simp add: task_places_def somes_def)
  then have "t \<in> set (unfinished k)" using once by (simp add: each_task_once_def)
  then have u: "t < length (tcbs ?k0)" "t_exit_code (tcbs ?k0 ! t) = None" by (auto simp: unfinished_def)
  have "mset (unfinished ?k0) = mset (unfinished ?k1) + {#t#}" by (rule finish_unfinished [OF u]) simp
  moreover have "unfinished ?k0 = unfinished k" by (simp add: unfinished_def)
  moreover have "mset (task_places k) = mset (task_places ?k0) + {#t#}" using idle_gains [OF t(1)] by (simp add: gains_def)
  moreover have "task_places ?k1 = task_places ?k0" by (simp add: task_places_def waiting_def)
  ultimately have "each_task_once ?k1" using once by (simp add: each_task_once_mset)
  then show ?thesis using quiet_places [OF q] by (simp add: each_task_once_def)
qed

subsection \<open>System calls\<close>

lemma sys_write_balanced: "sys_write k fs fd buf len = Some r \<Longrightarrow> outcome_balanced k r"
  by (auto simp: sys_write_def split: bind_splits option.splits dest: file_write_balanced)

lemma sys_read_balanced: "sys_read k fs fd buf len = Some r \<Longrightarrow> outcome_balanced k r"
  by (auto simp: sys_read_def split: bind_splits option.splits dest: file_read_balanced)

lemma install_fd_quiet [quiet_ops]: "install_fd k p f = Some (fd, k') \<Longrightarrow> quiet k k'"
  by (auto simp: install_fd_def Let_def split: bind_splits prod.splits)

lemma sys_open_balanced: "sys_open k path flags = Some r \<Longrightarrow> outcome_balanced k r"
  by (auto simp: sys_open_def Let_def split: bind_splits option.splits dest!: install_fd_quiet intro!: quiet_balanced)

lemma sys_close_balanced: "sys_close k fd = Some r \<Longrightarrow> outcome_balanced k r"
  by (auto simp: sys_close_def split: bind_splits option.splits)

lemma make_pipe_quiet [quiet_ops]: "make_pipe k = (a, b, k') \<Longrightarrow> quiet k k'"
  by (auto simp: make_pipe_def Let_def)

lemma sys_pipe_balanced: "sys_pipe k pipe = Some r \<Longrightarrow> outcome_balanced k r"
  by (auto simp: sys_pipe_def Let_def split: bind_splits prod.splits dest!: install_fd_quiet make_pipe_quiet
      intro!: quiet_balanced) (meson quiet_trans)

lemma sys_dup_balanced: "sys_dup k fd = Some r \<Longrightarrow> outcome_balanced k r"
  by (auto simp: sys_dup_def split: bind_splits option.splits dest!: install_fd_quiet intro!: quiet_balanced)

lemma sys_yield_balanced: "sys_yield k fs = Some r \<Longrightarrow> outcome_balanced k r"
  unfolding sys_yield_def by (rule suspend_outcome)

lemma sys_getpid_balanced: "sys_getpid k = Some r \<Longrightarrow> outcome_balanced k r"
  by (auto simp: sys_getpid_def split: bind_splits)

lemma sys_gettid_balanced: "sys_gettid k = Some r \<Longrightarrow> outcome_balanced k r"
  by (auto simp: sys_gettid_def split: bind_splits)

lemma sys_get_time_balanced: "sys_get_time k mtime ts = Some r \<Longrightarrow> outcome_balanced k r"
  by (auto simp: sys_get_time_def Let_def split: bind_splits)

lemma sys_fork_balanced: "sys_fork m k = Some r \<Longrightarrow> outcome_balanced k r"
  by (auto simp: sys_fork_def split: bind_splits dest!: fork_balanced set_trap_cx_quiet) (erule (1) balanced_quiet_trans)

lemma sys_exec_balanced: "sys_exec m k path args = Some r \<Longrightarrow> outcome_balanced k r"
  by (auto simp: sys_exec_def Let_def split: bind_splits option.splits dest!: exec_quiet intro!: quiet_balanced)

lemma sys_waitpid_balanced: "sys_waitpid k pid ptr = Some r \<Longrightarrow> outcome_balanced k r"
  by (auto simp: sys_waitpid_def Let_def split: bind_splits option.splits if_splits dest!: drop_process_quiet intro: quiet_balanced)

lemma sys_sleep_balanced:
  assumes r: "sys_sleep k fs mtime ms = Some r"
  shows "outcome_balanced k r"
proof -
  obtain t where t: "cpu k = Some t"
    and b: "map_option Switched (block_current_and_run_next (k\<lparr>ktimers := add_timer (ktimers k) (get_time_ms mtime + ms) t\<rparr>) (FConst 0 # fs)) = Some r"
    using r by (auto simp: sys_sleep_def current_task_def Let_def simp del: map_option_eq_Some split: bind_splits)
  have "gains {#t#} k (k\<lparr>ktimers := add_timer (ktimers k) (get_time_ms mtime + ms) t\<rparr>)"
    by (simp add: gains_def task_places_def waiting_def unfinished_def add_timer_def heap_push_mset)
  from queue_and_block_outcome [OF this _ b] show ?thesis using t by simp
qed

lemma sys_mutex_create_balanced: "sys_mutex_create k blocking = Some r \<Longrightarrow> outcome_balanced k r"
  by (auto simp: sys_mutex_create_def balanced_def task_places_def waiting_def unfinished_def MutexSpin_new_def MutexBlocking_new_def Let_def
      split: bind_splits prod.splits)

lemma sys_semaphore_create_balanced: "sys_semaphore_create k n = Some r \<Longrightarrow> outcome_balanced k r"
  by (auto simp: sys_semaphore_create_def balanced_def task_places_def waiting_def unfinished_def Semaphore_new_def Let_def
      split: bind_splits prod.splits)

lemma sys_condvar_create_balanced: "sys_condvar_create k = Some r \<Longrightarrow> outcome_balanced k r"
  by (auto simp: sys_condvar_create_def balanced_def task_places_def waiting_def unfinished_def Condvar_new_def Let_def
      split: bind_splits prod.splits)

lemma sys_mutex_lock_balanced: "sys_mutex_lock k fs i = Some r \<Longrightarrow> outcome_balanced k r"
  by (auto simp: sys_mutex_lock_def split: bind_splits dest: mutex_lock_balanced)

lemma sys_mutex_unlock_balanced: "sys_mutex_unlock k i = Some r \<Longrightarrow> outcome_balanced k r"
  by (auto simp: sys_mutex_unlock_def split: bind_splits dest: mutex_unlock_balanced)

lemma sys_semaphore_up_balanced: "sys_semaphore_up k i = Some r \<Longrightarrow> outcome_balanced k r"
  by (auto simp: sys_semaphore_up_def split: bind_splits dest: sem_up_balanced)

lemma sys_semaphore_down_balanced: "sys_semaphore_down k fs i = Some r \<Longrightarrow> outcome_balanced k r"
  by (auto simp: sys_semaphore_down_def split: bind_splits dest: sem_down_balanced)

lemma sys_condvar_signal_balanced: "sys_condvar_signal k i = Some r \<Longrightarrow> outcome_balanced k r"
  by (auto simp: sys_condvar_signal_def split: bind_splits dest: condvar_signal_balanced)

lemma sys_condvar_wait_balanced: "sys_condvar_wait k fs c i = Some r \<Longrightarrow> outcome_balanced k r"
  by (auto simp: sys_condvar_wait_def split: bind_splits dest: condvar_wait_balanced)

lemma sys_thread_create_balanced:
  assumes r: "sys_thread_create m k pc arg = Some r"
  shows "outcome_balanced k r"
proof -
  obtain p u new k1 cx k2 tid tasks k3 where t: "TaskControlBlock_new k p u True = Some (new, k1)" and cx: "set_trap_cx k1 new cx = Some k2"
    and old: "(case tasks ! tid of None \<Rightarrow> Some (upd_proc k2 p (\<lambda>pcb. pcb\<lparr>p_tasks := tasks[tid := Some new]\<rparr>))
        | Some old \<Rightarrow> drop_task (upd_proc k2 p (\<lambda>pcb. pcb\<lparr>p_tasks := tasks[tid := Some new]\<rparr>)) old) = Some k3"
    and r': "r = Return (word_of_nat tid) (add_task k3 new)"
    using r by (auto simp: sys_thread_create_def Let_def split: bind_splits)
  have "quiet k2 k3" using old by (auto split: option.splits dest: drop_task_quiet)
  with set_trap_cx_quiet [OF cx] have "quiet k1 k3" by (rule quiet_trans)
  then show ?thesis using new_task_balanced [OF t] by (simp add: r')
qed

lemma sys_waittid_quiet [quiet_ops]: "sys_waittid k tid = Some (v, k') \<Longrightarrow> quiet k k'"
  by (auto simp: sys_waittid_def Let_def split: bind_splits option.splits if_splits dest!: drop_task_quiet)

lemma syscall_once:
  assumes once: "each_task_once k" and r: "syscall m k fs mtime i a = Some r"
  shows "case r of Return v k' \<Rightarrow> each_task_once k' | Switched k' \<Rightarrow> each_task_once k'"
proof -
  have bal: "case r of Return v k' \<Rightarrow> each_task_once k' | Switched k' \<Rightarrow> each_task_once k'" if "outcome_balanced k r" for r
    using that balanced_once [OF _ once] by (cases r) auto
  have w: "outcome_balanced k r" if "map_option (\<lambda>(v, k). Return (scast v) k) (sys_waittid k a0) = Some r" for r a0
    using that sys_waittid_quiet quiet_balanced by auto
  have c: "outcome_balanced k r" if "ret k v = Some r" for v r using that by auto
  have e: "case r of Return v k' \<Rightarrow> each_task_once k' | Switched k' \<Rightarrow> each_task_once k'" if "sys_exit k code = Some r" for r code
    using that exit_current_once [OF once] by (auto simp: sys_exit_def)
  note places = c w sys_dup_balanced sys_open_balanced sys_close_balanced sys_pipe_balanced sys_read_balanced
    sys_write_balanced sys_sleep_balanced sys_yield_balanced sys_getpid_balanced
    sys_gettid_balanced sys_fork_balanced sys_exec_balanced sys_waitpid_balanced sys_get_time_balanced
    sys_thread_create_balanced sys_mutex_create_balanced sys_mutex_lock_balanced sys_mutex_unlock_balanced
    sys_semaphore_create_balanced sys_semaphore_up_balanced sys_semaphore_down_balanced sys_condvar_create_balanced
    sys_condvar_signal_balanced sys_condvar_wait_balanced
  obtain a0 a1 a2 a3 where Args: "a = Args a0 a1 a2 a3" by (cases a)
  show ?thesis using r unfolding Args syscall.simps
    by (elim if_SomeE) (erule e | erule places [THEN bal] | simp)+
qed

subsection \<open>Traps, the scheduling loop and runs\<close>

lemma trap_return_quiet [quiet_ops]: "trap_return k = Some k' \<Longrightarrow> quiet k k'"
  by (auto simp: trap_return_def split: bind_splits)

lemma upd_trap_cx_quiet [quiet_ops]: "upd_trap_cx k f = Some k' \<Longrightarrow> quiet k k'"
  by (auto simp: upd_trap_cx_def split: bind_splits dest: set_trap_cx_quiet)

lemma syscall_return_quiet [quiet_ops]: "syscall_return k v = Some k' \<Longrightarrow> quiet k k'"
  by (auto simp: syscall_return_def split: bind_splits dest!: upd_trap_cx_quiet trap_return_quiet intro: quiet_trans)

lemma quiet_once: "quiet k k' \<Longrightarrow> each_task_once k \<Longrightarrow> each_task_once k'"
  by (rule balanced_once [OF quiet_balanced])

lemma user_env_call_once:
  assumes once: "each_task_once k" and r: "user_env_call m k mtime = Some k'"
  shows "each_task_once k'"
proof -
  obtain k1 f i a o' where 1: "upd_trap_cx k f = Some k1" and 2: "syscall m k1 [FSyscall] mtime i a = Some o'"
    and 3: "(case o' of Return v k \<Rightarrow> syscall_return k v | Switched k \<Rightarrow> Some k) = Some k'"
    using r by (auto simp: user_env_call_def Let_def split: bind_splits)
  have "case o' of Return v k' \<Rightarrow> each_task_once k' | Switched k' \<Rightarrow> each_task_once k'"
    by (rule syscall_once [OF quiet_once [OF upd_trap_cx_quiet [OF 1] once] 2])
  then show ?thesis using 3 quiet_once [OF syscall_return_quiet] by (auto split: outcome.splits)
qed

lemma wake_sleepers_balanced: "balanced k (wake_sleepers k mtime)"
proof -
  obtain woken left where c: "check_timer (get_time_ms mtime) (ktimers k) = (woken, left)" by fastforce
  have "foldl add_task k ts = k\<lparr>ready_queue := ready_queue k @ ts\<rparr>" for k ts
    by (induction ts arbitrary: k) (simp_all add: add_task_def tm_add_def)
  then have "wake_sleepers k mtime = k\<lparr>ktimers := left, ready_queue := ready_queue k @ woken\<rparr>" using c by (simp add: wake_sleepers_def)
  then show ?thesis using check_timer_mset [OF c]
    by (simp add: balanced_def task_places_def waiting_def unfinished_def union_ac)
qed

lemma trap_handler_once:
  assumes once: "each_task_once k" and r: "trap_handler m k c = Some k'"
  shows "each_task_once k'"
proof (cases c)
  case (SupervisorTimer t1 t2)
  let ?k1 = "k\<lparr>next_trigger := set_next_trigger t1\<rparr>"
  have "balanced k (wake_sleepers ?k1 t2)" using wake_sleepers_balanced [of ?k1 t2] by simp
  moreover have "balanced (wake_sleepers ?k1 t2) k'" using r SupervisorTimer by (auto simp: trap_handler_def intro: suspend_balanced)
  ultimately show ?thesis using balanced_once [OF balanced_trans once] by blast
qed (use r user_env_call_once [OF once] exit_current_once [OF once] in \<open>auto simp: trap_handler_def\<close>)

lemma on_return_balanced:
  assumes "on_return f r = Some k'" and "\<And>o'. r = Some o' \<Longrightarrow> outcome_balanced k o'" and "\<And>k1 v. f k1 v = Some k' \<Longrightarrow> balanced k1 k'"
  shows "balanced k k'"
  using assms balanced_trans by (auto simp: on_return_def split: bind_splits outcome.splits)

lemma run_frames_balanced: "run_frames k fs v = Some k' \<Longrightarrow> balanced k k'"
proof (induction k fs v arbitrary: k' rule: run_frames.induct)
  case (5 k t fs v)
  then obtain k1 where d: "drop_task k t = Some k1" "run_frames k1 fs v = Some k'" by (auto split: bind_splits)
  show ?case by (rule quiet_balanced_trans [OF drop_task_quiet [OF d(1)] "5.IH" [OF d]])
next
  case (6 k ps fl fs v)
  then obtain k1 where d: "drop_all_procs k ps = Some k1" "run_frames k1 fs v = Some k'" by (auto split: bind_splits)
  show ?case by (rule quiet_balanced_trans [OF drop_all_procs_quiet [OF d(1)] "6.IH" [OF d]])
qed (auto intro: quiet_balanced trap_return_quiet syscall_return_quiet
    elim!: on_return_balanced dest: mutex_lock_balanced pipe_read_balanced pipe_write_balanced stdin_read_loop_balanced)

lemma run_next_once:
  assumes once: "each_task_once k" and c: "cpu k = None" and r: "run_next k = Some k'"
  shows "each_task_once k'"
proof (cases "ready_queue k")
  case Nil
  then have "k' = k" using r by (cases k) (simp add: run_next_def fetch_task_def tm_fetch_def)
  then show ?thesis using once by simp
next
  case (Cons t ts)
  let ?k1 = "schedule ((upd_tcb (k\<lparr>ready_queue := ts\<rparr>) t (\<lambda>tcb. tcb\<lparr>t_status := Running\<rparr>))\<lparr>cpu := Some t\<rparr>) t ResumeNone"
  obtain tcb where "get_tcb (k\<lparr>ready_queue := ts\<rparr>) t = Some tcb"
    and "(case cx_ra (t_task_cx tcb) of GotoTrapReturn \<Rightarrow> trap_return ?k1 | ResumeAt fs \<Rightarrow> run_frames ?k1 fs 0 | ResumeNone \<Rightarrow> None) = Some k'"
    using r Cons by (auto simp: run_next_def fetch_task_def tm_fetch_def Let_def split: bind_splits)
  then have b: "balanced ?k1 k'"
    using run_frames_balanced quiet_balanced [OF trap_return_quiet] by (auto split: resume.splits)
  have "(upd_tcb (k\<lparr>ready_queue := ts\<rparr>) t f)\<lparr>cpu := Some t\<rparr> = upd_tcb (k\<lparr>ready_queue := ts, cpu := Some t\<rparr>) t f" for f by (simp add: upd_tcb_def)
  then have "quiet (k\<lparr>ready_queue := ts, cpu := Some t\<rparr>) ?k1" by simp
  note q = quiet_places [OF this]
  have "balanced k ?k1" using c Cons q by (simp add: balanced_def task_places_def waiting_def unfinished_def somes_def)
  then show ?thesis using balanced_once [OF balanced_trans [OF _ b] once] by blast
qed

lemma kstep_once:
  assumes "kstep m k ds k'" and "each_task_once k"
  shows "each_task_once k'"
  using assms(1)
proof (cases rule: kstep.cases)
  case (user t ps)
  then show ?thesis using assms(2) by (simp add: each_task_once_def)
next
  case (input cs)
  then show ?thesis using assms(2) by (simp add: each_task_once_def)
qed (use assms(2) trap_handler_once run_next_once in blast)+

lemma ksteps_once: "ksteps m k ds k' \<Longrightarrow> each_task_once k \<Longrightarrow> each_task_once k'"
  by (induction rule: ksteps.induct) (auto intro: kstep_once)

text \<open>The start of the kernel puts its first task into the ready queue.\<close>

lemma empty_tables_once: "empty_tables k \<Longrightarrow> each_task_once k"
  by (simp add: empty_tables_def each_task_once_def task_places_def waiting_def unfinished_def somes_def)

lemma rust_main_once:
  assumes k0: "empty_tables k0" and r: "rust_main m ld sbss mtime k0 = Some k"
  shows "each_task_once k"
proof -
  obtain ks s f o' where i: "add_initproc m (k0\<lparr>kmm := s, kspace := ks, next_trigger := set_next_trigger mtime, kfs := f, console_out := o'\<rparr>) = Some k"
    using r by (auto simp: rust_main_def open_root_def list_apps_def Let_def split: bind_splits)
  let ?k1 = "k0\<lparr>kmm := s, kspace := ks, next_trigger := set_next_trigger mtime, kfs := f, console_out := o'\<rparr>"
  obtain d v p k2 where n: "Process_new m (?k1\<lparr>kdisk := d\<rparr>) v = Some (p, k2)" and k: "k = k2\<lparr>initproc := Some p\<rparr>"
    using i by (auto simp: add_initproc_def split: bind_splits)
  have "each_task_once (?k1\<lparr>kdisk := d\<rparr>)" using k0 by (intro empty_tables_once) (simp add: empty_tables_def)
  from balanced_once [OF Process_new_balanced [OF n] this] show ?thesis
    by (simp add: k each_task_once_def task_places_def waiting_def unfinished_def)
qed

subsection \<open>Properties\<close>

lemma ex_kernel_once: "each_task_once (ex_kernel [GotoTrapReturn, ResumeAt [FTrap], GotoTrapReturn])"
  by (auto simp: ex_defs each_task_once_def task_places_def waiting_def unfinished_def somes_def nth_Cons split: nat.splits)

text \<open>
  C6 (invariant).  No task is lost and none is in two places: along every run of the kernel, whatever system
  calls the programs make, whatever they do to memory, and whenever timers, input and faults occur, the
  processor, the ready queue, the wait queues of all mutexes, semaphores and condition variables and the
  timer heap together hold every task that has not exited exactly once, and no task that has exited.
\<close>

theorem tasks_in_one_place:
  assumes "each_task_once k" and "ksteps m k ds k'"
  shows "each_task_once k'"
  using ksteps_once assms by blast

theorem tasks_in_one_place_witness:
  "\<exists>k. ksteps ex_machine (ex_kernel [GotoTrapReturn, ResumeAt [FTrap], GotoTrapReturn]) [0, 1] k \<and> each_task_once k"
  using ex_run tasks_in_one_place [OF ex_kernel_once] by blast

text \<open>
  C12 (safety).  The ready queue is first in, first out, and nothing but the tasks that become ready enters it:
  in every step of the kernel the queue loses the dispatched task at its front and gains at its end,
  once each, exactly the tasks that are then unfinished, not on the processor, in no wait queue and not asleep,
  and were not queued already.
\<close>

theorem ready_queue_is_fifo:
  assumes "kernel_ty k" and "each_task_once k" and "kstep m k ds k'"
  shows "\<exists>q. ready_queue k @ q = ds @ ready_queue k' \<and> distinct q \<and>
    set q = set (unfinished k') - set (somes [cpu k']) - set (waiting k') - set (drop (length ds) (ready_queue k))"
proof -
  obtain q where q: "ready_queue k @ q = ds @ ready_queue k'" using kstep_keeps [OF assms(3,1)] by blast
  have "length ds \<le> length (ready_queue k)" using assms(3) by (cases rule: kstep.cases) auto
  then have "ready_queue k' = drop (length ds) (ready_queue k) @ q"
    using arg_cong [OF q, of "drop (length ds)"] by simp
  then have "distinct q" "set q = set (unfinished k') - set (somes [cpu k']) - set (waiting k') - set (drop (length ds) (ready_queue k))"
    using kstep_once [OF assms(3,2)] by (auto simp: each_task_once_def task_places_def)
  with q show ?thesis by blast
qed

text \<open>The first task of the example is running and is interrupted: it goes behind the two others.\<close>

theorem ready_queue_is_fifo_witness:
  "\<exists>k k'. ready_queue k = [1, 2] \<and> cpu k = Some 0 \<and> cpu k' = None \<and> kstep ex_machine k [] k' \<and>
     (\<exists>q. [1, 2] @ q = ready_queue k' \<and> distinct q \<and> set q = set (unfinished k') - set (waiting k') - {1, 2})"
proof -
  let ?k0 = "ex_kernel [GotoTrapReturn, ResumeAt [FTrap], GotoTrapReturn]"
  let ?u = "\<lambda>k1. k1\<lparr>kmm := (kmm k1)\<lparr>pages := (\<lambda>_. replicate 4096 1)\<rparr>\<rparr>"
  have q: "ready_queue ?k0 = 0 # [1, 2]" and c: "cpu ?k0 = None" by (simp_all add: ex_defs)
  have p: "preempted ?k0 0" using ex_preempted [of 0] by (simp add: q)
  obtain k1 k2 where r: "run_next ?k0 = Some k1" "cpu k1 = Some 0" "trap_handler ex_machine (?u k1) (SupervisorTimer 10 20) = Some k2" "cpu k2 = None"
    using turn_ok [OF q p] by metis
  have rq: "ready_queue (?u k1) = [1, 2]" using run_next_preempted [OF q p] r(1) by auto
  have d: "kstep ex_machine ?k0 [0] k1" by (rule kstep.dispatch [OF c q r(1)])
  have u: "kstep ex_machine k1 [] (?u k1)" by (rule kstep.user [OF r(2)])
  have ok: "kernel_ty (?u k1)" "each_task_once (?u k1)"
    using kstep_keeps [OF d ex_kernel_ty] kstep_once [OF u kstep_once [OF d ex_kernel_once]] by simp_all
  have cu: "cpu (?u k1) = Some 0" using r(2) by simp
  have st: "kstep ex_machine (?u k1) [] k2" by (rule kstep.trap [OF cu r(3)])
  from ready_queue_is_fifo [OF ok st] show ?thesis using st rq cu r(4) by (intro exI [of _ "?u k1"] exI [of _ k2]) (simp add: somes_def)
qed

end
