(* ===== verification/Lock_Runs.thy ===== *)
theory Lock_Runs
  imports Kernel_Example
begin

text \<open>
  What the sleeping locks promise.  Mutexes and semaphores share a contract: a lock holds a number of
  free permits and a queue of waiting tasks; a request takes a permit or joins the queue, a release wakes
  the task at the front or returns the permit.  The contract is the locale \<open>permits\<close>; its consequence for
  any interleaving of requests, releases and other kernel activity is proved once and used for
  \<^verbatim>\<open>MutexBlocking\<close> (one permit) and \<^verbatim>\<open>Semaphore\<close> (\<^verbatim>\<open>res_count\<close> permits).
\<close>

subsection \<open>The contract\<close>

text \<open>
  A run with the tasks that requested a permit, those that obtained one and the number of releases.  The
  steps are relations: a request by a task, granted or not; a release with the tasks it wakes; and any
  other change.
\<close>

inductive permit_run :: "('k \<Rightarrow> nat \<Rightarrow> bool \<Rightarrow> 'k \<Rightarrow> bool) \<Rightarrow> ('k \<Rightarrow> nat list \<Rightarrow> 'k \<Rightarrow> bool) \<Rightarrow> ('k \<Rightarrow> 'k \<Rightarrow> bool) \<Rightarrow>
    'k \<Rightarrow> 'k \<Rightarrow> nat list \<Rightarrow> nat list \<Rightarrow> nat \<Rightarrow> bool" for req rel oth k0 where
  start: "permit_run req rel oth k0 k0 [] [] 0"
| grant: "permit_run req rel oth k0 k rs gs n \<Longrightarrow> req k t True k' \<Longrightarrow> permit_run req rel oth k0 k' (rs @ [t]) (gs @ [t]) n"
| wait: "permit_run req rel oth k0 k rs gs n \<Longrightarrow> req k t False k' \<Longrightarrow> permit_run req rel oth k0 k' (rs @ [t]) gs n"
| release: "permit_run req rel oth k0 k rs gs n \<Longrightarrow> rel k ws k' \<Longrightarrow> permit_run req rel oth k0 k' rs (gs @ ws) (Suc n)"
| other: "permit_run req rel oth k0 k rs gs n \<Longrightarrow> oth k k' \<Longrightarrow> permit_run req rel oth k0 k' rs gs n"

locale permits =
  fixes st :: "'k \<Rightarrow> nat \<Rightarrow> nat list \<Rightarrow> bool"
    and req :: "'k \<Rightarrow> nat \<Rightarrow> bool \<Rightarrow> 'k \<Rightarrow> bool"
    and rel :: "'k \<Rightarrow> nat list \<Rightarrow> 'k \<Rightarrow> bool"
    and oth :: "'k \<Rightarrow> 'k \<Rightarrow> bool"
  assumes req_free: "st k (Suc c) [] \<Longrightarrow> req k t g k' \<Longrightarrow> g \<and> st k' c []"
    and req_wait: "st k 0 q \<Longrightarrow> req k t g k' \<Longrightarrow> \<not> g \<and> st k' 0 (q @ [t])"
    and rel_wake: "st k 0 (t # q) \<Longrightarrow> rel k ws k' \<Longrightarrow> ws = [t] \<and> st k' 0 q"
    and rel_free: "st k c [] \<Longrightarrow> rel k ws k' \<Longrightarrow> ws = [] \<and> st k' (Suc c) []"
    and oth_keeps: "st k c q \<Longrightarrow> oth k k' \<Longrightarrow> st k' c q"
begin

lemma granted:
  "permit_run req rel oth k0 k rs gs n \<Longrightarrow> st k0 c [] \<Longrightarrow>
   \<exists>c' q. st k c' q \<and> rs = gs @ q \<and> length gs + c' = c + n \<and> (q = [] \<or> c' = 0)"
proof (induction rule: permit_run.induct)
  case start
  then show ?case by auto
next
  case (grant k rs gs n t k')
  then obtain c' q where h: "st k c' q" "rs = gs @ q" "length gs + c' = c + n" "q = [] \<or> c' = 0" by blast
  then obtain c'' where "c' = Suc c''" using grant.hyps(2) req_wait [of k q t True k'] by (cases c') auto
  then show ?case using h req_free [of k c'' t True k'] grant.hyps(2) by (intro exI [of _ c''] exI [of _ "[]"]) simp
next
  case (wait k rs gs n t k')
  then obtain c' q where h: "st k c' q" "rs = gs @ q" "length gs + c' = c + n" "q = [] \<or> c' = 0" by blast
  have "c' = 0" using h wait.hyps(2) req_free [of k _ t False k'] by (cases c') auto
  then show ?case using h req_wait [of k q t False k'] wait.hyps(2) by (intro exI [of _ 0] exI [of _ "q @ [t]"]) simp
next
  case (release k rs gs n ws k')
  then obtain c' q where h: "st k c' q" "rs = gs @ q" "length gs + c' = c + n" "q = [] \<or> c' = 0" by blast
  show ?case
  proof (cases q)
    case Nil
    then show ?thesis using h rel_free [of k c' ws k'] release.hyps(2) by (intro exI [of _ "Suc c'"] exI [of _ "[]"]) simp
  next
    case (Cons t q')
    then show ?thesis using h rel_wake [of k t q' ws k'] release.hyps(2) by (intro exI [of _ 0] exI [of _ q']) simp
  qed
next
  case (other k rs gs n k')
  then show ?case using oth_keeps by blast
qed

text \<open>The permits are granted in the order of the requests, as many as there are.\<close>

lemma granted_prefix:
  assumes "permit_run req rel oth k0 k rs gs n" and "st k0 c []"
  shows "gs = take (c + n) rs"
  using granted [OF assms] by auto

end

subsection \<open>Blocking mutexes\<close>

text \<open>The steps of a run on mutex \<open>m\<close>: \<^verbatim>\<open>lock\<close> by the current task, \<^verbatim>\<open>unlock\<close> by any task.\<close>

definition lock_request :: "nat \<Rightarrow> kernel \<Rightarrow> nat \<Rightarrow> bool \<Rightarrow> kernel \<Rightarrow> bool" where
  "lock_request m k t granted k' \<longleftrightarrow> current_task k = Some t \<and>
     (\<exists>fs v. mutex_lock k m fs = Some (if granted then Return v k' else Switched k'))"

definition lock_release :: "nat \<Rightarrow> kernel \<Rightarrow> nat list \<Rightarrow> kernel \<Rightarrow> bool" where
  "lock_release m k woken k' \<longleftrightarrow> mutex_unlock k m = Some k' \<and> ready_queue k' = ready_queue k @ woken"

definition same_mutex :: "nat \<Rightarrow> kernel \<Rightarrow> kernel \<Rightarrow> bool" where
  "same_mutex m k k' \<longleftrightarrow> index (mutexes k') m = index (mutexes k) m"

definition mutex_st :: "nat \<Rightarrow> kernel \<Rightarrow> nat \<Rightarrow> nat list \<Rightarrow> bool" where
  "mutex_st m k c q \<longleftrightarrow> index (mutexes k) m = Some (MutexBlocking (c = 0) q) \<and> c \<le> 1"

lemma index_update [simp]: "index (xs[i := v]) i = map_option (\<lambda>_. v) (index xs i)"
  by (simp add: index_def)

lemma block_mutexes: "block_current_and_run_next k fs = Some k' \<Longrightarrow> mutexes k' = mutexes k \<and> semaphores k' = semaphores k"
  by (auto simp: block_current_and_run_next_def take_current_task_def upd_tcb_def schedule_def Let_def split: bind_splits)

interpretation mutex_permits: permits "mutex_st m" "lock_request m" "lock_release m" "same_mutex m" for m
proof
  fix k c t g k' assume "mutex_st m k (Suc c) []" "lock_request m k t g k'"
  then show "g \<and> mutex_st m k' c []"
    by (cases g) (auto simp: mutex_st_def lock_request_def mutex_lock_def blocking_lock_def set_mutex_def)
next
  fix k q t g k' assume "mutex_st m k 0 q" "lock_request m k t g k'"
  then show "\<not> g \<and> mutex_st m k' 0 (q @ [t])"
    by (cases g) (auto simp: mutex_st_def lock_request_def mutex_lock_def blocking_lock_def set_mutex_def dest!: block_mutexes)
next
  fix k t q ws k' assume "mutex_st m k 0 (t # q)" "lock_release m k ws k'"
  then show "ws = [t] \<and> mutex_st m k' 0 q"
    by (auto simp: mutex_st_def lock_release_def mutex_unlock_def blocking_unlock_def set_mutex_def add_task_def tm_add_def assert_bind)
next
  fix k c ws k' assume "mutex_st m k c []" "lock_release m k ws k'"
  then show "ws = [] \<and> mutex_st m k' (Suc c) []"
    by (auto simp: mutex_st_def lock_release_def mutex_unlock_def blocking_unlock_def set_mutex_def assert_bind)
next
  fix k c q k' assume "mutex_st m k c q" "same_mutex m k k'"
  then show "mutex_st m k' c q" by (simp add: mutex_st_def same_mutex_def)
qed

subsection \<open>Semaphores\<close>

text \<open>The counter is an \<^verbatim>\<open>isize\<close>; the steps are those in which it does not overflow.\<close>

definition down_request :: "nat \<Rightarrow> kernel \<Rightarrow> nat \<Rightarrow> bool \<Rightarrow> kernel \<Rightarrow> bool" where
  "down_request i k t granted k' \<longleftrightarrow> current_task k = Some t \<and>
     (\<forall>s. index (semaphores k) i = Some s \<longrightarrow> - (2 ^ 63) < sint (sem_count s)) \<and>
     (\<exists>fs v. sem_down k i fs = Some (if granted then Return v k' else Switched k'))"

definition up_release :: "nat \<Rightarrow> kernel \<Rightarrow> nat list \<Rightarrow> kernel \<Rightarrow> bool" where
  "up_release i k woken k' \<longleftrightarrow> (\<forall>s. index (semaphores k) i = Some s \<longrightarrow> sint (sem_count s) < 2 ^ 63 - 1) \<and>
     sem_up k i = Some k' \<and> ready_queue k' = ready_queue k @ woken"

definition same_semaphore :: "nat \<Rightarrow> kernel \<Rightarrow> kernel \<Rightarrow> bool" where
  "same_semaphore i k k' \<longleftrightarrow> index (semaphores k') i = index (semaphores k) i"

definition sem_st :: "nat \<Rightarrow> kernel \<Rightarrow> nat \<Rightarrow> nat list \<Rightarrow> bool" where
  "sem_st i k c q \<longleftrightarrow> (\<exists>s. index (semaphores k) i = Some s \<and> sem_wait s = q \<and> sint (sem_count s) = int c - int (length q))"

lemma sint_step:
  fixes w :: usize
  shows "- (2 ^ 63) < sint w \<Longrightarrow> sint (w - 1) = sint w - 1" "sint w < 2 ^ 63 - 1 \<Longrightarrow> sint (w + 1) = sint w + 1"
  using sint_greater_eq [of w] sint_less [of w] by (simp_all add: sint_word_ariths signed_take_bit_int_eq_self)

interpretation sem_permits: permits "sem_st i" "down_request i" "up_release i" "same_semaphore i" for i
proof
  fix k c t g k' assume "sem_st i k (Suc c) []" "down_request i k t g k'"
  then show "g \<and> sem_st i k' c []"
    by (cases g) (auto simp: sem_st_def down_request_def sem_down_def sint_step)
next
  fix k q t g k' assume "sem_st i k 0 q" "down_request i k t g k'"
  then show "\<not> g \<and> sem_st i k' 0 (q @ [t])"
    by (cases g) (auto simp: sem_st_def down_request_def sem_down_def sint_step dest!: block_mutexes)
next
  fix k t q ws k' assume "sem_st i k 0 (t # q)" "up_release i k ws k'"
  then show "ws = [t] \<and> sem_st i k' 0 q"
    by (auto simp: sem_st_def up_release_def sem_up_def add_task_def tm_add_def sint_step split: if_splits)
next
  fix k c ws k' assume "sem_st i k c []" "up_release i k ws k'"
  then show "ws = [] \<and> sem_st i k' (Suc c) []"
    by (auto simp: sem_st_def up_release_def sem_up_def sint_step split: if_splits)
next
  fix k c q k' assume "sem_st i k c q" "same_semaphore i k k'"
  then show "sem_st i k' c q" by (simp add: sem_st_def same_semaphore_def)
qed

subsection \<open>Properties\<close>

text \<open>
  The example: task 0 takes the lock, task 1 asks for it and blocks, task 0 releases it, which wakes
  task 1.  \<open>ex_on\<close> is the kernel with a task on the processor.
\<close>

definition ex_on :: "nat \<Rightarrow> kernel \<Rightarrow> kernel" where
  "ex_on t k = k\<lparr>cpu := Some t\<rparr>"

definition ex_locks :: kernel where
  "ex_locks = (ex_kernel [ResumeNone, ResumeNone])\<lparr>mutexes := [MutexBlocking_new], semaphores := [Semaphore_new 1]\<rparr>"

lemmas ex_lock_defs = ex_on_def ex_locks_def ex_defs MutexBlocking_new_def Semaphore_new_def current_task_def
  block_current_and_run_next_def take_current_task_def get_tcb_def upd_tcb_def schedule_def add_task_def tm_add_def

lemma ex_mutex_run:
  "\<exists>k. permit_run (lock_request 0) (lock_release 0) (same_mutex 0) (ex_on 0 ex_locks) k [0, 1] [0, 1] 1"
proof -
  note step = lock_request_def lock_release_def same_mutex_def mutex_lock_def blocking_lock_def mutex_unlock_def
    blocking_unlock_def set_mutex_def index_def
  obtain k1 where 1: "lock_request 0 (ex_on 0 ex_locks) 0 True k1" "same_mutex 0 k1 (ex_on 1 k1)"
      "index (mutexes k1) 0 = Some (MutexBlocking True [])" "length (tcbs k1) = 2"
    by (simp add: step ex_lock_defs)
  obtain k2 where "mutex_lock (ex_on 1 k1) 0 [] = Some (Switched k2)" and i: "index (mutexes k2) 0 = Some (MutexBlocking True [1])"
    using 1(3,4) by (simp add: step ex_lock_defs split: if_splits)
  then have 2: "lock_request 0 (ex_on 1 k1) 1 False k2" by (auto simp: lock_request_def ex_on_def current_task_def)
  obtain k3 where 3: "lock_release 0 k2 [1] k3" using i by (simp add: step ex_lock_defs split: if_splits)
  have "permit_run (lock_request 0) (lock_release 0) (same_mutex 0) (ex_on 0 ex_locks) k3 (([] @ [0]) @ [1]) (([] @ [0]) @ [1]) (Suc 0)"
    by (rule permit_run.release [OF permit_run.wait, OF permit_run.other, OF permit_run.grant, OF permit_run.start]) (rule 1 2 3)+
  then show ?thesis by auto
qed

text \<open>
  C7 (safety).  A blocking mutex excludes: after any interleaving of \<^verbatim>\<open>lock\<close> calls, \<^verbatim>\<open>unlock\<close> calls and
  other activity that starts from a new mutex, the calls of \<^verbatim>\<open>lock\<close> that obtained the mutex exceed the
  calls of \<^verbatim>\<open>unlock\<close> by at most one; the mutex is handed over in the order of the requests; and while a
  task waits, the mutex is held, so no wake-up is lost.
\<close>

theorem mutex_excludes:
  assumes "index (mutexes k0) m = Some MutexBlocking_new"
    and "permit_run (lock_request m) (lock_release m) (same_mutex m) k0 k requests granted released"
  shows "released \<le> length granted \<and> length granted \<le> Suc released \<and>
    (\<exists>waiting. requests = granted @ waiting \<and> (waiting = [] \<or> length granted = Suc released))"
proof -
  have "mutex_st m k0 1 []" using assms(1) by (simp add: mutex_st_def MutexBlocking_new_def)
  from mutex_permits.granted [OF assms(2) this] obtain c q where
    "mutex_st m k c q" "requests = granted @ q" "length granted + c = Suc released" "q = [] \<or> c = 0" by auto
  then show ?thesis by (auto simp: mutex_st_def)
qed

theorem mutex_excludes_witness:
  "\<exists>k waiting. permit_run (lock_request 0) (lock_release 0) (same_mutex 0) (ex_on 0 ex_locks) k [0, 1] [0, 1] 1 \<and>
     length [0 :: nat, 1] \<le> Suc 1 \<and> [0, 1] = [0, 1] @ (waiting :: nat list)"
proof -
  obtain k where k: "permit_run (lock_request 0) (lock_release 0) (same_mutex 0) (ex_on 0 ex_locks) k [0, 1] [0, 1] 1"
    using ex_mutex_run by blast
  have "index (mutexes (ex_on 0 ex_locks)) 0 = Some MutexBlocking_new" by (simp add: ex_on_def ex_locks_def index_def)
  from mutex_excludes [OF this k] show ?thesis using k by auto
qed

lemma ex_semaphore_run:
  "\<exists>k. permit_run (down_request 0) (up_release 0) (same_semaphore 0) (ex_on 0 ex_locks) k [0, 1] [0] 0"
proof -
  note step = down_request_def same_semaphore_def sem_down_def index_def
  obtain k1 where 1: "down_request 0 (ex_on 0 ex_locks) 0 True k1" "same_semaphore 0 k1 (ex_on 1 k1)"
      "index (semaphores k1) 0 = Some \<lparr>sem_count = 0, sem_wait = []\<rparr>" "length (tcbs k1) = 2"
    by (simp add: step ex_lock_defs)
  obtain k2 where "sem_down (ex_on 1 k1) 0 [] = Some (Switched k2)"
    using 1(3,4) by (simp add: step ex_lock_defs split: if_splits)
  then have 2: "down_request 0 (ex_on 1 k1) 1 False k2" using 1(3) by (auto simp: down_request_def ex_on_def current_task_def)
  have "permit_run (down_request 0) (up_release 0) (same_semaphore 0) (ex_on 0 ex_locks) k2 (([] @ [0]) @ [1]) ([] @ [0]) 0"
    by (rule permit_run.wait [OF permit_run.other, OF permit_run.grant, OF permit_run.start]) (rule 1 2)+
  then show ?thesis by auto
qed

text \<open>
  C13 (functional).  A semaphore created with \<open>c\<close> resources grants exactly the first \<open>c + n\<close> requests, in
  their order, where \<open>n\<close> counts the calls of \<^verbatim>\<open>up\<close> so far, whatever the interleaving of \<^verbatim>\<open>down\<close>, \<^verbatim>\<open>up\<close> and
  other activity, as long as its counter stays within an \<^verbatim>\<open>isize\<close>.
\<close>

theorem semaphore_grants:
  assumes "index (semaphores k0) i = Some (Semaphore_new c)" and "0 \<le> sint c"
    and "permit_run (down_request i) (up_release i) (same_semaphore i) k0 k requests granted ups"
  shows "granted = take (nat (sint c) + ups) requests"
proof -
  have "sem_st i k0 (nat (sint c)) []" using assms(1,2) by (simp add: sem_st_def Semaphore_new_def)
  then show ?thesis by (rule sem_permits.granted_prefix [OF assms(3)])
qed

theorem semaphore_grants_witness:
  "\<exists>k. permit_run (down_request 0) (up_release 0) (same_semaphore 0) (ex_on 0 ex_locks) k [0, 1] [0] 0 \<and>
     [0 :: nat] = take (nat (sint (1 :: usize)) + 0) [0, 1]"
proof -
  obtain k where k: "permit_run (down_request 0) (up_release 0) (same_semaphore 0) (ex_on 0 ex_locks) k [0, 1] [0] 0"
    using ex_semaphore_run by blast
  have "index (semaphores (ex_on 0 ex_locks)) 0 = Some (Semaphore_new 1)" by (simp add: ex_on_def ex_locks_def index_def)
  from semaphore_grants [OF this _ k] show ?thesis using k by auto
qed

end
