(* ===== verification/Stack_Layout.thy ===== *)
theory Stack_Layout
  imports Task_Res
begin

text \<open>
  The address ranges that the kernel computes for the threads (os8-ref/src/task/id.rs): kernel stacks
  below the trampoline in the kernel space, and per thread a user stack and a trap context page in the
  address space of the process.  The addresses are 64-bit words computed with wrap-around; the lemmas
  give them as numbers and show that the ranges of different threads are apart.
\<close>

lemmas layout_defs = TRAMPOLINE_def TRAP_CONTEXT_def PAGE_SIZE_def KERNEL_STACK_SIZE_def USER_STACK_SIZE_def

lemma unat_mult_small: "n * unat c < 2 ^ 64 \<Longrightarrow> unat (word_of_nat n * c :: usize) = n * unat c"
proof -
  assume l: "n * unat c < 2 ^ 64"
  have "(word_of_nat n * c :: usize) = word_of_nat (n * unat c)" by simp
  then show ?thesis using l by (simp add: unat_of_nat del: of_nat_mult)
qed

lemma unat_sub_mult:
  fixes top c :: usize
  assumes "n * unat c \<le> unat top"
  shows "unat (top - word_of_nat n * c) = unat top - n * unat c"
proof -
  have "unat (word_of_nat n * c) = n * unat c" using assms unsigned_less [of top, where 'a = nat] by (intro unat_mult_small) simp
  then show ?thesis using assms by (simp add: unat_sub word_le_nat_alt)
qed

text \<open>Kernel stack \<open>i\<close>, its lowest and its end address.\<close>

lemma kernel_stack_addresses:
  assumes "i < 2 ^ 21"
  shows "unat (snd (kernel_stack_position (word_of_nat i))) = 2 ^ 64 - 4096 - i * 86016"
    "unat (fst (kernel_stack_position (word_of_nat i))) = 2 ^ 64 - 4096 - i * 86016 - 81920"
proof -
  have "unat (TRAMPOLINE - word_of_nat i * (KERNEL_STACK_SIZE + PAGE_SIZE)) = unat TRAMPOLINE - i * unat (KERNEL_STACK_SIZE + PAGE_SIZE)"
    using assms by (intro unat_sub_mult) (simp add: layout_defs)
  then have t: "unat (TRAMPOLINE - word_of_nat i * (KERNEL_STACK_SIZE + PAGE_SIZE)) = 2 ^ 64 - 4096 - i * 86016"
    by (simp add: layout_defs)
  then show "unat (snd (kernel_stack_position (word_of_nat i))) = 2 ^ 64 - 4096 - i * 86016"
    by (simp add: kernel_stack_position_def Let_def)
  have "KERNEL_STACK_SIZE \<le> TRAMPOLINE - word_of_nat i * (KERNEL_STACK_SIZE + PAGE_SIZE)"
    unfolding word_le_nat_alt t using assms by (simp add: KERNEL_STACK_SIZE_def)
  then have "unat (TRAMPOLINE - word_of_nat i * (KERNEL_STACK_SIZE + PAGE_SIZE) - KERNEL_STACK_SIZE) = 2 ^ 64 - 4096 - i * 86016 - 81920"
    by (simp only: unat_sub t) (simp add: KERNEL_STACK_SIZE_def)
  then show "unat (fst (kernel_stack_position (word_of_nat i))) = 2 ^ 64 - 4096 - i * 86016 - 81920"
    by (simp add: kernel_stack_position_def Let_def)
qed

lemma trap_cx_address:
  assumes "i < 2 ^ 21"
  shows "unat (trap_cx_bottom_from_tid i) = 2 ^ 64 - 8192 - i * 4096"
proof -
  have "unat (TRAP_CONTEXT - word_of_nat i * PAGE_SIZE) = unat TRAP_CONTEXT - i * unat PAGE_SIZE"
    using assms by (intro unat_sub_mult) (simp add: layout_defs)
  then show ?thesis by (simp add: trap_cx_bottom_from_tid_def layout_defs)
qed

lemma ustack_address:
  assumes "i < 2 ^ 21" and "unat base < 2 ^ 38"
  shows "unat (ustack_bottom_from_tid base i) = unat base + i * 12288"
proof -
  have m: "unat (word_of_nat i * (PAGE_SIZE + USER_STACK_SIZE)) = i * 12288"
    using assms(1) by (subst unat_mult_small) (simp_all add: layout_defs)
  have "unat base + i * 12288 < 2 ^ 64" using assms by simp
  then show ?thesis using m by (simp add: ustack_bottom_from_tid_def unat_word_ariths)
qed

text \<open>
  C14 (bounds).  The stacks and trap contexts of different threads do not overlap, for all ids below 2^21 and
  user stacks that start below 2^38: no address computation wraps around; a kernel stack has its full
  size, lies below the trampoline within the upper half of the Sv39 address space, and ends a page or
  more below the next one; user stacks are a page apart in the order of the thread ids; the trap
  contexts are different pages (adjacent for neighbouring ids), below the trampoline and above every
  user stack.
\<close>

theorem stacks_are_apart:
  assumes "i < j" and "j < 2 ^ 21" and "unat base < 2 ^ 38"
  shows "unat (fst (kernel_stack_position (word_of_nat i))) + unat KERNEL_STACK_SIZE = unat (snd (kernel_stack_position (word_of_nat i))) \<and>
    unat (snd (kernel_stack_position (word_of_nat j))) + unat PAGE_SIZE \<le> unat (fst (kernel_stack_position (word_of_nat i))) \<and>
    snd (kernel_stack_position (word_of_nat i)) \<le> TRAMPOLINE \<and>
    2 ^ 64 - 2 ^ 38 \<le> unat (fst (kernel_stack_position (word_of_nat j))) \<and>
    unat (ustack_bottom_from_tid base i) + unat USER_STACK_SIZE + unat PAGE_SIZE \<le> unat (ustack_bottom_from_tid base j) \<and>
    unat (trap_cx_bottom_from_tid j) + unat PAGE_SIZE \<le> unat (trap_cx_bottom_from_tid i) \<and>
    unat (trap_cx_bottom_from_tid i) + unat PAGE_SIZE \<le> unat TRAMPOLINE \<and>
    unat (ustack_bottom_from_tid base j) + unat USER_STACK_SIZE \<le> unat (trap_cx_bottom_from_tid j)"
proof -
  have i: "i < 2 ^ 21" using assms by simp
  have "unat TRAMPOLINE = 2 ^ 64 - 4096" "unat KERNEL_STACK_SIZE = 81920" "unat PAGE_SIZE = 4096" "unat USER_STACK_SIZE = 8192"
    by (simp_all add: layout_defs)
  moreover have "j * 86016 + 86016 \<le> 2 ^ 38" "j * 16384 + 16384 \<le> 2 ^ 38" "Suc i * 86016 \<le> j * 86016" "Suc i * 4096 \<le> j * 4096"
    "Suc i * 12288 \<le> j * 12288" using assms by simp_all
  ultimately show ?thesis
    unfolding word_le_nat_alt kernel_stack_addresses [OF i] kernel_stack_addresses [OF assms(2)] trap_cx_address [OF i]
      trap_cx_address [OF assms(2)] ustack_address [OF i assms(3)] ustack_address [OF assms(2,3)]
    using assms(3) by (intro conjI; simp; linarith?)
qed

theorem stacks_are_apart_witness:
  "unat (snd (kernel_stack_position (word_of_nat 7))) + unat PAGE_SIZE \<le> unat (fst (kernel_stack_position (word_of_nat 3))) \<and>
   unat (ustack_bottom_from_tid 0x12000 3) + unat USER_STACK_SIZE + unat PAGE_SIZE \<le> unat (ustack_bottom_from_tid 0x12000 7)"
  using stacks_are_apart [of 3 7 "0x12000"] by simp

end
