(* ===== verification/Kernel_Errors.thy ===== *)
theory Kernel_Errors
  imports Kernel_Example
begin

text \<open>
  Two ways in which a user program makes the kernel fail or skip a check: descriptors are used in the
  wrong direction, because the system calls never ask a file whether it is readable or writable; and the
  main thread exits while another thread of its process is in the ready queue, which leaves the scheduler
  with a task that has no user resources.
\<close>

subsection \<open>Directions of files\<close>

fun is_regular :: "File \<Rightarrow> bool" where
  "is_regular (Regular i) = True"
| "is_regular _ = False"

fun outcome_disk :: "outcome \<Rightarrow> usize option \<times> disk" where
  "outcome_disk (Return v k) = (Some v, kdisk k)"
| "outcome_disk (Switched k) = (None, kdisk k)"

lemma inode_write_ignores:
  "map_option (\<lambda>(n, i, d). (n, d)) (inode_write fs d s (i\<lparr>oi_writable := b\<rparr>) ub) =
   map_option (\<lambda>(n, i, d). (n, d)) (inode_write fs d s i ub)"
  by (cases "inode_write_loop fs d s (oi_inode i) (oi_offset i) 0 ub") (auto simp: inode_write_def)

lemma fd_files [simp]:
  "get_proc (k\<lparr>files := fl\<rparr>) p = get_proc k p"
  "fd_lookup (k\<lparr>files := fl\<rparr>) fd = fd_lookup k fd" "current_user_token (k\<lparr>files := fl\<rparr>) = current_user_token k"
proof -
  show p: "get_proc (k\<lparr>files := fl\<rparr>) p = get_proc k p" for p by (simp add: get_proc_def)
  show "fd_lookup (k\<lparr>files := fl\<rparr>) fd = fd_lookup k fd" "current_user_token (k\<lparr>files := fl\<rparr>) = current_user_token k"
    by (simp_all add: fd_lookup_def current_process_def current_user_token_def get_user_token_def current_task_def get_tcb_def p)
qed

lemma file_write_regular:
  assumes "index (files k) f = Some (Regular i)"
  shows "map_option outcome_disk (file_write k fs f ub) =
    map_option (\<lambda>(n, d). (Some (word_of_nat n), d)) (map_option (\<lambda>(n, i, d). (n, d)) (inode_write (kfs k) (kdisk k) (kmm k) i ub))"
  using assms by (auto simp: file_write_def option.map_comp split: bind_splits option.splits)

lemma file_write_flag:
  assumes "index (files k) f = Some (Regular i)"
  shows "map_option outcome_disk (file_write (k\<lparr>files := (files k)[f := Regular (i\<lparr>oi_writable := b\<rparr>)]\<rparr>) fs f ub) =
    map_option outcome_disk (file_write k fs f ub)"
proof -
  have "index ((files k)[f := Regular (i\<lparr>oi_writable := b\<rparr>)]) f = Some (Regular (i\<lparr>oi_writable := b\<rparr>))"
    using assms by (simp add: index_def split: if_splits)
  then show ?thesis using assms by (simp add: file_write_regular inode_write_ignores)
qed

lemma wrong_direction_write: "index (files k) f = Some fl \<Longrightarrow> \<not> writable fl \<Longrightarrow> \<not> is_regular fl \<Longrightarrow> file_write k fs f ub = None"
  by (cases fl) (auto simp: file_write_def writable_def)

lemma wrong_direction_read: "index (files k) f = Some fl \<Longrightarrow> \<not> readable fl \<Longrightarrow> \<not> is_regular fl \<Longrightarrow> file_read k fs f ub = None"
  by (cases fl) (auto simp: file_read_def readable_def)

lemma bind_map_cong: "(\<And>x. m = Some x \<Longrightarrow> map_option f (g x) = map_option f (h x)) \<Longrightarrow> map_option f (m \<bind> g) = map_option f (m \<bind> h)"
  by (cases m) auto

text \<open>
  C22 (error).  The system calls do not ask a file for its direction.  Writing to a descriptor that is not
  writable, or reading from one that is not readable, makes the kernel panic when the descriptor is a
  console or a pipe end, where -1 could be returned; and a regular file that was opened without permission
  to write is written all the same: the value returned and the disk afterwards do not depend on the
  permission.
\<close>

theorem direction_not_checked:
  assumes "fd_lookup k fd = Some (p, Some f)" and "index (files k) f = Some fl"
  shows "(\<not> is_regular fl \<and> \<not> writable fl \<longrightarrow> sys_write k fs fd buf len = None) \<and>
    (\<not> is_regular fl \<and> \<not> readable fl \<longrightarrow> sys_read k fs fd buf len = None) \<and>
    (\<forall>i b. fl = Regular i \<longrightarrow>
       map_option outcome_disk (sys_write (k\<lparr>files := (files k)[f := Regular (i\<lparr>oi_writable := b\<rparr>)]\<rparr>) fs fd buf len) =
       map_option outcome_disk (sys_write k fs fd buf len))"
proof (intro conjI impI allI)
  assume "\<not> is_regular fl \<and> \<not> writable fl"
  then show "sys_write k fs fd buf len = None" using assms by (auto simp: sys_write_def wrong_direction_write split: bind_splits)
next
  assume "\<not> is_regular fl \<and> \<not> readable fl"
  then show "sys_read k fs fd buf len = None" using assms by (auto simp: sys_read_def wrong_direction_read split: bind_splits)
next
  fix i b assume i: "fl = Regular i"
  let ?k = "k\<lparr>files := (files k)[f := Regular (i\<lparr>oi_writable := b\<rparr>)]\<rparr>"
  have "map_option outcome_disk (file_write ?k fs' f ub) = map_option outcome_disk (file_write k fs' f ub)" for fs' ub
    using file_write_flag assms(2) i by blast
  then show "map_option outcome_disk (sys_write ?k fs fd buf len) = map_option outcome_disk (sys_write k fs fd buf len)"
    using assms(1) by (auto simp: sys_write_def intro!: bind_map_cong)
qed

theorem direction_not_checked_witness:
  "sys_write ((ex_kernel [ResumeNone])\<lparr>cpu := Some 0\<rparr>) [FSyscall] 0 0x1000 4 = None"
proof -
  let ?k = "(ex_kernel [ResumeNone])\<lparr>cpu := Some 0\<rparr>"
  have "fd_lookup ?k 0 = Some (0, Some 0)" "index (files ?k) 0 = Some Stdin"
    by (simp_all add: fd_lookup_def current_process_def current_task_def get_tcb_def get_proc_def index_def ex_defs)
  from direction_not_checked [OF this] show ?thesis by (simp add: writable_def)
qed

subsection \<open>Exit of the main thread\<close>

text \<open>What the destructors leave of the tasks: where they continue, and that they have no resources.\<close>

definition keeps_tasks :: "kernel \<Rightarrow> kernel \<Rightarrow> bool" where
  "keeps_tasks k k' \<longleftrightarrow> length (tcbs k') = length (tcbs k) \<and> ready_queue k' = ready_queue k \<and>
     (\<forall>t < length (tcbs k). cx_ra (t_task_cx (tcbs k' ! t)) = cx_ra (t_task_cx (tcbs k ! t)) \<and>
        (t_res (tcbs k ! t) = None \<longrightarrow> t_res (tcbs k' ! t) = None)) \<and>
     length (pcbs k') = length (pcbs k) \<and> (\<forall>p < length (pcbs k). p_tasks (pcbs k' ! p) = p_tasks (pcbs k ! p))"

lemma keeps_refl [simp]: "keeps_tasks k k"
  by (simp add: keeps_tasks_def)

lemma keeps_trans: "keeps_tasks a b \<Longrightarrow> keeps_tasks b c \<Longrightarrow> keeps_tasks a c"
  by (simp add: keeps_tasks_def)

lemma keeps_plain [simp]:
  "keeps_tasks k (k'\<lparr>kmm := s\<rparr>) = keeps_tasks k k'" "keeps_tasks k (k'\<lparr>kspace := ks\<rparr>) = keeps_tasks k k'"
  "keeps_tasks k (k'\<lparr>pid_allocator := a\<rparr>) = keeps_tasks k k'" "keeps_tasks k (k'\<lparr>cpu := c\<rparr>) = keeps_tasks k k'"
  by (simp_all add: keeps_tasks_def)

lemma nth_update_in: "j < length xs \<Longrightarrow> xs[i := v] ! j = (if i = j then v else xs ! j)"
  by (cases "i = j") auto

lemma keeps_upd_proc: "(\<And>pcb. p_tasks (f pcb) = p_tasks pcb) \<Longrightarrow> keeps_tasks k (upd_proc k p f)"
  by (auto simp: keeps_tasks_def upd_proc_def nth_update_in)

lemma keeps_upd_tcb:
  "(\<And>tcb. cx_ra (t_task_cx (f tcb)) = cx_ra (t_task_cx tcb) \<and> (t_res tcb = None \<longrightarrow> t_res (f tcb) = None)) \<Longrightarrow>
   keeps_tasks k (upd_tcb k t f)"
  by (auto simp: keeps_tasks_def upd_tcb_def nth_update_in)

lemma proc_remove_area_keeps: "proc_remove_area k p a = Some k' \<Longrightarrow> keeps_tasks k k'"
  by (auto simp: proc_remove_area_def upd_proc_def keeps_tasks_def nth_update_in split: bind_splits)

lemma res_drop_keeps:
  assumes "res_drop k res = Some k'"
  shows "keeps_tasks k k'"
proof -
  obtain k1 k2 a b where "dealloc_tid k (r_process res) (r_tid res) = Some k1"
    and 2: "proc_remove_area k1 (r_process res) a = Some k2" "proc_remove_area k2 (r_process res) b = Some k'"
    using assms by (auto simp: res_drop_def dealloc_user_res_def split: bind_splits)
  then have "keeps_tasks k k1" by (auto simp: dealloc_tid_def intro!: keeps_upd_proc split: bind_splits)
  then show ?thesis using 2 by (blast intro: keeps_trans proc_remove_area_keeps)
qed

lemma task_destroy_keeps:
  assumes "task_destroy k t = Some k'"
  shows "keeps_tasks k k'"
proof -
  let ?f = "\<lambda>tcb. tcb\<lparr>t_live := False, t_res := None\<rparr>"
  obtain tcb k1 where t: "get_tcb k t = Some tcb" and 1: "kernel_stack_drop k (t_kernel_stack tcb) = Some k1"
    using assms by (auto simp: task_destroy_def split: bind_splits)
  then have 2: "(case t_res tcb of None \<Rightarrow> Some (upd_tcb k1 t ?f) | Some res \<Rightarrow> res_drop (upd_tcb k1 t ?f) res) = Some k'"
    using assms by (simp add: task_destroy_def Let_def)
  have "keeps_tasks k k1" using 1 by (auto simp: kernel_stack_drop_def split: bind_splits prod.splits)
  moreover have "keeps_tasks k1 (upd_tcb k1 t ?f)" by (intro keeps_upd_tcb) simp
  moreover have "keeps_tasks (upd_tcb k1 t ?f) k'" using 2 by (auto dest: res_drop_keeps split: option.splits)
  ultimately show ?thesis by (blast intro: keeps_trans)
qed

lemma drop_task_keeps: "drop_task k t = Some k' \<Longrightarrow> keeps_tasks k k'"
  by (auto simp: drop_task_def task_destroy_keeps split: bind_splits if_splits)

lemma drop_tasks_keeps: "drop_tasks k ts = Some k' \<Longrightarrow> keeps_tasks k k'"
proof (induction k ts rule: drop_tasks.induct)
  case (2 k t ts)
  then obtain k1 where "drop_task k t = Some k1" "drop_tasks k1 ts = Some k'" by (auto split: bind_splits)
  then show ?case using 2 drop_task_keeps keeps_trans by blast
qed simp

lemma process_destroy_keeps: "process_destroy k p = Some (w, k') \<Longrightarrow> keeps_tasks k k'"
  by (auto simp: process_destroy_def pid_drop_def Let_def intro!: keeps_upd_proc split: bind_splits)

lemma drop_items_keeps: "drop_items k w = Some k' \<Longrightarrow> keeps_tasks k k'"
proof (induction k w rule: drop_items.induct)
  case (2 k ts w)
  then obtain k1 where "drop_tasks k ts = Some k1" "drop_items k1 w = Some k'" by (auto split: option.splits)
  then show ?case using 2 drop_tasks_keeps keeps_trans by blast
next
  case (3 k p w)
  show ?case
  proof (cases "p \<in> set (proc_refs k) \<or> get_proc k p = None")
    case True
    then show ?thesis using 3 by simp
  next
    case False
    then obtain items k1 where d: "process_destroy k p = Some (items, k1)" "drop_items k1 (items @ w) = Some k'"
      using 3(3) by (auto split: option.splits)
    then show ?thesis using 3(2) [OF False d(1) refl] process_destroy_keeps keeps_trans by blast
  qed
qed simp

lemma drop_all_procs_keeps: "drop_all_procs k ps = Some k' \<Longrightarrow> keeps_tasks k k'"
proof (induction k ps rule: drop_all_procs.induct)
  case (2 k p ps)
  then obtain k1 where "drop_process k p = Some k1" "drop_all_procs k1 ps = Some k'" by (auto split: bind_splits)
  then show ?case using 2 drop_items_keeps keeps_trans unfolding drop_process_def by blast
qed simp

lemma drop_res_keeps: "drop_res k rs = Some k' \<Longrightarrow> keeps_tasks k k'"
proof (induction k rs rule: drop_res.induct)
  case (2 k r rs)
  then obtain k1 where "res_drop k r = Some k1" "drop_res k1 rs = Some k'" by (auto split: bind_splits)
  then show ?case using 2 res_drop_keeps keeps_trans by blast
qed simp

lemma reparent_keeps: "reparent k ip cs = Some k' \<Longrightarrow> keeps_tasks k k'"
proof (induction k ip cs rule: reparent.induct)
  case (2 k ip c cs)
  let ?k1 = "upd_proc k c (\<lambda>pcb. pcb\<lparr>p_parent := Some ip\<rparr>)"
  let ?k2 = "upd_proc ?k1 ip (\<lambda>pcb. pcb\<lparr>p_children := p_children pcb @ [c]\<rparr>)"
  have "keeps_tasks k ?k1" "keeps_tasks ?k1 ?k2" by (simp_all add: keeps_upd_proc)
  moreover have "keeps_tasks ?k2 k'" using 2 by (auto simp: Let_def split: bind_splits)
  ultimately show ?case by (blast intro: keeps_trans)
qed simp

lemma take_res_keeps:
  "take_res k ts = (rs, k') \<Longrightarrow> keeps_tasks k k' \<and> (\<forall>t \<in> set ts. t < length (tcbs k) \<longrightarrow> t_res (tcbs k' ! t) = None)"
proof (induction k ts arbitrary: rs k' rule: take_res.induct)
  case (2 k t ts)
  let ?k1 = "upd_tcb k t (\<lambda>tcb. tcb\<lparr>t_res := None\<rparr>)"
  obtain rs' where r: "take_res ?k1 ts = (rs', k')" using 2(2) by (auto split: prod.splits)
  have 1: "keeps_tasks k ?k1" by (intro keeps_upd_tcb) simp
  have k': "keeps_tasks ?k1 k'" and ts: "\<forall>t \<in> set ts. t < length (tcbs ?k1) \<longrightarrow> t_res (tcbs k' ! t) = None" using 2(1) [OF r] by auto
  have l: "length (tcbs ?k1) = length (tcbs k)" and "t < length (tcbs k) \<Longrightarrow> t_res (tcbs ?k1 ! t) = None" by (simp_all add: upd_tcb_def)
  then have "t < length (tcbs k) \<Longrightarrow> t_res (tcbs k' ! t) = None" using k' unfolding keeps_tasks_def by simp
  then show ?case using keeps_trans [OF 1 k'] ts l by simp
qed simp

text \<open>After the exit of a process, no thread of it has user resources, and no task continues elsewhere.\<close>

lemma exit_process_takes:
  assumes e: "exit_process k p code = Some k'" and pcb: "get_proc k p = Some pcb"
    and t: "Some t \<in> set (p_tasks pcb)" "t < length (tcbs k)"
  shows "keeps_tasks k k' \<and> t_res (tcbs k' ! t) = None"
proof -
  let ?k1 = "upd_proc k p (\<lambda>pcb. pcb\<lparr>p_zombie := True, p_exit_code := code\<rparr>)"
  note sofar = exit_process_def Let_def pcb
  obtain ip k2 where ip: "initproc ?k1 = Some ip" "ip \<noteq> p" and 2: "reparent ?k1 ip (p_children pcb) = Some k2"
    using e by (auto simp: sofar assert_bind split: bind_splits)
  obtain rs k3 where 3: "take_res k2 (somes (p_tasks pcb)) = (rs, k3)" by fastforce
  obtain k4 where 4: "drop_res k3 rs = Some k4" using e by (auto simp: sofar ip 2 3 assert_bind split: bind_splits)
  let ?k5 = "upd_proc k4 p (\<lambda>pcb. pcb\<lparr>p_children := []\<rparr>)"
  obtain k6 where 6: "drop_all_procs ?k5 (p_children pcb) = Some k6" using e by (auto simp: sofar ip 2 3 4 assert_bind split: bind_splits)
  obtain s ms where 7: "k' = upd_proc (k6\<lparr>kmm := s\<rparr>) p (\<lambda>pcb. pcb\<lparr>p_memory_set := ms, p_fd_table := []\<rparr>)"
    using e by (auto simp: sofar ip 2 3 4 6 assert_bind split: bind_splits)
  have a: "keeps_tasks k k2" using keeps_trans [OF keeps_upd_proc reparent_keeps [OF 2]] by simp
  have b: "keeps_tasks k2 k3" and r: "\<forall>t \<in> set (somes (p_tasks pcb)). t < length (tcbs k2) \<longrightarrow> t_res (tcbs k3 ! t) = None"
    using take_res_keeps [OF 3] by auto
  have "keeps_tasks (k6\<lparr>kmm := s\<rparr>) k'" unfolding 7 by (rule keeps_upd_proc) simp
  then have "keeps_tasks k6 k'" by (simp add: keeps_tasks_def)
  then have c: "keeps_tasks k3 k'"
    using keeps_trans [OF keeps_trans [OF drop_res_keeps [OF 4] keeps_upd_proc] drop_all_procs_keeps [OF 6]] keeps_trans by fastforce
  have "t \<in> set (somes (p_tasks pcb))" using t(1) by (auto simp: somes_def)
  then have "t_res (tcbs k3 ! t) = None" using r t(2) a by (simp add: keeps_tasks_def)
  then show ?thesis using keeps_trans [OF keeps_trans [OF a b] c] c t(2) a b by (simp add: keeps_tasks_def)
qed

lemma exit_current_takes:
  assumes e: "exit_current_and_run_next k code = Some k'" and c: "cpu k = Some t" "get_tcb k t = Some tcb"
    and res: "t_res tcb = Some res" "r_tid res = 0" and pcb: "get_proc k (t_process tcb) = Some pcb"
    and t': "Some t' \<in> set (p_tasks pcb)" "t' < length (tcbs k)"
  shows "keeps_tasks k k' \<and> t_res (tcbs k' ! t') = None"
proof -
  let ?k0 = "k\<lparr>cpu := None\<rparr>"
  let ?k1 = "upd_tcb ?k0 t (\<lambda>tcb. tcb\<lparr>t_exit_code := Some code, t_res := None\<rparr>)"
  have c0: "get_tcb ?k0 t = Some tcb" using c by (simp add: get_tcb_def)
  note sofar = exit_current_and_run_next_def take_current_task_def Let_def c c0 res
  obtain k2 where 2: "res_drop ?k1 res = Some k2" using e by (auto simp: sofar split: bind_splits)
  obtain k3 where 3: "drop_task k2 t = Some k3" using e by (auto simp: sofar 2 split: bind_splits)
  obtain k4 where 4: "exit_process k3 (t_process tcb) code = Some k4" using e by (auto simp: sofar 2 3 split: bind_splits)
  have 5: "drop_process k4 (t_process tcb) = Some k'" using e by (auto simp: sofar 2 3 4 split: bind_splits)
  have "keeps_tasks k ?k0" "keeps_tasks ?k0 ?k1" by (simp, rule keeps_upd_tcb, simp)
  then have k3: "keeps_tasks k k3" using res_drop_keeps [OF 2] drop_task_keeps [OF 3] by (blast intro: keeps_trans)
  obtain pcb3 where p3: "get_proc k3 (t_process tcb) = Some pcb3" using 4 by (auto simp: exit_process_def split: bind_splits)
  have "p_tasks pcb3 = p_tasks pcb" using p3 pcb k3 by (auto simp: get_proc_def keeps_tasks_def split: if_splits)
  then have 6: "keeps_tasks k3 k4 \<and> t_res (tcbs k4 ! t') = None"
    using exit_process_takes [OF 4 p3] t' k3 by (simp add: keeps_tasks_def)
  have "keeps_tasks k4 k'" using 5 drop_items_keeps by (auto simp: drop_process_def simp del: drop_items.simps)
  then show ?thesis using 6 k3 keeps_trans t'(2) by (auto simp: keeps_tasks_def)
qed

text \<open>
  C21 (error).  When the main thread of a process exits while another thread of the process is next in the
  ready queue, preempted or not started yet, the kernel panics at the next dispatch: the exit takes the
  user resources of every thread but leaves the thread in the queue, and returning to user mode needs them.
\<close>

theorem exit_strands_ready_thread:
  assumes "exit_current_and_run_next k code = Some k'" and "cpu k = Some t" and "get_tcb k t = Some tcb"
    and "t_res tcb = Some res" and "r_tid res = 0" and "get_proc k (t_process tcb) = Some pcb"
    and "Some t' \<in> set (p_tasks pcb)" and "get_tcb k t' = Some tcb'" and "ready_queue k = t' # ts"
    and "cx_ra (t_task_cx tcb') = GotoTrapReturn \<or> cx_ra (t_task_cx tcb') = ResumeAt [FTrap]"
  shows "run_next k' = None"
proof -
  have t': "t' < length (tcbs k)" "tcb' = tcbs k ! t'" using assms(8) by (auto simp: get_tcb_def index_Some)
  have k: "keeps_tasks k k'" and r: "t_res (tcbs k' ! t') = None"
    using exit_current_takes [OF assms(1-7) t'(1)] by auto
  have l: "t' < length (tcbs k')" "ready_queue k' = t' # ts"
    "cx_ra (t_task_cx (tcbs k' ! t')) = GotoTrapReturn \<or> cx_ra (t_task_cx (tcbs k' ! t')) = ResumeAt [FTrap]"
    using k t' assms(9,10) by (simp_all add: keeps_tasks_def)
  have "trap_return (schedule ((upd_tcb (k'\<lparr>ready_queue := ts\<rparr>) t' f)\<lparr>cpu := Some t'\<rparr>) t' ResumeNone) = None"
    if "\<And>tcb. t_res (f tcb) = t_res tcb" for f
    using that l(1) r by (simp add: trap_return_def current_trap_cx_user_va_def current_task_def get_tcb_def index_def schedule_def upd_tcb_def)
  then show ?thesis using l by (auto simp: run_next_def fetch_task_def tm_fetch_def get_tcb_def index_def Let_def)
qed

text \<open>The example: process 0 with two threads, the main thread on the processor, and process 1 as \<^verbatim>\<open>INITPROC\<close>.\<close>

definition ex_two_threads :: kernel where
  "ex_two_threads = (ex_kernel [ResumeNone, GotoTrapReturn])\<lparr>cpu := Some 0, ready_queue := [1],
     pcbs := [ex_pcb [0, 1], (ex_pcb [])\<lparr>p_children := [0]\<rparr>], initproc := Some 1\<rparr>"

lemma ex_addresses:
  "vpn_of_va (ustack_bottom_from_tid 0 0) \<noteq> None" "vpn_of_va (ustack_bottom_from_tid 0 (Suc 0)) \<noteq> None"
  "vpn_of_va (trap_cx_bottom_from_tid 0) \<noteq> None" "vpn_of_va (trap_cx_bottom_from_tid (Suc 0)) \<noteq> None"
  by code_simp+

lemma ex_exits: "\<exists>k'. exit_current_and_run_next ex_two_threads 0 = Some k'"
  using ex_addresses
  by (auto simp add: ex_two_threads_def ex_defs exit_current_and_run_next_def take_current_task_def get_tcb_def index_def get_proc_def
      upd_tcb_def res_drop_def dealloc_tid_def ra_dealloc_def upd_proc_def dealloc_user_res_def proc_remove_area_def
      remove_area_with_start_vpn_def drop_task_def Let_def
      task_refs_def live_procs_def somes_def all_frames_def exit_process_def proc_refs_def recycle_data_pages_def drop_process_def
      simp del: set_concat set_filter set_map)

theorem exit_strands_ready_thread_witness:
  "\<exists>k'. exit_current_and_run_next ex_two_threads 0 = Some k' \<and> run_next k' = None"
proof -
  obtain k' where k': "exit_current_and_run_next ex_two_threads 0 = Some k'" using ex_exits by blast
  have "run_next k' = None"
    by (rule exit_strands_ready_thread [OF k', of 0 "ex_tcb 0 ResumeNone" "\<lparr>r_tid = 0, r_ustack_base = 0, r_process = 0\<rparr>"
          "ex_pcb [0, 1]" 1 "ex_tcb 1 GotoTrapReturn" "[]"])
      (simp_all add: ex_two_threads_def ex_defs get_tcb_def index_def get_proc_def)
  then show ?thesis using k' by blast
qed

end
