(* ===== verification/Fd_Table.thy ===== *)
theory Fd_Table
  imports Kernel_Example
begin

text \<open>
  The descriptor table of a process (os8-ref/src/task/process.rs, syscall/fs.rs): \<^verbatim>\<open>alloc_fd\<close> gives the
  lowest free descriptor, and duplicating and closing descriptors change the table at one place.
\<close>

text \<open>Descriptor \<open>fd\<close> of the current process, as the system calls see it.\<close>

definition fd_file :: "kernel \<Rightarrow> nat \<Rightarrow> nat option" where
  "fd_file k fd =
     (case current_process k of None \<Rightarrow> None | Some p \<Rightarrow>
        (let tbl = p_fd_table (pcbs k ! p) in if fd < length tbl then tbl ! fd else None))"

lemma alloc_fd_least:
  assumes "alloc_fd tbl = (fd, tbl')"
  shows "fd < length tbl'" "tbl' ! fd = None" "\<And>i. i < fd \<Longrightarrow> i < length tbl \<and> tbl ! i \<noteq> None"
    "\<And>i. (if i < length tbl' then tbl' ! i else None) = (if i < length tbl then tbl ! i else None)"
  using assms by (auto simp: alloc_fd_def find_idx_Some find_idx_None nth_append split: option.splits if_splits)

lemma bind_const: "(x \<bind> (\<lambda>_. Some y)) = (if x = None then None else Some y)"
  by (cases x) auto

lemma current_process_alt:
  "current_process k = do { t \<leftarrow> cpu k; tcb \<leftarrow> get_tcb k t; if get_proc k (t_process tcb) = None then None else Some (t_process tcb) }"
  by (simp add: current_process_def current_task_def bind_const)

lemma current_process_upd:
  assumes "\<And>pcb. p_live (f pcb) = p_live pcb"
  shows "current_process (upd_proc k p f) = current_process k"
proof -
  have "p_live (pcbs (upd_proc k p f) ! q) = p_live (pcbs k ! q)" if "q < length (pcbs k)" for q
    using that assms by (cases "q = p") (simp_all add: upd_proc_def)
  then have "(get_proc (upd_proc k p f) q = None) = (get_proc k q = None)" for q by (auto simp: get_proc_def upd_proc_def)
  moreover have "get_tcb (upd_proc k p f) t = get_tcb k t" "cpu (upd_proc k p f) = cpu k" for t by (simp_all add: get_tcb_def upd_proc_def)
  ultimately show ?thesis by (simp only: current_process_alt)
qed

lemma current_process_live: "current_process k = Some p \<Longrightarrow> p < length (pcbs k) \<and> get_proc k p = Some (pcbs k ! p)"
  by (auto simp: current_process_def get_proc_def split: bind_splits if_splits)

lemma fd_file_upd:
  assumes "current_process k = Some p"
  shows "fd_file (upd_proc k p (\<lambda>pcb. pcb\<lparr>p_fd_table := tbl\<rparr>)) i = (if i < length tbl then tbl ! i else None)"
  using assms current_process_live [OF assms] by (simp add: fd_file_def current_process_upd) (simp add: upd_proc_def)

lemma fd_lookup_file: "current_process k = Some p \<Longrightarrow> fd_lookup k fd = Some (p, fd_file k (unat fd))"
  by (auto simp: fd_lookup_def fd_file_def current_process_live Let_def)

lemma dup_installs:
  assumes p: "current_process k = Some p" and f: "fd_file k (unat fd) = Some f"
  shows "\<exists>new k'. sys_dup k fd = Some (Return (word_of_nat new) k') \<and> current_process k' = Some p \<and>
    fd_file k new = None \<and> (\<forall>i < new. fd_file k i \<noteq> None) \<and> (\<forall>i. fd_file k' i = (if i = new then Some f else fd_file k i))"
proof -
  obtain new tbl where a: "alloc_fd (p_fd_table (pcbs k ! p)) = (new, tbl)" by fastforce
  note least = alloc_fd_least [OF a]
  let ?k = "upd_proc k p (\<lambda>pcb. pcb\<lparr>p_fd_table := tbl[new := Some f]\<rparr>)"
  have d: "sys_dup k fd = Some (Return (word_of_nat new) ?k)"
    using f a by (simp add: sys_dup_def fd_lookup_file [OF p] install_fd_def current_process_live [OF p])
  have k: "fd_file k i = (if i < length tbl then tbl ! i else None)" for i
    using p least(4) [of i] by (simp add: fd_file_def Let_def)
  have "fd_file ?k i = (if i = new then Some f else fd_file k i)" for i
    using least(1) unfolding fd_file_upd [OF p] k by auto
  moreover have "fd_file k new = None" using least(1,2) by (simp add: k)
  moreover have "fd_file k i \<noteq> None" if "i < new" for i using least(3) [OF that] p by (simp add: fd_file_def)
  ultimately show ?thesis using d p by (intro exI [of _ new] exI [of _ ?k]) (simp add: current_process_upd)
qed

text \<open>
  C15 (functional).  \<^verbatim>\<open>sys_dup\<close> on a free or unknown descriptor returns -1 and changes nothing; on an open
  one it returns the lowest free descriptor, which then denotes the same file while every other
  descriptor denotes what it did; and closing the new descriptor gives back the table as it was.
\<close>

theorem sys_dup_close:
  assumes "current_process k = Some p"
  shows "(fd_file k (unat fd) = None \<longrightarrow> sys_dup k fd = Some (Return (- 1) k)) \<and>
    (\<forall>f. fd_file k (unat fd) = Some f \<longrightarrow>
      (\<exists>new k'. sys_dup k fd = Some (Return (word_of_nat new) k') \<and> fd_file k new = None \<and> (\<forall>i < new. fd_file k i \<noteq> None) \<and>
         (\<forall>i. fd_file k' i = (if i = new then Some f else fd_file k i)) \<and>
         (new < 2 ^ 64 \<longrightarrow>
           (\<exists>k''. sys_close k' (word_of_nat new) = Some (Return 0 k'') \<and> (\<forall>i. fd_file k'' i = fd_file k i)))))"
proof (intro conjI allI impI)
  assume "fd_file k (unat fd) = None"
  then show "sys_dup k fd = Some (Return (- 1) k)" by (simp add: sys_dup_def fd_lookup_file [OF assms])
next
  fix f assume "fd_file k (unat fd) = Some f"
  from dup_installs [OF assms this] obtain new k' where d: "sys_dup k fd = Some (Return (word_of_nat new) k')"
    and p': "current_process k' = Some p" and new: "fd_file k new = None" "\<forall>i < new. fd_file k i \<noteq> None"
    and k': "\<And>i. fd_file k' i = (if i = new then Some f else fd_file k i)" by blast
  have "\<exists>k''. sys_close k' (word_of_nat new) = Some (Return 0 k'') \<and> (\<forall>i. fd_file k'' i = fd_file k i)" if "new < 2 ^ 64"
  proof -
    have u: "unat (word_of_nat new :: usize) = new" using that by (simp add: unat_of_nat)
    let ?k = "upd_proc k' p (\<lambda>pcb. pcb\<lparr>p_fd_table := (p_fd_table pcb)[new := None]\<rparr>)"
    have c: "sys_close k' (word_of_nat new) = Some (Return 0 ?k)" using k' by (simp add: sys_close_def fd_lookup_file [OF p'] u)
    have "fd_file ?k i = (if i = new then None else fd_file k' i)" for i
      using p' current_process_live [OF p'] by (auto simp: fd_file_def current_process_upd) (auto simp: upd_proc_def Let_def nth_list_update)
    then show ?thesis using c k' new(1) by (intro exI [of _ ?k]) simp
  qed
  then show "\<exists>new k'. sys_dup k fd = Some (Return (word_of_nat new) k') \<and> fd_file k new = None \<and> (\<forall>i < new. fd_file k i \<noteq> None) \<and>
         (\<forall>i. fd_file k' i = (if i = new then Some f else fd_file k i)) \<and>
         (new < 2 ^ 64 \<longrightarrow>
           (\<exists>k''. sys_close k' (word_of_nat new) = Some (Return 0 k'') \<and> (\<forall>i. fd_file k'' i = fd_file k i)))"
    using d new k' by (intro exI [of _ new] exI [of _ k']) blast
qed

theorem sys_dup_close_witness:
  "\<exists>new k'. sys_dup ((ex_kernel [ResumeNone])\<lparr>cpu := Some 0\<rparr>) 1 = Some (Return (word_of_nat new) k') \<and> fd_file k' new = Some 1"
proof -
  let ?k = "(ex_kernel [ResumeNone])\<lparr>cpu := Some 0\<rparr>"
  have p: "current_process ?k = Some 0" by (simp add: current_process_def current_task_def get_tcb_def index_def get_proc_def ex_defs)
  then have "fd_file ?k (unat (1 :: usize)) = Some 1" by (simp add: fd_file_def) (simp add: ex_defs)
  then show ?thesis using sys_dup_close [OF p, of 1] by auto
qed

end
