(* ===== verification/Multiprog.thy ===== *)
theory Multiprog
  imports Trap_Context Layout
begin

text \<open>
  The multiprogramming kernel with task statistics (os3/src/): applications are copied to fixed places in
  physical memory, a task manager switches between them round robin, on \<^verbatim>\<open>yield\<close> and on timer interrupts,
  and counts the system calls of each task for \<^verbatim>\<open>sys_task_info\<close>.

  There is no address translation: memory is a function from addresses to bytes.  The trap context of an
  application is at the top of its kernel stack.  \<open>TaskContext\<close> keeps, instead of the saved \<^verbatim>\<open>ra\<close>, the place
  where the task continues: in \<^verbatim>\<open>__restore\<close> when it was never run, after the call of
  \<^verbatim>\<open>suspend_current_and_run_next\<close> in \<^verbatim>\<open>sys_yield\<close> or in the timer branch of the trap handler, or after the
  call of \<^verbatim>\<open>exit_current_and_run_next\<close> in the branch of a fault or in \<^verbatim>\<open>sys_exit\<close>; the callee-saved registers belong to those places.  A panic, also the one that ends the system when all
  applications have completed, is \<^const>\<open>None\<close>.
\<close>

subsection \<open>Configuration and timer\<close>

definition USER_STACK_SIZE3 :: usize where "USER_STACK_SIZE3 = 4096"
definition KERNEL_STACK_SIZE3 :: usize where "KERNEL_STACK_SIZE3 = 4096 * 20"
definition MAX_APP_NUM :: nat where "MAX_APP_NUM = 16"
definition APP_BASE_ADDRESS :: usize where "APP_BASE_ADDRESS = 0x80400000"
definition APP_SIZE_LIMIT :: usize where "APP_SIZE_LIMIT = 0x20000"
definition CLOCK_FREQ3 :: usize where "CLOCK_FREQ3 = 12500000"
definition MAX_SYSCALL_NUM :: nat where "MAX_SYSCALL_NUM = 500"

definition TICKS_PER_SEC3 :: usize where "TICKS_PER_SEC3 = 100"
definition MICRO_PER_SEC3 :: usize where "MICRO_PER_SEC3 = 1000000"

definition get_time_us3 :: "usize \<Rightarrow> usize" where
  "get_time_us3 mtime = mtime div (CLOCK_FREQ3 div MICRO_PER_SEC3)"

definition set_next_trigger3 :: "usize \<Rightarrow> usize" where
  "set_next_trigger3 mtime = mtime + CLOCK_FREQ3 div TICKS_PER_SEC3"

subsection \<open>Data\<close>

record TrapContext3 =
  x3 :: "usize list"
  sstatus3 :: usize
  sepc3 :: usize

definition set_sp3 :: "TrapContext3 \<Rightarrow> usize \<Rightarrow> TrapContext3" where
  "set_sp3 cx sp = cx\<lparr>x3 := (x3 cx)[2 := sp]\<rparr>"

definition app_init_context3 :: "usize \<Rightarrow> usize \<Rightarrow> usize \<Rightarrow> TrapContext3" where
  "app_init_context3 sstatus entry_pc sp =
     set_sp3 \<lparr>x3 = replicate 32 0, sstatus3 = set_spp sstatus User, sepc3 = entry_pc\<rparr> sp"

datatype place = Zero | AtRestore | AfterYield | AfterTimer | AfterFault | AfterExit

record TaskContext3 =
  ra3 :: place
  sp3 :: usize

definition zero_init3 :: TaskContext3 where
  "zero_init3 = \<lparr>ra3 = Zero, sp3 = 0\<rparr>"

definition goto_restore :: "usize \<Rightarrow> TaskContext3" where
  "goto_restore kstack_ptr = \<lparr>ra3 = AtRestore, sp3 = kstack_ptr\<rparr>"

datatype TaskStatus3 = UnInit3 | Ready3 | Running3 | Exited3

record TaskControlBlock3 =
  task_status :: TaskStatus3
  task_cx :: TaskContext3
  syscall_times :: "32 word list"
  start_time :: usize

record TaskInfo =
  ti_status :: TaskStatus3
  ti_syscall_times :: "32 word list"
  ti_time :: usize

text \<open>
  What the linker and the compiler decide: where the table of applications is, where the static stacks
  are, the value of \<^verbatim>\<open>sstatus\<close>, and how a \<^verbatim>\<open>TaskInfo\<close>, a struct without a fixed layout, is stored.
\<close>

record image3 =
  num_app_ptr :: usize
  kernel_stacks :: usize
  user_stacks :: usize
  im_sstatus :: usize
  put_task_info :: "usize \<Rightarrow> TaskInfo \<Rightarrow> (usize \<Rightarrow> u8) \<Rightarrow> (usize \<Rightarrow> u8)"

record os3 =
  mem3 :: "usize \<Rightarrow> u8"
  num_app :: nat
  tasks3 :: "TaskControlBlock3 list"
  current_task3 :: nat
  console3 :: "u8 list"
  next_trigger3 :: usize

subsection \<open>Memory\<close>

fun store3 :: "(usize \<Rightarrow> u8) \<Rightarrow> usize \<Rightarrow> u8 list \<Rightarrow> (usize \<Rightarrow> u8)" where
  "store3 m a [] = m"
| "store3 m a (b # bs) = store3 (m(a := b)) (a + 1) bs"

definition load3 :: "(usize \<Rightarrow> u8) \<Rightarrow> usize \<Rightarrow> nat \<Rightarrow> u8 list" where
  "load3 m a n = map (\<lambda>i. m (a + word_of_nat i)) [0..<n]"

definition load_usize :: "(usize \<Rightarrow> u8) \<Rightarrow> usize \<Rightarrow> usize" where
  "load_usize m a = bytes_word (load3 m a 8)"

definition tc_bytes3 :: "TrapContext3 \<Rightarrow> u8 list" where
  "tc_bytes3 cx = concat (map word_bytes (x3 cx @ [sstatus3 cx, sepc3 cx]))"

definition tc_of_bytes3 :: "u8 list \<Rightarrow> TrapContext3" where
  "tc_of_bytes3 bs =
     (let ws = map (\<lambda>i. bytes_word (take 8 (drop (8 * i) bs))) [0..<34]
      in \<lparr>x3 = take 32 ws, sstatus3 = ws ! 32, sepc3 = ws ! 33\<rparr>)"

definition TC_SIZE3 :: nat where "TC_SIZE3 = 272"

subsection \<open>Loading applications\<close>

definition kstack_get_sp :: "image3 \<Rightarrow> nat \<Rightarrow> usize" where
  "kstack_get_sp im app_id = kernel_stacks im + word_of_nat app_id * KERNEL_STACK_SIZE3 + KERNEL_STACK_SIZE3"

definition ustack_get_sp :: "image3 \<Rightarrow> nat \<Rightarrow> usize" where
  "ustack_get_sp im app_id = user_stacks im + word_of_nat app_id * USER_STACK_SIZE3 + USER_STACK_SIZE3"

definition push_context :: "image3 \<Rightarrow> nat \<Rightarrow> TrapContext3 \<Rightarrow> (usize \<Rightarrow> u8) \<Rightarrow> usize \<times> (usize \<Rightarrow> u8)" where
  "push_context im app_id trap_cx m =
     (let trap_cx_ptr = kstack_get_sp im app_id - word_of_nat TC_SIZE3
      in (trap_cx_ptr, store3 m trap_cx_ptr (tc_bytes3 trap_cx)))"

definition get_base_i :: "nat \<Rightarrow> usize" where
  "get_base_i app_id = APP_BASE_ADDRESS + word_of_nat app_id * APP_SIZE_LIMIT"

definition get_num_app :: "image3 \<Rightarrow> (usize \<Rightarrow> u8) \<Rightarrow> nat" where
  "get_num_app im m = unat (load_usize m (num_app_ptr im))"

definition app_start :: "image3 \<Rightarrow> (usize \<Rightarrow> u8) \<Rightarrow> nat \<Rightarrow> usize" where
  "app_start im m i = load_usize m (num_app_ptr im + 8 + word_of_nat i * 8)"

definition load_app :: "image3 \<Rightarrow> nat \<Rightarrow> (usize \<Rightarrow> u8) \<Rightarrow> (usize \<Rightarrow> u8)" where
  "load_app im i m =
     (let base_i = get_base_i i;
          m = store3 m base_i (replicate (unat APP_SIZE_LIMIT) 0);
          src = load3 m (app_start im m i) (unat (app_start im m (Suc i) - app_start im m i))
      in store3 m base_i src)"

definition load_apps :: "image3 \<Rightarrow> (usize \<Rightarrow> u8) \<Rightarrow> (usize \<Rightarrow> u8)" where
  "load_apps im m = foldl (\<lambda>m i. load_app im i m) m [0..<get_num_app im m]"

text \<open>\<^verbatim>\<open>init_app_cx\<close> indexes the static stacks, of which there are \<^verbatim>\<open>MAX_APP_NUM\<close>.\<close>

definition init_app_cx :: "image3 \<Rightarrow> nat \<Rightarrow> (usize \<Rightarrow> u8) \<Rightarrow> (usize \<times> (usize \<Rightarrow> u8)) option" where
  "init_app_cx im app_id m =
     do { rassert (app_id < MAX_APP_NUM);
          Some (push_context im app_id (app_init_context3 (im_sstatus im) (get_base_i app_id) (ustack_get_sp im app_id)) m) }"

subsection \<open>The task manager\<close>

definition task_new :: TaskControlBlock3 where
  "task_new = \<lparr>task_status = UnInit3, task_cx = zero_init3, syscall_times = replicate 5 0, start_time = 0\<rparr>"

fun init_tasks :: "image3 \<Rightarrow> nat list \<Rightarrow> TaskControlBlock3 list \<Rightarrow> (usize \<Rightarrow> u8) \<Rightarrow> (TaskControlBlock3 list \<times> (usize \<Rightarrow> u8)) option" where
  "init_tasks im [] ts m = Some (ts, m)"
| "init_tasks im (i # is) ts m =
     do { (ptr, m) \<leftarrow> init_app_cx im i m;
          init_tasks im is (ts[i := (ts ! i)\<lparr>task_cx := goto_restore ptr, task_status := Ready3\<rparr>]) m }"

definition TASK_MANAGER_new :: "image3 \<Rightarrow> (usize \<Rightarrow> u8) \<Rightarrow> os3 option" where
  "TASK_MANAGER_new im m =
     do { let num = get_num_app im m;
          (ts, m) \<leftarrow> init_tasks im [0..<min num MAX_APP_NUM] (replicate MAX_APP_NUM task_new) m;
          Some \<lparr>mem3 = m, num_app = num, tasks3 = ts, current_task3 = 0, console3 = [], next_trigger3 = 0\<rparr> }"

definition upd_task :: "os3 \<Rightarrow> nat \<Rightarrow> (TaskControlBlock3 \<Rightarrow> TaskControlBlock3) \<Rightarrow> os3 option" where
  "upd_task s i f = do { t \<leftarrow> index (tasks3 s) i; Some (s\<lparr>tasks3 := (tasks3 s)[i := f t]\<rparr>) }"

definition run_first_task :: "os3 \<Rightarrow> usize \<Rightarrow> (place \<times> os3) option" where
  "run_first_task s mtime =
     do { s \<leftarrow> upd_task s 0 (\<lambda>t. t\<lparr>task_status := Running3, start_time := get_time_us3 mtime div 1000\<rparr>);
          Some (ra3 (task_cx (tasks3 s ! 0)), s) }"

definition mark_current_suspended :: "os3 \<Rightarrow> os3 option" where
  "mark_current_suspended s = upd_task s (current_task3 s) (\<lambda>t. t\<lparr>task_status := Ready3\<rparr>)"

definition mark_current_exited :: "os3 \<Rightarrow> os3 option" where
  "mark_current_exited s = upd_task s (current_task3 s) (\<lambda>t. t\<lparr>task_status := Exited3\<rparr>)"

fun find_ready :: "TaskControlBlock3 list \<Rightarrow> nat list \<Rightarrow> nat option option" where
  "find_ready ts [] = Some None"
| "find_ready ts (i # is) = do { t \<leftarrow> index ts i; if task_status t = Ready3 then Some (Some i) else find_ready ts is }"

definition find_next_task :: "os3 \<Rightarrow> nat option option" where
  "find_next_task s =
     (let cur = current_task3 s
      in find_ready (tasks3 s) (map (\<lambda>i. i mod num_app s) [cur + 1..<cur + num_app s + 1]))"

text \<open>\<^verbatim>\<open>__switch\<close> saves where the current task continues and yields where the next one does.\<close>

definition run_next_task :: "os3 \<Rightarrow> place \<Rightarrow> usize \<Rightarrow> (place \<times> os3) option" where
  "run_next_task s here mtime =
     do { found \<leftarrow> find_next_task s;
          nxt \<leftarrow> found;
          let cur = current_task3 s;
          s \<leftarrow> upd_task s nxt (\<lambda>t. t\<lparr>task_status := Running3\<rparr>);
          s \<leftarrow> upd_task s nxt (\<lambda>t. if start_time t = 0 then t\<lparr>start_time := get_time_us3 mtime div 1000\<rparr> else t);
          let s = s\<lparr>current_task3 := nxt\<rparr>;
          s \<leftarrow> upd_task s cur (\<lambda>t. t\<lparr>task_cx := (task_cx t)\<lparr>ra3 := here\<rparr>\<rparr>);
          t \<leftarrow> index (tasks3 s) nxt;
          Some (ra3 (task_cx t), s) }"

definition suspend_current_and_run_next3 :: "os3 \<Rightarrow> place \<Rightarrow> usize \<Rightarrow> (place \<times> os3) option" where
  "suspend_current_and_run_next3 s here mtime = do { s \<leftarrow> mark_current_suspended s; run_next_task s here mtime }"

definition exit_current_and_run_next3 :: "os3 \<Rightarrow> place \<Rightarrow> usize \<Rightarrow> (place \<times> os3) option" where
  "exit_current_and_run_next3 s here mtime = do { s \<leftarrow> mark_current_exited s; run_next_task s here mtime }"

subsection \<open>System calls\<close>

definition SYS_WRITE :: usize where "SYS_WRITE = 64"
definition SYS_EXIT :: usize where "SYS_EXIT = 93"
definition SYS_YIELD :: usize where "SYS_YIELD = 124"
definition SYS_GET_TIME :: usize where "SYS_GET_TIME = 169"
definition SYS_TASK_INFO :: usize where "SYS_TASK_INFO = 410"

lemmas sys_numbers = SYS_WRITE_def SYS_EXIT_def SYS_YIELD_def SYS_GET_TIME_def SYS_TASK_INFO_def

definition map_syscall_to_small_range :: "usize \<Rightarrow> nat option" where
  "map_syscall_to_small_range syscall_id =
     (if syscall_id = SYS_WRITE then Some 0
      else if syscall_id = SYS_YIELD then Some 1
      else if syscall_id = SYS_EXIT then Some 2
      else if syscall_id = SYS_GET_TIME then Some 3
      else if syscall_id = SYS_TASK_INFO then Some 4
      else None)"

definition map_small_range_to_syscall :: "nat \<Rightarrow> usize option" where
  "map_small_range_to_syscall i =
     (if i = 0 then Some SYS_WRITE
      else if i = 1 then Some SYS_YIELD
      else if i = 2 then Some SYS_EXIT
      else if i = 3 then Some SYS_GET_TIME
      else if i = 4 then Some SYS_TASK_INFO
      else None)"

definition update_syscall_num :: "os3 \<Rightarrow> usize \<Rightarrow> os3 option" where
  "update_syscall_num s syscall_id =
     do { t \<leftarrow> index (tasks3 s) (current_task3 s);
          i \<leftarrow> map_syscall_to_small_range syscall_id;
          n \<leftarrow> index (syscall_times t) i;
          upd_task s (current_task3 s) (\<lambda>t. t\<lparr>syscall_times := (syscall_times t)[i := n + 1]\<rparr>) }"

fun fill_times :: "32 word list \<Rightarrow> nat list \<Rightarrow> 32 word list \<Rightarrow> 32 word list option" where
  "fill_times counts [] tms = Some tms"
| "fill_times counts (i # is) tms =
     do { c \<leftarrow> index counts i;
          j \<leftarrow> map_small_range_to_syscall i;
          rassert (unat j < length tms);
          fill_times counts is (tms[unat j := c]) }"

definition get_current_task_info :: "os3 \<Rightarrow> usize \<Rightarrow> TaskInfo option" where
  "get_current_task_info s mtime =
     do { cur_task \<leftarrow> index (tasks3 s) (current_task3 s);
          tms \<leftarrow> fill_times (syscall_times cur_task) [0..<5] (replicate MAX_SYSCALL_NUM 0);
          Some \<lparr>ti_status = task_status cur_task, ti_syscall_times = tms,
                ti_time = get_time_us3 mtime div 1000 - start_time cur_task\<rparr> }"

datatype outcome3 = Ret3 usize os3 | Switched3 place os3

definition FD_STDOUT :: usize where "FD_STDOUT = 1"

definition sys_write3 :: "os3 \<Rightarrow> usize \<Rightarrow> usize \<Rightarrow> usize \<Rightarrow> outcome3 option" where
  "sys_write3 s fd buf len =
     (if fd = FD_STDOUT then
        do { let str = load3 (mem3 s) buf (unat len);
             rassert (utf8_ok str);
             Some (Ret3 len (s\<lparr>console3 := console3 s @ str\<rparr>)) }
      else None)"

definition sys_exit3 :: "os3 \<Rightarrow> 32 word \<Rightarrow> usize \<Rightarrow> outcome3 option" where
  "sys_exit3 s exit_code mtime = map_option (\<lambda>(p, s). Switched3 p s) (exit_current_and_run_next3 s AfterExit mtime)"

definition sys_yield3 :: "os3 \<Rightarrow> usize \<Rightarrow> outcome3 option" where
  "sys_yield3 s mtime = map_option (\<lambda>(p, s). Switched3 p s) (suspend_current_and_run_next3 s AfterYield mtime)"

definition sys_get_time3 :: "os3 \<Rightarrow> usize \<Rightarrow> usize \<Rightarrow> outcome3 option" where
  "sys_get_time3 s ts mtime =
     (let us = get_time_us3 mtime
      in Some (Ret3 0 (s\<lparr>mem3 := store3 (mem3 s) ts (word_bytes (us div 1000000) @ word_bytes (us mod 1000000))\<rparr>)))"

definition sys_task_info3 :: "image3 \<Rightarrow> os3 \<Rightarrow> usize \<Rightarrow> usize \<Rightarrow> outcome3 option" where
  "sys_task_info3 im s ti mtime =
     do { info \<leftarrow> get_current_task_info s mtime;
          Some (Ret3 0 (s\<lparr>mem3 := put_task_info im ti info (mem3 s)\<rparr>)) }"

definition syscall3 :: "image3 \<Rightarrow> os3 \<Rightarrow> usize \<Rightarrow> usize \<Rightarrow> usize \<Rightarrow> usize \<Rightarrow> usize \<Rightarrow> outcome3 option" where
  "syscall3 im s mtime syscall_id a0 a1 a2 =
     do { s \<leftarrow> update_syscall_num s syscall_id;
          if syscall_id = SYS_WRITE then sys_write3 s a0 a1 a2
          else if syscall_id = SYS_EXIT then sys_exit3 s (ucast a0) mtime
          else if syscall_id = SYS_YIELD then sys_yield3 s mtime
          else if syscall_id = SYS_GET_TIME then sys_get_time3 s a0 mtime
          else if syscall_id = SYS_TASK_INFO then sys_task_info3 im s a0 mtime
          else None }"

subsection \<open>Traps\<close>

definition cx_ptr :: "image3 \<Rightarrow> os3 \<Rightarrow> usize" where
  "cx_ptr im s = kstack_get_sp im (current_task3 s) - word_of_nat TC_SIZE3"

definition get_cx :: "image3 \<Rightarrow> os3 \<Rightarrow> TrapContext3" where
  "get_cx im s = tc_of_bytes3 (load3 (mem3 s) (cx_ptr im s) TC_SIZE3)"

definition put_cx :: "image3 \<Rightarrow> os3 \<Rightarrow> TrapContext3 \<Rightarrow> os3" where
  "put_cx im s cx = s\<lparr>mem3 := store3 (mem3 s) (cx_ptr im s) (tc_bytes3 cx)\<rparr>"

definition set_a0 :: "image3 \<Rightarrow> os3 \<Rightarrow> usize \<Rightarrow> os3" where
  "set_a0 im s v = (let cx = get_cx im s in put_cx im s (cx\<lparr>x3 := (x3 cx)[10 := v]\<rparr>))"

text \<open>Continuing the current task; after an exit the code is unreachable and panics.\<close>

fun resume3 :: "image3 \<Rightarrow> os3 \<Rightarrow> place \<Rightarrow> os3 option" where
  "resume3 im s AtRestore = Some s"
| "resume3 im s AfterTimer = Some s"
| "resume3 im s AfterFault = Some s"
| "resume3 im s AfterYield = Some (set_a0 im s 0)"
| "resume3 im s AfterExit = None"
| "resume3 im s Zero = None"

datatype cause3 = UserEnvCall3 usize | StoreFault3 usize | StorePageFault3 usize | IllegalInstruction3 usize
  | SupervisorTimer3 usize usize | OtherTrap3

definition trap_handler3 :: "image3 \<Rightarrow> os3 \<Rightarrow> cause3 \<Rightarrow> os3 option" where
  "trap_handler3 im s c =
     (case c of
        UserEnvCall3 mtime \<Rightarrow>
          do { let s = put_cx im s ((get_cx im s)\<lparr>sepc3 := sepc3 (get_cx im s) + 4\<rparr>);
               let x = x3 (get_cx im s);
               r \<leftarrow> syscall3 im s mtime (x ! 17) (x ! 10) (x ! 11) (x ! 12);
               (case r of Ret3 v s \<Rightarrow> Some (set_a0 im s v) | Switched3 p s \<Rightarrow> resume3 im s p) }
      | SupervisorTimer3 t1 t2 \<Rightarrow>
          do { (p, s) \<leftarrow> suspend_current_and_run_next3 (s\<lparr>next_trigger3 := set_next_trigger3 t1\<rparr>) AfterTimer t2; resume3 im s p }
      | OtherTrap3 \<Rightarrow> None
      | StoreFault3 t \<Rightarrow> do { (p, s) \<leftarrow> exit_current_and_run_next3 s AfterFault t; resume3 im s p }
      | StorePageFault3 t \<Rightarrow> do { (p, s) \<leftarrow> exit_current_and_run_next3 s AfterFault t; resume3 im s p }
      | IllegalInstruction3 t \<Rightarrow> do { (p, s) \<leftarrow> exit_current_and_run_next3 s AfterFault t; resume3 im s p })"

text \<open>The start: memory, applications, the first timer interrupt, the first task.\<close>

definition rust_main3 :: "image3 \<Rightarrow> usize \<Rightarrow> usize \<Rightarrow> usize \<Rightarrow> usize \<Rightarrow> (usize \<Rightarrow> u8) \<Rightarrow> os3 option" where
  "rust_main3 im sbss ebss t1 t2 m =
     do { let m = store3 m sbss (replicate (unat (ebss - sbss)) 0);
          let m = load_apps im m;
          s \<leftarrow> TASK_MANAGER_new im m;
          (p, s) \<leftarrow> run_first_task (s\<lparr>next_trigger3 := set_next_trigger3 t1\<rparr>) t2;
          resume3 im s p }"

end
