(* ===== verification/Multiprog_Props.thy ===== *)
theory Multiprog_Props
  imports Multiprog
begin

text \<open>
  What the multiprogramming kernel promises: exactly the current task is running (\<open>inv3\<close>, kept by every
  trap), a ready task is dispatched within as many scheduling decisions as there are applications, and
  \<^verbatim>\<open>sys_task_info\<close> reports the system calls that the task made.
\<close>

subsection \<open>The invariant\<close>

definition resumable :: "place \<Rightarrow> bool" where
  "resumable p \<longleftrightarrow> p = AtRestore \<or> p = AfterYield \<or> p = AfterTimer"

text \<open>Between two tasks, no task is running; \<open>here\<close> is where the current task will continue.\<close>

definition between :: "os3 \<Rightarrow> place \<Rightarrow> bool" where
  "between s here \<longleftrightarrow> num_app s \<le> MAX_APP_NUM \<and> length (tasks3 s) = MAX_APP_NUM \<and> current_task3 s < num_app s \<and>
     (\<forall>i < MAX_APP_NUM. length (syscall_times (tasks3 s ! i)) = 5 \<and> task_status (tasks3 s ! i) \<noteq> Running3 \<and>
        (task_status (tasks3 s ! i) = Ready3 \<longrightarrow> i < num_app s \<and> resumable (if i = current_task3 s then here else ra3 (task_cx (tasks3 s ! i)))))"

definition inv3 :: "os3 \<Rightarrow> bool" where
  "inv3 s \<longleftrightarrow> num_app s \<le> MAX_APP_NUM \<and> length (tasks3 s) = MAX_APP_NUM \<and> current_task3 s < num_app s \<and>
     (\<forall>i < MAX_APP_NUM. length (syscall_times (tasks3 s ! i)) = 5 \<and> (task_status (tasks3 s ! i) = Running3 \<longleftrightarrow> i = current_task3 s) \<and>
        (task_status (tasks3 s ! i) = Ready3 \<longrightarrow> i < num_app s \<and> resumable (ra3 (task_cx (tasks3 s ! i)))))"

lemma find_ready_find:
  "(\<forall>i \<in> set is. i < length ts) \<Longrightarrow> find_ready ts is = Some (List.find (\<lambda>i. task_status (ts ! i) = Ready3) is)"
  by (induction "is") (auto simp: index_def)

text \<open>The task found is the first ready one after the current task, in cyclic order.\<close>

lemma find_next_first:
  assumes "num_app s \<le> length (tasks3 s)" and k: "k < num_app s"
    and t: "task_status (tasks3 s ! ((current_task3 s + 1 + k) mod num_app s)) = Ready3"
  shows "\<exists>j \<le> k. find_next_task s = Some (Some ((current_task3 s + 1 + j) mod num_app s)) \<and>
    task_status (tasks3 s ! ((current_task3 s + 1 + j) mod num_app s)) = Ready3"
proof -
  let ?n = "num_app s" and ?c = "current_task3 s" and ?P = "\<lambda>i. task_status (tasks3 s ! i) = Ready3"
  let ?ids = "map (\<lambda>i. i mod ?n) [?c + 1..<?c + ?n + 1]"
  have ids: "?ids ! i = (?c + 1 + i) mod ?n" if "i < ?n" for i using that by (simp del: upt_Suc)
  have "0 < ?n" using k by simp
  then have f: "find_next_task s = Some (List.find ?P ?ids)"
    unfolding find_next_task_def Let_def using assms(1)
    by (intro find_ready_find) (auto simp del: upt_Suc intro: order_less_le_trans mod_less_divisor)
  obtain x where x: "List.find ?P ?ids = Some x"
  proof (cases "List.find ?P ?ids")
    case None
    moreover have "?ids ! k \<in> set ?ids" using k by (intro nth_mem) (simp del: upt_Suc)
    ultimately show ?thesis using t k ids [OF k] by (auto simp: find_None_iff simp del: upt_Suc)
  qed
  then obtain j where j: "j < length ?ids" "?P (?ids ! j)" "x = ?ids ! j" "\<forall>i < j. \<not> ?P (?ids ! i)" unfolding find_Some_iff by blast
  have jn: "j < ?n" using j(1) by (simp del: upt_Suc)
  have "j \<le> k" using j(4) t k ids [OF k] by (metis leI)
  then show ?thesis using f x j ids [OF jn] by (intro exI [of _ j]) simp
qed

lemma find_next_none:
  assumes "num_app s \<le> length (tasks3 s)" and "current_task3 s < num_app s" and "\<forall>i < num_app s. task_status (tasks3 s ! i) \<noteq> Ready3"
  shows "find_next_task s = Some None"
proof -
  have "find_next_task s = Some (List.find (\<lambda>i. task_status (tasks3 s ! i) = Ready3)
      (map (\<lambda>i. i mod num_app s) [current_task3 s + 1..<current_task3 s + num_app s + 1]))"
    unfolding find_next_task_def Let_def using assms(1) order_le_less_trans [OF le0 assms(2)]
    by (intro find_ready_find) (auto simp del: upt_Suc intro: order_less_le_trans mod_less_divisor)
  then show ?thesis using assms by (auto simp: find_None_iff simp del: upt_Suc)
qed

lemma cyclic_position: "t < n \<Longrightarrow> c < n \<Longrightarrow> \<exists>k < n. (c + 1 + k) mod n = (t :: nat)"
proof -
  assume t: "t < n" and c: "c < n"
  show ?thesis
  proof (cases "c < t")
    case True
    then show ?thesis using t by (intro exI [of _ "t - c - 1"]) auto
  next
    case False
    then have "(c + 1 + (n + t - c - 1)) mod n = (t + n) mod n" using c by simp
    then show ?thesis using t c False by (intro exI [of _ "n + t - c - 1"]) auto
  qed
qed

lemma between_switch:
  assumes "between s here" and "nxt < num_app s" and "length ts = MAX_APP_NUM"
    and "\<And>i. i < MAX_APP_NUM \<Longrightarrow> task_status (ts ! i) = (if i = nxt then Running3 else task_status (tasks3 s ! i))"
    and "\<And>i. i < MAX_APP_NUM \<Longrightarrow> syscall_times (ts ! i) = syscall_times (tasks3 s ! i)"
    and "\<And>i. i < MAX_APP_NUM \<Longrightarrow> ra3 (task_cx (ts ! i)) = (if i = current_task3 s then here else ra3 (task_cx (tasks3 s ! i)))"
  shows "inv3 (s\<lparr>current_task3 := nxt, tasks3 := ts\<rparr>)"
  using assms by (simp add: inv3_def between_def)

text \<open>Switching to the task found.\<close>

lemma run_next_switches:
  assumes b: "between s here" and f: "find_next_task s = Some (Some nxt)" and r: "task_status (tasks3 s ! nxt) = Ready3" and n: "nxt < num_app s"
  shows "\<exists>p s'. run_next_task s here mtime = Some (p, s') \<and> resumable p \<and> inv3 s' \<and> current_task3 s' = nxt \<and> num_app s' = num_app s \<and>
    (\<forall>i < MAX_APP_NUM. syscall_times (tasks3 s' ! i) = syscall_times (tasks3 s ! i) \<and>
       (i \<noteq> nxt \<longrightarrow> task_status (tasks3 s' ! i) = task_status (tasks3 s ! i)))"
proof -
  let ?c = "current_task3 s"
  have l: "nxt < length (tasks3 s)" "?c < length (tasks3 s)" using b n by (auto simp: between_def)
  let ?f = "\<lambda>t. if start_time t = 0 then t\<lparr>start_time := get_time_us3 mtime div 1000\<rparr> else t"
  let ?t = "?f ((tasks3 s ! nxt)\<lparr>task_status := Running3\<rparr>)"
  let ?ts = "(tasks3 s)[nxt := ?t]"
  let ?ts' = "?ts[?c := (?ts ! ?c)\<lparr>task_cx := (task_cx (?ts ! ?c))\<lparr>ra3 := here\<rparr>\<rparr>]"
  let ?s' = "s\<lparr>current_task3 := nxt, tasks3 := ?ts'\<rparr>"
  have e: "run_next_task s here mtime = Some (ra3 (task_cx (?ts' ! nxt)), ?s')"
    using l by (simp add: run_next_task_def f upd_task_def index_def Let_def)
  have st: "task_status (?ts' ! i) = (if i = nxt then Running3 else task_status (tasks3 s ! i))"
    and ct: "syscall_times (?ts' ! i) = syscall_times (tasks3 s ! i)"
    and ra: "ra3 (task_cx (?ts' ! i)) = (if i = ?c then here else ra3 (task_cx (tasks3 s ! i)))" if "i < MAX_APP_NUM" for i
    using that b l by (auto simp: nth_list_update between_def)
  have "nxt < MAX_APP_NUM" using l b by (simp add: between_def)
  then have p: "resumable (ra3 (task_cx (?ts' ! nxt)))" using ra b r by (auto simp: between_def)
  have "inv3 ?s'" using st ct ra b by (intro between_switch [OF b n]) (simp_all add: between_def)
  then show ?thesis using e p st ct by (intro exI [of _ "ra3 (task_cx (?ts' ! nxt))"] exI [of _ ?s']) simp
qed

text \<open>Taking the processor from the current task: it becomes ready or has exited.\<close>

definition mark_current :: "TaskStatus3 \<Rightarrow> os3 \<Rightarrow> os3" where
  "mark_current st s = s\<lparr>tasks3 := (tasks3 s)[current_task3 s := (tasks3 s ! current_task3 s)\<lparr>task_status := st\<rparr>]\<rparr>"

lemma mark_simps:
  assumes "inv3 s"
  shows "mark_current_suspended s = Some (mark_current Ready3 s)" "mark_current_exited s = Some (mark_current Exited3 s)"
  using assms by (auto simp: inv3_def mark_current_suspended_def mark_current_exited_def mark_current_def upd_task_def index_def)

lemma mark_fields [simp]: "num_app (mark_current st s) = num_app s" "current_task3 (mark_current st s) = current_task3 s"
  by (simp_all add: mark_current_def)

lemma mark_task:
  assumes "inv3 s" and "i < MAX_APP_NUM"
  shows "task_status (tasks3 (mark_current st s) ! i) = (if i = current_task3 s then st else task_status (tasks3 s ! i))"
    "syscall_times (tasks3 (mark_current st s) ! i) = syscall_times (tasks3 s ! i)"
    "ra3 (task_cx (tasks3 (mark_current st s) ! i)) = ra3 (task_cx (tasks3 s ! i))"
  using assms by (auto simp: inv3_def mark_current_def nth_list_update)

lemma mark_between:
  assumes "inv3 s" and "st \<noteq> Running3" and "st = Ready3 \<longrightarrow> resumable here"
  shows "between (mark_current st s) here"
proof -
  have "length (tasks3 (mark_current st s)) = MAX_APP_NUM" using assms(1) by (simp add: mark_current_def inv3_def)
  then show ?thesis using assms by (simp add: between_def mark_task) (simp add: inv3_def)
qed

text \<open>A scheduling decision succeeds while some task is ready, and picks the first one in cyclic order.\<close>

lemma schedule_ok:
  assumes i: "inv3 s" and st: "st \<noteq> Running3" "st = Ready3 \<longrightarrow> resumable here" and k: "k < num_app s"
    and t: "task_status (tasks3 (mark_current st s) ! ((current_task3 s + 1 + k) mod num_app s)) = Ready3"
  shows "\<exists>j p s'. j \<le> k \<and> run_next_task (mark_current st s) here mtime = Some (p, s') \<and> resumable p \<and> inv3 s' \<and>
    current_task3 s' = (current_task3 s + 1 + j) mod num_app s \<and> num_app s' = num_app s \<and>
    (\<forall>i < MAX_APP_NUM. syscall_times (tasks3 s' ! i) = syscall_times (tasks3 s ! i) \<and>
       (i \<noteq> current_task3 s' \<longrightarrow> i \<noteq> current_task3 s \<longrightarrow> task_status (tasks3 s' ! i) = task_status (tasks3 s ! i)))"
proof -
  let ?m = "mark_current st s"
  have b: "between ?m here" by (rule mark_between [OF i st])
  have l: "num_app ?m \<le> length (tasks3 ?m)" using b by (simp add: between_def)
  obtain j where j: "j \<le> k" "find_next_task ?m = Some (Some ((current_task3 s + 1 + j) mod num_app s))"
    "task_status (tasks3 ?m ! ((current_task3 s + 1 + j) mod num_app s)) = Ready3"
    using find_next_first [OF l, of k] k t by auto
  have n: "(current_task3 s + 1 + j) mod num_app s < num_app ?m" using k by simp
  obtain p s' where r: "run_next_task ?m here mtime = Some (p, s')" "resumable p" "inv3 s'"
    "current_task3 s' = (current_task3 s + 1 + j) mod num_app s" "num_app s' = num_app s"
    "\<forall>i < MAX_APP_NUM. syscall_times (tasks3 s' ! i) = syscall_times (tasks3 ?m ! i) \<and>
       (i \<noteq> current_task3 s' \<longrightarrow> task_status (tasks3 s' ! i) = task_status (tasks3 ?m ! i))"
    using run_next_switches [OF b j(2,3) n, of mtime] by auto
  show ?thesis using j(1) r mark_task [OF i] by (intro exI [of _ j] exI [of _ p] exI [of _ s']) simp
qed

subsection \<open>Round robin\<close>

text \<open>A sequence of scheduling decisions: the current task exits or is preempted.\<close>

fun decisions :: "os3 \<Rightarrow> (bool \<times> usize) list \<Rightarrow> os3 option" where
  "decisions s [] = Some s"
| "decisions s ((exits, mtime) # ds) =
     do { (p, s) \<leftarrow> (if exits then exit_current_and_run_next3 s AfterFault mtime
                     else suspend_current_and_run_next3 s AfterTimer mtime);
          decisions s ds }"

lemma decision_mark:
  assumes "inv3 s"
  shows "(if e then exit_current_and_run_next3 s AfterFault mtime else suspend_current_and_run_next3 s AfterTimer mtime) =
    run_next_task (mark_current (if e then Exited3 else Ready3) s) (if e then AfterFault else AfterTimer) mtime"
  using mark_simps [OF assms] by (simp add: exit_current_and_run_next3_def suspend_current_and_run_next3_def)

lemma dispatched_in_turn:
  assumes "inv3 s" and "k < num_app s" and "t = (current_task3 s + 1 + k) mod num_app s" and "task_status (tasks3 s ! t) = Ready3"
    and "k < length ds"
  shows "\<exists>j \<le> Suc k. \<exists>s'. decisions s (take j ds) = Some s' \<and> current_task3 s' = t"
  using assms
proof (induction k arbitrary: s ds rule: less_induct)
  case (less k)
  obtain e mtime ds' where ds: "ds = (e, mtime) # ds'" using less.prems(5) by (cases ds) auto
  let ?st = "if e then Exited3 else Ready3" and ?here = "if e then AfterFault else AfterTimer"
  have tn: "t < num_app s" using less.prems(2,3) by simp
  then have tm: "t < MAX_APP_NUM" using less.prems(1) by (simp add: inv3_def)
  have tc: "t \<noteq> current_task3 s" using less.prems(1,4) tm by (auto simp: inv3_def)
  have "task_status (tasks3 (mark_current ?st s) ! ((current_task3 s + 1 + k) mod num_app s)) = Ready3"
    using mark_task(1) [OF less.prems(1) tm] tc less.prems(3,4) by simp
  then obtain j p s1 where j: "j \<le> k" and r: "run_next_task (mark_current ?st s) ?here mtime = Some (p, s1)" and i1: "inv3 s1"
    and c1: "current_task3 s1 = (current_task3 s + 1 + j) mod num_app s" and n1: "num_app s1 = num_app s"
    and o1: "\<forall>i < MAX_APP_NUM. i \<noteq> current_task3 s1 \<longrightarrow> i \<noteq> current_task3 s \<longrightarrow> task_status (tasks3 s1 ! i) = task_status (tasks3 s ! i)"
    using schedule_ok [OF less.prems(1), of ?st ?here k mtime] less.prems(2) by (auto simp: resumable_def split: if_splits)
  have d: "decisions s (take (Suc i) ds) = decisions s1 (take i ds')" for i
    using decision_mark [OF less.prems(1), of e mtime] r by (simp add: ds)
  show ?case
  proof (cases "current_task3 s1 = t")
    case True
    then show ?thesis using d [of 0] by (intro exI [of _ "Suc 0"]) auto
  next
    case False
    then have jk: "j < k" using j c1 less.prems(3) by (cases "j = k") auto
    have "t = (current_task3 s1 + 1 + (k - j - 1)) mod num_app s1"
    proof -
      have "current_task3 s1 + 1 + (k - j - 1) = current_task3 s1 + (k - j)" using jk by simp
      then have "(current_task3 s1 + 1 + (k - j - 1)) mod num_app s = ((current_task3 s + 1 + j) mod num_app s + (k - j)) mod num_app s"
        by (simp only: c1)
      also have "\<dots> = (current_task3 s + 1 + j + (k - j)) mod num_app s" by (simp only: mod_add_left_eq)
      also have "\<dots> = t" using jk less.prems(3) by simp
      finally show ?thesis using n1 by simp
    qed
    moreover have "task_status (tasks3 s1 ! t) = Ready3" using o1 tm tc False less.prems(4) by simp
    moreover have "k - j - 1 < k" "k - j - 1 < num_app s1" "k - j - 1 < length ds'" using jk less.prems(2,5) n1 ds by auto
    ultimately obtain i s' where "i \<le> Suc (k - j - 1)" "decisions s1 (take i ds') = Some s'" "current_task3 s' = t"
      using less.IH [of "k - j - 1" s1 ds'] i1 by blast
    then show ?thesis using d [of i] jk by (intro exI [of _ "Suc i"]) auto
  qed
qed

text \<open>
  C11 (liveness).  The multiprogramming kernel is fair: a ready task gets the processor after at most as many
  scheduling decisions as there are applications, whichever tasks exit or are preempted on the way, and
  none of the decisions up to that point panics.
\<close>

theorem round_robin_dispatches:
  assumes "inv3 s" and "t < MAX_APP_NUM" and "task_status (tasks3 s ! t) = Ready3" and "num_app s \<le> length ds"
  shows "\<exists>j \<le> num_app s. \<exists>s'. decisions s (take j ds) = Some s' \<and> current_task3 s' = t"
proof -
  have "t < num_app s" "current_task3 s < num_app s" using assms by (auto simp: inv3_def)
  then obtain k where k: "k < num_app s" "(current_task3 s + 1 + k) mod num_app s = t" using cyclic_position by blast
  then obtain j s' where "j \<le> Suc k" "decisions s (take j ds) = Some s'" "current_task3 s' = t"
    using dispatched_in_turn [OF assms(1) k(1) k(2) [symmetric] assms(3), of ds] assms(4) by auto
  then show ?thesis using k(1) by (intro exI [of _ j]) auto
qed

text \<open>Three applications, the first one running, the third one ready: it runs after two decisions.\<close>

definition ex_task3 :: "TaskStatus3 \<Rightarrow> TaskControlBlock3" where
  "ex_task3 st = \<lparr>task_status = st, task_cx = goto_restore 0x80300000, syscall_times = replicate 5 0, start_time = 0\<rparr>"

definition ex_os3 :: os3 where
  "ex_os3 = \<lparr>mem3 = (\<lambda>_. 0), num_app = 3, tasks3 = [ex_task3 Running3, ex_task3 Ready3, ex_task3 Ready3] @ replicate 13 task_new,
     current_task3 = 0, console3 = [], next_trigger3 = 0\<rparr>"

lemma ex_os3_inv: "inv3 ex_os3"
proof -
  have "task_status (tasks3 ex_os3 ! i) = (if i = 0 then Running3 else if i < 3 then Ready3 else UnInit3) \<and>
    length (syscall_times (tasks3 ex_os3 ! i)) = 5 \<and> (i < 3 \<longrightarrow> ra3 (task_cx (tasks3 ex_os3 ! i)) = AtRestore)" if "i < 16" for i
    using that by (auto simp: ex_os3_def ex_task3_def task_new_def goto_restore_def nth_append nth_Cons split: nat.splits)
  then show ?thesis by (simp add: inv3_def MAX_APP_NUM_def resumable_def) (simp add: ex_os3_def)
qed

theorem round_robin_dispatches_witness:
  "\<exists>j \<le> 3. \<exists>s'. decisions ex_os3 (take j [(False, 10), (True, 20), (False, 30)]) = Some s' \<and> current_task3 s' = 2"
proof -
  have "task_status (tasks3 ex_os3 ! 2) = Ready3" "num_app ex_os3 = 3" by (simp_all add: ex_os3_def ex_task3_def)
  then show ?thesis using round_robin_dispatches [OF ex_os3_inv, of 2 "[(False, 10), (True, 20), (False, 30)]"] by (simp add: MAX_APP_NUM_def)
qed

subsection \<open>Traps keep the invariant and count system calls\<close>

text \<open>Writing memory or the console concerns neither.\<close>

lemma inv3_plain [simp]: "inv3 (s\<lparr>mem3 := m\<rparr>) = inv3 s" "inv3 (s\<lparr>console3 := c\<rparr>) = inv3 s" "inv3 (s\<lparr>next_trigger3 := n\<rparr>) = inv3 s"
  by (simp_all add: inv3_def)

lemma put_cx_fields [simp]:
  "tasks3 (put_cx im s cx) = tasks3 s" "current_task3 (put_cx im s cx) = current_task3 s" "inv3 (put_cx im s cx) = inv3 s"
  "tasks3 (set_a0 im s v) = tasks3 s" "current_task3 (set_a0 im s v) = current_task3 s" "inv3 (set_a0 im s v) = inv3 s"
  by (simp_all add: put_cx_def set_a0_def Let_def)

text \<open>The effect of a step on the counters: \<open>d t i\<close> is added to counter \<open>i\<close> of task \<open>t\<close>.\<close>

definition counts :: "os3 \<Rightarrow> (nat \<Rightarrow> nat \<Rightarrow> nat) \<Rightarrow> os3 \<Rightarrow> bool" where
  "counts s d s' \<longleftrightarrow> (\<forall>t < MAX_APP_NUM. \<forall>i < 5.
     syscall_times (tasks3 s' ! t) ! i = syscall_times (tasks3 s ! t) ! i + word_of_nat (d t i))"

lemma counts_none: "tasks3 s' = tasks3 s \<Longrightarrow> counts s (\<lambda>_ _. 0) s'"
  by (simp add: counts_def)

lemma counts_trans: "counts a d b \<Longrightarrow> counts b e c \<Longrightarrow> counts a (\<lambda>t i. d t i + e t i) c"
  by (simp add: counts_def)

lemma counts_plain [simp]:
  "counts (put_cx im s cx) d s' = counts s d s'" "counts s d (set_a0 im s' v) = counts s d s'"
  "counts (s\<lparr>next_trigger3 := n\<rparr>) d s' = counts s d s'" "counts (s\<lparr>mem3 := m\<rparr>) d s' = counts s d s'"
  by (simp_all add: counts_def)

lemma counts_same: "counts s d s' \<Longrightarrow> tasks3 s'' = tasks3 s' \<Longrightarrow> counts s d s''"
  by (simp add: counts_def)

lemma schedule_keeps:
  assumes "inv3 s" and "st \<noteq> Running3" and "st = Ready3 \<longrightarrow> resumable here" and r: "run_next_task (mark_current st s) here mtime = Some (p, s')"
  shows "inv3 s' \<and> resumable p \<and> counts s (\<lambda>_ _. 0) s'"
proof (cases "\<exists>t < num_app s. task_status (tasks3 (mark_current st s) ! t) = Ready3")
  case True
  then obtain t where t: "t < num_app s" "task_status (tasks3 (mark_current st s) ! t) = Ready3" by blast
  have "current_task3 s < num_app s" using assms(1) by (simp add: inv3_def)
  then obtain k where "k < num_app s" "(current_task3 s + 1 + k) mod num_app s = t" using cyclic_position [OF t(1)] by blast
  then show ?thesis using schedule_ok [OF assms(1-3), of k mtime] t r by (auto simp: counts_def)
next
  case False
  have "between (mark_current st s) here" by (rule mark_between [OF assms(1-3)])
  then have "find_next_task (mark_current st s) = Some None" using False by (intro find_next_none) (auto simp: between_def)
  then show ?thesis using r by (simp add: run_next_task_def)
qed

lemma suspend_keeps:
  "inv3 s \<Longrightarrow> resumable here \<Longrightarrow> suspend_current_and_run_next3 s here mtime = Some (p, s') \<Longrightarrow> inv3 s' \<and> resumable p \<and> counts s (\<lambda>_ _. 0) s'"
  using schedule_keeps [of s Ready3 here mtime p s'] by (simp add: suspend_current_and_run_next3_def mark_simps)

lemma exit_keeps:
  "inv3 s \<Longrightarrow> exit_current_and_run_next3 s here mtime = Some (p, s') \<Longrightarrow> inv3 s' \<and> resumable p \<and> counts s (\<lambda>_ _. 0) s'"
  using schedule_keeps [of s Exited3 here mtime p s'] by (simp add: exit_current_and_run_next3_def mark_simps)

lemma resume_keeps: "resume3 im s p = Some s' \<Longrightarrow> tasks3 s' = tasks3 s \<and> current_task3 s' = current_task3 s \<and> inv3 s' = inv3 s"
  by (cases p) auto

text \<open>Counting the call, then serving it.\<close>

definition call_count :: "nat \<Rightarrow> usize \<Rightarrow> nat \<Rightarrow> nat \<Rightarrow> nat" where
  "call_count cur syscall_id t i = (if t = cur \<and> map_syscall_to_small_range syscall_id = Some i then 1 else 0)"

lemma update_counts:
  assumes i: "inv3 s" and u: "update_syscall_num s syscall_id = Some s'"
  shows "inv3 s' \<and> counts s (call_count (current_task3 s) syscall_id) s'"
proof -
  obtain j n where j: "map_syscall_to_small_range syscall_id = Some j" "index (syscall_times (tasks3 s ! current_task3 s)) j = Some n"
    and s': "s' = s\<lparr>tasks3 := (tasks3 s)[current_task3 s := (tasks3 s ! current_task3 s)\<lparr>syscall_times := (syscall_times (tasks3 s ! current_task3 s))[j := n + 1]\<rparr>]\<rparr>"
    using u by (auto simp: update_syscall_num_def upd_task_def index_Some split: bind_splits)
  have "inv3 s'" using i unfolding s' by (auto simp: inv3_def nth_list_update)
  moreover have "counts s (call_count (current_task3 s) syscall_id) s'"
    using i j unfolding s' by (auto simp: counts_def call_count_def inv3_def nth_list_update index_Some)
  ultimately show ?thesis ..
qed

lemma syscall3_keeps:
  assumes i: "inv3 s" and r: "syscall3 im s mtime syscall_id a0 a1 a2 = Some r'"
  shows "case r' of Ret3 v s' \<Rightarrow> inv3 s' \<and> counts s (call_count (current_task3 s) syscall_id) s'
    | Switched3 p s' \<Rightarrow> inv3 s' \<and> counts s (call_count (current_task3 s) syscall_id) s'"
proof -
  let ?d = "call_count (current_task3 s) syscall_id"
  obtain s1 where u: "update_syscall_num s syscall_id = Some s1" using r by (auto simp: syscall3_def split: bind_splits)
  have i1: "inv3 s1" and c1: "counts s ?d s1" using update_counts [OF i u] by auto
  have sw: "inv3 s2 \<and> counts s ?d s2" if "inv3 s2 \<and> resumable p \<and> counts s1 (\<lambda>_ _. 0) s2" for p s2
    using that counts_trans [OF c1, of "\<lambda>_ _. 0" s2] by simp
  have e: "inv3 s2 \<and> counts s ?d s2" if "exit_current_and_run_next3 s1 here t = Some (p, s2)" for here t p s2
    using sw exit_keeps [OF i1 that] by blast
  have y: "inv3 s2 \<and> counts s ?d s2" if "suspend_current_and_run_next3 s1 AfterYield t = Some (p, s2)" for t p s2
    using sw suspend_keeps [OF i1 _ that] by (simp add: resumable_def)
  show ?thesis using r i1 counts_same [OF c1]
    by (auto simp: syscall3_def u sys_write3_def sys_exit3_def sys_yield3_def sys_get_time3_def sys_task_info3_def Let_def
        dest: e y split: if_splits bind_splits)
qed

text \<open>The number of the system call that a trap makes.\<close>

definition trap_call :: "image3 \<Rightarrow> os3 \<Rightarrow> cause3 \<Rightarrow> usize option" where
  "trap_call im s c =
     (case c of
        UserEnvCall3 _ \<Rightarrow> Some (x3 (get_cx im (put_cx im s ((get_cx im s)\<lparr>sepc3 := sepc3 (get_cx im s) + 4\<rparr>))) ! 17)
      | _ \<Rightarrow> None)"

definition trap_count :: "image3 \<Rightarrow> os3 \<Rightarrow> cause3 \<Rightarrow> nat \<Rightarrow> nat \<Rightarrow> nat" where
  "trap_count im s c = (case trap_call im s c of None \<Rightarrow> (\<lambda>_ _. 0) | Some syscall_id \<Rightarrow> call_count (current_task3 s) syscall_id)"

lemma trap_keeps:
  assumes i: "inv3 s" and r: "trap_handler3 im s c = Some s'"
  shows "inv3 s' \<and> counts s (trap_count im s c) s'"
proof -
  have e: "inv3 s' \<and> counts s (\<lambda>_ _. 0) s'"
    if f: "do { (p, s) \<leftarrow> exit_current_and_run_next3 s AfterFault t; resume3 im s p } = Some s'" for t
  proof -
    obtain p s1 where 1: "exit_current_and_run_next3 s AfterFault t = Some (p, s1)" and 2: "resume3 im s1 p = Some s'"
      using f by (auto split: bind_splits)
    then show ?thesis using exit_keeps [OF i 1] resume_keeps [OF 2] counts_same by blast
  qed
  show ?thesis
  proof (cases c)
    case (UserEnvCall3 mtime)
    let ?s = "put_cx im s ((get_cx im s)\<lparr>sepc3 := sepc3 (get_cx im s) + 4\<rparr>)" and ?x = "x3 (get_cx im (put_cx im s ((get_cx im s)\<lparr>sepc3 := sepc3 (get_cx im s) + 4\<rparr>)))"
    obtain r' where r': "syscall3 im ?s mtime (?x ! 17) (?x ! 10) (?x ! 11) (?x ! 12) = Some r'"
      and s': "(case r' of Ret3 v s \<Rightarrow> Some (set_a0 im s v) | Switched3 p s \<Rightarrow> resume3 im s p) = Some s'"
      using r UserEnvCall3 by (auto simp: trap_handler3_def Let_def split: bind_splits)
    have "trap_count im s c = call_count (current_task3 s) (?x ! 17)" by (simp add: trap_count_def trap_call_def UserEnvCall3)
    then show ?thesis using syscall3_keeps [OF _ r'] i s'
      by (cases r') (auto dest: resume_keeps intro: counts_same)
  next
    case (SupervisorTimer3 t1 t2)
    then obtain p s1 where s1: "suspend_current_and_run_next3 (s\<lparr>next_trigger3 := set_next_trigger3 t1\<rparr>) AfterTimer t2 = Some (p, s1)"
      and "resume3 im s1 p = Some s'" using r by (auto simp: trap_handler3_def split: bind_splits)
    then show ?thesis using suspend_keeps [OF _ _ s1] i SupervisorTimer3
      by (auto simp: resumable_def trap_count_def trap_call_def dest!: resume_keeps intro: counts_same)
  qed (use r e in \<open>auto simp: trap_handler3_def trap_count_def trap_call_def\<close>)
qed

text \<open>A run: the current application runs and changes memory, then it traps.\<close>

fun run3 :: "image3 \<Rightarrow> os3 \<Rightarrow> ((usize \<Rightarrow> u8) \<times> cause3) list \<Rightarrow> os3 option" where
  "run3 im s [] = Some s"
| "run3 im s ((m, c) # cs) = do { s \<leftarrow> trap_handler3 im (s\<lparr>mem3 := m\<rparr>) c; run3 im s cs }"

text \<open>How often task \<open>t\<close> makes a system call along a run.\<close>

fun calls :: "image3 \<Rightarrow> os3 \<Rightarrow> ((usize \<Rightarrow> u8) \<times> cause3) list \<Rightarrow> nat \<Rightarrow> usize \<Rightarrow> nat" where
  "calls im s [] t syscall_id = 0"
| "calls im s ((m, c) # cs) t syscall_id =
     (if current_task3 s = t \<and> trap_call im (s\<lparr>mem3 := m\<rparr>) c = Some syscall_id then 1 else 0) +
     (case trap_handler3 im (s\<lparr>mem3 := m\<rparr>) c of None \<Rightarrow> 0 | Some s \<Rightarrow> calls im s cs t syscall_id)"

lemma small_range_inj: "map_syscall_to_small_range a = Some i \<Longrightarrow> map_syscall_to_small_range b = Some i \<Longrightarrow> a = b"
  by (auto simp: map_syscall_to_small_range_def split: if_splits)

lemma run3_counts:
  "run3 im s cs = Some s' \<Longrightarrow> inv3 s \<Longrightarrow> map_syscall_to_small_range syscall_id = Some i \<Longrightarrow>
   inv3 s' \<and> (\<forall>t < MAX_APP_NUM. syscall_times (tasks3 s' ! t) ! i = syscall_times (tasks3 s ! t) ! i + word_of_nat (calls im s cs t syscall_id))"
proof (induction im s cs rule: run3.induct)
  case (2 im s m c cs)
  then obtain s1 where s1: "trap_handler3 im (s\<lparr>mem3 := m\<rparr>) c = Some s1" and r: "run3 im s1 cs = Some s'" by (auto split: bind_splits)
  have k: "inv3 s1" "counts (s\<lparr>mem3 := m\<rparr>) (trap_count im (s\<lparr>mem3 := m\<rparr>) c) s1" using trap_keeps [OF _ s1] 2 by auto
  have i5: "i < 5" using 2(4) by (auto simp: map_syscall_to_small_range_def split: if_splits)
  have "trap_count im (s\<lparr>mem3 := m\<rparr>) c t i = (if current_task3 s = t \<and> trap_call im (s\<lparr>mem3 := m\<rparr>) c = Some syscall_id then 1 else 0)" for t
  proof (cases "trap_call im (s\<lparr>mem3 := m\<rparr>) c")
    case (Some a)
    have "map_syscall_to_small_range a = Some i \<longleftrightarrow> a = syscall_id" using 2(4) small_range_inj by blast
    then show ?thesis using Some by (auto simp: trap_count_def call_count_def)
  qed (simp add: trap_count_def)
  then have d: "t < MAX_APP_NUM \<Longrightarrow> syscall_times (tasks3 s1 ! t) ! i = syscall_times (tasks3 s ! t) ! i +
      word_of_nat (if current_task3 s = t \<and> trap_call im (s\<lparr>mem3 := m\<rparr>) c = Some syscall_id then 1 else 0)" for t
    using k(2) i5 by (simp add: counts_def)
  show ?case using 2(1) [OF s1 r k(1) 2(4)] by (simp add: d s1)
qed simp

subsection \<open>The task information\<close>

lemma small_word_eq: "j < 500 \<Longrightarrow> unat c < 500 \<Longrightarrow> (word_of_nat j = (c :: usize)) = (j = unat c)"
  by (auto simp: word_unat_eq_iff unat_of_nat)

lemma fill_times_five:
  assumes "length cs = 5"
  shows "fill_times cs [0..<5] (replicate 500 0) = Some ((replicate 500 0)[64 := cs ! 0, 124 := cs ! 1, 93 := cs ! 2, 169 := cs ! 3, 410 := cs ! 4])"
proof -
  have "[0..<5] = [0, 1, 2, 3, 4 :: nat]" by (simp add: upt_rec)
  then show ?thesis using assms by (simp add: map_small_range_to_syscall_def index_def sys_numbers)
qed

lemma task_info_fields:
  assumes "inv3 s"
  shows "\<exists>info. get_current_task_info s mtime = Some info \<and> ti_status info = Running3 \<and> length (ti_syscall_times info) = MAX_SYSCALL_NUM \<and>
    (\<forall>j < MAX_SYSCALL_NUM. ti_syscall_times info ! j =
       (case map_syscall_to_small_range (word_of_nat j) of None \<Rightarrow> 0 | Some i \<Rightarrow> syscall_times (tasks3 s ! current_task3 s) ! i))"
proof -
  let ?t = "tasks3 s ! current_task3 s" let ?cs = "syscall_times (tasks3 s ! current_task3 s)"
  let ?ts = "(replicate 500 0)[64 := ?cs ! 0, 124 := ?cs ! 1, 93 := ?cs ! 2, 169 := ?cs ! 3, 410 := ?cs ! 4]"
  have t: "index (tasks3 s) (current_task3 s) = Some ?t" "task_status ?t = Running3" "length ?cs = 5"
    using assms by (auto simp: inv3_def index_def)
  have e: "get_current_task_info s mtime = Some \<lparr>ti_status = Running3, ti_syscall_times = ?ts, ti_time = get_time_us3 mtime div 1000 - start_time ?t\<rparr>"
    using t fill_times_five [OF t(3)] by (simp add: get_current_task_info_def MAX_SYSCALL_NUM_def)
  have "?ts ! j = (case map_syscall_to_small_range (word_of_nat j) of None \<Rightarrow> 0 | Some i \<Rightarrow> ?cs ! i)" if "j < 500" for j
    using that by (simp add: map_syscall_to_small_range_def sys_numbers small_word_eq nth_list_update)
  then show ?thesis using e by (simp add: MAX_SYSCALL_NUM_def)
qed

text \<open>
  C10 (functional).  \<^verbatim>\<open>sys_task_info\<close> counts right: after any sequence of traps from a start with all
  counters zero, the information of the current task says that it is running and gives for each of the
  five system calls how often this task made it (as a 32-bit number), the current call included, and zero
  for every other number.
\<close>

theorem task_info_counts_calls:
  assumes "inv3 s" and "\<forall>t < MAX_APP_NUM. syscall_times (tasks3 s ! t) = replicate 5 0" and "run3 im s cs = Some s'"
  shows "\<exists>info. get_current_task_info s' mtime = Some info \<and> ti_status info = Running3 \<and>
    length (ti_syscall_times info) = MAX_SYSCALL_NUM \<and>
    (\<forall>j < MAX_SYSCALL_NUM. ti_syscall_times info ! j =
       (if map_syscall_to_small_range (word_of_nat j) = None then 0
        else word_of_nat (calls im s cs (current_task3 s') (word_of_nat j))))"
proof -
  have i': "inv3 s'" using run3_counts [OF assms(3,1), of SYS_WRITE 0] by (simp add: map_syscall_to_small_range_def)
  then have c: "current_task3 s' < MAX_APP_NUM" by (simp add: inv3_def)
  have "syscall_times (tasks3 s' ! current_task3 s') ! i = word_of_nat (calls im s cs (current_task3 s') syscall_id)"
    if "map_syscall_to_small_range syscall_id = Some i" for syscall_id i
  proof -
    have "i < 5" using that by (auto simp: map_syscall_to_small_range_def split: if_splits)
    then show ?thesis using run3_counts [OF assms(3,1) that] assms(2) c by simp
  qed
  then show ?thesis using task_info_fields [OF i', of mtime] by (fastforce split: option.splits)
qed

subsection \<open>Memory and trap contexts\<close>

lemma store3_other: "(\<And>i. i < length bs \<Longrightarrow> x \<noteq> a + word_of_nat i) \<Longrightarrow> store3 m a bs x = m x"
proof (induction bs arbitrary: m a)
  case (Cons b bs)
  have "x \<noteq> a" using Cons.prems [of 0] by simp
  moreover have "x \<noteq> a + 1 + word_of_nat i" if "i < length bs" for i using Cons.prems [of "Suc i"] that by (simp add: add.assoc)
  ultimately show ?case using Cons.IH by simp
qed simp

lemma store3_nth: "i < length bs \<Longrightarrow> length bs \<le> 2 ^ 64 \<Longrightarrow> store3 m a bs (a + word_of_nat i) = bs ! i"
proof (induction bs arbitrary: m a i)
  case (Cons b bs)
  show ?case
  proof (cases i)
    case 0
    have "a \<noteq> a + 1 + word_of_nat j" if "j < length bs" for j
    proof
      assume "a = a + 1 + word_of_nat j"
      then have "word_of_nat (Suc j) = (0 :: usize)" by (simp add: add.assoc)
      then show False using that Cons.prems(2) by (simp add: word_unat_eq_iff unat_of_nat del: of_nat_Suc)
    qed
    then show ?thesis using 0 store3_other [of bs a "a + 1" "m(a := b)"] by simp
  next
    case (Suc j)
    then show ?thesis using Cons.IH [of j "m(a := b)" "a + 1"] Cons.prems by (simp add: add.assoc del: fun_upd_apply)
  qed
qed simp

lemma load_store3: "length bs \<le> 2 ^ 64 \<Longrightarrow> load3 (store3 m a bs) a (length bs) = bs"
  by (rule nth_equalityI) (simp_all add: load3_def store3_nth)

lemma tc_bytes3_inverse: "length (x3 cx) = 32 \<Longrightarrow> tc_of_bytes3 (tc_bytes3 cx) = cx"
proof -
  let ?ws = "x3 cx @ [sstatus3 cx, sepc3 cx]"
  assume l: "length (x3 cx) = 32"
  then have "map (\<lambda>i. bytes_word (take 8 (drop (8 * i) (tc_bytes3 cx)))) [0..<34] = map (\<lambda>i. ?ws ! i) [0..<34]"
    by (intro map_cong) (auto simp: tc_bytes3_def nth_words_bytes simp del: map_append concat_append)
  also have "\<dots> = ?ws" using map_nth [of ?ws] l by simp
  finally show ?thesis using l by (simp add: tc_of_bytes3_def Let_def nth_append)
qed

lemma length_tc_bytes3: "length (x3 cx) = 32 \<Longrightarrow> length (tc_bytes3 cx) = TC_SIZE3"
  by (simp add: tc_bytes3_def TC_SIZE3_def)

lemma get_put_cx:
  assumes "length (x3 cx) = 32"
  shows "get_cx im (put_cx im s cx) = cx"
proof -
  have "cx_ptr im (put_cx im s cx) = cx_ptr im s" by (simp add: cx_ptr_def put_cx_def)
  then show ?thesis using load_store3 [of "tc_bytes3 cx" "mem3 s" "cx_ptr im s"] length_tc_bytes3 [OF assms] tc_bytes3_inverse [OF assms]
    by (simp add: get_cx_def put_cx_def TC_SIZE3_def)
qed

text \<open>The example: the first application asks for the time and then for its own statistics.\<close>

definition ex_image3 :: image3 where
  "ex_image3 = \<lparr>num_app_ptr = 0x80270000, kernel_stacks = 0x80280000, user_stacks = 0x80260000, im_sstatus = 0,
     put_task_info = (\<lambda>ti info m. m)\<rparr>"

definition ex_call :: "usize \<Rightarrow> usize \<Rightarrow> u8" where
  "ex_call syscall_id = mem3 (put_cx ex_image3 ex_os3 \<lparr>x3 = (replicate 32 0)[17 := syscall_id, 10 := 0x80400100], sstatus3 = 0, sepc3 = 0x80400000\<rparr>)"

lemma ex_call_id: "trap_call ex_image3 (ex_os3\<lparr>mem3 := ex_call syscall_id\<rparr>) (UserEnvCall3 t) = Some syscall_id"
proof -
  have "ex_os3\<lparr>mem3 := ex_call syscall_id\<rparr> = put_cx ex_image3 ex_os3 \<lparr>x3 = (replicate 32 0)[17 := syscall_id, 10 := 0x80400100], sstatus3 = 0, sepc3 = 0x80400000\<rparr>"
    by (simp add: ex_call_def put_cx_def)
  then show ?thesis by (simp add: trap_call_def get_put_cx)
qed

lemma ex_call_runs: "\<exists>s'. run3 ex_image3 ex_os3 [(ex_call SYS_GET_TIME, UserEnvCall3 25)] = Some s' \<and> current_task3 s' = 0"
proof -
  let ?s = "ex_os3\<lparr>mem3 := ex_call SYS_GET_TIME\<rparr>"
  let ?c = "put_cx ex_image3 ?s ((get_cx ex_image3 ?s)\<lparr>sepc3 := sepc3 (get_cx ex_image3 ?s) + 4\<rparr>)"
  have id: "x3 (get_cx ex_image3 ?c) ! 17 = SYS_GET_TIME" using ex_call_id [of SYS_GET_TIME 25] by (simp add: trap_call_def)
  have "tasks3 ?c = tasks3 ex_os3" "current_task3 ?c = 0" by (simp_all add: ex_os3_def)
  then obtain s1 where s1: "update_syscall_num ?c SYS_GET_TIME = Some s1" "current_task3 s1 = 0"
    by (simp add: update_syscall_num_def upd_task_def index_def map_syscall_to_small_range_def sys_numbers)
      (simp add: ex_os3_def ex_task3_def)
  then have "\<exists>s2. syscall3 ex_image3 ?c 25 SYS_GET_TIME a0 a1 a2 = Some (Ret3 0 s2) \<and> current_task3 s2 = 0" for a0 a1 a2
    by (simp add: syscall3_def sys_get_time3_def sys_numbers Let_def)
  from this [of "x3 (get_cx ex_image3 ?c) ! 10" "x3 (get_cx ex_image3 ?c) ! 11" "x3 (get_cx ex_image3 ?c) ! 12"]
  show ?thesis by (auto simp: trap_handler3_def id Let_def)
qed

theorem task_info_counts_calls_witness:
  "\<exists>s' info. run3 ex_image3 ex_os3 [(ex_call SYS_GET_TIME, UserEnvCall3 25)] = Some s' \<and>
     get_current_task_info s' 50 = Some info \<and> ti_syscall_times info ! 169 = 1"
proof -
  obtain s' where s': "run3 ex_image3 ex_os3 [(ex_call SYS_GET_TIME, UserEnvCall3 25)] = Some s'" "current_task3 s' = 0" using ex_call_runs by blast
  have "\<forall>t < MAX_APP_NUM. syscall_times (tasks3 ex_os3 ! t) = replicate 5 0"
    by (auto simp: MAX_APP_NUM_def ex_os3_def ex_task3_def task_new_def nth_append nth_Cons split: nat.splits)
  from task_info_counts_calls [OF ex_os3_inv this s'(1), of 50] obtain info where i: "get_current_task_info s' 50 = Some info"
    and "ti_syscall_times info ! 169 = word_of_nat (calls ex_image3 ex_os3 [(ex_call SYS_GET_TIME, UserEnvCall3 25)] 0 (word_of_nat 169))"
    using s'(2) by (auto simp: MAX_SYSCALL_NUM_def map_syscall_to_small_range_def sys_numbers)
  moreover have "calls ex_image3 ex_os3 [(ex_call SYS_GET_TIME, UserEnvCall3 25)] 0 (word_of_nat 169) = 1"
    using ex_call_id [of SYS_GET_TIME 25] by (simp add: SYS_GET_TIME_def split: option.splits) (simp add: ex_os3_def)
  ultimately show ?thesis using s'(1) by auto
qed

subsection \<open>Start\<close>

lemma init_tasks_ok:
  assumes "length ts = MAX_APP_NUM" and "\<forall>i \<in> set is. i < MAX_APP_NUM"
  shows "\<exists>ts' m'. init_tasks im is ts m = Some (ts', m') \<and> length ts' = MAX_APP_NUM \<and>
    (\<forall>i < MAX_APP_NUM. syscall_times (ts' ! i) = syscall_times (ts ! i) \<and>
       task_status (ts' ! i) = (if i \<in> set is then Ready3 else task_status (ts ! i)) \<and>
       ra3 (task_cx (ts' ! i)) = (if i \<in> set is then AtRestore else ra3 (task_cx (ts ! i))))"
  using assms
proof (induction "is" arbitrary: ts m)
  case (Cons i "is")
  obtain ptr m1 where 1: "init_app_cx im i m = Some (ptr, m1)" using Cons.prems(2) by (auto simp: init_app_cx_def push_context_def Let_def)
  let ?ts = "ts[i := (ts ! i)\<lparr>task_cx := goto_restore ptr, task_status := Ready3\<rparr>]"
  obtain ts' m' where r: "init_tasks im is ?ts m1 = Some (ts', m')" "length ts' = MAX_APP_NUM"
    "\<And>j. j < MAX_APP_NUM \<Longrightarrow> syscall_times (ts' ! j) = syscall_times (?ts ! j) \<and>
       task_status (ts' ! j) = (if j \<in> set is then Ready3 else task_status (?ts ! j)) \<and>
       ra3 (task_cx (ts' ! j)) = (if j \<in> set is then AtRestore else ra3 (task_cx (?ts ! j)))"
    using Cons.IH [of ?ts m1] Cons.prems by auto
  have "i < MAX_APP_NUM" using Cons.prems by simp
  then show ?case using 1 r(1,2) r(3) Cons.prems(1)
    by (intro exI [of _ ts'] exI [of _ m']) (simp add: goto_restore_def nth_list_update)
qed simp

text \<open>The kernel starts in the invariant with all counters zero, given one to sixteen applications.\<close>

lemma start_inv3:
  assumes "0 < get_num_app im (load_apps im (store3 m sbss (replicate (unat (ebss - sbss)) 0)))"
    and "get_num_app im (load_apps im (store3 m sbss (replicate (unat (ebss - sbss)) 0))) \<le> MAX_APP_NUM"
  shows "\<exists>s. rust_main3 im sbss ebss t1 t2 m = Some s \<and> inv3 s \<and> current_task3 s = 0 \<and>
    (\<forall>t < MAX_APP_NUM. syscall_times (tasks3 s ! t) = replicate 5 0)"
proof -
  let ?m = "load_apps im (store3 m sbss (replicate (unat (ebss - sbss)) 0))"
  let ?n = "get_num_app im ?m"
  obtain ts m' where ts: "init_tasks im [0..<?n] (replicate MAX_APP_NUM task_new) ?m = Some (ts, m')" "length ts = MAX_APP_NUM"
    "\<And>i. i < MAX_APP_NUM \<Longrightarrow> syscall_times (ts ! i) = replicate 5 0 \<and> task_status (ts ! i) = (if i < ?n then Ready3 else UnInit3) \<and>
       ra3 (task_cx (ts ! i)) = (if i < ?n then AtRestore else Zero)"
    using init_tasks_ok [of "replicate MAX_APP_NUM task_new" "[0..<?n]" im ?m] assms(2) by (auto simp: task_new_def zero_init3_def)
  let ?t0 = "(ts ! 0)\<lparr>task_status := Running3, start_time := get_time_us3 t2 div 1000\<rparr>"
  let ?s = "\<lparr>mem3 = m', num_app = ?n, tasks3 = ts[0 := ?t0], current_task3 = 0, console3 = [], next_trigger3 = set_next_trigger3 t1\<rparr>"
  have l: "0 < MAX_APP_NUM" by (simp add: MAX_APP_NUM_def)
  then have "ts \<noteq> []" using ts(2) by auto
  then have e: "rust_main3 im sbss ebss t1 t2 m = Some ?s"
    using assms ts by (simp add: rust_main3_def TASK_MANAGER_new_def run_first_task_def upd_task_def index_def Let_def)
  have "inv3 ?s" using assms ts l by (auto simp: inv3_def nth_list_update resumable_def split: if_splits)
  moreover have "\<forall>t < MAX_APP_NUM. syscall_times (tasks3 ?s ! t) = replicate 5 0" using ts by (auto simp: nth_list_update)
  ultimately show ?thesis using e by (intro exI [of _ ?s]) simp
qed

text \<open>Loading copies the image and clears the rest of the region.\<close>

lemma store3_append: "store3 m a (xs @ ys) = store3 (store3 m a xs) (a + word_of_nat (length xs)) ys"
  by (induction xs arbitrary: m a) (simp_all add: add.assoc del: fun_upd_apply)

lemma store_prefix:
  assumes "length xs \<le> n" and "n \<le> 2 ^ 64"
  shows "load3 (store3 (store3 m a (replicate n 0)) a xs) a n = xs @ replicate (n - length xs) 0"
proof (rule nth_equalityI)
  fix i assume "i < length (load3 (store3 (store3 m a (replicate n 0)) a xs) a n)"
  then have i: "i < n" by (simp add: load3_def)
  show "load3 (store3 (store3 m a (replicate n 0)) a xs) a n ! i = (xs @ replicate (n - length xs) 0) ! i"
  proof (cases "i < length xs")
    case True
    then show ?thesis using i assms by (simp add: load3_def store3_nth nth_append)
  next
    case False
    have "a + word_of_nat i \<noteq> a + word_of_nat j" if "j < length xs" for j
    proof -
      have "word_of_nat i \<noteq> (word_of_nat j :: usize)" using that False i assms by (auto simp: word_unat_eq_iff unat_of_nat)
      then show ?thesis by simp
    qed
    then have "store3 (store3 m a (replicate n 0)) a xs (a + word_of_nat i) = store3 m a (replicate n 0) (a + word_of_nat i)"
      by (rule store3_other)
    then show ?thesis using i False assms store3_nth [of i "replicate n 0" m a] by (simp add: load3_def nth_append)
  qed
qed (use assms in \<open>simp add: load3_def\<close>)

lemma load_app_image:
  assumes "unat (app_start im m (Suc i) - app_start im m i) \<le> unat APP_SIZE_LIMIT"
    and "\<And>j. app_start im (store3 m (get_base_i i) (replicate (unat APP_SIZE_LIMIT) 0)) j = app_start im m j"
    and "\<And>n. load3 (store3 m (get_base_i i) (replicate (unat APP_SIZE_LIMIT) 0)) (app_start im m i) n = load3 m (app_start im m i) n"
  shows "load3 (load_app im i m) (get_base_i i) (unat APP_SIZE_LIMIT) =
    load3 m (app_start im m i) (unat (app_start im m (Suc i) - app_start im m i)) @
    replicate (unat APP_SIZE_LIMIT - unat (app_start im m (Suc i) - app_start im m i)) 0"
proof -
  have "unat APP_SIZE_LIMIT \<le> 2 ^ 64" by (simp add: APP_SIZE_LIMIT_def)
  then show ?thesis using store_prefix [of "load3 m (app_start im m i) (unat (app_start im m (Suc i) - app_start im m i))"
        "unat APP_SIZE_LIMIT" m "get_base_i i"] assms
    by (simp add: load_app_def Let_def) (simp add: load3_def)
qed

end
