(* ===== verification/Batch.thy ===== *)
theory Batch
  imports Multiprog_Props
begin

text \<open>
  The batch system (os2/src/): applications run one after the other, each copied to the same place in
  memory.  Memory and trap contexts are those of the multiprogramming kernel (theory Multiprog), whose
  \<^verbatim>\<open>TrapContext\<close> is the same.  Running an application never returns to the kernel code that started it:
  the state after \<open>run_next_app\<close> is the one in which the application starts, with its trap context at the
  top of the kernel stack.  A panic, also the one after the last application, is \<^const>\<open>None\<close>.
\<close>

definition USER_STACK_SIZE2 :: usize where "USER_STACK_SIZE2 = 4096"
definition KERNEL_STACK_SIZE2 :: usize where "KERNEL_STACK_SIZE2 = 4096 * 20"
definition MAX_APP_NUM2 :: nat where "MAX_APP_NUM2 = 16"
definition APP_BASE_ADDRESS2 :: usize where "APP_BASE_ADDRESS2 = 0x80400000"
definition APP_SIZE_LIMIT2 :: usize where "APP_SIZE_LIMIT2 = 0x20000"

record AppManager =
  am_num_app :: nat
  am_current_app :: nat
  am_app_start :: "usize list"

record os2 =
  mem2 :: "usize \<Rightarrow> u8"
  app_manager :: AppManager
  console2 :: "u8 list"

record image2 =
  num_app_ptr2 :: usize
  kernel_stack2 :: usize
  user_stack2 :: usize
  im2_sstatus :: usize

definition kstack_get_sp2 :: "image2 \<Rightarrow> usize" where
  "kstack_get_sp2 im = kernel_stack2 im + KERNEL_STACK_SIZE2"

definition ustack_get_sp2 :: "image2 \<Rightarrow> usize" where
  "ustack_get_sp2 im = user_stack2 im + USER_STACK_SIZE2"

definition push_context2 :: "image2 \<Rightarrow> TrapContext3 \<Rightarrow> (usize \<Rightarrow> u8) \<Rightarrow> (usize \<Rightarrow> u8)" where
  "push_context2 im cx m = store3 m (kstack_get_sp2 im - word_of_nat TC_SIZE3) (tc_bytes3 cx)"

text \<open>\<^verbatim>\<open>app_start[..=num_app].copy_from_slice\<close> panics when there are more applications than places.\<close>

definition APP_MANAGER_new :: "image2 \<Rightarrow> (usize \<Rightarrow> u8) \<Rightarrow> AppManager option" where
  "APP_MANAGER_new im m =
     do { let num = unat (load_usize m (num_app_ptr2 im));
          rassert (num < MAX_APP_NUM2 + 1);
          let raw = map (\<lambda>i. load_usize m (num_app_ptr2 im + 8 + word_of_nat i * 8)) [0..<num + 1];
          Some \<lparr>am_num_app = num, am_current_app = 0, am_app_start = raw @ replicate (MAX_APP_NUM2 - num) 0\<rparr> }"

definition load_app2 :: "AppManager \<Rightarrow> nat \<Rightarrow> (usize \<Rightarrow> u8) \<Rightarrow> (usize \<Rightarrow> u8) option" where
  "load_app2 am app_id m =
     (if am_num_app am \<le> app_id then None
      else do { let m = store3 m APP_BASE_ADDRESS2 (replicate (unat APP_SIZE_LIMIT2) 0);
                a \<leftarrow> index (am_app_start am) app_id;
                b \<leftarrow> index (am_app_start am) (app_id + 1);
                Some (store3 m APP_BASE_ADDRESS2 (load3 m a (unat (b - a)))) })"

definition move_to_next_app :: "AppManager \<Rightarrow> AppManager" where
  "move_to_next_app am = am\<lparr>am_current_app := am_current_app am + 1\<rparr>"

definition run_next_app :: "image2 \<Rightarrow> os2 \<Rightarrow> os2 option" where
  "run_next_app im s =
     do { let am = app_manager s;
          m \<leftarrow> load_app2 am (am_current_app am) (mem2 s);
          let am = move_to_next_app am;
          let m = push_context2 im (app_init_context3 (im2_sstatus im) APP_BASE_ADDRESS2 (ustack_get_sp2 im)) m;
          Some (s\<lparr>mem2 := m, app_manager := am\<rparr>) }"

datatype outcome2 = Ret2 usize os2 | NextApp os2

definition sys_write2 :: "os2 \<Rightarrow> usize \<Rightarrow> usize \<Rightarrow> usize \<Rightarrow> outcome2 option" where
  "sys_write2 s fd buf len =
     (if fd = FD_STDOUT then
        do { let str = load3 (mem2 s) buf (unat len);
             rassert (utf8_ok str);
             Some (Ret2 len (s\<lparr>console2 := console2 s @ str\<rparr>)) }
      else None)"

definition sys_exit2 :: "image2 \<Rightarrow> os2 \<Rightarrow> 32 word \<Rightarrow> outcome2 option" where
  "sys_exit2 im s exit_code = map_option NextApp (run_next_app im s)"

definition syscall2 :: "image2 \<Rightarrow> os2 \<Rightarrow> usize \<Rightarrow> usize \<Rightarrow> usize \<Rightarrow> usize \<Rightarrow> outcome2 option" where
  "syscall2 im s syscall_id a0 a1 a2 =
     (if syscall_id = SYS_WRITE then sys_write2 s a0 a1 a2
      else if syscall_id = SYS_EXIT then sys_exit2 im s (ucast a0)
      else None)"

definition get_cx2 :: "image2 \<Rightarrow> os2 \<Rightarrow> TrapContext3" where
  "get_cx2 im s = tc_of_bytes3 (load3 (mem2 s) (kstack_get_sp2 im - word_of_nat TC_SIZE3) TC_SIZE3)"

definition put_cx2 :: "image2 \<Rightarrow> os2 \<Rightarrow> TrapContext3 \<Rightarrow> os2" where
  "put_cx2 im s cx = s\<lparr>mem2 := push_context2 im cx (mem2 s)\<rparr>"

datatype cause2 = UserEnvCall2 | StoreFault2 | StorePageFault2 | IllegalInstruction2 | OtherTrap2

definition trap_handler2 :: "image2 \<Rightarrow> os2 \<Rightarrow> cause2 \<Rightarrow> os2 option" where
  "trap_handler2 im s c =
     (case c of
        UserEnvCall2 \<Rightarrow>
          do { let s = put_cx2 im s ((get_cx2 im s)\<lparr>sepc3 := sepc3 (get_cx2 im s) + 4\<rparr>);
               let x = x3 (get_cx2 im s);
               r \<leftarrow> syscall2 im s (x ! 17) (x ! 10) (x ! 11) (x ! 12);
               (case r of
                  Ret2 v s \<Rightarrow> Some (put_cx2 im s ((get_cx2 im s)\<lparr>x3 := (x3 (get_cx2 im s))[10 := v]\<rparr>))
                | NextApp s \<Rightarrow> Some s) }
      | StoreFault2 \<Rightarrow> run_next_app im s
      | StorePageFault2 \<Rightarrow> run_next_app im s
      | IllegalInstruction2 \<Rightarrow> run_next_app im s
      | OtherTrap2 \<Rightarrow> None)"

definition rust_main2 :: "image2 \<Rightarrow> usize \<Rightarrow> usize \<Rightarrow> (usize \<Rightarrow> u8) \<Rightarrow> os2 option" where
  "rust_main2 im sbss ebss m =
     do { let m = store3 m sbss (replicate (unat (ebss - sbss)) 0);
          am \<leftarrow> APP_MANAGER_new im m;
          run_next_app im \<lparr>mem2 = m, app_manager = am, console2 = []\<rparr> }"

text \<open>
  A trap stays with the current application or goes to the next one, and there is a next one to go to:
  the applications run in order, each at most once, and the system stops after the last.
\<close>

lemma trap_handler2_order:
  assumes "trap_handler2 im s c = Some s'"
  shows "app_manager s' = app_manager s \<or>
    (am_current_app (app_manager s) < am_num_app (app_manager s) \<and> app_manager s' = move_to_next_app (app_manager s))"
proof -
  have r: "am_current_app (app_manager s) < am_num_app (app_manager s) \<and> app_manager s' = move_to_next_app (app_manager s)"
    if "run_next_app im s = Some s'" for s s'
    using that by (auto simp: run_next_app_def load_app2_def Let_def split: bind_splits if_splits)
  show ?thesis using assms
    by (auto simp: trap_handler2_def syscall2_def sys_write2_def sys_exit2_def put_cx2_def Let_def
        dest!: r split: cause2.splits bind_splits if_splits outcome2.splits)
qed

text \<open>The image of the application starts where it expects, followed by zeros.\<close>

lemma run_next_app_image:
  assumes "load_app2 am i m = Some m'" and "index (am_app_start am) i = Some a" and "index (am_app_start am) (i + 1) = Some b"
    and "unat (b - a) \<le> unat APP_SIZE_LIMIT2"
    and "load3 (store3 m APP_BASE_ADDRESS2 (replicate (unat APP_SIZE_LIMIT2) 0)) a (unat (b - a)) = load3 m a (unat (b - a))"
  shows "load3 m' APP_BASE_ADDRESS2 (unat APP_SIZE_LIMIT2) = load3 m a (unat (b - a)) @ replicate (unat APP_SIZE_LIMIT2 - unat (b - a)) 0"
proof -
  have "unat APP_SIZE_LIMIT2 \<le> 2 ^ 64" by (simp add: APP_SIZE_LIMIT2_def)
  moreover have "m' = store3 (store3 m APP_BASE_ADDRESS2 (replicate (unat APP_SIZE_LIMIT2) 0)) APP_BASE_ADDRESS2 (load3 m a (unat (b - a)))"
    using assms by (simp add: load_app2_def split: if_splits)
  ultimately show ?thesis using store_prefix [of "load3 m a (unat (b - a))" "unat APP_SIZE_LIMIT2" m APP_BASE_ADDRESS2] assms(4)
    by (simp add: load3_def)
qed

end
