(* ===== verification/Spec2Isabelle.thy ===== *)
theory Spec2Isabelle
  imports Task_Places Lock_Runs Stack_Layout Kernel_Errors Fd_Table Batch
begin

text \<open>
  A verification development for the rCore tutorial operating systems of this repository and their file
  system easy-fs.

  \<^bold>\<open>The program.\<close>  easy-fs (src/easy-fs) is a file system on a block device: a write-back block cache,
  allocation bitmaps, an on-disk layout with direct, indirect and doubly indirect blocks, a file system
  object, and inodes as its interface.  os8-ref (src/os8-ref) is the complete kernel: frame allocator,
  three-level page tables, address spaces, processes with threads, a FIFO scheduler, timers, sleeping
  locks, pipes, files on easy-fs, system calls and traps.  os3 and os2 (src/os3, src/os2) are the
  kernels of two early chapters, without address translation: round robin multiprogramming with task
  statistics, and a batch system.

  \<^bold>\<open>Conventions.\<close>  Rust functions are functions into \<open>option\<close>, where \<open>None\<close> is a panic; a Rust \<^verbatim>\<open>Option\<close> is an
  inner option.  State is passed explicitly and operations are composed in the order of the source.
  \<^verbatim>\<open>usize\<close> is \<open>64 word\<close> where values can wrap, a natural number with the reductions written out in the
  file system.  Values that hardware or firmware supply (the clock, \<^verbatim>\<open>sstatus\<close>, console input) are
  arguments; the ELF reader, a third-party crate, is a function argument.

  \<^bold>\<open>Theories and sources.\<close>
  \<^item> Prelude: the panic monad, byte order, arrays, shared lemmas.
  \<^item> Block_Cache (easy-fs block_dev.rs, block_cache.rs), Bitmap (bitmap.rs), Layout (layout.rs),
    Efs (efs.rs), Vfs (vfs.rs): one theory for each file, one definition for each function.  A disk is a
    function from block numbers to blocks; Block_Cache shows that the cache is transparent, which is why
    the theories above it work on the disk directly.
  \<^item> Allocators (the allocators of task/id.rs and mm/frame_allocator.rs), Address (mm/address.rs,
    config.rs), Phys_Memory (mm/frame_allocator.rs and the raw accessors of address.rs), Page_Table
    (mm/page_table.rs), Memory_Set (mm/memory_set.rs), User_Mem (laws of byte access): memory of os8-ref.
  \<^item> Queues (the contract of a FIFO queue), Pipe (fs/pipe.rs), Timers (timer.rs), Trap_Context
    (trap/context.rs).
  \<^item> Kernel_State (task/manager.rs, processor.rs and the structs of task/), Task_Res (task/id.rs, task.rs),
    Os_File (fs/), Sync (sync/), Process (task/process.rs, mod.rs), Syscalls (syscall/, trap/mod.rs,
    main.rs): the kernel as one record \<open>kernel\<close> with tables of processes, tasks, files, ring buffers
    and locks; a suspended kernel path is a list of \<open>frame\<close>s.
  \<^item> Kernel_Typing, Kernel_Steps, Task_Places, Kernel_Example, Lock_Runs, Stack_Layout, Fd_Table,
    Kernel_Errors: theorems about the whole of os8-ref.
  \<^item> Multiprog, Multiprog_Props (os3/src), Batch (os2/src).

  \<^bold>\<open>What is shown.\<close>
  \<^item> Block cache: every program that reads and modifies blocks, one block at a time, acts through the cache
    as on the disk itself, whatever is evicted, and
    after \<^verbatim>\<open>block_cache_sync_all\<close> the device holds every write (locale \<open>block_store\<close>).
  \<^item> Allocators: frames, recycled ids and bitmap bits satisfy one contract (locale \<open>id_allocator\<close>): an
    identifier is never handed out while it is in use.  The counter of a \<^verbatim>\<open>RecycleAllocator\<close> is a \<^verbatim>\<open>usize\<close>
    that wraps, so for these the limit is 2^64 allocations.
  \<^item> File system: every operation of an inode, including growing and clearing, does to the content what
    it says, keeps the invariant \<open>fs_inv\<close>, and leaves all other inodes alone; directory entries survive
    their encoding; a created file system can be opened.
  \<^item> Memory: the page table refines a finite map from pages to frames (locale \<open>addr_space\<close>); inserted
    areas can be removed again; \<^verbatim>\<open>from_existed_user\<close> copies an address space; user buffers denote
    the bytes of the user range.
  \<^item> Kernel: every step keeps all references of the kernel state valid (lemma \<open>ksteps_keeps\<close>); no task is lost
    or queued twice: from the state that \<^verbatim>\<open>rust_main\<close> leaves (lemma \<open>rust_main_once\<close>), every unfinished
    task is in exactly one of the processor, the ready queue, a wait queue and the timer heap; the ready
    queue is first in, first out, and gains exactly the tasks that become ready; under timer interrupts
    alone the ready tasks that can enter user mode are dispatched in turn; mutexes exclude and semaphores
    never grant more than their permits (locale \<open>permits\<close>); a pipe delivers the bytes written to it in order (locale \<open>fifo\<close>); timers fire in the order of their
    deadlines (locale \<open>heap_order\<close>); stacks and trap contexts of threads do not overlap; \<^verbatim>\<open>dup\<close> and \<^verbatim>\<open>close\<close>.
  \<^item> Early kernels: round robin dispatches every ready task within one round without a panic; the task
    statistics count exactly; applications are loaded unchanged, and the batch system runs them in order.
  \<^item> Failures of the code: the exit of a main thread can make the scheduler panic; the direction of a
    descriptor is not checked; the data bitmap can allocate blocks beyond the disk; directory entries
    with long names panic.

  \<^bold>\<open>Loops.\<close>  Bounded loops are functions with a termination proof; no definition of the model uses fuel.
  Loops whose end depends on memory contents (the C-string and argument readers, the page-wise walk over a
  user range, \<^verbatim>\<open>read_all\<close>, one turn of a pipe) are \<open>partial_function\<close>s, for which not ending is \<open>None\<close>; the
  theorems that a call succeeds therefore include that it ends.

  \<^bold>\<open>Not modelled.\<close>
  \<^item> Assembly (\<^verbatim>\<open>__switch\<close>, \<^verbatim>\<open>__alltraps\<close>, \<^verbatim>\<open>__restore\<close>, the trampoline), TLB and cache maintenance, and
    writes to \<^verbatim>\<open>stvec\<close>, \<^verbatim>\<open>sie\<close> and \<^verbatim>\<open>satp\<close>: outside the Rust semantics; their effect is the saved place and the
    trap context.
  \<^item> The kernel heap (handed to a third-party allocator; allocation is assumed to succeed), console and log
    output other than the bytes user programs write, SBI calls, the virtio driver.
  \<^item> Kernel threads and coroutines of os8-ref (task/kthread.rs, stackless_coroutine.rs): rust_main does not
    start them, and they run closures and futures on raw stacks.
  \<^item> The packer easy-fs-fuse (host files and command line), the user library and test programs, and
    the riscv crate apart from the \<^verbatim>\<open>SPP\<close> field.
  \<^item> The kernels of the other chapters: os1-ref only prints, os2-ref is os2, os3-ref is os3 without its
    statistics, and os4-ref to os7-ref are earlier stages of os8-ref.
  \<^item> Block handles held across other accesses: where a closure of easy-fs holds the lock of one block while it
    works on others, the theories above the cache pass the list of blocks held, and taking one of them
    again (a deadlock) is \<open>None\<close>.  The programs of the transparency theorem hold one handle at a time.
  \<^item> Parallelism: the kernels run on one hart with interrupts off in the kernel, so kernel paths are atomic
    up to their explicit switches; the spin locks of easy-fs appear as the list of blocks held.
\<close>

end
